(* ===== verification/Prelude.thy ===== *)
theory Prelude
  imports Main "HOL-Library.Word" "HOL-Library.List_Lexorder"
begin

unbundle bit_operations_syntax

text \<open>
  What every component theory shares: the machine integers and byte strings of the
  C sources, the return codes of libisofs, the few functions of the C library whose
  behaviour the code depends on, and the collections of simplification rules the
  component proofs draw on.

  A C string is the list of its bytes before the terminating NUL.  An \<open>int\<close> result
  that is either a positive code or one of the negative \<open>ISO_...\<close> codes is a
  value of \<open>'a res\<close>: \<open>Inl\<close> the error constant, \<open>Inr\<close> the positive result together with
  what the function stored through its result pointers.
\<close>

section \<open>Machine integers and strings\<close>

type_synonym byte = "8 word"
type_synonym u16 = "16 word"
type_synonym u32 = "32 word"
type_synonym u64 = "64 word"
type_synonym cstring = "byte list"

abbreviation asc :: "char \<Rightarrow> byte" where
  "asc c \<equiv> of_char c"

abbreviation str :: "string \<Rightarrow> cstring" where
  "str s \<equiv> map of_char s"

section \<open>Collections used by the component proofs\<close>

named_theorems byte_simps \<open>lengths and round trips of the integer codecs\<close>
named_theorems inv_intros \<open>operations that keep a component's invariant\<close>
named_theorems op_defs \<open>unfolding of the operations of a component\<close>

section \<open>Return codes\<close>

datatype iso_error =
    ISO_CANCELED
  | ISO_FATAL_ERROR
  | ISO_ERROR
  | ISO_ASSERT_FAILURE
  | ISO_NULL_POINTER
  | ISO_OUT_OF_MEM
  | ISO_WRONG_ARG_VALUE
  | ISO_NODE_ALREADY_ADDED
  | ISO_NODE_NAME_NOT_UNIQUE
  | ISO_NODE_NOT_ADDED_TO_DIR
  | ISO_NODE_DOESNT_EXIST
  | ISO_MANGLE_TOO_MUCH_FILES
  | ISO_NAME_NEEDS_TRANSL
  | ISO_WRONG_RR
  | ISO_UNSUPPORTED_RR
  | ISO_UNSUPPORTED_SUSP
  | ISO_RR_NAME_TOO_LONG
  | ISO_RR_NAME_RESERVED
  | ISO_RR_PATH_TOO_LONG
  | ISO_MD5_AREA_CORRUPTED
  | ISO_MD5_TAG_MISMATCH
  | ISO_MD5_TAG_MISPLACED
  | ISO_MD5_TAG_COPIED
  | ISO_WRONG_ECMA119
  | ISO_UNSUPPORTED_ECMA119
  | ISO_FILE_ERROR
  | ISO_FILE_ALREADY_OPENED
  | ISO_FILE_NOT_OPENED
  | ISO_FILE_IS_DIR
  | ISO_FILE_IS_NOT_DIR
  | ISO_FILE_IS_NOT_SYMLINK

type_synonym 'a res = "iso_error + 'a"

section \<open>The C library functions the code relies on\<close>

text \<open>\<open>strcmp\<close> compares bytes as \<open>unsigned char\<close>; only the sign of its result is used.\<close>

fun strcmp :: "cstring \<Rightarrow> cstring \<Rightarrow> int" where
  "strcmp [] [] = 0"
| "strcmp [] (y # ys) = -1"
| "strcmp (x # xs) [] = 1"
| "strcmp (x # xs) (y # ys) =
     (if x < y then -1 else if y < x then 1 else strcmp xs ys)"

text \<open>\<open>strncmp\<close> of at most \<open>n\<close> bytes, used by the code only for equality with 0.\<close>

definition strncmp_eq :: "cstring \<Rightarrow> cstring \<Rightarrow> nat \<Rightarrow> bool" where
  "strncmp_eq s t n \<longleftrightarrow> take n s = take n t"

text \<open>\<open>strrchr (s, c)\<close>: the offset of the last occurrence of \<open>c\<close>, \<open>None\<close> for \<open>NULL\<close>.\<close>

fun strrchr :: "cstring \<Rightarrow> byte \<Rightarrow> nat option" where
  "strrchr [] c = None"
| "strrchr (x # xs) c =
     (case strrchr xs c of
        Some i \<Rightarrow> Some (Suc i)
      | None \<Rightarrow> if x = c then Some 0 else None)"

text \<open>\<open>strchr (s, c)\<close>: the offset of the first occurrence.\<close>

fun strchr :: "cstring \<Rightarrow> byte \<Rightarrow> nat option" where
  "strchr [] c = None"
| "strchr (x # xs) c = (if x = c then Some 0 else map_option Suc (strchr xs c))"

text \<open>\<open>toupper\<close> of the C and of the UTF-8 locales: bytes outside a-z are unchanged.\<close>

definition toupper :: "byte \<Rightarrow> byte" where
  "toupper c = (if asc CHR ''a'' \<le> c \<and> c \<le> asc CHR ''z'' then c - 32 else c)"

lemma strcmp_0_iff [simp]: "strcmp s t = 0 \<longleftrightarrow> s = t"
  by (induction s t rule: strcmp.induct) auto

lemma strcmp_refl [simp]: "strcmp s s = 0"
  by simp

lemma strcmp_neg: "strcmp s t < 0 \<longleftrightarrow> s < t"
  by (induction s t rule: strcmp.induct) auto

lemma strcmp_pos: "0 < strcmp s t \<longleftrightarrow> t < s"
  by (induction s t rule: strcmp.induct) auto

lemma strcmp_sym: "strcmp s t = - strcmp t s"
  by (induction s t rule: strcmp.induct) auto

lemma strcmp_range: "strcmp s t \<in> {-1, 0, 1}"
  by (induction s t rule: strcmp.induct) auto

lemma strrchr_None_iff: "strrchr s c = None \<longleftrightarrow> c \<notin> set s"
  by (induction s) (auto split: option.splits)

lemma strrchr_Some:
  "strrchr s c = Some i \<Longrightarrow> i < length s \<and> s ! i = c \<and> c \<notin> set (drop (Suc i) s)"
  by (induction s arbitrary: i) (auto simp: strrchr_None_iff split: option.splits if_splits)

lemma strchr_None_iff: "strchr s c = None \<longleftrightarrow> c \<notin> set s"
  by (induction s) auto

lemma strchr_Some:
  "strchr s c = Some i \<Longrightarrow> i < length s \<and> s ! i = c \<and> c \<notin> set (take i s)"
  by (induction s arbitrary: i) (auto split: if_splits)

section \<open>Decimal output\<close>

text \<open>\<open>printf\<close> of a number that is not negative, by \<open>%u\<close> or \<open>%d\<close>.\<close>

definition dec_digit :: "nat \<Rightarrow> byte" where
  "dec_digit m = word_of_nat (48 + m)"

function dec :: "nat \<Rightarrow> cstring" where
  "dec n = (if n < 10 then [dec_digit n] else dec (n div 10) @ [dec_digit (n mod 10)])"
  by auto

termination by (relation "measure id") auto

declare dec.simps [simp del]

definition dec_value :: "cstring \<Rightarrow> nat" where
  "dec_value s = foldl (\<lambda>a c. 10 * a + (unat c - 48)) 0 s"

lemma dec_value_snoc [simp]: "dec_value (s @ [c]) = 10 * dec_value s + (unat c - 48)"
  by (simp add: dec_value_def)

lemma unat_digit: "m < 10 \<Longrightarrow> unat (dec_digit m) = 48 + m"
  by (simp add: dec_digit_def unat_of_nat take_bit_nat_eq_self del: of_nat_add)

lemma dec_value_dec: "dec_value (dec n) = n"
proof (induction n rule: dec.induct)
  case (1 n)
  show ?case
  proof (cases "n < 10")
    case True
    then show ?thesis
      using dec_value_snoc [of "[]"] by (simp add: dec.simps [of n] unat_digit dec_value_def)
  next
    case False
    then show ?thesis using 1 by (simp add: dec.simps [of n] unat_digit)
  qed
qed

lemma length_dec: "n < 10 ^ d \<Longrightarrow> 0 < d \<Longrightarrow> length (dec n) \<le> d"
proof (induction n arbitrary: d rule: dec.induct)
  case (1 n)
  show ?case
  proof (cases "n < 10")
    case True
    then show ?thesis using 1 by (simp add: dec.simps [of n])
  next
    case False
    then obtain e where e: "d = Suc e" "0 < e"
      using "1.prems" by (cases d; cases "d - 1") auto
    then have "n div 10 < 10 ^ e" using "1.prems" by (simp add: less_mult_imp_div_less mult.commute)
    then show ?thesis using "1.IH" [OF False _ e(2)] False e(1) by (simp add: dec.simps [of n])
  qed
qed

lemma dec_value_zeros: "dec_value (replicate k 0x30 @ s) = dec_value s"
proof -
  have "foldl (\<lambda>a c. 10 * a + (unat c - 48)) 0 (replicate k (0x30 :: byte)) = 0"
    by (induction k) (simp_all add: replicate_append_same [symmetric])
  then show ?thesis by (simp add: dec_value_def)
qed

definition is_digit :: "byte \<Rightarrow> bool" where
  "is_digit c \<longleftrightarrow> asc CHR ''0'' \<le> c \<and> c \<le> asc CHR ''9''"

lemma is_digit_dec_digit: "m < 10 \<Longrightarrow> is_digit (dec_digit m)"
  using unat_digit [of m] by (simp add: is_digit_def word_le_nat_alt)

lemma dec_digits: "\<forall>c \<in> set (dec n). is_digit c"
proof (induction n rule: dec.induct)
  case (1 n)
  then show ?case by (subst dec.simps) (auto simp: is_digit_dec_digit)
qed

lemma dec_nonempty [simp]: "dec n \<noteq> []"
  by (subst dec.simps) simp

end
