(* ===== verification/Bytes.thy ===== *)
theory Bytes
  imports Prelude
begin

text \<open>
  The integer codecs of \<open>libisofs/util.c\<close>: little endian, big endian and both-endian
  fields of ECMA-119, the length-prefixed integers of the session checksum attribute,
  and the hexadecimal reader of the checksum tags.  A function that writes through a
  \<open>uint8_t *\<close> is modelled by the list of the bytes it writes; one that reads gets the
  list of the bytes from the pointer on.
\<close>

section \<open>Fixed width integers\<close>

definition iso_lsb :: "u32 \<Rightarrow> nat \<Rightarrow> byte list" where
  "iso_lsb num bytes = map (\<lambda>i. ucast (drop_bit (8 * i) num AND 0xff)) [0..<bytes]"

definition iso_msb :: "u32 \<Rightarrow> nat \<Rightarrow> byte list" where
  "iso_msb num bytes =
     map (\<lambda>j. ucast (drop_bit (8 * (bytes - 1 - j)) num AND 0xff)) [0..<bytes]"

definition iso_bb :: "u32 \<Rightarrow> nat \<Rightarrow> byte list" where
  "iso_bb num bytes = iso_lsb num bytes @ iso_msb num bytes"

definition iso_read_lsb :: "byte list \<Rightarrow> nat \<Rightarrow> u32" where
  "iso_read_lsb buf bytes =
     foldl (\<lambda>ret i. ret + push_bit (i * 8) (ucast (buf ! i))) 0 [0..<bytes]"

definition iso_read_msb :: "byte list \<Rightarrow> nat \<Rightarrow> u32" where
  "iso_read_msb buf bytes =
     foldl (\<lambda>ret i. ret + push_bit (i * 8) (ucast (buf ! (bytes - i - 1)))) 0 [0..<bytes]"

text \<open>The second component is what \<open>*error\<close> gets set to.\<close>

definition iso_read_bb :: "byte list \<Rightarrow> nat \<Rightarrow> u32 \<times> bool" where
  "iso_read_bb buf bytes =
     (let v1 = iso_read_lsb buf bytes;
          v2 = iso_read_msb (drop bytes buf) bytes
      in (v1, v1 \<noteq> v2))"

lemma length_iso_lsb [simp, byte_simps]: "length (iso_lsb n b) = b"
  by (simp add: iso_lsb_def)

lemma length_iso_msb [simp, byte_simps]: "length (iso_msb n b) = b"
  by (simp add: iso_msb_def)

lemma length_iso_bb [simp, byte_simps]: "length (iso_bb n b) = 2 * b"
  by (simp add: iso_bb_def)

lemma iso_msb_rev: "iso_msb n b = rev (iso_lsb n b)"
  by (rule nth_equalityI) (auto simp: iso_msb_def iso_lsb_def rev_nth)

lemma byte_of_word: "ucast (ucast (w AND 0xff :: u32) :: byte) = take_bit 8 w"
proof -
  have m: "(0xff :: u32) = mask 8" by (simp add: mask_eq_exp_minus_1)
  show ?thesis
    unfolding m take_bit_eq_mask [symmetric]
    by (rule bit_eqI) (auto simp: bit_simps)
qed

lemma take_bit_step:
  "take_bit m n + push_bit m (take_bit 8 (drop_bit m n)) = take_bit (m + 8) (n :: u32)"
proof -
  have "take_bit m n + push_bit m (take_bit 8 (drop_bit m n))
      = take_bit m n OR push_bit m (take_bit 8 (drop_bit m n))"
    by (rule disjunctive_add) (simp add: bit_simps)
  also have "\<dots> = take_bit (m + 8) n"
    by (rule bit_eqI) (auto simp: bit_simps)
  finally show ?thesis .
qed

lemma foldl_add_cong:
  "(\<And>i. i < b \<Longrightarrow> f i = g i) \<Longrightarrow>
   foldl (\<lambda>r i. r + f i) (0 :: u32) [0..<b] = foldl (\<lambda>r i. r + g i) 0 [0..<b]"
  by (rule foldl_cong) auto

lemma read_lsb_loop:
  "foldl (\<lambda>ret i. ret + push_bit (i * 8) (take_bit 8 (drop_bit (8 * i) n))) 0 [0..<b]
     = take_bit (8 * b) (n :: u32)"
  by (induction b) (simp_all add: take_bit_step mult.commute add.commute)

lemma iso_read_lsb_lsb [byte_simps]:
  "iso_read_lsb (iso_lsb n b @ rest) b = take_bit (8 * b) n"
proof -
  have "iso_read_lsb (iso_lsb n b @ rest) b
      = foldl (\<lambda>ret i. ret + push_bit (i * 8) (take_bit 8 (drop_bit (8 * i) n))) 0 [0..<b]"
    unfolding iso_read_lsb_def
    by (rule foldl_add_cong) (simp add: nth_append iso_lsb_def byte_of_word)
  then show ?thesis by (simp add: read_lsb_loop)
qed

lemma iso_read_msb_msb [byte_simps]:
  "iso_read_msb (iso_msb n b @ rest) b = take_bit (8 * b) n"
proof -
  have "iso_read_msb (iso_msb n b @ rest) b
      = foldl (\<lambda>ret i. ret + push_bit (i * 8) (take_bit 8 (drop_bit (8 * i) n))) 0 [0..<b]"
    unfolding iso_read_msb_def
    by (rule foldl_add_cong) (simp add: nth_append iso_msb_def byte_of_word)
  then show ?thesis by (simp add: read_lsb_loop)
qed

lemma iso_read_bb_bb [byte_simps]:
  "iso_read_bb (iso_bb n b @ rest) b = (take_bit (8 * b) n, False)"
  by (simp add: iso_read_bb_def iso_bb_def iso_read_lsb_lsb iso_read_msb_msb)

lemma take_bit_u32 [simp]: "take_bit 32 (n :: u32) = n"
  by (rule bit_eqI) (auto simp: bit_simps)

lemma iso_read_bb_bb4 [simp, byte_simps]:
  "iso_read_bb (iso_bb n 4 @ rest) 4 = (n, False)"
  by (simp add: iso_read_bb_bb)

section \<open>Integers with a length byte\<close>

text \<open>\<open>for (i = 0; i < 4 && x != 0; i++) x = x >> 8;\<close> gives the final \<open>i\<close>.\<close>

fun count_bytes_loop :: "nat \<Rightarrow> nat \<Rightarrow> u32 \<Rightarrow> nat" where
  "count_bytes_loop 0 i x = i"
| "count_bytes_loop (Suc fuel) i x =
     (if x \<noteq> 0 then count_bytes_loop fuel (Suc i) (drop_bit 8 x) else i)"

definition encode_len :: "u32 \<Rightarrow> int \<Rightarrow> nat" where
  "encode_len data data_len =
     (if data_len \<le> 0
      then (let l = count_bytes_loop 4 0 data in if l = 0 then 1 else l)
      else nat data_len)"

text \<open>
  The bytes stored in \<open>buffer\<close>; \<open>*result_len\<close> is their number.  A shift by 32 or more
  (\<open>data_len > 4\<close>) is undefined in C and gives 0 here.
\<close>

definition iso_util_encode_len_bytes :: "u32 \<Rightarrow> int \<Rightarrow> byte list" where
  "iso_util_encode_len_bytes data data_len =
     (let l = encode_len data data_len
      in word_of_nat l # map (\<lambda>i. ucast (drop_bit (8 * (l - i - 1)) data)) [0..<l])"

text \<open>Result: \<open>*data\<close> and \<open>*data_len\<close>.\<close>

definition iso_util_decode_len_bytes :: "byte list \<Rightarrow> int \<Rightarrow> u32 \<times> int" where
  "iso_util_decode_len_bytes buffer buffer_len =
     (let data_len = (if int (unat (buffer ! 0)) > buffer_len - 1
                      then buffer_len - 1 else int (unat (buffer ! 0)))
      in (foldl (\<lambda>data i. push_bit 8 data OR ucast (buffer ! i)) 0 [1..<Suc (nat data_len)],
          data_len))"

lemma encode_len_0: "encode_len 0 0 = 1"
  by (simp add: encode_len_def eval_nat_numeral)

lemma drop_take_eq_0: "drop_bit (8 * k) (x :: u32) = 0 \<Longrightarrow> take_bit (8 * k) x = x"
proof -
  assume z: "drop_bit (8 * k) x = 0"
  have "x = push_bit (8 * k) (drop_bit (8 * k) x) + take_bit (8 * k) x"
    by (rule bits_ident [symmetric])
  with z show ?thesis by simp
qed

lemma count_bytes_loop_enough:
  "count_bytes_loop fuel i x = i + k \<Longrightarrow> k < fuel \<Longrightarrow> drop_bit (8 * k) x = 0"
proof (induction fuel arbitrary: i x k)
  case (Suc fuel)
  show ?case
  proof (cases "x = 0")
    case False
    have "i < count_bytes_loop (Suc fuel) i x"
    proof -
      have "Suc i \<le> count_bytes_loop fuel (Suc i) y" for y
      proof -
        have "j \<le> count_bytes_loop f j y" for f j y
          by (induction f j y rule: count_bytes_loop.induct) auto
        then show ?thesis .
      qed
      with False show ?thesis by (simp add: Suc_le_lessD)
    qed
    with Suc.prems obtain k' where k: "k = Suc k'"
      by (cases k) auto
    with Suc.prems False have "drop_bit (8 * k') (drop_bit 8 x) = 0"
      by (intro Suc.IH [of "Suc i"]) auto
    with k show ?thesis by (simp add: add.commute)
  qed simp
qed simp

lemma count_bytes_loop_le: "count_bytes_loop fuel i x \<le> i + fuel"
  by (induction fuel i x rule: count_bytes_loop.induct) auto

lemma encode_len_bounds: "data_len \<le> 4 \<Longrightarrow> 1 \<le> encode_len d data_len \<and> encode_len d data_len \<le> 4"
  using count_bytes_loop_le [of 4 0 d] by (auto simp: encode_len_def Let_def)

lemma encode_len_covers:
  assumes "data_len \<le> 0 \<or> data_len = 4"
  shows "take_bit (8 * encode_len d data_len) d = d"
proof (cases "data_len \<le> 0")
  case True
  show ?thesis
  proof (cases "count_bytes_loop 4 0 d < 4")
    case lt: True
    have "drop_bit (8 * count_bytes_loop 4 0 d) d = 0"
      by (rule count_bytes_loop_enough [of 4 0]) (use lt in auto)
    then have c: "take_bit (8 * count_bytes_loop 4 0 d) d = d"
      by (rule drop_take_eq_0)
    show ?thesis
    proof (cases "count_bytes_loop 4 0 d = 0")
      case True
      with c have "d = 0" by simp
      then show ?thesis by simp
    next
      case False
      with c True show ?thesis by (simp add: encode_len_def Let_def)
    qed
  next
    case False
    then have "count_bytes_loop 4 0 d = 4" using count_bytes_loop_le [of 4 0 d] by simp
    with True show ?thesis by (simp add: encode_len_def)
  qed
next
  case False
  with assms show ?thesis by (simp add: encode_len_def)
qed

lemma decode_loop:
  "l \<le> n \<Longrightarrow> n \<le> 4 \<Longrightarrow>
   foldl (\<lambda>r i. push_bit 8 r OR ucast (ucast (drop_bit (8 * (n - i)) d) :: byte)) 0 [1..<Suc l]
     = drop_bit (8 * (n - l)) (take_bit (8 * n) (d :: u32))"
proof (induction l)
  case 0
  show ?case by (rule bit_eqI) (auto simp: bit_simps)
next
  case (Suc l)
  then have IH: "foldl (\<lambda>r i. push_bit 8 r OR ucast (ucast (drop_bit (8 * (n - i)) d) :: byte)) 0 [1..<Suc l]
     = drop_bit (8 * (n - l)) (take_bit (8 * n) d)" by simp
  have *: "8 * (n - l) = 8 + 8 * (n - Suc l)" using Suc.prems by simp
  have "foldl (\<lambda>r i. push_bit 8 r OR ucast (ucast (drop_bit (8 * (n - i)) d) :: byte)) 0 [1..<Suc (Suc l)]
     = push_bit 8 (drop_bit (8 * (n - l)) (take_bit (8 * n) d))
        OR ucast (ucast (drop_bit (8 * (n - Suc l)) d) :: byte)"
    using IH by simp
  also have "\<dots> = drop_bit (8 * (n - Suc l)) (take_bit (8 * n) d)"
    unfolding * using Suc.prems
    by (intro bit_eqI) (auto simp: bit_simps not_le intro: le_add_diff_inverse2)
  finally show ?case .
qed

lemma iso_util_len_bytes_roundtrip:
  assumes "data_len \<le> 0 \<or> data_len = 4"
    and "int (encode_len d data_len) < buffer_len"
  shows "iso_util_decode_len_bytes (iso_util_encode_len_bytes d data_len @ rest) buffer_len
           = (d, int (encode_len d data_len))"
proof -
  let ?l = "encode_len d data_len"
  let ?buf = "iso_util_encode_len_bytes d data_len @ rest"
  have l: "1 \<le> ?l" "?l \<le> 4"
    using assms(1) encode_len_bounds [of data_len d] by auto
  then have h: "unat (?buf ! 0) = ?l"
    by (simp add: iso_util_encode_len_bytes_def Let_def unat_of_nat)
  have nth: "?buf ! i = ucast (drop_bit (8 * (?l - i)) d)" if "1 \<le> i" "i \<le> ?l" for i
    using that by (auto simp: iso_util_encode_len_bytes_def Let_def nth_append nth_Cons'
        intro!: arg_cong [where f = "\<lambda>k. ucast (drop_bit (8 * k) d)"])
  have "foldl (\<lambda>data i. push_bit 8 data OR ucast (?buf ! i)) 0 [1..<Suc ?l]
      = foldl (\<lambda>r i. push_bit 8 r OR ucast (ucast (drop_bit (8 * (?l - i)) d) :: byte)) 0 [1..<Suc ?l]"
    by (rule foldl_cong) (use nth in auto)
  also have "\<dots> = d"
    using l encode_len_covers [OF assms(1), of d] by (subst decode_loop) auto
  finally show ?thesis
    using h assms(2) by (simp add: iso_util_decode_len_bytes_def Let_def del: upt_Suc)
qed

section \<open>Hexadecimal digits\<close>

definition hex_allowed :: cstring where
  "hex_allowed = str ''0123456789ABCDEFabcdef''"

text \<open>
  \<open>strchr (allowed, c) != NULL\<close> also holds for \<open>c = 0\<close>: the terminating NUL counts as
  part of the string.
\<close>

definition hex_accepts :: "byte \<Rightarrow> bool" where
  "hex_accepts c \<longleftrightarrow> c \<in> set hex_allowed \<or> c = 0"

definition hex_value :: "byte \<Rightarrow> byte" where
  "hex_value c =
     (if asc CHR ''0'' \<le> c \<and> c \<le> asc CHR ''9'' then c - asc CHR ''0''
      else if asc CHR ''A'' \<le> c \<and> c \<le> asc CHR ''F'' then c - asc CHR ''A'' + 10
      else c - asc CHR ''a'' + 10)"

text \<open>
  \<open>sscanf (b, "%x", &u)\<close> on the two accepted characters: an empty string leaves \<open>u\<close>
  as it was, a NUL in second place ends the number after one digit.
\<close>

definition scan_hex2 :: "byte \<Rightarrow> byte \<Rightarrow> byte \<Rightarrow> byte" where
  "scan_hex2 u b0 b1 =
     (if b0 = 0 then u
      else if b1 = 0 then hex_value b0
      else 16 * hex_value b0 + hex_value b1)"

text \<open>
  The loop over \<open>i\<close>, on the rest of the text; \<open>u\<close> is the (at first uninitialised)
  variable of the source.  Text that ends early reads as NUL.
\<close>

fun hex_to_bin_loop :: "nat \<Rightarrow> byte \<Rightarrow> cstring \<Rightarrow> byte list" where
  "hex_to_bin_loop 0 u hex = []"
| "hex_to_bin_loop (Suc n) u hex =
     (let b0 = (case hex of [] \<Rightarrow> 0 | x # _ \<Rightarrow> x);
          b1 = (case hex of _ # y # _ \<Rightarrow> y | _ \<Rightarrow> 0)
      in if \<not> hex_accepts b0 \<or> \<not> hex_accepts b1 then []
         else (let u' = scan_hex2 u b0 b1 in u' # hex_to_bin_loop n u' (drop 2 hex)))"

text \<open>Result: the return value, and the bytes stored in \<open>bin\<close> (\<open>*bin_count\<close> of them).\<close>

definition iso_util_hex_to_bin :: "byte \<Rightarrow> cstring \<Rightarrow> nat \<Rightarrow> bool \<times> byte list" where
  "iso_util_hex_to_bin u hex bin_size =
     (let bin = hex_to_bin_loop bin_size u hex in (bin \<noteq> [], bin))"

text \<open>\<open>sprintf (s, "%2.2x", b)\<close>: two lower case digits.\<close>

definition hex_digit :: "byte \<Rightarrow> byte" where
  "hex_digit d = (if d < 10 then asc CHR ''0'' + d else asc CHR ''a'' + (d - 10))"

definition sprintf_02x :: "byte \<Rightarrow> cstring" where
  "sprintf_02x b = [hex_digit (drop_bit 4 b), hex_digit (b AND 15)]"

definition hex_text :: "byte list \<Rightarrow> cstring" where
  "hex_text bs = concat (map sprintf_02x bs)"

lemma nibble_cases:
  assumes "d < (16 :: byte)"
  shows "d \<in> {0, 1, 2, 3, 4, 5, 6, 7, 8, 9, 10, 11, 12, 13, 14, 15}"
proof -
  have "unat d < 16" using assms by (simp add: word_less_nat_alt)
  then have "unat d \<in> {0, 1, 2, 3, 4, 5, 6, 7, 8, 9, 10, 11, 12, 13, 14, 15}"
    unfolding insert_iff empty_iff by presburger
  then have "word_of_nat (unat d) \<in> (word_of_nat ` {0, 1, 2, 3, 4, 5, 6, 7, 8, 9, 10, 11, 12, 13, 14, 15} :: byte set)"
    by (rule imageI)
  then show ?thesis by simp
qed

lemma hex_digit_props:
  assumes "d < 16"
  shows "hex_value (hex_digit d) = d" "hex_accepts (hex_digit d)" "hex_digit d \<noteq> 0"
  using nibble_cases [OF assms]
  by (auto simp: hex_digit_def hex_value_def hex_accepts_def hex_allowed_def)

lemma nibble_high: "drop_bit 4 (b :: byte) < 16"
proof -
  have "unat (drop_bit 4 b) < 16"
    using unsigned_less [of b, where ?'a = nat]
    by (simp add: unat_drop_bit_eq drop_bit_eq_div unat_div)
  then show ?thesis by (simp add: word_less_nat_alt)
qed

lemma nibble_low: "(b :: byte) AND 15 < 16"
proof -
  have "b AND 15 \<le> 15" by (rule word_and_le1)
  then show ?thesis by (rule order_le_less_trans) simp
qed

lemma nibbles_join: "16 * drop_bit 4 b + (b AND 15) = (b :: byte)"
proof -
  have "push_bit 4 (drop_bit 4 b) + take_bit 4 b = b"
    by (rule bits_ident)
  moreover have "take_bit 4 b = b AND 15"
    by (simp add: take_bit_eq_mask mask_eq_exp_minus_1)
  ultimately show ?thesis by (simp add: push_bit_eq_mult mult.commute)
qed

lemma scan_hex2_sprintf:
  "scan_hex2 u (hex_digit (drop_bit 4 b)) (hex_digit (b AND 15)) = b"
  using hex_digit_props [OF nibble_high, of b] hex_digit_props [OF nibble_low, of b]
  by (simp add: scan_hex2_def nibbles_join)

lemma hex_to_bin_loop_text:
  "hex_to_bin_loop (length bs) u (hex_text bs @ rest) = bs"
proof (induction bs arbitrary: u)
  case (Cons b bs)
  then show ?case
    using hex_digit_props(2) [OF nibble_high, of b] hex_digit_props(2) [OF nibble_low, of b]
    by (simp add: hex_text_def sprintf_02x_def scan_hex2_sprintf Let_def)
qed (simp add: hex_text_def)

lemma iso_util_hex_to_bin_text [byte_simps]:
  "bs \<noteq> [] \<Longrightarrow> iso_util_hex_to_bin u (hex_text bs @ rest) (length bs) = (True, bs)"
  by (simp add: iso_util_hex_to_bin_def hex_to_bin_loop_text)

lemma length_hex_text [simp]: "length (hex_text bs) = 2 * length bs"
  by (induction bs) (auto simp: hex_text_def sprintf_02x_def)

end
