(* ===== verification/Rspc_Tables.thy ===== *)
theory Rspc_Tables
  imports Prelude
begin

text \<open>
  The tables of \<open>libburn/ecma130ab.c\<close> for the Reed-Solomon product code and the
  scrambler of raw CD sectors, multiplication in GF(2^8) by these tables, and the
  functions at the end of that file which generated them.

  \<open>gfpow\<close> and \<open>gflog\<close> hold the powers and logarithms of the polynomial 2 modulo 0x11d.
  The last section shows that \<open>burn_rspc_mult\<close> is multiplication in that field.
\<close>

section \<open>Tables\<close>

definition gfpow :: "byte list" where
  "gfpow =
     [1, 2, 4, 8, 16, 32, 64, 128, 29, 58, 116, 232, 205, 135, 19, 38,
      76, 152, 45, 90, 180, 117, 234, 201, 143, 3, 6, 12, 24, 48, 96, 192,
      157, 39, 78, 156, 37, 74, 148, 53, 106, 212, 181, 119, 238, 193, 159, 35,
      70, 140, 5, 10, 20, 40, 80, 160, 93, 186, 105, 210, 185, 111, 222, 161,
      95, 190, 97, 194, 153, 47, 94, 188, 101, 202, 137, 15, 30, 60, 120, 240,
      253, 231, 211, 187, 107, 214, 177, 127, 254, 225, 223, 163, 91, 182, 113, 226,
      217, 175, 67, 134, 17, 34, 68, 136, 13, 26, 52, 104, 208, 189, 103, 206,
      129, 31, 62, 124, 248, 237, 199, 147, 59, 118, 236, 197, 151, 51, 102, 204,
      133, 23, 46, 92, 184, 109, 218, 169, 79, 158, 33, 66, 132, 21, 42, 84,
      168, 77, 154, 41, 82, 164, 85, 170, 73, 146, 57, 114, 228, 213, 183, 115,
      230, 209, 191, 99, 198, 145, 63, 126, 252, 229, 215, 179, 123, 246, 241, 255,
      227, 219, 171, 75, 150, 49, 98, 196, 149, 55, 110, 220, 165, 87, 174, 65,
      130, 25, 50, 100, 200, 141, 7, 14, 28, 56, 112, 224, 221, 167, 83, 166,
      81, 162, 89, 178, 121, 242, 249, 239, 195, 155, 43, 86, 172, 69, 138, 9,
      18, 36, 72, 144, 61, 122, 244, 245, 247, 243, 251, 235, 203, 139, 11, 22,
      44, 88, 176, 125, 250, 233, 207, 131, 27, 54, 108, 216, 173, 71, 142, 1,
      2, 4, 8, 16, 32, 64, 128, 29, 58, 116, 232, 205, 135, 19, 38, 76,
      152, 45, 90, 180, 117, 234, 201, 143, 3, 6, 12, 24, 48, 96, 192, 157,
      39, 78, 156, 37, 74, 148, 53, 106, 212, 181, 119, 238, 193, 159, 35, 70,
      140, 5, 10, 20, 40, 80, 160, 93, 186, 105, 210, 185, 111, 222, 161, 95,
      190, 97, 194, 153, 47, 94, 188, 101, 202, 137, 15, 30, 60, 120, 240, 253,
      231, 211, 187, 107, 214, 177, 127, 254, 225, 223, 163, 91, 182, 113, 226, 217,
      175, 67, 134, 17, 34, 68, 136, 13, 26, 52, 104, 208, 189, 103, 206, 129,
      31, 62, 124, 248, 237, 199, 147, 59, 118, 236, 197, 151, 51, 102, 204, 133,
      23, 46, 92, 184, 109, 218, 169, 79, 158, 33, 66, 132, 21, 42, 84, 168,
      77, 154, 41, 82, 164, 85, 170, 73, 146, 57, 114, 228, 213, 183, 115, 230,
      209, 191, 99, 198, 145, 63, 126, 252, 229, 215, 179, 123, 246, 241, 255, 227,
      219, 171, 75, 150, 49, 98, 196, 149, 55, 110, 220, 165, 87, 174, 65, 130,
      25, 50, 100, 200, 141, 7, 14, 28, 56, 112, 224, 221, 167, 83, 166, 81,
      162, 89, 178, 121, 242, 249, 239, 195, 155, 43, 86, 172, 69, 138, 9, 18,
      36, 72, 144, 61, 122, 244, 245, 247, 243, 251, 235, 203, 139, 11, 22, 44,
      88, 176, 125, 250, 233, 207, 131, 27, 54, 108, 216, 173, 71]"

definition gflog :: "nat list" where
  "gflog =
     [0, 0, 1, 25, 2, 50, 26, 198, 3, 223, 51, 238, 27, 104, 199, 75,
      4, 100, 224, 14, 52, 141, 239, 129, 28, 193, 105, 248, 200, 8, 76, 113,
      5, 138, 101, 47, 225, 36, 15, 33, 53, 147, 142, 218, 240, 18, 130, 69,
      29, 181, 194, 125, 106, 39, 249, 185, 201, 154, 9, 120, 77, 228, 114, 166,
      6, 191, 139, 98, 102, 221, 48, 253, 226, 152, 37, 179, 16, 145, 34, 136,
      54, 208, 148, 206, 143, 150, 219, 189, 241, 210, 19, 92, 131, 56, 70, 64,
      30, 66, 182, 163, 195, 72, 126, 110, 107, 58, 40, 84, 250, 133, 186, 61,
      202, 94, 155, 159, 10, 21, 121, 43, 78, 212, 229, 172, 115, 243, 167, 87,
      7, 112, 192, 247, 140, 128, 99, 13, 103, 74, 222, 237, 49, 197, 254, 24,
      227, 165, 153, 119, 38, 184, 180, 124, 17, 68, 146, 217, 35, 32, 137, 46,
      55, 63, 209, 91, 149, 188, 207, 205, 144, 135, 151, 178, 220, 252, 190, 97,
      242, 86, 211, 171, 20, 42, 93, 158, 132, 60, 57, 83, 71, 109, 65, 162,
      31, 45, 67, 216, 183, 123, 164, 118, 196, 23, 73, 236, 127, 12, 111, 246,
      108, 161, 59, 82, 41, 157, 85, 170, 251, 96, 134, 177, 187, 204, 62, 90,
      203, 89, 95, 176, 156, 169, 160, 81, 11, 245, 22, 235, 122, 117, 44, 215,
      79, 174, 213, 233, 230, 231, 173, 232, 116, 214, 244, 234, 168, 80, 88, 175]"

definition h26 :: "byte list" where
  "h26 =
     [3, 143, 201, 234, 117, 180, 90, 45, 152, 76, 38, 19, 135, 205, 232, 116,
      58, 29, 128, 64, 32, 16, 8, 4, 2, 1]"

definition h45 :: "byte list" where
  "h45 =
     [238, 119, 181, 212, 106, 53, 148, 74, 37, 156, 78, 39, 157, 192, 96, 48,
      24, 12, 6, 3, 143, 201, 234, 117, 180, 90, 45, 152, 76, 38, 19, 135,
      205, 232, 116, 58, 29, 128, 64, 32, 16, 8, 4, 2, 1]"

definition ecma_130_annex_b :: "byte list" where
  "ecma_130_annex_b =
     [1, 128, 0, 96, 0, 40, 0, 30, 128, 8, 96, 6, 168, 2, 254, 129,
      128, 96, 96, 40, 40, 30, 158, 136, 104, 102, 174, 170, 252, 127, 1, 224,
      0, 72, 0, 54, 128, 22, 224, 14, 200, 4, 86, 131, 126, 225, 224, 72,
      72, 54, 182, 150, 246, 238, 198, 204, 82, 213, 253, 159, 1, 168, 0, 126,
      128, 32, 96, 24, 40, 10, 158, 135, 40, 98, 158, 169, 168, 126, 254, 160,
      64, 120, 48, 34, 148, 25, 175, 74, 252, 55, 1, 214, 128, 94, 224, 56,
      72, 18, 182, 141, 182, 229, 182, 203, 54, 215, 86, 222, 190, 216, 112, 90,
      164, 59, 59, 83, 83, 125, 253, 225, 129, 136, 96, 102, 168, 42, 254, 159,
      0, 104, 0, 46, 128, 28, 96, 9, 232, 6, 206, 130, 212, 97, 159, 104,
      104, 46, 174, 156, 124, 105, 225, 238, 200, 76, 86, 181, 254, 247, 0, 70,
      128, 50, 224, 21, 136, 15, 38, 132, 26, 227, 75, 9, 247, 70, 198, 178,
      210, 245, 157, 135, 41, 162, 158, 249, 168, 66, 254, 177, 128, 116, 96, 39,
      104, 26, 174, 139, 60, 103, 81, 234, 188, 79, 49, 244, 20, 71, 79, 114,
      180, 37, 183, 91, 54, 187, 86, 243, 126, 197, 224, 83, 8, 61, 198, 145,
      146, 236, 109, 141, 237, 165, 141, 187, 37, 179, 91, 53, 251, 87, 3, 126,
      129, 224, 96, 72, 40, 54, 158, 150, 232, 110, 206, 172, 84, 125, 255, 97,
      128, 40, 96, 30, 168, 8, 126, 134, 160, 98, 248, 41, 130, 158, 225, 168,
      72, 126, 182, 160, 118, 248, 38, 194, 154, 209, 171, 28, 127, 73, 224, 54,
      200, 22, 214, 142, 222, 228, 88, 75, 122, 183, 99, 54, 169, 214, 254, 222,
      192, 88, 80, 58, 188, 19, 49, 205, 212, 85, 159, 127, 40, 32, 30, 152,
      8, 106, 134, 175, 34, 252, 25, 129, 202, 224, 87, 8, 62, 134, 144, 98,
      236, 41, 141, 222, 229, 152, 75, 42, 183, 95, 54, 184, 22, 242, 142, 197,
      164, 83, 59, 125, 211, 97, 157, 232, 105, 142, 174, 228, 124, 75, 97, 247,
      104, 70, 174, 178, 252, 117, 129, 231, 32, 74, 152, 55, 42, 150, 159, 46,
      232, 28, 78, 137, 244, 102, 199, 106, 210, 175, 29, 188, 9, 177, 198, 244,
      82, 199, 125, 146, 161, 173, 184, 125, 178, 161, 181, 184, 119, 50, 166, 149,
      186, 239, 51, 12, 21, 197, 207, 19, 20, 13, 207, 69, 148, 51, 47, 85,
      220, 63, 25, 208, 10, 220, 7, 25, 194, 138, 209, 167, 28, 122, 137, 227,
      38, 201, 218, 214, 219, 30, 219, 72, 91, 118, 187, 102, 243, 106, 197, 239,
      19, 12, 13, 197, 197, 147, 19, 45, 205, 221, 149, 153, 175, 42, 252, 31,
      1, 200, 0, 86, 128, 62, 224, 16, 72, 12, 54, 133, 214, 227, 30, 201,
      200, 86, 214, 190, 222, 240, 88, 68, 58, 179, 83, 53, 253, 215, 1, 158,
      128, 104, 96, 46, 168, 28, 126, 137, 224, 102, 200, 42, 214, 159, 30, 232,
      8, 78, 134, 180, 98, 247, 105, 134, 174, 226, 252, 73, 129, 246, 224, 70,
      200, 50, 214, 149, 158, 239, 40, 76, 30, 181, 200, 119, 22, 166, 142, 250,
      228, 67, 11, 113, 199, 100, 82, 171, 125, 191, 97, 176, 40, 116, 30, 167,
      72, 122, 182, 163, 54, 249, 214, 194, 222, 209, 152, 92, 106, 185, 239, 50,
      204, 21, 149, 207, 47, 20, 28, 15, 73, 196, 54, 211, 86, 221, 254, 217,
      128, 90, 224, 59, 8, 19, 70, 141, 242, 229, 133, 139, 35, 39, 89, 218,
      186, 219, 51, 27, 85, 203, 127, 23, 96, 14, 168, 4, 126, 131, 96, 97,
      232, 40, 78, 158, 180, 104, 119, 110, 166, 172, 122, 253, 227, 1, 137, 192,
      102, 208, 42, 220, 31, 25, 200, 10, 214, 135, 30, 226, 136, 73, 166, 182,
      250, 246, 195, 6, 209, 194, 220, 81, 153, 252, 106, 193, 239, 16, 76, 12,
      53, 197, 215, 19, 30, 141, 200, 101, 150, 171, 46, 255, 92, 64, 57, 240,
      18, 196, 13, 147, 69, 173, 243, 61, 133, 209, 163, 28, 121, 201, 226, 214,
      201, 158, 214, 232, 94, 206, 184, 84, 114, 191, 101, 176, 43, 52, 31, 87,
      72, 62, 182, 144, 118, 236, 38, 205, 218, 213, 155, 31, 43, 72, 31, 118,
      136, 38, 230, 154, 202, 235, 23, 15, 78, 132, 52, 99, 87, 105, 254, 174,
      192, 124, 80, 33, 252, 24, 65, 202, 176, 87, 52, 62, 151, 80, 110, 188,
      44, 113, 221, 228, 89, 139, 122, 231, 99, 10, 169, 199, 62, 210, 144, 93,
      172, 57, 189, 210, 241, 157, 132, 105, 163, 110, 249, 236, 66, 205, 241, 149,
      132, 111, 35, 108, 25, 237, 202, 205, 151, 21, 174, 143, 60, 100, 17, 235,
      76, 79, 117, 244, 39, 7, 90, 130, 187, 33, 179, 88, 117, 250, 167, 3,
      58, 129, 211, 32, 93, 216, 57, 154, 146, 235, 45, 143, 93, 164, 57, 187,
      82, 243, 125, 133, 225, 163, 8, 121, 198, 162, 210, 249, 157, 130, 233, 161,
      142, 248, 100, 66, 171, 113, 191, 100, 112, 43, 100, 31, 107, 72, 47, 118,
      156, 38, 233, 218, 206, 219, 20, 91, 79, 123, 116, 35, 103, 89, 234, 186,
      207, 51, 20, 21, 207, 79, 20, 52, 15, 87, 68, 62, 179, 80, 117, 252,
      39, 1, 218, 128, 91, 32, 59, 88, 19, 122, 141, 227, 37, 137, 219, 38,
      219, 90, 219, 123, 27, 99, 75, 105, 247, 110, 198, 172, 82, 253, 253, 129,
      129, 160, 96, 120, 40, 34, 158, 153, 168, 106, 254, 175, 0, 124, 0, 33,
      192, 24, 80, 10, 188, 7, 49, 194, 148, 81, 175, 124, 124, 33, 225, 216,
      72, 90, 182, 187, 54, 243, 86, 197, 254, 211, 0, 93, 192, 57, 144, 18,
      236, 13, 141, 197, 165, 147, 59, 45, 211, 93, 157, 249, 169, 130, 254, 225,
      128, 72, 96, 54, 168, 22, 254, 142, 192, 100, 80, 43, 124, 31, 97, 200,
      40, 86, 158, 190, 232, 112, 78, 164, 52, 123, 87, 99, 126, 169, 224, 126,
      200, 32, 86, 152, 62, 234, 144, 79, 44, 52, 29, 215, 73, 158, 182, 232,
      118, 206, 166, 212, 122, 223, 99, 24, 41, 202, 158, 215, 40, 94, 158, 184,
      104, 114, 174, 165, 188, 123, 49, 227, 84, 73, 255, 118, 192, 38, 208, 26,
      220, 11, 25, 199, 74, 210, 183, 29, 182, 137, 182, 230, 246, 202, 198, 215,
      18, 222, 141, 152, 101, 170, 171, 63, 63, 80, 16, 60, 12, 17, 197, 204,
      83, 21, 253, 207, 1, 148, 0, 111, 64, 44, 48, 29, 212, 9, 159, 70,
      232, 50, 206, 149, 148, 111, 47, 108, 28, 45, 201, 221, 150, 217, 174, 218,
      252, 91, 1, 251, 64, 67, 112, 49, 228, 20, 75, 79, 119, 116, 38, 167,
      90, 250, 187, 3, 51, 65, 213, 240, 95, 4, 56, 3, 82, 129, 253, 160,
      65, 184, 48, 114, 148, 37, 175, 91, 60, 59, 81, 211, 124, 93, 225, 249,
      136, 66, 230, 177, 138, 244, 103, 7, 106, 130, 175, 33, 188, 24, 113, 202,
      164, 87, 59, 126, 147, 96, 109, 232, 45, 142, 157, 164, 105, 187, 110, 243,
      108, 69, 237, 243, 13, 133, 197, 163, 19, 57, 205, 210, 213, 157, 159, 41,
      168, 30, 254, 136, 64, 102, 176, 42, 244, 31, 7, 72, 2, 182, 129, 182,
      224, 118, 200, 38, 214, 154, 222, 235, 24, 79, 74, 180, 55, 55, 86, 150,
      190, 238, 240, 76, 68, 53, 243, 87, 5, 254, 131, 0, 97, 192, 40, 80,
      30, 188, 8, 113, 198, 164, 82, 251, 125, 131, 97, 161, 232, 120, 78, 162,
      180, 121, 183, 98, 246, 169, 134, 254, 226, 192, 73, 144, 54, 236, 22, 205,
      206, 213, 148, 95, 47, 120, 28, 34, 137, 217, 166, 218, 250, 219, 3, 27,
      65, 203, 112, 87, 100, 62, 171, 80, 127, 124, 32, 33, 216, 24, 90, 138,
      187, 39, 51, 90, 149, 251, 47, 3, 92, 1, 249, 192, 66, 208, 49, 156,
      20, 105, 207, 110, 212, 44, 95, 93, 248, 57, 130, 146, 225, 173, 136, 125,
      166, 161, 186, 248, 115, 2, 165, 193, 187, 16, 115, 76, 37, 245, 219, 7,
      27, 66, 139, 113, 167, 100, 122, 171, 99, 63, 105, 208, 46, 220, 28, 89,
      201, 250, 214, 195, 30, 209, 200, 92, 86, 185, 254, 242, 192, 69, 144, 51,
      44, 21, 221, 207, 25, 148, 10, 239, 71, 12, 50, 133, 213, 163, 31, 57,
      200, 18, 214, 141, 158, 229, 168, 75, 62, 183, 80, 118, 188, 38, 241, 218,
      196, 91, 19, 123, 77, 227, 117, 137, 231, 38, 202, 154, 215, 43, 30, 159,
      72, 104, 54, 174, 150, 252, 110, 193, 236, 80, 77, 252, 53, 129, 215, 32,
      94, 152, 56, 106, 146, 175, 45, 188, 29, 177, 201, 180, 86, 247, 126, 198,
      160, 82, 248, 61, 130, 145, 161, 172, 120, 125, 226, 161, 137, 184, 102, 242,
      170, 197, 191, 19, 48, 13, 212, 5, 159, 67, 40, 49, 222, 148, 88, 111,
      122, 172, 35, 61, 217, 209, 154, 220, 107, 25, 239, 74, 204, 55, 21, 214,
      143, 30, 228, 8, 75, 70, 183, 114, 246, 165, 134, 251, 34, 195, 89, 145,
      250, 236, 67, 13, 241, 197, 132, 83, 35, 125, 217, 225, 154, 200, 107, 22,
      175, 78, 252, 52, 65, 215, 112, 94, 164, 56, 123, 82, 163, 125, 185, 225,
      178, 200, 117, 150, 167, 46, 250, 156, 67, 41, 241, 222, 196, 88, 83, 122,
      189, 227, 49, 137, 212, 102, 223, 106, 216, 47, 26, 156, 11, 41, 199, 94,
      210, 184, 93, 178, 185, 181, 178, 247, 53, 134, 151, 34, 238, 153, 140, 106,
      229, 239, 11, 12, 7, 69, 194, 179, 17, 181, 204, 119, 21, 230, 143, 10,
      228, 7, 11, 66, 135, 113, 162, 164, 121, 187, 98, 243, 105, 133, 238, 227,
      12, 73, 197, 246, 211, 6, 221, 194, 217, 145, 154, 236, 107, 13, 239, 69,
      140, 51, 37, 213, 219, 31, 27, 72, 11, 118, 135, 102, 226, 170, 201, 191,
      22, 240, 14, 196, 4, 83, 67, 125, 241, 225, 132, 72, 99, 118, 169, 230,
      254, 202, 192, 87, 16, 62, 140, 16, 101, 204, 43, 21, 223, 79, 24, 52,
      10, 151, 71, 46, 178, 156, 117, 169, 231, 62, 202, 144, 87, 44, 62, 157,
      208, 105, 156, 46, 233, 220, 78, 217, 244, 90, 199, 123, 18, 163, 77, 185,
      245, 178, 199, 53, 146, 151, 45, 174, 157, 188, 105, 177, 238, 244, 76, 71,
      117, 242, 167, 5, 186, 131, 51, 33, 213, 216, 95, 26, 184, 11, 50, 135,
      85, 162, 191, 57, 176, 18, 244, 13, 135, 69, 162, 179, 57, 181, 210, 247,
      29, 134, 137, 162, 230, 249, 138, 194, 231, 17, 138, 140, 103, 37, 234, 155,
      15, 43, 68, 31, 115, 72, 37, 246, 155, 6, 235, 66, 207, 113, 148, 36,
      111, 91, 108, 59, 109, 211, 109, 157, 237, 169, 141, 190, 229, 176, 75, 52,
      55, 87, 86, 190, 190, 240, 112, 68, 36, 51, 91, 85, 251, 127, 3, 96,
      1, 232, 0, 78, 128, 52, 96, 23, 104, 14, 174, 132, 124, 99, 97, 233,
      232, 78, 206, 180, 84, 119, 127, 102, 160, 42, 248, 31, 2, 136, 1, 166,
      128, 122, 224, 35, 8, 25, 198, 138, 210, 231, 29, 138, 137, 167, 38, 250,
      154, 195, 43, 17, 223, 76, 88, 53, 250, 151, 3, 46, 129, 220, 96, 89,
      232, 58, 206, 147, 20, 109, 207, 109, 148, 45, 175, 93, 188, 57, 177, 210,
      244, 93, 135, 121, 162, 162, 249, 185, 130, 242, 225, 133, 136, 99, 38, 169,
      218, 254, 219, 0, 91, 64, 59, 112, 19, 100, 13, 235, 69, 143, 115, 36,
      37, 219, 91, 27, 123, 75, 99, 119, 105, 230, 174, 202, 252, 87, 1, 254,
      128, 64, 96, 48, 40, 20, 30, 143, 72, 100, 54, 171, 86, 255, 126, 192,
      32, 80, 24, 60, 10, 145, 199, 44, 82, 157, 253, 169, 129, 190, 224, 112,
      72, 36, 54, 155, 86, 235, 126, 207, 96, 84, 40, 63, 94, 144, 56, 108,
      18, 173, 205, 189, 149, 177, 175, 52, 124, 23, 97, 206, 168, 84, 126, 191,
      96, 112, 40, 36, 30, 155, 72, 107, 118, 175, 102, 252, 42, 193, 223, 16,
      88, 12, 58, 133, 211, 35, 29, 217, 201, 154, 214, 235, 30, 207, 72, 84,
      54, 191, 86, 240, 62, 196, 16, 83, 76, 61, 245, 209, 135, 28, 98, 137,
      233, 166, 206, 250, 212, 67, 31, 113, 200, 36, 86, 155, 126, 235, 96, 79,
      104, 52, 46, 151, 92, 110, 185, 236, 114, 205, 229, 149, 139, 47, 39, 92,
      26, 185, 203, 50, 215, 85, 158, 191, 40, 112, 30, 164, 8, 123, 70, 163,
      114, 249, 229, 130, 203, 33, 151, 88, 110, 186, 172, 115, 61, 229, 209, 139,
      28, 103, 73, 234, 182, 207, 54, 212, 22, 223, 78, 216, 52, 90, 151, 123,
      46, 163, 92, 121, 249, 226, 194, 201, 145, 150, 236, 110, 205, 236, 85, 141,
      255, 37, 128, 27, 32, 11, 88, 7, 122, 130, 163, 33, 185, 216, 114, 218,
      165, 155, 59, 43, 83, 95, 125, 248, 33, 130, 152, 97, 170, 168, 127, 62,
      160, 16, 120, 12, 34, 133, 217, 163, 26, 249, 203, 2, 215, 65, 158, 176,
      104, 116, 46, 167, 92, 122, 185, 227, 50, 201, 213, 150, 223, 46, 216, 28,
      90, 137, 251, 38, 195, 90, 209, 251, 28, 67, 73, 241, 246, 196, 70, 211,
      114, 221, 229, 153]"

section \<open>Multiplication and division by table\<close>

definition burn_rspc_mult :: "byte \<Rightarrow> byte \<Rightarrow> byte" where
  "burn_rspc_mult a b =
     (if a = 0 \<or> b = 0 then 0 else gfpow ! (gflog ! unat a + gflog ! unat b))"

definition burn_rspc_div_3 :: "byte \<Rightarrow> byte" where
  "burn_rspc_div_3 a = (if a = 0 then 0 else gfpow ! (230 + gflog ! unat a))"

section \<open>The generators of the tables\<close>

text \<open>
  The step from one power of the polynomial 2 to the next, as \<open>burn_rspc_setup_tables\<close>
  makes it.
\<close>

definition xtime :: "byte \<Rightarrow> byte" where
  "xtime b = (if bit b 7 then push_bit 1 b XOR 0x1d else push_bit 1 b)"

text \<open>\<open>next_bit\<close>: the bit that leaves the shift register, and the register after it.\<close>

definition next_bit :: "u16 \<Rightarrow> bool \<times> u16" where
  "next_bit fsr =
     (let ret = bit fsr 0;
          fsr' = drop_bit 1 fsr AND 0x3fff
      in (ret, if ret \<noteq> bit fsr' 0 then fsr' OR 0x4000 else fsr'))"

text \<open>The inner loop of \<open>print_ecma_130_scrambler\<close>: eight bits, least significant first.\<close>

fun scrambler_byte :: "nat \<Rightarrow> nat \<Rightarrow> byte \<Rightarrow> u16 \<Rightarrow> byte \<times> u16" where
  "scrambler_byte 0 j b fsr = (b, fsr)"
| "scrambler_byte (Suc n) j b fsr =
     (case next_bit fsr of (r, fsr') \<Rightarrow>
        scrambler_byte n (Suc j) (b OR push_bit j (if r then 1 else 0)) fsr')"

fun scrambler_bytes :: "nat \<Rightarrow> u16 \<Rightarrow> byte list" where
  "scrambler_bytes 0 fsr = []"
| "scrambler_bytes (Suc n) fsr =
     (case scrambler_byte 8 0 0 fsr of (b, fsr') \<Rightarrow> b # scrambler_bytes n fsr')"

section \<open>Arithmetic of the field\<close>

abbreviation X :: "nat \<Rightarrow> byte" where
  "X n \<equiv> (xtime ^^ n) 1"

lemma length_gfpow: "length gfpow = 509"
  by (simp add: gfpow_def)

lemma gfpow_step: "tl gfpow = map xtime (butlast gfpow)"
  by code_simp

lemma gflog_inverse: "map (\<lambda>l. gfpow ! l) (tl gflog) = map word_of_nat [1..<256]"
  by (simp add: gflog_def gfpow_def upt_rec)

lemma gflog_range: "list_all (\<lambda>l. l \<le> 254) gflog"
  by (simp add: gflog_def)

lemma length_gflog: "length gflog = 256"
  by (simp add: gflog_def)

lemma gfpow_X: "n < 509 \<Longrightarrow> gfpow ! n = X n"
proof (induction n)
  case 0
  show ?case by (simp add: gfpow_def)
next
  case (Suc n)
  then have "gfpow ! Suc n = tl gfpow ! n"
    by (simp add: nth_tl length_gfpow)
  also have "\<dots> = xtime (gfpow ! n)"
    unfolding gfpow_step using Suc.prems by (simp add: nth_butlast length_gfpow)
  finally show ?case using Suc by simp
qed

lemma gflog_le: "gflog ! unat (a :: byte) \<le> 254"
  using gflog_range unsigned_less [of a, where ?'a = nat]
  by (simp add: list_all_length length_gflog)

lemma X_gflog: "a \<noteq> 0 \<Longrightarrow> X (gflog ! unat a) = (a :: byte)"
proof -
  assume "a \<noteq> 0"
  then have pos: "0 < unat a" by (simp add: unat_gt_0)
  have lt: "unat a < 256" using unsigned_less [of a, where ?'a = nat] by simp
  have "map (\<lambda>l. gfpow ! l) (tl gflog) ! (unat a - 1) = word_of_nat (unat a)"
    unfolding gflog_inverse using pos lt by (subst nth_map) auto
  then have "gfpow ! (gflog ! unat a) = a"
    using pos lt by (simp add: nth_tl length_gflog)
  then show ?thesis
    using gflog_le [of a] by (simp add: gfpow_X)
qed

lemma xtime_xor: "xtime (a XOR b) = xtime a XOR xtime b"
  by (simp add: xtime_def bit_xor_iff push_bit_xor xor.assoc xor.left_commute xor.commute)

lemma xtime_0 [simp]: "xtime 0 = 0"
  by (simp add: xtime_def)

lemma xtime_pow_xor: "(xtime ^^ n) (a XOR b) = (xtime ^^ n) a XOR (xtime ^^ n) b"
  by (induction n) (simp_all add: xtime_xor)

lemma X_cases: obtains "a = 0" | n where "n \<le> 254" "a = X n"
  using X_gflog gflog_le by metis

lemma burn_rspc_mult_xtime:
  "burn_rspc_mult a b = (if a = 0 \<or> b = 0 then 0 else (xtime ^^ (gflog ! unat a)) b)"
proof (cases "a = 0 \<or> b = 0")
  case False
  have "gflog ! unat a + gflog ! unat b < 509"
    using gflog_le [of a] gflog_le [of b] by linarith
  then have "burn_rspc_mult a b = X (gflog ! unat a + gflog ! unat b)"
    using False by (simp add: burn_rspc_mult_def gfpow_X)
  also have "\<dots> = (xtime ^^ (gflog ! unat a)) (X (gflog ! unat b))"
    by (simp add: funpow_add)
  finally show ?thesis using False by (simp add: X_gflog)
qed (auto simp: burn_rspc_mult_def)

lemma burn_rspc_mult_comm: "burn_rspc_mult a b = burn_rspc_mult b a"
  by (auto simp: burn_rspc_mult_def add.commute)

lemma gflog_1: "gflog ! Suc 0 = 0" and gflog_2: "gflog ! 2 = 1"
  by (simp_all add: gflog_def)

lemma burn_rspc_mult_2: "burn_rspc_mult 2 a = xtime a"
  by (simp add: burn_rspc_mult_xtime gflog_2)

lemma burn_rspc_mult_1: "burn_rspc_mult 1 a = a"
  by (simp add: burn_rspc_mult_xtime gflog_1)


section \<open>The scrambler table\<close>

text \<open>
  Eight calls of \<open>next_bit\<close> in one step of the register; the table then follows from the
  recurrence of the bit sequence, which holds bytewise with distance 15.
\<close>

definition fsr8 :: "u16 \<Rightarrow> u16" where
  "fsr8 x = drop_bit 8 x OR push_bit 7 ((x XOR drop_bit 1 x) AND 0xff)"

lemma bit_4000: "bit (0x4000 :: u16) n \<longleftrightarrow> n = 14"
proof -
  have e: "(0x4000 :: u16) = push_bit 14 1" by (simp add: push_bit_eq_mult)
  show ?thesis
    unfolding e by (simp only: bit_push_bit_iff bit_1_iff) auto
qed

lemma bit_next_bit: "bit (snd (next_bit x)) n \<longleftrightarrow>
   (n < 14 \<and> bit x (Suc n)) \<or> (n = 14 \<and> bit x 0 \<noteq> bit x 1)"
proof -
  have m: "(0x3fff :: u16) = mask 14" by (simp add: mask_eq_exp_minus_1)
  have "\<not> bit x n" if "16 \<le> n" for n using that by (simp add: impossible_bit)
  then show ?thesis
    unfolding next_bit_def Let_def m
    by (auto simp: bit_or_iff bit_4000 bit_and_iff bit_mask_iff bit_drop_bit_eq
             simp del: bit_numeral_word_iff)
qed

lemma next_bit_eq: "next_bit x = (bit x 0, snd (next_bit x))"
  by (simp add: next_bit_def Let_def)

definition fsr_step :: "u16 \<Rightarrow> u16" where
  "fsr_step x = snd (next_bit x)"

lemma bit_fsr_step: "bit (fsr_step y) n \<longleftrightarrow>
    (n < 14 \<and> bit y (Suc n)) \<or> (n = 14 \<and> bit y 0 \<noteq> bit y 1)"
  unfolding fsr_step_def by (rule bit_next_bit)

lemma bit_fsr_steps:
  "\<not> bit x 15 \<Longrightarrow> k \<le> 13 \<Longrightarrow> bit ((fsr_step ^^ k) x) n \<longleftrightarrow>
     (n + k < 15 \<and> bit x (n + k)) \<or>
     (15 \<le> n + k \<and> n < 15 \<and> bit x (n + k - 15) \<noteq> bit x (n + k - 14))"
proof (induction k arbitrary: n)
  case 0
  have "n < 15" if "bit x n"
  proof -
    have "n < 16" using that impossible_bit [of n x] by (auto simp: not_less [symmetric])
    moreover have "n \<noteq> 15" using that 0 by auto
    ultimately show ?thesis by simp
  qed
  then show ?case by auto
next
  case (Suc k)
  then have IH: "bit ((fsr_step ^^ k) x) m \<longleftrightarrow>
     (m + k < 15 \<and> bit x (m + k)) \<or>
     (15 \<le> m + k \<and> m < 15 \<and> bit x (m + k - 15) \<noteq> bit x (m + k - 14))" for m
    by simp
  show ?case
  proof (cases "n < 14")
    case True
    then show ?thesis by (auto simp: bit_fsr_step IH)
  next
    case False
    then show ?thesis using Suc.prems by (cases "n = 14") (auto simp: bit_fsr_step IH)
  qed
qed

lemma fsr_step_8: "\<not> bit x 15 \<Longrightarrow> (fsr_step ^^ 8) x = fsr8 x"
proof (rule bit_word_eqI)
  fix n
  assume x: "\<not> bit x 15" and "n < LENGTH(16)"
  have m: "(0xff :: u16) = mask 8" by (simp add: mask_eq_exp_minus_1)
  have hi: "\<not> bit x m" if "15 \<le> m" for m
    using that x impossible_bit [of m x] by (cases "m = 15") auto
  show "bit ((fsr_step ^^ 8) x) n = bit (fsr8 x) n"
  proof (cases "n < 7")
    case True
    then show ?thesis
      unfolding bit_fsr_steps [of x 8, OF x, simplified] fsr8_def m
      by (simp add: bit_or_iff bit_xor_iff bit_and_iff bit_drop_bit_eq bit_push_bit_iff add.commute)
  next
    case False
    then obtain k where k: "n = k + 7" by (metis add.commute le_Suc_ex not_less)
    show ?thesis
      unfolding bit_fsr_steps [of x 8, OF x, simplified] fsr8_def m
      using \<open>n < LENGTH(16)\<close> by (auto simp: k hi bit_or_iff bit_xor_iff bit_and_iff
          bit_mask_iff bit_drop_bit_eq bit_push_bit_iff)
  qed
qed

lemma scrambler_byte_steps:
  "n \<le> 14 \<Longrightarrow> scrambler_byte n j b x =
     (b OR push_bit j (take_bit n (ucast x)), (fsr_step ^^ n) x)"
proof (induction n arbitrary: j b x)
  case 0
  show ?case by simp
next
  case (Suc n)
  have "(if bit x 0 then 1 else 0) OR push_bit 1 (take_bit n (ucast (fsr_step x)))
      = (take_bit (Suc n) (ucast x) :: byte)"
  proof (rule bit_word_eqI)
    fix i
    assume "i < LENGTH(8)"
    then show "bit ((if bit x 0 then 1 else 0) OR push_bit 1 (take_bit n (ucast (fsr_step x))) :: byte) i
        = bit (take_bit (Suc n) (ucast x) :: byte) i"
      unfolding bit_or_iff bit_push_bit_iff bit_take_bit_iff bit_unsigned_iff bit_fsr_step
      using Suc.prems by (cases i) (auto simp: bit_1_iff)
  qed
  then have "push_bit j ((if bit x 0 then 1 else 0) OR push_bit 1 (take_bit n (ucast (fsr_step x))))
      = (push_bit j (take_bit (Suc n) (ucast x)) :: byte)" by simp
  then have "push_bit j (if bit x 0 then 1 else 0) OR push_bit (Suc j) (take_bit n (ucast (fsr_step x)))
      = (push_bit j (take_bit (Suc n) (ucast x)) :: byte)"
    by (simp add: push_bit_or)
  moreover have "next_bit x = (bit x 0, fsr_step x)"
    by (simp add: fsr_step_def next_bit_def Let_def)
  ultimately show ?case
    using Suc.prems Suc.IH [of "Suc j"] 
    by (simp add: or.assoc funpow_Suc_right del: funpow.simps)
qed

lemma scrambler_byte_8:
  "\<not> bit x 15 \<Longrightarrow> scrambler_byte 8 0 0 x = (ucast x, fsr8 x)"
proof -
  assume "\<not> bit x 15"
  moreover have "take_bit 8 (ucast x :: byte) = ucast x"
    by (rule bit_word_eqI) (simp add: bit_take_bit_iff)
  ultimately show ?thesis
    using scrambler_byte_steps [of 8 0 0 x] by (simp add: fsr_step_8)
qed

lemma fsr_step_bit15: "\<not> bit (fsr_step x) 15"
  by (simp add: bit_fsr_step)

lemma fsr_steps_bit15: "\<not> bit x 15 \<Longrightarrow> \<not> bit ((fsr_step ^^ n) x) 15"
  by (cases n) (simp_all add: fsr_step_bit15)

lemma fsr8_steps: "\<not> bit x 15 \<Longrightarrow> (fsr8 ^^ n) x = (fsr_step ^^ (8 * n)) x"
proof (induction n)
  case (Suc n)
  have "(fsr8 ^^ Suc n) x = fsr8 ((fsr_step ^^ (8 * n)) x)"
    using Suc by simp
  also have "\<dots> = (fsr_step ^^ 8) ((fsr_step ^^ (8 * n)) x)"
    using fsr_step_8 [OF fsr_steps_bit15 [OF Suc.prems]] by simp
  finally show ?case by (simp only: funpow_add [symmetric, THEN fun_cong, simplified]
      o_apply mult_Suc_right)
qed simp

text \<open>The sequence of bits that leave the register.\<close>

definition fsr_seq :: "u16 \<Rightarrow> nat \<Rightarrow> bool" where
  "fsr_seq x n = bit ((fsr_step ^^ n) x) 0"

lemma fsr_seq_15:
  assumes "\<not> bit x 15"
  shows "fsr_seq x (n + 15) = (fsr_seq x n \<noteq> fsr_seq x (n + 1))"
proof -
  let ?y = "(fsr_step ^^ n) x"
  have y: "\<not> bit ?y 15" using assms by (rule fsr_steps_bit15)
  have "(fsr_step ^^ (n + 15)) x = fsr_step (fsr_step ((fsr_step ^^ 13) ?y))"
    by (simp add: numeral_eq_Suc funpow_swap1 add.commute funpow_add)
  then have "fsr_seq x (n + 15) = bit ((fsr_step ^^ 13) ?y) 2"
    by (simp add: fsr_seq_def bit_fsr_step numeral_2_eq_2)
  also have "\<dots> = (bit ?y 0 \<noteq> bit ?y 1)"
    by (subst bit_fsr_steps [OF y]) simp_all
  also have "bit ?y 1 = bit (fsr_step ?y) 0"
    by (simp add: bit_fsr_step)
  finally show ?thesis by (simp add: fsr_seq_def)
qed

lemma fsr_seq_120:
  assumes "\<not> bit x 15"
  shows "fsr_seq x (n + 120) = (fsr_seq x n \<noteq> fsr_seq x (n + 8))"
proof -
  note r15 = fsr_seq_15 [OF assms]
  have r30: "fsr_seq x (n + 30) = (fsr_seq x n \<noteq> fsr_seq x (n + 2))" for n
    using r15 [of "n + 15"] r15 [of n] r15 [of "n + 1"] by (simp add: numeral_eq_Suc) blast
  have r60: "fsr_seq x (n + 60) = (fsr_seq x n \<noteq> fsr_seq x (n + 4))" for n
    using r30 [of "n + 30"] r30 [of n] r30 [of "n + 2"] by (simp add: numeral_eq_Suc) blast
  show ?thesis
    using r60 [of "n + 60"] r60 [of n] r60 [of "n + 4"] by (simp add: numeral_eq_Suc) blast
qed

lemma bit_fsr8_byte:
  assumes "\<not> bit x 15" "j < 8"
  shows "bit (ucast ((fsr8 ^^ m) x) :: byte) j = fsr_seq x (8 * m + j)"
proof -
  let ?y = "(fsr_step ^^ (8 * m)) x"
  have y: "\<not> bit ?y 15" using assms(1) by (rule fsr_steps_bit15)
  have "fsr_seq x (8 * m + j) = bit ((fsr_step ^^ j) ?y) 0"
    by (simp add: fsr_seq_def add.commute funpow_add)
  also have "\<dots> = bit ?y j"
    using assms(2) by (subst bit_fsr_steps [OF y]) auto
  finally show ?thesis
    using assms by (simp add: bit_unsigned_iff fsr8_steps)
qed

lemma fsr8_byte_15:
  assumes "\<not> bit x 15"
  shows "(ucast ((fsr8 ^^ (m + 15)) x) :: byte) = ucast ((fsr8 ^^ m) x) XOR ucast ((fsr8 ^^ Suc m) x)"
proof (rule bit_word_eqI)
  fix j
  assume "j < LENGTH(8)"
  then have j: "j < 8" by simp
  have e: "8 * (m + 15) + j = (8 * m + j) + 120" "8 * Suc m + j = (8 * m + j) + 8"
    by simp_all
  show "bit (ucast ((fsr8 ^^ (m + 15)) x) :: byte) j
      = bit (ucast ((fsr8 ^^ m) x) XOR ucast ((fsr8 ^^ Suc m) x) :: byte) j"
    unfolding bit_xor_iff bit_fsr8_byte [OF assms j] e
    by (rule fsr_seq_120 [OF assms])
qed

lemma scrambler_bytes_nth:
  "\<not> bit x 15 \<Longrightarrow> scrambler_bytes n x = map (\<lambda>m. ucast ((fsr8 ^^ m) x)) [0..<n]"
proof (induction n arbitrary: x)
  case (Suc n)
  have "\<not> bit (fsr8 x) 15"
    using fsr_steps_bit15 [OF Suc.prems, of 8] by (simp add: fsr_step_8 [OF Suc.prems])
  with Suc show ?case
    by (simp add: scrambler_byte_8 map_upt_Suc funpow_swap1 del: upt_Suc scrambler_byte.simps)
qed simp

fun fsr8_bytes :: "nat \<Rightarrow> u16 \<Rightarrow> byte list" where
  "fsr8_bytes 0 x = []"
| "fsr8_bytes (Suc n) x = ucast x # fsr8_bytes n (fsr8 x)"

lemma fsr8_bytes_map: "fsr8_bytes n x = map (\<lambda>m. ucast ((fsr8 ^^ m) x)) [0..<n]"
  by (induction n arbitrary: x) (simp_all add: map_upt_Suc funpow_swap1 del: upt_Suc)

lemma fsr8_bytes_numeral:
  "fsr8_bytes (numeral k) x = ucast x # fsr8_bytes (pred_numeral k) (fsr8 x)"
  by (simp add: numeral_eq_Suc)

lemma annex_b_start: "take 15 ecma_130_annex_b = fsr8_bytes 15 1"
  by (simp add: ecma_130_annex_b_def fsr8_bytes_numeral fsr8_def)

lemma annex_b_recurrence:
  "drop 15 ecma_130_annex_b = map2 (XOR) (take 2325 ecma_130_annex_b) (tl ecma_130_annex_b)"
  by (simp add: ecma_130_annex_b_def)

lemma length_annex_b: "length ecma_130_annex_b = 2340"
  by (simp add: ecma_130_annex_b_def)

theorem annex_b_generated: "ecma_130_annex_b = scrambler_bytes 2340 1"
proof -
  have b15: "\<not> bit (1 :: u16) 15" by simp
  let ?B = "\<lambda>m. ucast ((fsr8 ^^ m) 1) :: byte"
  have nth: "ecma_130_annex_b ! m = ?B m" if "m < 2340" for m
    using that
  proof (induction m rule: less_induct)
    case (less m)
    show ?case
    proof (cases "m < 15")
      case True
      then have "ecma_130_annex_b ! m = take 15 ecma_130_annex_b ! m" by simp
      with True show ?thesis by (simp add: annex_b_start fsr8_bytes_map)
    next
      case False
      then obtain k where k: "m = k + 15" by (metis add.commute le_Suc_ex not_less)
      have "ecma_130_annex_b ! m = drop 15 ecma_130_annex_b ! k"
        using k less.prems by (simp add: length_annex_b add.commute)
      also have "\<dots> = ecma_130_annex_b ! k XOR ecma_130_annex_b ! Suc k"
        unfolding annex_b_recurrence using k less.prems by (simp add: length_annex_b nth_tl)
      also have "\<dots> = ?B k XOR ?B (Suc k)"
        using k less.prems less.IH [of k] less.IH [of "Suc k"] by simp
      also have "\<dots> = ?B m"
        unfolding k by (rule fsr8_byte_15 [OF b15, symmetric])
      finally show ?thesis .
    qed
  qed
  show ?thesis
    unfolding scrambler_bytes_nth [OF b15]
    by (rule nth_equalityI) (simp_all add: length_annex_b nth)
qed

section \<open>Multiplication by table is multiplication in the field\<close>

text \<open>The product of two polynomials, reduced: add \<open>a * 2^k\<close> for every bit \<open>k\<close> of \<open>b\<close>.\<close>

fun gf_sum :: "nat \<Rightarrow> byte \<Rightarrow> byte \<Rightarrow> byte" where
  "gf_sum 0 a b = 0"
| "gf_sum (Suc n) a b = gf_sum n a b XOR (if bit b n then (xtime ^^ n) a else 0)"

definition gf_mult :: "byte \<Rightarrow> byte \<Rightarrow> byte" where
  "gf_mult a b = gf_sum 8 a b"

lemma funpow_pred_numeral: "(f ^^ numeral k) x = f ((f ^^ pred_numeral k) x)"
  by (simp add: numeral_eq_Suc)

lemma X_8: "(xtime ^^ 8) 1 = 1 XOR X 2 XOR X 3 XOR X 4"
  by (simp add: funpow_pred_numeral xtime_def)

lemma xtime_8: "(xtime ^^ 8) a = a XOR (xtime ^^ 2) a XOR (xtime ^^ 3) a XOR (xtime ^^ 4) a"
proof (cases rule: X_cases [of a])
  case 1
  have "(xtime ^^ n) 0 = 0" for n by (induction n) simp_all
  with 1 show ?thesis by simp
next
  case (2 n)
  have c: "(xtime ^^ k) (X n) = (xtime ^^ n) (X k)" for k
    by (simp add: add.commute flip: funpow_add [THEN fun_cong, simplified o_apply])
  have "(xtime ^^ 8) a = (xtime ^^ n) (X 8)" using 2 c by simp
  also have "\<dots> = (xtime ^^ n) (1 XOR X 2 XOR X 3 XOR X 4)" by (simp only: X_8)
  finally show ?thesis by (simp add: 2 xtime_pow_xor c)
qed

lemma bit_xtime:
  "k < 8 \<Longrightarrow> bit (xtime b) k = ((0 < k \<and> bit b (k - 1)) \<noteq> (bit b 7 \<and> k \<in> {0, 2, 3, 4}))"
proof -
  assume "k < 8"
  then have "k \<in> {0, 1, 2, 3, 4, 5, 6, 7}" unfolding insert_iff empty_iff by presburger
  moreover obtain c :: byte where c: "c = push_bit 1 b" by simp
  moreover have "bit c k \<longleftrightarrow> 0 < k \<and> bit b (k - 1)"
    using \<open>k < 8\<close> unfolding c bit_push_bit_iff by auto
  ultimately show ?thesis
    unfolding xtime_def c [symmetric] by (auto simp: bit_xor_iff)
qed

lemma gf_sum_numeral: "gf_sum (numeral k) a b =
   gf_sum (pred_numeral k) a b XOR
     (if bit b (pred_numeral k) then (xtime ^^ pred_numeral k) a else 0)"
  by (simp add: numeral_eq_Suc)

lemma gf_mult_unfold: "gf_mult a b =
   (if bit b 0 then a else 0) XOR (if bit b 1 then xtime a else 0) XOR
   (if bit b 2 then (xtime ^^ 2) a else 0) XOR (if bit b 3 then (xtime ^^ 3) a else 0) XOR
   (if bit b 4 then (xtime ^^ 4) a else 0) XOR (if bit b 5 then (xtime ^^ 5) a else 0) XOR
   (if bit b 6 then (xtime ^^ 6) a else 0) XOR (if bit b 7 then (xtime ^^ 7) a else 0)"
  by (simp add: gf_mult_def gf_sum_numeral xor.assoc split del: if_split cong: if_cong)

lemma if_neq_xor: "(if p = (\<not> q) then x else 0) = (if p then x else 0) XOR (if q then x else (0 :: byte))"
  by simp

lemma gf_mult_xtime: "gf_mult a (xtime b) = xtime (gf_mult a b)"
proof -
  have p: "xtime (if c then x else 0) = (if c then xtime x else 0)" for c x by simp
  have d: "(if c then x XOR y else 0) = (if c then x else 0) XOR (if c then y else (0 :: byte))"
    for c x y by simp
  have x8: "xtime ((xtime ^^ 7) a) = a XOR xtime (xtime a) XOR xtime (xtime (xtime a)) XOR
      xtime (xtime (xtime (xtime a)))"
    using xtime_8 [of a] by (simp add: funpow_pred_numeral)
  show ?thesis
    unfolding gf_mult_unfold xtime_xor p x8 d
    by (simp add: bit_xtime if_neq_xor funpow_pred_numeral
      xor.assoc xor.left_commute xor.commute split del: if_split cong: if_cong)
qed

lemma gf_mult_X: "gf_mult a (X n) = (xtime ^^ n) a"
proof (induction n)
  case 0
  show ?case by (simp add: gf_mult_unfold bit_1_iff)
next
  case (Suc n)
  then show ?case by (simp add: gf_mult_xtime)
qed

theorem burn_rspc_mult_gf: "burn_rspc_mult a b = gf_mult a b"
proof (cases rule: X_cases [of b])
  case 1
  then show ?thesis by (simp add: burn_rspc_mult_def gf_mult_unfold)
next
  case (2 n)
  have "burn_rspc_mult a b = burn_rspc_mult b a" by (rule burn_rspc_mult_comm)
  show ?thesis
  proof (cases "b = 0")
    case True
    then show ?thesis by (simp add: burn_rspc_mult_def gf_mult_unfold)
  next
    case False
    then have "gf_mult a b = (xtime ^^ (gflog ! unat b)) a"
      using gf_mult_X [of a "gflog ! unat b"] by (simp add: X_gflog)
    moreover have "(xtime ^^ n) 0 = 0" for n by (induction n) simp_all
    ultimately show ?thesis
      using False burn_rspc_mult_comm [of a b] by (simp add: burn_rspc_mult_xtime)
  qed
qed

end
