(* ===== verification/Rspc.thy ===== *)
theory Rspc
  imports Rspc_Tables
begin

text \<open>
  The sector operations of \<open>libburn/ecma130ab.c\<close>: \<open>burn_rspc_parity_p\<close>,
  \<open>burn_rspc_parity_q\<close> and \<open>burn_ecma130_scramble\<close> on a raw sector of 2352 bytes (a list;
  the C code updates the array in place).  The parity functions make every P column and
  every Q diagonal a codeword, the scrambler is its own inverse.

  The inner loops are folds over the loop index; the pointer \<open>start\<close> which they advance by
  86 is written as the offset it has in that pass.
\<close>

section \<open>The operations\<close>

text \<open>
  The state of the loop over \<open>i\<close> is (\<open>sum_v_lsb\<close>, \<open>sum_v_msb\<close>, \<open>hxv_lsb\<close>, \<open>hxv_msb\<close>); the
  result is (\<open>p0_lsb\<close>, \<open>p0_msb\<close>, \<open>p1_lsb\<close>, \<open>p1_msb\<close>).
\<close>

definition burn_rspc_p0p1 :: "byte list \<Rightarrow> nat \<Rightarrow> byte \<times> byte \<times> byte \<times> byte" where
  "burn_rspc_p0p1 sector col =
     (let (sum_v_lsb, sum_v_msb, hxv_lsb, hxv_msb) =
            foldl (\<lambda>(sl, sm, hl, hm) i.
                     let start = 12 + 2 * col + 86 * i;
                         b = sector ! start;
                         b' = sector ! (start + 1)
                     in (sl XOR b, sm XOR b',
                         hl XOR burn_rspc_mult b (h26 ! i),
                         hm XOR burn_rspc_mult b' (h26 ! i)))
              (0, 0, 0, 0) [0..<24];
          p0_lsb = burn_rspc_div_3 (burn_rspc_mult 2 sum_v_lsb XOR hxv_lsb);
          p0_msb = burn_rspc_div_3 (burn_rspc_mult 2 sum_v_msb XOR hxv_msb)
      in (p0_lsb, p0_msb, sum_v_lsb XOR p0_lsb, sum_v_msb XOR p0_msb))"

definition burn_rspc_parity_p :: "byte list \<Rightarrow> byte list" where
  "burn_rspc_parity_p sector0 =
     foldl (\<lambda>sector i.
              let (p0_lsb, p0_msb, p1_lsb, p1_msb) = burn_rspc_p0p1 sector i
              in sector[2162 + 2 * i := p0_lsb, 2162 + 2 * i + 1 := p0_msb,
                        2076 + 2 * i := p1_lsb, 2076 + 2 * i + 1 := p1_msb])
       sector0 [0..<43]"

text \<open>The diagonal index \<open>idx\<close> is part of the loop state.\<close>

definition burn_rspc_q0q1 :: "byte list \<Rightarrow> nat \<Rightarrow> byte \<times> byte \<times> byte \<times> byte" where
  "burn_rspc_q0q1 sector diag =
     (let (_, sum_v_lsb, sum_v_msb, hxv_lsb, hxv_msb) =
            foldl (\<lambda>(idx, sl, sm, hl, hm) i.
                     let idx = (if idx \<ge> 2236 then idx - 2236 else idx);
                         b = sector ! (12 + idx);
                         b' = sector ! (12 + (idx + 1))
                     in (idx + 88, sl XOR b, sm XOR b',
                         hl XOR burn_rspc_mult b (h45 ! i),
                         hm XOR burn_rspc_mult b' (h45 ! i)))
              (2 * 43 * diag, 0, 0, 0, 0) [0..<43];
          q0_lsb = burn_rspc_div_3 (burn_rspc_mult 2 sum_v_lsb XOR hxv_lsb);
          q0_msb = burn_rspc_div_3 (burn_rspc_mult 2 sum_v_msb XOR hxv_msb)
      in (q0_lsb, q0_msb, sum_v_lsb XOR q0_lsb, sum_v_msb XOR q0_msb))"

definition burn_rspc_parity_q :: "byte list \<Rightarrow> byte list" where
  "burn_rspc_parity_q sector0 =
     foldl (\<lambda>sector i.
              let (q0_lsb, q0_msb, q1_lsb, q1_msb) = burn_rspc_q0q1 sector i
              in sector[2300 + 2 * i := q0_lsb, 2300 + 2 * i + 1 := q0_msb,
                        2248 + 2 * i := q1_lsb, 2248 + 2 * i + 1 := q1_msb])
       sector0 [0..<26]"

definition burn_ecma130_scramble :: "byte list \<Rightarrow> byte list" where
  "burn_ecma130_scramble sector0 =
     foldl (\<lambda>sector i. sector[12 + i := sector ! (12 + i) XOR ecma_130_annex_b ! i])
       sector0 [0..<2340]"

section \<open>Sums of codeword positions\<close>

fun xor_sum :: "(nat \<Rightarrow> byte) \<Rightarrow> nat \<Rightarrow> byte" where
  "xor_sum f 0 = 0"
| "xor_sum f (Suc n) = xor_sum f n XOR f n"

lemma xor_sum_cong: "(\<And>i. i < n \<Longrightarrow> f i = g i) \<Longrightarrow> xor_sum f n = xor_sum g n"
  by (induction n) simp_all

text \<open>The parity pair for a lane \<open>v\<close> of \<open>n\<close> values with the coefficients \<open>h\<close>.\<close>

definition rs_p0 :: "byte list \<Rightarrow> (nat \<Rightarrow> byte) \<Rightarrow> nat \<Rightarrow> byte" where
  "rs_p0 h v n =
     burn_rspc_div_3 (burn_rspc_mult 2 (xor_sum v n) XOR
       xor_sum (\<lambda>i. burn_rspc_mult (v i) (h ! i)) n)"

definition rs_p1 :: "byte list \<Rightarrow> (nat \<Rightarrow> byte) \<Rightarrow> nat \<Rightarrow> byte" where
  "rs_p1 h v n = xor_sum v n XOR rs_p0 h v n"

lemma rs_p0_cong: "(\<And>i. i < n \<Longrightarrow> v i = w i) \<Longrightarrow> rs_p0 h v n = rs_p0 h w n"
  unfolding rs_p0_def by (simp cong: xor_sum_cong)

lemma rs_p1_cong: "(\<And>i. i < n \<Longrightarrow> v i = w i) \<Longrightarrow> rs_p1 h v n = rs_p1 h w n"
  unfolding rs_p1_def by (metis rs_p0_cong xor_sum_cong)

text \<open>The two rows of a parity check matrix: all ones, and the coefficients \<open>h\<close>.\<close>

definition rs_codeword :: "byte list \<Rightarrow> (nat \<Rightarrow> byte) \<Rightarrow> nat \<Rightarrow> bool" where
  "rs_codeword h v n \<longleftrightarrow>
     xor_sum v n = 0 \<and> xor_sum (\<lambda>i. gf_mult (v i) (h ! i)) n = 0"

lemma X_230: "xtime (X 230) XOR X 230 = 1"
proof -
  have "gfpow ! 230 = 244" by (simp add: gfpow_def)
  then have "X 230 = 244" by (simp add: gfpow_X flip: gfpow_X)
  then show ?thesis by (simp add: xtime_def)
qed

lemma burn_rspc_div_3: "xtime (burn_rspc_div_3 a) XOR burn_rspc_div_3 a = a"
proof (cases "a = 0")
  case False
  define g where "g = gflog ! unat a"
  have "burn_rspc_div_3 a = (xtime ^^ g) (X 230)"
    using False gflog_le [of a]
    by (simp add: burn_rspc_div_3_def gfpow_X g_def add.commute [of 230] funpow_add)
  then have "xtime (burn_rspc_div_3 a) XOR burn_rspc_div_3 a
      = (xtime ^^ g) (xtime (X 230) XOR X 230)"
    by (simp add: xtime_pow_xor funpow_swap1)
  then show ?thesis using False by (simp add: X_230 X_gflog g_def)
qed (simp add: burn_rspc_div_3_def)

lemma rs_codeword_parity:
  assumes h: "h ! n = 2" "h ! Suc n = 1"
    and v: "v n = rs_p1 h v n" "v (Suc n) = rs_p0 h v n"
  shows "rs_codeword h v (Suc (Suc n))"
proof -
  define S where "S = xor_sum v n"
  define H where "H = xor_sum (\<lambda>i. burn_rspc_mult (v i) (h ! i)) n"
  define p where "p = rs_p0 h v n"
  have p: "xtime p XOR p = xtime S XOR H"
    using burn_rspc_div_3 [of "xtime S XOR H"]
    by (simp add: p_def rs_p0_def S_def H_def burn_rspc_mult_2)
  have v': "v n = S XOR p" "v (Suc n) = p"
    using v by (simp_all add: rs_p1_def S_def p_def)
  have m: "gf_mult x 2 = xtime x" "gf_mult x 1 = x" for x
    by (simp_all add: burn_rspc_mult_2 burn_rspc_mult_1 burn_rspc_mult_comm [of x]
        flip: burn_rspc_mult_gf)
  have "xor_sum (\<lambda>i. gf_mult (v i) (h ! i)) (Suc (Suc n)) = H XOR xtime (S XOR p) XOR p"
    by (simp add: v' h m xor.assoc H_def burn_rspc_mult_gf)
  also have "\<dots> = (H XOR xtime S) XOR (xtime p XOR p)"
    by (simp add: xtime_xor xor.assoc)
  also have "\<dots> = 0" unfolding p by (simp add: xor.commute)
  finally show ?thesis
    by (simp add: rs_codeword_def v' xor.assoc flip: S_def)
qed

lemma rs_codeword_cong: "(\<And>i. i < n \<Longrightarrow> v i = w i) \<Longrightarrow> rs_codeword h v n = rs_codeword h w n"
  unfolding rs_codeword_def by (simp cong: xor_sum_cong)

section \<open>P parity\<close>

definition p_lane :: "byte list \<Rightarrow> nat \<Rightarrow> nat \<Rightarrow> byte" where
  "p_lane s k i = s ! (12 + k + 86 * i)"

lemma p0p1_loop:
  "foldl (\<lambda>(sl, sm, hl, hm) i.
       let start = 12 + 2 * col + 86 * i; b = s ! start; b' = s ! (start + 1)
       in (sl XOR b, sm XOR b', hl XOR burn_rspc_mult b (h26 ! i), hm XOR burn_rspc_mult b' (h26 ! i)))
     (0, 0, 0, 0) [0..<n] =
   (xor_sum (p_lane s (2 * col)) n, xor_sum (p_lane s (2 * col + 1)) n,
    xor_sum (\<lambda>i. burn_rspc_mult (p_lane s (2 * col) i) (h26 ! i)) n,
    xor_sum (\<lambda>i. burn_rspc_mult (p_lane s (2 * col + 1) i) (h26 ! i)) n)"
  by (induction n) (simp_all add: p_lane_def Let_def add_ac)

lemma burn_rspc_p0p1_eq:
  "burn_rspc_p0p1 s col =
     (rs_p0 h26 (p_lane s (2 * col)) 24, rs_p0 h26 (p_lane s (2 * col + 1)) 24,
      rs_p1 h26 (p_lane s (2 * col)) 24, rs_p1 h26 (p_lane s (2 * col + 1)) 24)"
  unfolding burn_rspc_p0p1_def p0p1_loop by (simp add: rs_p0_def rs_p1_def Let_def)

definition p_step :: "byte list \<Rightarrow> nat \<Rightarrow> byte list" where
  "p_step sector i =
     (let (p0_lsb, p0_msb, p1_lsb, p1_msb) = burn_rspc_p0p1 sector i
      in sector[2162 + 2 * i := p0_lsb, 2162 + 2 * i + 1 := p0_msb,
                2076 + 2 * i := p1_lsb, 2076 + 2 * i + 1 := p1_msb])"

lemma burn_rspc_parity_p_step: "burn_rspc_parity_p s = foldl p_step s [0..<43]"
  unfolding burn_rspc_parity_p_def p_step_def ..

lemma length_p_step [simp]: "length (p_step s i) = length s"
  by (simp add: p_step_def split_beta)

lemma length_p_steps: "length (foldl p_step s is) = length s"
  by (induction "is" arbitrary: s) simp_all

lemma p_step_frame: "j < 2076 \<or> 2248 \<le> j \<Longrightarrow> i < 43 \<Longrightarrow> p_step s i ! j = s ! j"
  by (auto simp: p_step_def split_beta nth_list_update)

lemma p_steps_frame: "j < 2076 \<or> 2248 \<le> j \<Longrightarrow> n \<le> 43 \<Longrightarrow> foldl p_step s [0..<n] ! j = s ! j"
  by (induction n) (simp_all add: p_step_frame)

lemma p_lane_frame:
  assumes "\<And>j. j < 2076 \<Longrightarrow> s' ! j = s ! j" "k < 86" "i < 24"
  shows "p_lane s' k i = p_lane s k i"
  using assms by (simp add: p_lane_def)

lemma p_steps_written:
  assumes "length s = 2352" "n \<le> 43" "k < 2 * n"
  shows "foldl p_step s [0..<n] ! (2162 + k) = rs_p0 h26 (p_lane s k) 24 \<and>
         foldl p_step s [0..<n] ! (2076 + k) = rs_p1 h26 (p_lane s k) 24"
  using assms(2,3)
proof (induction n)
  case (Suc n)
  define r where "r = foldl p_step s [0..<n]"
  have step: "foldl p_step s [0..<Suc n] = p_step r n" by (simp add: r_def)
  have len: "length r = 2352" by (simp add: r_def length_p_steps assms(1))
  have lane: "p_lane r j i = p_lane s j i" if "j < 86" "i < 24" for j i
    unfolding r_def using Suc.prems that by (intro p_lane_frame p_steps_frame) simp_all
  have p0: "rs_p0 h26 (p_lane r j) 24 = rs_p0 h26 (p_lane s j) 24" if "j < 86" for j
    using lane that by (intro rs_p0_cong)
  have p1: "rs_p1 h26 (p_lane r j) 24 = rs_p1 h26 (p_lane s j) 24" if "j < 86" for j
    using lane that by (intro rs_p1_cong)
  have "k < 2 * n \<or> k = 2 * n \<or> k = 2 * n + 1" using Suc.prems by arith
  then consider "k < 2 * n" | "k = 2 * n" | "k = 2 * n + 1" by blast
  then show ?case
  proof cases
    case 1
    then show ?thesis using Suc unfolding step r_def [symmetric] by (simp add: p_step_def split_beta)
  next
    case 2
    then show ?thesis using Suc.prems p0 [of k] p1 [of k]
      unfolding step by (simp add: p_step_def burn_rspc_p0p1_eq len nth_list_update)
  next
    case 3
    then show ?thesis using Suc.prems p0 [of k] p1 [of k]
      unfolding step by (simp add: p_step_def burn_rspc_p0p1_eq len nth_list_update)
  qed
qed simp

lemma h26_end: "h26 ! 24 = 2" "h26 ! 25 = 1"
  by (simp_all add: h26_def)

lemma parity_p_codeword:
  assumes "length s = 2352" "k < 86"
  shows "rs_codeword h26 (p_lane (burn_rspc_parity_p s) k) 26"
proof -
  let ?r = "burn_rspc_parity_p s"
  have lane: "p_lane ?r k i = p_lane s k i" if "i < 24" for i
    unfolding burn_rspc_parity_p_step using assms that
    by (intro p_lane_frame p_steps_frame) simp_all
  have p0: "rs_p0 h26 (p_lane ?r k) 24 = rs_p0 h26 (p_lane s k) 24"
    by (rule rs_p0_cong) (rule lane)
  have p1: "rs_p1 h26 (p_lane ?r k) 24 = rs_p1 h26 (p_lane s k) 24"
    by (rule rs_p1_cong) (rule lane)
  have "p_lane ?r k 24 = rs_p1 h26 (p_lane ?r k) 24 \<and> p_lane ?r k (Suc 24) = rs_p0 h26 (p_lane ?r k) 24"
    unfolding p0 p1 using p_steps_written [of s 43 k] assms
    by (simp add: p_lane_def burn_rspc_parity_p_step add.commute add.left_commute)
  then have "rs_codeword h26 (p_lane ?r k) (Suc (Suc 24))"
    by (intro rs_codeword_parity) (simp_all add: h26_end)
  then show ?thesis by simp
qed

section \<open>Q parity\<close>

definition q_pos :: "nat \<Rightarrow> nat \<Rightarrow> nat" where
  "q_pos diag i = (86 * diag + 88 * i) mod 2236"

definition q_lane :: "byte list \<Rightarrow> nat \<Rightarrow> nat \<Rightarrow> nat \<Rightarrow> byte" where
  "q_lane s diag off i = s ! (12 + off + q_pos diag i)"

lemma q_pos_even: "even (q_pos diag i)"
  by (simp add: q_pos_def dvd_mod)

lemma q_pos_less: "q_pos diag i < 2235"
proof -
  have "q_pos diag i < 2236" by (simp add: q_pos_def)
  then show ?thesis using q_pos_even [of diag i] by (cases "q_pos diag i = 2235") auto
qed

lemma q_pos_step: "(if q_pos diag n + 88 \<ge> 2236 then q_pos diag n + 88 - 2236 else q_pos diag n + 88)
    = q_pos diag (Suc n)"
proof -
  have "q_pos diag (Suc n) = (q_pos diag n + 88) mod 2236"
    by (simp add: q_pos_def mod_simps algebra_simps)
  moreover have "q_pos diag n + 88 < 2 * 2236" using q_pos_less [of diag n] by simp
  ultimately show ?thesis by (simp add: mod_if)
qed

lemma q0q1_loop:
  assumes "diag < 26"
  shows "\<exists>idx. (if idx \<ge> 2236 then idx - 2236 else idx) = q_pos diag n \<and>
   foldl (\<lambda>(idx, sl, sm, hl, hm) i.
       let idx = (if idx \<ge> 2236 then idx - 2236 else idx); b = s ! (12 + idx); b' = s ! (12 + (idx + 1))
       in (idx + 88, sl XOR b, sm XOR b', hl XOR burn_rspc_mult b (h45 ! i), hm XOR burn_rspc_mult b' (h45 ! i)))
     (2 * 43 * diag, 0, 0, 0, 0) [0..<n] =
   (idx, xor_sum (q_lane s diag 0) n, xor_sum (q_lane s diag 1) n,
    xor_sum (\<lambda>i. burn_rspc_mult (q_lane s diag 0 i) (h45 ! i)) n,
    xor_sum (\<lambda>i. burn_rspc_mult (q_lane s diag 1 i) (h45 ! i)) n)"
proof (induction n)
  case 0
  show ?case using assms by (simp add: q_pos_def)
next
  case (Suc n)
  then obtain idx where idx: "(if idx \<ge> 2236 then idx - 2236 else idx) = q_pos diag n"
    and fold: "foldl (\<lambda>(idx, sl, sm, hl, hm) i.
       let idx = (if idx \<ge> 2236 then idx - 2236 else idx); b = s ! (12 + idx); b' = s ! (12 + (idx + 1))
       in (idx + 88, sl XOR b, sm XOR b', hl XOR burn_rspc_mult b (h45 ! i), hm XOR burn_rspc_mult b' (h45 ! i)))
     (2 * 43 * diag, 0, 0, 0, 0) [0..<n] =
   (idx, xor_sum (q_lane s diag 0) n, xor_sum (q_lane s diag 1) n,
    xor_sum (\<lambda>i. burn_rspc_mult (q_lane s diag 0 i) (h45 ! i)) n,
    xor_sum (\<lambda>i. burn_rspc_mult (q_lane s diag 1 i) (h45 ! i)) n)" by blast
  show ?case
    apply (rule exI [of _ "q_pos diag n + 88"])
    unfolding q_pos_step upt_Suc_append [OF le0] foldl_append fold
    by (simp add: Let_def idx q_lane_def [abs_def] add_ac split del: if_split)
qed

lemma burn_rspc_q0q1_eq:
  assumes "diag < 26"
  shows "burn_rspc_q0q1 s diag =
     (rs_p0 h45 (q_lane s diag 0) 43, rs_p0 h45 (q_lane s diag 1) 43,
      rs_p1 h45 (q_lane s diag 0) 43, rs_p1 h45 (q_lane s diag 1) 43)"
  using q0q1_loop [OF assms, of 43 s]
  unfolding burn_rspc_q0q1_def by (auto simp: rs_p0_def rs_p1_def Let_def)

definition q_step :: "byte list \<Rightarrow> nat \<Rightarrow> byte list" where
  "q_step sector i =
     (let (q0_lsb, q0_msb, q1_lsb, q1_msb) = burn_rspc_q0q1 sector i
      in sector[2300 + 2 * i := q0_lsb, 2300 + 2 * i + 1 := q0_msb,
                2248 + 2 * i := q1_lsb, 2248 + 2 * i + 1 := q1_msb])"

lemma burn_rspc_parity_q_step: "burn_rspc_parity_q s = foldl q_step s [0..<26]"
  unfolding burn_rspc_parity_q_def q_step_def ..

lemma length_q_step [simp]: "length (q_step s i) = length s"
  by (simp add: q_step_def split_beta)

lemma length_q_steps: "length (foldl q_step s is) = length s"
  by (induction "is" arbitrary: s) simp_all

lemma q_step_frame: "j < 2248 \<Longrightarrow> q_step s i ! j = s ! j"
  by (auto simp: q_step_def split_beta nth_list_update)

lemma q_steps_frame: "j < 2248 \<Longrightarrow> foldl q_step s [0..<n] ! j = s ! j"
  by (induction n) (simp_all add: q_step_frame)

lemma q_lane_frame:
  assumes "\<And>j. j < 2248 \<Longrightarrow> s' ! j = s ! j" "off < 2"
  shows "q_lane s' diag off i = q_lane s diag off i"
  using assms q_pos_less [of diag i] by (simp add: q_lane_def)

lemma q_steps_written:
  assumes "length s = 2352" "n \<le> 26" "d < n" "off < 2"
  shows "foldl q_step s [0..<n] ! (2300 + 2 * d + off) = rs_p0 h45 (q_lane s d off) 43 \<and>
         foldl q_step s [0..<n] ! (2248 + 2 * d + off) = rs_p1 h45 (q_lane s d off) 43"
  using assms(2,3)
proof (induction n)
  case (Suc n)
  define r where "r = foldl q_step s [0..<n]"
  have step: "foldl q_step s [0..<Suc n] = q_step r n" by (simp add: r_def)
  have len: "length r = 2352" by (simp add: r_def length_q_steps assms(1))
  have lane: "q_lane r d j i = q_lane s d j i" if "j < 2" for j i
    unfolding r_def using that by (intro q_lane_frame q_steps_frame)
  have p0: "rs_p0 h45 (q_lane r d j) 43 = rs_p0 h45 (q_lane s d j) 43" if "j < 2" for j
    using lane that by (intro rs_p0_cong)
  have p1: "rs_p1 h45 (q_lane r d j) 43 = rs_p1 h45 (q_lane s d j) 43" if "j < 2" for j
    using lane that by (intro rs_p1_cong)
  have off: "off = 0 \<or> off = 1" using assms(4) by linarith
  show ?case
  proof (cases "d = n")
    case True
    then show ?thesis using Suc.prems p0 [of off] p1 [of off] off
      unfolding step by (auto simp: q_step_def burn_rspc_q0q1_eq len nth_list_update)
  next
    case False
    then show ?thesis using Suc off unfolding step r_def [symmetric]
      by (auto simp: q_step_def split_beta)
  qed
qed simp

lemma h45_end: "h45 ! 43 = 2" "h45 ! 44 = 1"
  by (simp_all add: h45_def)

text \<open>The positions of a Q diagonal: 43 on the diagonal, then \<open>q1\<close> and \<open>q0\<close>.\<close>

definition q_word :: "byte list \<Rightarrow> nat \<Rightarrow> nat \<Rightarrow> nat \<Rightarrow> byte" where
  "q_word s diag off i =
     (if i < 43 then q_lane s diag off i
      else if i = 43 then s ! (2248 + 2 * diag + off)
      else s ! (2300 + 2 * diag + off))"

lemma parity_q_codeword:
  assumes "length s = 2352" "d < 26" "off < 2"
  shows "rs_codeword h45 (q_word (burn_rspc_parity_q s) d off) 45"
proof -
  let ?r = "burn_rspc_parity_q s"
  have frame: "?r ! j = s ! j" if "j < 2248" for j
    unfolding burn_rspc_parity_q_step using that by (rule q_steps_frame)
  have lane: "q_word ?r d off i = q_lane s d off i" if "i < 43" for i
    using that by (simp add: q_word_def q_lane_frame [OF frame assms(3)])
  have p0: "rs_p0 h45 (q_word ?r d off) 43 = rs_p0 h45 (q_lane s d off) 43"
    by (rule rs_p0_cong) (rule lane)
  have p1: "rs_p1 h45 (q_word ?r d off) 43 = rs_p1 h45 (q_lane s d off) 43"
    by (rule rs_p1_cong) (rule lane)
  have "q_word ?r d off 43 = rs_p1 h45 (q_word ?r d off) 43 \<and>
      q_word ?r d off (Suc 43) = rs_p0 h45 (q_word ?r d off) 43"
    unfolding p0 p1 using q_steps_written [of s 26 d off] assms
    unfolding burn_rspc_parity_q_step [symmetric] by (simp add: q_word_def)
  then have "rs_codeword h45 (q_word ?r d off) (Suc (Suc 43))"
    by (intro rs_codeword_parity) (simp_all add: h45_end)
  then show ?thesis by simp
qed

section \<open>The scrambler\<close>

definition scramble_step :: "byte list \<Rightarrow> nat \<Rightarrow> byte list" where
  "scramble_step sector i = sector[12 + i := sector ! (12 + i) XOR ecma_130_annex_b ! i]"

lemma scramble_steps: "burn_ecma130_scramble s = foldl scramble_step s [0..<2340]"
  unfolding burn_ecma130_scramble_def scramble_step_def ..

lemma length_scramble_steps: "length (foldl scramble_step s is) = length s"
  by (induction "is" arbitrary: s) (simp_all add: scramble_step_def)

lemma length_scramble [simp]: "length (burn_ecma130_scramble s) = length s"
  by (simp only: scramble_steps length_scramble_steps)

lemma scramble_step_nth:
  "j < length s \<Longrightarrow> scramble_step s i ! j =
     (if j = 12 + i then s ! j XOR ecma_130_annex_b ! i else s ! j)"
  by (simp add: scramble_step_def nth_list_update)

lemma scramble_loop_nth:
  "j < length s \<Longrightarrow>
   foldl scramble_step s [0..<n] ! j =
   (if 12 \<le> j \<and> j < 12 + n then s ! j XOR ecma_130_annex_b ! (j - 12) else s ! j)"
proof (induction n)
  case (Suc n)
  define r where "r = foldl scramble_step s [0..<n]"
  have "foldl scramble_step s [0..<Suc n] = scramble_step r n" "length r = length s"
    by (simp_all add: r_def length_scramble_steps)
  with Suc show ?case
    by (auto simp: scramble_step_nth simp flip: r_def)
qed auto

lemma scramble_nth:
  "j < length s \<Longrightarrow> burn_ecma130_scramble s ! j =
   (if 12 \<le> j \<and> j < 2352 then s ! j XOR ecma_130_annex_b ! (j - 12) else s ! j)"
  unfolding scramble_steps by (simp add: scramble_loop_nth del: upt_rec_numeral upt.simps)

section \<open>The generator of the logarithm tables\<close>

text \<open>
  \<open>burn_rspc_setup_tables\<close>: \<open>b\<close> is an unsigned int that runs through the powers of 2; the
  arrays start out as zeros and \<open>gfpow\<close> has 509 elements, of which 255 are written.
\<close>

definition setup_pass ::
  "byte list \<times> nat list \<times> nat \<Rightarrow> nat \<Rightarrow> byte list \<times> nat list \<times> nat" where
  "setup_pass st l =
     (case st of (pow, log, b) \<Rightarrow>
        let pow = pow[l := word_of_nat b];
            log = log[b := l];
            b = push_bit 1 b;
            b = (if bit b 8 then xor b 0x11d else b)
        in (pow, log, b))"

definition burn_rspc_setup_tables :: "byte list \<times> nat list" where
  "burn_rspc_setup_tables =
     (case foldl setup_pass (replicate 509 0, replicate 256 0, 1) [0..<255] of
        (pow, log, b) \<Rightarrow> (pow, log))"

lemma X_inj: "inj_on X {..<255}"
proof (rule eq_card_imp_inj_on)
  have "(UNIV :: byte set) - {0} \<subseteq> X ` {..<255}"
  proof
    fix a :: byte
    assume "a \<in> UNIV - {0}"
    then show "a \<in> X ` {..<255}"
      using X_gflog [of a] gflog_le [of a] by (intro image_eqI [of _ _ "gflog ! unat a"]) auto
  qed
  then have "card ((UNIV :: byte set) - {0}) \<le> card (X ` {..<255})"
    by (intro card_mono) auto
  moreover have "card ((UNIV :: byte set) - {0}) = 255"
    by (simp add: card_word)
  ultimately show "card (X ` {..<255}) = card {..<255::nat}"
    using card_image_le [of "{..<255::nat}" X] by simp
qed simp

lemma X_nonzero: "X n \<noteq> 0"
proof (induction n)
  case (Suc n)
  have z: "xtime a = 0 \<Longrightarrow> a = 0" for a
  proof -
    assume "xtime a = 0"
    then have k: "(0 < k \<and> bit a (k - 1)) = (bit a 7 \<and> k \<in> {0, 2, 3, 4})" if "k < 8" for k
      using bit_xtime [OF that, of a] by simp
    have "\<not> bit a 7" using k [of 0] by simp
    then have "\<not> bit a j" if "j < 7" for j using k [of "Suc j"] that by simp
    then have "\<not> bit a j" if "j < 8" for j
      using that \<open>\<not> bit a 7\<close> by (cases "j = 7") simp_all
    then show "a = 0" by (intro bit_word_eqI) simp
  qed
  then show ?case using Suc by auto
qed simp

lemma gflog_X: "l < 255 \<Longrightarrow> gflog ! unat (X l) = l"
  using X_gflog [OF X_nonzero, of l] gflog_le [of "X l"] inj_onD [OF X_inj, of "gflog ! unat (X l)" l]
  by simp

definition setup_next :: "nat \<Rightarrow> nat" where
  "setup_next b = (let b = push_bit 1 b in if bit b 8 then xor b 0x11d else b)"

lemma bit_285: "bit (0x11d :: nat) n \<longleftrightarrow> n \<in> {0, 2, 3, 4, 8}"
proof (cases "n < 9")
  case True
  then have "n \<in> {0, 1, 2, 3, 4, 5, 6, 7, 8}" unfolding insert_iff empty_iff by presburger
  then show ?thesis by (auto simp: bit_0)
next
  case False
  then have "(2 :: nat) ^ 9 \<le> 2 ^ n" by (intro power_increasing) simp_all
  then have "(285 :: nat) div 2 ^ n = 0" by simp
  with False show ?thesis by (simp add: bit_iff_odd)
qed

lemma setup_next_xtime: "setup_next (unat a) = unat (xtime a)"
proof (rule bit_eqI)
  fix n
  obtain p where p: "p = push_bit 1 (unat a)" by simp
  have bp: "bit p n \<longleftrightarrow> 0 < n \<and> bit a (n - 1)" for n
    by (auto simp: p bit_push_bit_iff bit_unsigned_iff simp del: push_bit_Suc)
  have hi: "\<not> bit a n" if "8 \<le> n" for n using that by (simp add: impossible_bit)
  have "bit (setup_next (unat a)) n \<longleftrightarrow> bit p n \<noteq> (bit p 8 \<and> bit (0x11d :: nat) n)"
    unfolding setup_next_def Let_def p [symmetric] by (simp add: bit_xor_iff)
  also have "\<dots> \<longleftrightarrow> bit (xtime a) n"
  proof (cases "n < 8")
    case True
    then show ?thesis using bit_xtime [OF True, of a] by (auto simp: bp bit_285)
  next
    case False
    then show ?thesis using hi [of "n - 1"] by (cases "n = 8") (auto simp: bp bit_285 impossible_bit bit_0)
  qed
  finally show "bit (setup_next (unat a)) n = bit (unat (xtime a)) n"
    by (simp add: bit_unsigned_iff)
qed

lemma setup_passes:
  "n \<le> 255 \<Longrightarrow> \<exists>pow log.
     foldl setup_pass (replicate 509 0, replicate 256 0, 1) [0..<n] = (pow, log, unat (X n)) \<and>
     length pow = 509 \<and> length log = 256 \<and> log ! 0 = 0 \<and>
     (\<forall>l<n. pow ! l = X l \<and> log ! unat (X l) = l) \<and> (\<forall>l. n \<le> l \<and> l < 509 \<longrightarrow> pow ! l = 0)"
proof (induction n)
  case 0
  show ?case by simp
next
  case (Suc n)
  then obtain pow log where *:
    "foldl setup_pass (replicate 509 0, replicate 256 0, 1) [0..<n] = (pow, log, unat (X n))"
    "length pow = 509" "length log = 256" "log ! 0 = 0"
    "\<forall>l<n. pow ! l = X l \<and> log ! unat (X l) = l" "\<forall>l. n \<le> l \<and> l < 509 \<longrightarrow> pow ! l = 0"
    by auto
  have lt: "unat (X n) < 256" using unsigned_less [of "X n", where ?'a = nat] by simp
  have nz: "unat (X n) \<noteq> 0" using X_nonzero by (simp add: unat_eq_0)
  have ne: "unat (X l) \<noteq> unat (X n)" "unat (X n) \<noteq> unat (X l)" if "l < n" for l
    using inj_onD [OF X_inj, of l n] that Suc.prems by (auto simp: word_unat_eq_iff)
  have "foldl setup_pass (replicate 509 0, replicate 256 0, 1) [0..<Suc n]
      = (pow[n := X n], log[unat (X n) := n], unat (X (Suc n)))"
    unfolding upt_Suc_append [OF le0] foldl_append * 
    using setup_next_xtime [of "X n"] by (simp add: setup_pass_def setup_next_def Let_def)
  then show ?case
    using * lt nz ne Suc.prems
    by (intro exI [of _ "pow[n := X n]"] exI [of _ "log[unat (X n) := n]"])
      (auto simp: less_Suc_eq nth_list_update simp del: funpow.simps)
qed

section \<open>Properties\<close>

text \<open>
  C16: After \<open>burn_rspc_parity_p\<close> and \<open>burn_rspc_parity_q\<close> on a raw sector, each of the 86 P
  columns is a codeword of the (26,24) code and each of the 26 diagonals, for both bytes
  of a word, is a codeword of the (45,43) code: the plain sum and the sum weighted by
  the parity check coefficients are zero in GF(2^8).  All bytes before the parity areas
  are as they were.
\<close>
theorem parity_codewords:
  assumes "length s = 2352"
  shows "let r = burn_rspc_parity_q (burn_rspc_parity_p s) in
    length r = 2352 \<and> take 2076 r = take 2076 s \<and>
    list_all (\<lambda>k. rs_codeword h26 (p_lane r k) 26) [0..<86] \<and>
    list_all (\<lambda>d. rs_codeword h45 (q_word r d 0) 45 \<and> rs_codeword h45 (q_word r d 1) 45) [0..<26]"
proof -
  let ?p = "burn_rspc_parity_p s" and ?r = "burn_rspc_parity_q (burn_rspc_parity_p s)"
  have lp: "length ?p = 2352"
    using assms by (simp add: burn_rspc_parity_p_step length_p_steps)
  then have lr: "length ?r = 2352"
    by (simp add: burn_rspc_parity_q_step length_q_steps)
  have rp: "?r ! j = ?p ! j" if "j < 2248" for j
    unfolding burn_rspc_parity_q_step using that by (rule q_steps_frame)
  have ps: "?p ! j = s ! j" if "j < 2076" for j
    unfolding burn_rspc_parity_p_step by (rule p_steps_frame) (simp_all add: that)
  have "take 2076 ?r = take 2076 s"
    by (rule nth_equalityI) (simp_all add: lr assms rp ps)
  moreover have "rs_codeword h26 (p_lane ?r k) 26" if "k < 86" for k
  proof -
    have "p_lane ?r k i = p_lane ?p k i" if "i < 26" for i
      using that \<open>k < 86\<close> by (simp add: p_lane_def rp)
    then show ?thesis
      using parity_p_codeword [OF assms that] by (simp cong: rs_codeword_cong)
  qed
  moreover have "rs_codeword h45 (q_word ?r d off) 45" if "d < 26" "off < 2" for d off
    using lp that by (rule parity_q_codeword)
  ultimately show ?thesis
    by (simp add: Let_def lr list_all_iff)
qed

theorem parity_codewords_witness:
  "let r = burn_rspc_parity_q (burn_rspc_parity_p (replicate 2352 7)) in
    length r = 2352 \<and> take 2076 r = take 2076 (replicate 2352 7) \<and>
    list_all (\<lambda>k. rs_codeword h26 (p_lane r k) 26) [0..<86] \<and>
    list_all (\<lambda>d. rs_codeword h45 (q_word r d 0) 45 \<and> rs_codeword h45 (q_word r d 1) 45) [0..<26]"
  by (rule parity_codewords) simp

text \<open>
  C23: \<open>burn_ecma130_scramble\<close> applied twice is the identity on a raw sector, it leaves the
  first 12 bytes (the sync pattern) alone, and every other byte is combined with the
  output of the 15-bit shift register started with 1.
\<close>
theorem scramble_involution:
  assumes "length s = 2352"
  shows "burn_ecma130_scramble (burn_ecma130_scramble s) = s \<and>
    take 12 (burn_ecma130_scramble s) = take 12 s \<and>
    drop 12 (burn_ecma130_scramble s) = map2 (XOR) (drop 12 s) (scrambler_bytes 2340 1)"
proof (intro conjI)
  show "burn_ecma130_scramble (burn_ecma130_scramble s) = s"
    by (rule nth_equalityI) (simp_all add: scramble_nth xor.assoc)
  show "take 12 (burn_ecma130_scramble s) = take 12 s"
    by (rule nth_equalityI) (simp_all add: scramble_nth)
  show "drop 12 (burn_ecma130_scramble s) = map2 (XOR) (drop 12 s) (scrambler_bytes 2340 1)"
    unfolding annex_b_generated [symmetric]
    by (rule nth_equalityI) (simp_all add: scramble_nth assms length_annex_b)
qed

theorem scramble_involution_witness:
  "burn_ecma130_scramble (burn_ecma130_scramble (replicate 2352 5)) = replicate 2352 5 \<and>
   take 12 (burn_ecma130_scramble (replicate 2352 5)) = take 12 (replicate 2352 5) \<and>
   drop 12 (burn_ecma130_scramble (replicate 2352 5)) =
     map2 (XOR) (drop 12 (replicate 2352 5)) (scrambler_bytes 2340 1)"
  by (rule scramble_involution) simp



end
