(* ===== verification/Ring_Buffer.thy ===== *)
theory Ring_Buffer
  imports Bytes "HOL-Library.Sublist"
begin

text \<open>
  The ring buffer of \<open>libisofs/buffer.c\<close> between the thread that produces an image and
  the one that burns it.

  The first part models the operations on \<open>struct iso_ring_buffer\<close>.  Each pass of the
  loops in \<open>iso_ring_buffer_write\<close> and \<open>iso_ring_buffer_read\<close> is one critical section; it
  is a function of the buffer which copies, returns, or goes to sleep in
  \<open>pthread_cond_wait\<close>.  The second part runs one writer and one reader in any
  interleaving of their critical sections, with the sleeping states and the signals.
\<close>

section \<open>The contract of a byte queue\<close>

text \<open>
  \<open>push\<close> accepts a part of the offered bytes, \<open>pull\<close> hands out at most the requested
  number; both make progress when there is room or content.
\<close>

locale byte_queue =
  fixes wf :: "'q \<Rightarrow> bool"
    and contents :: "'q \<Rightarrow> 'a list"
    and room :: "'q \<Rightarrow> nat"
    and push :: "'q \<Rightarrow> 'a list \<Rightarrow> 'q \<times> nat"
    and pull :: "'q \<Rightarrow> nat \<Rightarrow> 'q \<times> 'a list"
  assumes push_wf: "wf q \<Longrightarrow> wf (fst (push q xs))"
    and push_contents: "wf q \<Longrightarrow> contents (fst (push q xs)) = contents q @ take (snd (push q xs)) xs"
    and push_room: "wf q \<Longrightarrow> room (fst (push q xs)) = room q - snd (push q xs)"
    and push_le: "wf q \<Longrightarrow> snd (push q xs) \<le> min (length xs) (room q)"
    and push_progress: "wf q \<Longrightarrow> xs \<noteq> [] \<Longrightarrow> 0 < room q \<Longrightarrow> 0 < snd (push q xs)"
    and pull_wf: "wf q \<Longrightarrow> wf (fst (pull q n))"
    and pull_contents: "wf q \<Longrightarrow> contents q = snd (pull q n) @ contents (fst (pull q n))"
    and pull_room: "wf q \<Longrightarrow> room (fst (pull q n)) = room q + length (snd (pull q n))"
    and pull_le: "wf q \<Longrightarrow> length (snd (pull q n)) \<le> n"
    and pull_progress: "wf q \<Longrightarrow> 0 < n \<Longrightarrow> contents q \<noteq> [] \<Longrightarrow> snd (pull q n) \<noteq> []"
begin

text \<open>What has gone in is what came out, followed by the contents.\<close>

definition fifo :: "'a list \<Rightarrow> 'q \<Rightarrow> 'a list \<Rightarrow> bool" where
  "fifo inp q out \<longleftrightarrow> wf q \<and> inp = out @ contents q"

lemma fifo_push: "fifo inp q out \<Longrightarrow> fifo (inp @ take (snd (push q xs)) xs) (fst (push q xs)) out"
  by (simp add: fifo_def push_wf push_contents)

lemma fifo_pull: "fifo inp q out \<Longrightarrow> fifo inp (fst (pull q n)) (out @ snd (pull q n))"
  using pull_contents [of q n] by (simp add: fifo_def pull_wf)

lemma fifo_prefix: "fifo inp q out \<Longrightarrow> prefix out inp"
  by (simp add: fifo_def)

lemma fifo_drained: "fifo inp q out \<Longrightarrow> contents q = [] \<Longrightarrow> out = inp"
  by (simp add: fifo_def)

end

section \<open>The buffer\<close>

record iso_ring_buffer =
  buf :: "byte list"
  cap :: nat
  fill :: nat
  rpos :: nat
  wpos :: nat
  rend :: nat
  wend :: nat
  times_full :: u32
  times_empty :: u32

text \<open>\<open>fill\<close> is the field \<open>size\<close>.  \<open>mem\<close> tells whether \<open>malloc\<close> yields memory.\<close>

definition iso_ring_buffer_new :: "bool \<Rightarrow> nat \<Rightarrow> iso_ring_buffer res" where
  "iso_ring_buffer_new mem blocks =
     (if \<not> mem then Inl ISO_OUT_OF_MEM
      else let c = (if blocks > 32 then blocks else 32) * 2048
           in Inr \<lparr>buf = replicate c 0, cap = c, fill = 0, rpos = 0, wpos = 0,
                   rend = 0, wend = 0, times_full = 0, times_empty = 0\<rparr>)"

text \<open>The copying part of the two loops, executed when there is room or data.\<close>

definition write_copy :: "iso_ring_buffer \<Rightarrow> byte list \<Rightarrow> iso_ring_buffer \<times> nat" where
  "write_copy b rest =
     (let len = min (length rest) (cap b - fill b);
          len = (if wpos b + len > cap b then cap b - wpos b else len)
      in (b\<lparr>buf := take (wpos b) (buf b) @ take len rest @ drop (wpos b + len) (buf b),
            wpos := (wpos b + len) mod cap b,
            fill := fill b + len\<rparr>, len))"

definition read_copy :: "iso_ring_buffer \<Rightarrow> nat \<Rightarrow> iso_ring_buffer \<times> byte list" where
  "read_copy b wanted =
     (let len = min wanted (fill b);
          len = (if rpos b + len > cap b then cap b - rpos b else len)
      in (b\<lparr>rpos := (rpos b + len) mod cap b, fill := fill b - len\<rparr>,
          take len (drop (rpos b) (buf b))))"

datatype section_end = Returns int | Waits | Goes_on

text \<open>
  One pass of the loop of \<open>iso_ring_buffer_write\<close> with \<open>k = bytes_write\<close>, from the test of
  the loop condition to the release of the mutex or to the wait.
\<close>

definition write_section ::
  "iso_ring_buffer \<Rightarrow> byte list \<Rightarrow> nat \<Rightarrow> iso_ring_buffer \<times> nat \<times> section_end" where
  "write_section b data k =
     (if k < length data then
        if fill b = cap b then
          if rend b \<noteq> 0 then (b, k, Returns 0)
          else (b\<lparr>times_full := times_full b + 1\<rparr>, k, Waits)
        else (case write_copy b (drop k data) of (b', len) \<Rightarrow> (b', k + len, Goes_on))
      else (b, k, Returns 1))"

definition read_section ::
  "iso_ring_buffer \<Rightarrow> nat \<Rightarrow> byte list \<Rightarrow> iso_ring_buffer \<times> byte list \<times> section_end" where
  "read_section b count dest =
     (if length dest < count then
        if fill b = 0 then
          if wend b \<noteq> 0 then (b, dest, Returns 0)
          else (b\<lparr>times_empty := times_empty b + 1\<rparr>, dest, Waits)
        else (case read_copy b (count - length dest) of (b', got) \<Rightarrow> (b', dest @ got, Goes_on))
      else (b, dest, Returns 1))"

definition iso_ring_buffer_writer_close :: "iso_ring_buffer \<Rightarrow> bool \<Rightarrow> iso_ring_buffer" where
  "iso_ring_buffer_writer_close b error = b\<lparr>wend := (if error then 2 else 1)\<rparr>"

definition iso_ring_buffer_reader_close :: "iso_ring_buffer \<Rightarrow> bool \<Rightarrow> iso_ring_buffer" where
  "iso_ring_buffer_reader_close b error =
     (if rend b \<noteq> 0 then b else b\<lparr>rend := (if error then 2 else 1)\<rparr>)"

text \<open>The result, \<open>*size\<close> and \<open>*free_bytes\<close>.\<close>

definition iso_ring_buffer_get_buf_status :: "iso_ring_buffer \<Rightarrow> nat \<times> nat \<times> nat" where
  "iso_ring_buffer_get_buf_status b =
     ((if rend b \<noteq> 0 then 4 else 0) + (wend b + 1), cap b, cap b - fill b)"

text \<open>
  A call of \<open>iso_ring_buffer_write\<close> as long as the other thread does nothing; \<open>Waits\<close> when
  it goes to sleep, \<open>None\<close> when the fuel is used up.
\<close>

fun iso_ring_buffer_write ::
  "nat \<Rightarrow> iso_ring_buffer \<Rightarrow> byte list \<Rightarrow> nat \<Rightarrow> (iso_ring_buffer \<times> nat \<times> section_end) option" where
  "iso_ring_buffer_write 0 b data k = None"
| "iso_ring_buffer_write (Suc fuel) b data k =
     (case write_section b data k of
        (b', k', Goes_on) \<Rightarrow> iso_ring_buffer_write fuel b' data k'
      | r \<Rightarrow> Some r)"

fun iso_ring_buffer_read ::
  "nat \<Rightarrow> iso_ring_buffer \<Rightarrow> nat \<Rightarrow> byte list \<Rightarrow>
     (iso_ring_buffer \<times> byte list \<times> section_end) option" where
  "iso_ring_buffer_read 0 b count dest = None"
| "iso_ring_buffer_read (Suc fuel) b count dest =
     (case read_section b count dest of
        (b', dest', Goes_on) \<Rightarrow> iso_ring_buffer_read fuel b' count dest'
      | r \<Rightarrow> Some r)"

section \<open>The buffer as a queue\<close>

definition wf_buffer :: "iso_ring_buffer \<Rightarrow> bool" where
  "wf_buffer b \<longleftrightarrow> 0 < cap b \<and> length (buf b) = cap b \<and> rpos b < cap b \<and> fill b \<le> cap b \<and>
     wpos b = (rpos b + fill b) mod cap b"

definition contents :: "iso_ring_buffer \<Rightarrow> byte list" where
  "contents b = map (\<lambda>i. buf b ! ((rpos b + i) mod cap b)) [0..<fill b]"

definition room :: "iso_ring_buffer \<Rightarrow> nat" where
  "room b = cap b - fill b"

lemma length_contents [simp]: "length (contents b) = fill b"
  by (simp add: contents_def)

lemma mod_distinct:
  fixes c :: nat
  assumes "i < j" "j < i + c"
  shows "i mod c \<noteq> j mod c"
proof
  assume "i mod c = j mod c"
  then have "c dvd j - i" using assms(1) by (metis less_imp_le mod_eq_dvd_iff_nat)
  with assms show False by (auto dest: dvd_imp_le)
qed

lemma mod_add_small: "x mod c + y < c \<Longrightarrow> (x + y) mod c = x mod c + (y :: nat)"
  by (metis mod_add_left_eq mod_less)

lemma write_copy_len:
  "wf_buffer b \<Longrightarrow> snd (write_copy b xs) \<le> length xs \<and> snd (write_copy b xs) \<le> room b \<and>
     wpos b + snd (write_copy b xs) \<le> cap b \<and>
     (xs \<noteq> [] \<longrightarrow> 0 < room b \<longrightarrow> 0 < snd (write_copy b xs))"
  by (auto simp: write_copy_def Let_def wf_buffer_def room_def)

lemma write_copy_fields:
  "n = snd (write_copy b xs) \<Longrightarrow>
   fst (write_copy b xs) = b\<lparr>buf := take (wpos b) (buf b) @ take n xs @ drop (wpos b + n) (buf b),
     wpos := (wpos b + n) mod cap b, fill := fill b + n\<rparr>"
  by (simp add: write_copy_def Let_def)

lemma write_copy_wf: "wf_buffer b \<Longrightarrow> wf_buffer (fst (write_copy b xs))"
proof -
  assume b: "wf_buffer b"
  define n where "n = snd (write_copy b xs)"
  show ?thesis
    using b write_copy_len [OF b, of xs] unfolding write_copy_fields [OF n_def]
    by (auto simp: wf_buffer_def room_def mod_simps add.assoc simp flip: n_def)
qed

lemma write_copy_contents:
  assumes "wf_buffer b"
  shows "contents (fst (write_copy b xs)) = contents b @ take (snd (write_copy b xs)) xs"
proof -
  define n where "n = snd (write_copy b xs)"
  note f = write_copy_fields [OF n_def]
  have n: "n \<le> length xs" "fill b + n \<le> cap b" "wpos b + n \<le> cap b"
    using write_copy_len [OF assms, of xs] assms
    by (auto simp: n_def room_def wf_buffer_def)
  note b = assms [unfolded wf_buffer_def]
  let ?b = "fst (write_copy b xs)"
  show ?thesis
  proof (rule nth_equalityI)
    show "length (contents ?b) = length (contents b @ take (snd (write_copy b xs)) xs)"
      using n by (simp add: f flip: n_def)
  next
    fix i
    assume "i < length (contents ?b)"
    then have i: "i < fill b + n" by (simp add: f)
    define p where "p = (rpos b + i) mod cap b"
    have p: "p < cap b" "wpos b < cap b" using b by (simp_all add: p_def)
    have c: "contents ?b ! i = (take (wpos b) (buf b) @ take n xs @ drop (wpos b + n) (buf b)) ! p"
      using i by (simp add: f contents_def p_def)
    show "contents ?b ! i = (contents b @ take (snd (write_copy b xs)) xs) ! i"
    proof (cases "i < fill b")
      case True
      have "p \<noteq> wpos b + j" if "j < n" for j
      proof -
        have "(rpos b + fill b + j) mod cap b = wpos b + j"
          using b n that by (simp add: mod_add_small)
        moreover have "(rpos b + i) mod cap b \<noteq> (rpos b + fill b + j) mod cap b"
          using True that n by (intro mod_distinct) simp_all
        ultimately show ?thesis by (simp add: p_def)
      qed
      then have "p < wpos b \<or> wpos b + n \<le> p" by (metis le_add_diff_inverse nat_add_left_cancel_less not_le)
      then have "contents ?b ! i = buf b ! p"
        using b n p unfolding c by (auto simp: nth_append min_def)
      then show ?thesis using True by (simp add: contents_def p_def nth_append)
    next
      case False
      define j where "j = i - fill b"
      have j: "i = fill b + j" "j < n" using False i by (simp_all add: j_def)
      have "p = wpos b + j"
        using b n j by (simp add: p_def mod_add_small flip: add.assoc)
      then show ?thesis
        using b n j unfolding c by (simp add: nth_append min_def flip: n_def)
    qed
  qed
qed

lemma read_copy_len:
  "wf_buffer b \<Longrightarrow> length (snd (read_copy b m)) \<le> m \<and> length (snd (read_copy b m)) \<le> fill b \<and>
     rpos b + length (snd (read_copy b m)) \<le> cap b \<and>
     (0 < m \<longrightarrow> 0 < fill b \<longrightarrow> 0 < length (snd (read_copy b m)))"
  by (auto simp: read_copy_def Let_def wf_buffer_def)

lemma read_copy_fields:
  assumes "wf_buffer b" "n = length (snd (read_copy b m))"
  shows "fst (read_copy b m) = b\<lparr>rpos := (rpos b + n) mod cap b, fill := fill b - n\<rparr>"
    and "snd (read_copy b m) = take n (drop (rpos b) (buf b))"
  using assms by (auto simp: read_copy_def Let_def wf_buffer_def)

lemma read_copy_wf: "wf_buffer b \<Longrightarrow> wf_buffer (fst (read_copy b m))"
proof -
  assume b: "wf_buffer b"
  define n where "n = length (snd (read_copy b m))"
  show ?thesis
    using b read_copy_len [OF b, of m] mod_add_left_eq [of "rpos b + n" "cap b" "fill b - n"]
    unfolding read_copy_fields(1) [OF b n_def]
    by (auto simp: wf_buffer_def simp flip: n_def)
qed

lemma read_copy_contents:
  assumes "wf_buffer b"
  shows "contents b = snd (read_copy b m) @ contents (fst (read_copy b m))"
proof -
  define n where "n = length (snd (read_copy b m))"
  note f = read_copy_fields [OF assms n_def]
  have n: "n \<le> fill b" "rpos b + n \<le> cap b"
    using read_copy_len [OF assms, of m] by (simp_all add: n_def)
  note b = assms [unfolded wf_buffer_def]
  show ?thesis
    unfolding f
  proof (rule nth_equalityI)
    show "length (contents b) = length (take n (drop (rpos b) (buf b)) @
        contents (b\<lparr>rpos := (rpos b + n) mod cap b, fill := fill b - n\<rparr>))"
      using n b by simp
  next
    fix i
    assume "i < length (contents b)"
    then show "contents b ! i = (take n (drop (rpos b) (buf b)) @
        contents (b\<lparr>rpos := (rpos b + n) mod cap b, fill := fill b - n\<rparr>)) ! i"
      using n b by (auto simp: contents_def nth_append mod_simps add.assoc)
  qed
qed

interpretation rbq: byte_queue wf_buffer contents room write_copy read_copy
proof unfold_locales
  fix q :: iso_ring_buffer and xs :: "byte list" and n
  assume q: "wf_buffer q"
  show "wf_buffer (fst (write_copy q xs))" using q by (rule write_copy_wf)
  show "contents (fst (write_copy q xs)) = contents q @ take (snd (write_copy q xs)) xs"
    using q by (rule write_copy_contents)
  show "room (fst (write_copy q xs)) = room q - snd (write_copy q xs)"
    by (simp add: write_copy_def Let_def room_def)
  show "snd (write_copy q xs) \<le> min (length xs) (room q)"
    using write_copy_len [OF q, of xs] by simp
  show "wf_buffer (fst (read_copy q n))" using q by (rule read_copy_wf)
  show "contents q = snd (read_copy q n) @ contents (fst (read_copy q n))"
    using q by (rule read_copy_contents)
  show "room (fst (read_copy q n)) = room q + length (snd (read_copy q n))"
    using q by (auto simp: read_copy_def Let_def room_def wf_buffer_def)
  show "length (snd (read_copy q n)) \<le> n" using read_copy_len [OF q, of n] by simp
  show "0 < snd (write_copy q xs)" if "xs \<noteq> []" "0 < room q"
    using write_copy_len [OF q, of xs] that by simp
  show "snd (read_copy q n) \<noteq> []" if "0 < n" "contents q \<noteq> []"
  proof -
    have "0 < fill q" using that(2) by (metis length_contents length_greater_0_conv)
    then show ?thesis using read_copy_len [OF q, of n] that(1) by auto
  qed
qed

section \<open>A writer and a reader thread\<close>

text \<open>
  \<open>W_run data k\<close> is a writer in \<open>iso_ring_buffer_write\<close> which has written \<open>k\<close> bytes of
  \<open>data\<close> and is about to take the mutex, \<open>W_wait\<close> one that sleeps on the condition
  \<open>full\<close>; \<open>W_ret r data\<close> is outside after the result \<open>r\<close>.  The reader is alike, with
  \<open>dest\<close> what it has copied so far.
\<close>

datatype writer =
    W_ret int "byte list"
  | W_run "byte list" nat
  | W_wait "byte list" nat
  | W_closed

datatype reader =
    R_ret int nat "byte list"
  | R_run nat "byte list"
  | R_wait nat "byte list"
  | R_closed

text \<open>
  \<open>offered\<close> collects the data of all write calls, \<open>accepted\<close> what was copied into the
  buffer and \<open>delivered\<close> what was copied out of it.
\<close>

record pipe =
  rb :: iso_ring_buffer
  writer :: writer
  reader :: reader
  offered :: "byte list"
  accepted :: "byte list"
  delivered :: "byte list"

text \<open>\<open>pthread_cond_signal\<close> on \<open>empty\<close> and on \<open>full\<close>.\<close>

fun wake_reader :: "reader \<Rightarrow> reader" where
  "wake_reader (R_wait n dest) = R_run n dest"
| "wake_reader r = r"

fun wake_writer :: "writer \<Rightarrow> writer" where
  "wake_writer (W_wait data k) = W_run data k"
| "wake_writer w = w"

definition writer_section :: "pipe \<Rightarrow> byte list \<Rightarrow> nat \<Rightarrow> pipe" where
  "writer_section p data k =
     (case write_section (rb p) data k of
        (b, k', Returns r) \<Rightarrow> p\<lparr>rb := b, writer := W_ret r data\<rparr>
      | (b, k', Waits) \<Rightarrow> p\<lparr>rb := b, writer := W_wait data k'\<rparr>
      | (b, k', Goes_on) \<Rightarrow>
          p\<lparr>rb := b, writer := W_run data k', reader := wake_reader (reader p),
            accepted := accepted p @ take (k' - k) (drop k data)\<rparr>)"

definition reader_section :: "pipe \<Rightarrow> nat \<Rightarrow> byte list \<Rightarrow> pipe" where
  "reader_section p n dest =
     (case read_section (rb p) n dest of
        (b, dest', Returns r) \<Rightarrow> p\<lparr>rb := b, reader := R_ret r n dest'\<rparr>
      | (b, dest', Waits) \<Rightarrow> p\<lparr>rb := b, reader := R_wait n dest'\<rparr>
      | (b, dest', Goes_on) \<Rightarrow>
          p\<lparr>rb := b, reader := R_run n dest', writer := wake_writer (writer p),
            delivered := delivered p @ drop (length dest) dest'\<rparr>)"

text \<open>
  One step of either thread.  \<open>pthread_cond_wait\<close> may also return without a signal.  The
  writer calls \<open>iso_ring_buffer_writer_close\<close> when it ends, a second time if the work after
  that fails (\<open>write_function\<close> in \<open>ecma119.c\<close>), and writes only while it got no 0 back.
\<close>

inductive pipe_step :: "pipe \<Rightarrow> pipe \<Rightarrow> bool" where
  write_call: "writer p = W_ret 1 d \<Longrightarrow>
     pipe_step p (p\<lparr>writer := W_run data 0, offered := offered p @ data\<rparr>)"
| write_run: "writer p = W_run data k \<Longrightarrow> pipe_step p (writer_section p data k)"
| write_spurious: "writer p = W_wait data k \<Longrightarrow> pipe_step p (p\<lparr>writer := W_run data k\<rparr>)"
| writer_ends: "writer p = W_ret r d \<Longrightarrow>
     pipe_step p (p\<lparr>rb := iso_ring_buffer_writer_close (rb p) error, writer := W_closed,
       reader := wake_reader (reader p)\<rparr>)"
| writer_fails_late: "writer p = W_closed \<Longrightarrow>
     pipe_step p (p\<lparr>rb := iso_ring_buffer_writer_close (rb p) True,
       reader := wake_reader (reader p)\<rparr>)"
| read_call: "reader p = R_ret r m d \<Longrightarrow> pipe_step p (p\<lparr>reader := R_run n []\<rparr>)"
| read_run: "reader p = R_run n dest \<Longrightarrow> pipe_step p (reader_section p n dest)"
| read_spurious: "reader p = R_wait n dest \<Longrightarrow> pipe_step p (p\<lparr>reader := R_run n dest\<rparr>)"
| reader_ends: "reader p = R_ret r m d \<Longrightarrow>
     pipe_step p (p\<lparr>rb := iso_ring_buffer_reader_close (rb p) error, reader := R_closed,
       writer := wake_writer (writer p)\<rparr>)"

inductive_cases pipe_stepE: "pipe_step p q"

definition pipe_start :: "iso_ring_buffer \<Rightarrow> pipe" where
  "pipe_start b = \<lparr>rb = b, writer = W_ret 1 [], reader = R_ret 1 0 [],
     offered = [], accepted = [], delivered = []\<rparr>"

inductive pipe_reachable :: "nat \<Rightarrow> pipe \<Rightarrow> bool" for blocks where
  start: "iso_ring_buffer_new True blocks = Inr b \<Longrightarrow> pipe_reachable blocks (pipe_start b)"
| step: "pipe_reachable blocks p \<Longrightarrow> pipe_step p q \<Longrightarrow> pipe_reachable blocks q"

text \<open>
  The invariant: the queue discipline; what a writer in a call still has to hand over; a
  thread sleeps only while its reason to sleep holds; a final 0 means what it says.
\<close>

fun writer_inv :: "pipe \<Rightarrow> writer \<Rightarrow> bool" where
  "writer_inv p (W_ret r d) \<longleftrightarrow>
     (r = 1 \<and> offered p = accepted p) \<or> (r = 0 \<and> rend (rb p) \<noteq> 0)"
| "writer_inv p (W_run data k) \<longleftrightarrow> k \<le> length data \<and> offered p = accepted p @ drop k data"
| "writer_inv p (W_wait data k) \<longleftrightarrow> k < length data \<and> offered p = accepted p @ drop k data \<and>
     fill (rb p) = cap (rb p) \<and> rend (rb p) = 0"
| "writer_inv p W_closed \<longleftrightarrow> offered p = accepted p \<or> rend (rb p) \<noteq> 0"

fun reader_inv :: "pipe \<Rightarrow> reader \<Rightarrow> bool" where
  "reader_inv p (R_ret r n dest) \<longleftrightarrow> suffix dest (delivered p) \<and>
     ((r = 1 \<and> length dest = n) \<or> (r = 0 \<and> length dest < n \<and> fill (rb p) = 0 \<and> writer p = W_closed))"
| "reader_inv p (R_run n dest) \<longleftrightarrow> length dest \<le> n \<and> suffix dest (delivered p)"
| "reader_inv p (R_wait n dest) \<longleftrightarrow> length dest < n \<and> suffix dest (delivered p) \<and>
     fill (rb p) = 0 \<and> wend (rb p) = 0"
| "reader_inv p R_closed \<longleftrightarrow> rend (rb p) \<noteq> 0"

definition pipe_inv :: "pipe \<Rightarrow> bool" where
  "pipe_inv p \<longleftrightarrow> rbq.fifo (accepted p) (rb p) (delivered p) \<and>
     prefix (accepted p) (offered p) \<and> (wend (rb p) \<noteq> 0 \<longleftrightarrow> writer p = W_closed) \<and>
     (rend (rb p) \<noteq> 0 \<longleftrightarrow> reader p = R_closed) \<and>
     writer_inv p (writer p) \<and> reader_inv p (reader p)"

lemma wf_new: "iso_ring_buffer_new True blocks = Inr b \<Longrightarrow>
   wf_buffer b \<and> contents b = [] \<and> rend b = 0 \<and> wend b = 0"
  by (auto simp: iso_ring_buffer_new_def Let_def wf_buffer_def contents_def split: if_splits)

lemma wf_idle_fields [simp]:
  "rbq.fifo i (b\<lparr>times_full := x\<rparr>) out = rbq.fifo i b out"
  "rbq.fifo i (b\<lparr>times_empty := x\<rparr>) out = rbq.fifo i b out"
  "rbq.fifo i (b\<lparr>rend := e\<rparr>) out = rbq.fifo i b out"
  "rbq.fifo i (b\<lparr>wend := e\<rparr>) out = rbq.fifo i b out"
  by (simp_all add: rbq.fifo_def wf_buffer_def contents_def)

lemma copy_idle_fields [simp]:
  "cap (fst (write_copy b xs)) = cap b" "rend (fst (write_copy b xs)) = rend b"
  "wend (fst (write_copy b xs)) = wend b"
  "cap (fst (read_copy b m)) = cap b" "rend (fst (read_copy b m)) = rend b"
  "wend (fst (read_copy b m)) = wend b"
  by (simp_all add: write_copy_def read_copy_def Let_def)

lemma reader_inv_wake:
  "reader_inv p r \<Longrightarrow> (\<And>v n d. r \<noteq> R_ret v n d) \<Longrightarrow> rend (rb q) = rend (rb p) \<Longrightarrow>
   delivered q = delivered p \<Longrightarrow> reader_inv q (wake_reader r)"
  by (cases r) auto

lemma writer_inv_wake:
  "writer_inv p w \<Longrightarrow> (rend (rb p) \<noteq> 0 \<Longrightarrow> rend (rb q) \<noteq> 0) \<Longrightarrow> offered q = offered p \<Longrightarrow>
   accepted q = accepted p \<Longrightarrow> writer_inv q (wake_writer w)"
  by (cases w) auto

lemma wake_closed [simp]:
  "wake_writer w = W_closed \<longleftrightarrow> w = W_closed" "wake_reader r = R_closed \<longleftrightarrow> r = R_closed"
  by (cases w; simp) (cases r; simp)

lemma reader_inv_ret:
  "reader_inv p (R_ret v n d) \<Longrightarrow> writer p \<noteq> W_closed \<Longrightarrow> v = 1 \<and> length d = n \<and> suffix d (delivered p)"
  by auto

lemma writer_section_inv:
  assumes inv: "pipe_inv p" and w: "writer p = W_run data k"
  shows "pipe_inv (writer_section p data k)"
proof -
  note i = inv [unfolded pipe_inv_def w]
  have r: "reader_inv p (reader p)" using i by simp
  have rr: "v = 1 \<and> length d = n \<and> suffix d (delivered p)" if "reader p = R_ret v n d" for v n d
    using r w that by simp
  show ?thesis
  proof (cases "k < length data")
    case False
    then show ?thesis
      using i r rr by (cases "reader p") (auto simp: writer_section_def write_section_def pipe_inv_def)
  next
    case k: True
    show ?thesis
    proof (cases "fill (rb p) = cap (rb p)")
      case True
      then show ?thesis
        using k i r rr
        by (cases "reader p") (auto simp: writer_section_def write_section_def pipe_inv_def)
    next
      case False
      define n where "n = snd (write_copy (rb p) (drop k data))"
      let ?q = "writer_section p data k"
      have q: "?q = p\<lparr>rb := fst (write_copy (rb p) (drop k data)), writer := W_run data (k + n),
          reader := wake_reader (reader p), accepted := accepted p @ take n (drop k data)\<rparr>"
        using k False by (simp add: writer_section_def write_section_def split_beta n_def)
      have wf: "wf_buffer (rb p)" using i by (simp add: rbq.fifo_def)
      have n: "n \<le> length data - k"
        using rbq.push_le [OF wf, of "drop k data"] by (simp add: n_def)
      have fifo: "rbq.fifo (accepted ?q) (rb ?q) (delivered ?q)"
        using rbq.fifo_push [of "accepted p" "rb p" "delivered p" "drop k data"] i
        by (simp add: q n_def)
      have "writer_inv ?q (writer ?q)"
        using i n k by (auto simp: q add.commute [of k] simp flip: drop_drop)
      moreover have "prefix (accepted ?q) (offered ?q)"
        using i by (auto simp: q take_is_prefix)
      moreover have "reader_inv ?q (reader ?q)"
        using r rr by (cases "reader p") (auto simp: q)
      ultimately show ?thesis
        using fifo i by (simp add: pipe_inv_def q take_is_prefix)
    qed
  qed
qed

lemma reader_section_inv:
  assumes inv: "pipe_inv p" and r: "reader p = R_run m dest"
  shows "pipe_inv (reader_section p m dest)"
proof -
  note i = inv [unfolded pipe_inv_def r]
  have w: "writer_inv p (writer p)" using i by simp
  show ?thesis
  proof (cases "length dest < m")
    case False
    then show ?thesis
      using i w by (cases "writer p") (auto simp: reader_section_def read_section_def pipe_inv_def)
  next
    case m: True
    show ?thesis
    proof (cases "fill (rb p) = 0")
      case True
      then show ?thesis
        using m i w
        by (cases "writer p") (auto simp: reader_section_def read_section_def pipe_inv_def)
    next
      case False
      define got where "got = snd (read_copy (rb p) (m - length dest))"
      let ?q = "reader_section p m dest"
      have q: "?q = p\<lparr>rb := fst (read_copy (rb p) (m - length dest)), reader := R_run m (dest @ got),
          writer := wake_writer (writer p), delivered := delivered p @ got\<rparr>"
        using m False by (simp add: reader_section_def read_section_def split_beta got_def)
      have wf: "wf_buffer (rb p)" using i by (simp add: rbq.fifo_def)
      have n: "length got \<le> m - length dest"
        using rbq.pull_le [OF wf, of "m - length dest"] by (simp add: got_def)
      have fifo: "rbq.fifo (accepted ?q) (rb ?q) (delivered ?q)"
        using rbq.fifo_pull [of "accepted p" "rb p" "delivered p" "m - length dest"] i
        by (simp add: q got_def)
      have "reader_inv ?q (reader ?q)"
        using i n m by (auto simp: q suffix_def)
      moreover have "writer_inv ?q (writer ?q)"
        using w by (cases "writer p") (auto simp: q)
      ultimately show ?thesis
        using fifo i by (simp add: pipe_inv_def q)
    qed
  qed
qed

lemma pipe_step_inv: "pipe_step p q \<Longrightarrow> pipe_inv p \<Longrightarrow> pipe_inv q"
proof (induction rule: pipe_step.induct)
  case (write_call p d data)
  then show ?case by (cases "reader p") (auto simp: pipe_inv_def)
next
  case (write_run p data k)
  then show ?case by (simp add: writer_section_inv)
next
  case (write_spurious p data k)
  then show ?case by (cases "reader p") (auto simp: pipe_inv_def)
next
  case (writer_ends p r d error)
  then show ?case
    by (cases "reader p") (auto simp: pipe_inv_def iso_ring_buffer_writer_close_def)
next
  case (writer_fails_late p)
  then show ?case
    by (cases "reader p") (auto simp: pipe_inv_def iso_ring_buffer_writer_close_def)
next
  case (read_call p r m d n)
  then show ?case by (cases "writer p") (auto simp: pipe_inv_def)
next
  case (read_run p n dest)
  then show ?case by (simp add: reader_section_inv)
next
  case (read_spurious p n dest)
  then show ?case by (cases "writer p") (auto simp: pipe_inv_def)
next
  case (reader_ends p r m d error)
  then show ?case
    by (cases "writer p") (auto simp: pipe_inv_def iso_ring_buffer_reader_close_def)
qed

lemma pipe_reachable_inv: "pipe_reachable blocks p \<Longrightarrow> pipe_inv p"
proof (induction rule: pipe_reachable.induct)
  case (start b)
  then show ?case
    using wf_new [OF start] by (simp add: pipe_inv_def pipe_start_def rbq.fifo_def)
next
  case (step p q)
  then show ?case by (blast intro: pipe_step_inv)
qed

section \<open>Runs without interruption\<close>

lemma write_section_copies:
  assumes "wf_buffer b" "k < length data" "0 < room b"
  obtains b' n where "write_section b data k = (b', k + n, Goes_on)"
    "wf_buffer b'" "0 < n" "n \<le> length data - k" "n \<le> room b" "room b' = room b - n"
    "contents b' = contents b @ take n (drop k data)"
    "rend b' = rend b" "wend b' = wend b"
proof (rule that)
  have "fill b \<noteq> cap b" using assms(3) by (simp add: room_def)
  then show "write_section b data k =
      (fst (write_copy b (drop k data)), k + snd (write_copy b (drop k data)), Goes_on)"
    using assms by (simp add: write_section_def split_beta)
qed (use assms rbq.push_le [OF assms(1), of "drop k data"] in
      \<open>simp_all add: rbq.push_wf rbq.push_progress rbq.push_room rbq.push_contents\<close>)

lemma read_section_copies:
  assumes "wf_buffer b" "length dest < m" "0 < fill b"
  obtains b' got where "read_section b m dest = (b', dest @ got, Goes_on)"
    "wf_buffer b'" "got \<noteq> []" "length got \<le> m - length dest"
    "contents b = got @ contents b'" "rend b' = rend b" "wend b' = wend b"
proof (rule that)
  show "read_section b m dest =
      (fst (read_copy b (m - length dest)), dest @ snd (read_copy b (m - length dest)), Goes_on)"
    using assms by (simp add: read_section_def split_beta)
  have "contents b \<noteq> []" using assms(3) by (metis length_contents length_greater_0_conv)
  then show "snd (read_copy b (m - length dest)) \<noteq> []"
    using assms by (intro rbq.pull_progress) simp_all
qed (use assms rbq.pull_le [OF assms(1)] rbq.pull_contents [OF assms(1)] in
      \<open>simp_all add: rbq.pull_wf\<close>)

lemma write_fits:
  "wf_buffer b \<Longrightarrow> k \<le> length data \<Longrightarrow> length data - k \<le> room b \<Longrightarrow> length data - k < fuel \<Longrightarrow>
   \<exists>b'. iso_ring_buffer_write fuel b data k = Some (b', length data, Returns 1) \<and>
     wf_buffer b' \<and> contents b' = contents b @ drop k data \<and> rend b' = rend b \<and> wend b' = wend b"
proof (induction fuel arbitrary: b k)
  case (Suc fuel)
  show ?case
  proof (cases "k < length data")
    case False
    with Suc.prems show ?thesis by (simp add: write_section_def)
  next
    case True
    with Suc.prems have "0 < room b" by simp
    from write_section_copies [OF Suc.prems(1) True this] obtain b' n where s:
      "write_section b data k = (b', k + n, Goes_on)"
      "wf_buffer b'" "0 < n" "n \<le> length data - k" "n \<le> room b" "room b' = room b - n"
      "contents b' = contents b @ take n (drop k data)" "rend b' = rend b" "wend b' = wend b" .
    have "take n (drop k data) @ drop (k + n) data = drop k data"
      by (metis add.commute append_take_drop_id drop_drop)
    then show ?thesis
      using Suc.IH [of b' "k + n"] s Suc.prems by auto
  qed
qed simp

lemma read_available:
  "wf_buffer b \<Longrightarrow> length dest \<le> m \<Longrightarrow> m - length dest \<le> fill b \<Longrightarrow> m - length dest < fuel \<Longrightarrow>
   \<exists>b'. iso_ring_buffer_read fuel b m dest =
       Some (b', dest @ take (m - length dest) (contents b), Returns 1) \<and>
     wf_buffer b' \<and> contents b' = drop (m - length dest) (contents b)"
proof (induction fuel arbitrary: b dest)
  case (Suc fuel)
  show ?case
  proof (cases "length dest < m")
    case False
    with Suc.prems show ?thesis by (simp add: read_section_def)
  next
    case True
    with Suc.prems have "0 < fill b" by simp
    from read_section_copies [OF Suc.prems(1) True this] obtain b' got where s:
      "read_section b m dest = (b', dest @ got, Goes_on)"
      "wf_buffer b'" "got \<noteq> []" "length got \<le> m - length dest" "contents b = got @ contents b'" .
    then have "fill b = length got + fill b'"
      by (metis length_append length_contents)
    moreover have "Suc 0 \<le> length got" using s by (cases got) simp_all
    ultimately have "length (dest @ got) \<le> m" "m - length (dest @ got) \<le> fill b'"
        "m - length (dest @ got) < fuel"
      using s(4) Suc.prems True by (simp_all del: length_greater_0_conv length_0_conv)
    from Suc.IH [OF s(2) this] show ?thesis
      using s by (auto simp: diff_diff_left)
  qed
qed simp

section \<open>Properties\<close>

text \<open>
  C11: In every interleaving of a writer and a reader, the reader gets a prefix of the
  bytes offered to the writer, at most \<open>cap\<close> bytes behind what was accepted.  A read call
  that reports success has filled its destination with the last bytes delivered, and one
  that reports end-of-file does so only when everything offered was delivered.
\<close>
theorem pipe_transfer:
  assumes "pipe_reachable blocks p"
  shows "prefix (delivered p) (offered p) \<and>
    length (accepted p) \<le> length (delivered p) + cap (rb p) \<and>
    (case reader p of
       R_ret v n dest \<Rightarrow>
         if v = 1 then length dest = n \<and> suffix dest (delivered p)
         else v = 0 \<and> delivered p = offered p
     | _ \<Rightarrow> True)"
proof -
  note i = pipe_reachable_inv [OF assms, unfolded pipe_inv_def]
  then have f: "rbq.fifo (accepted p) (rb p) (delivered p)" by simp
  have pre: "prefix (delivered p) (offered p)"
    using rbq.fifo_prefix [OF f] i by (meson prefix_order.trans)
  have len: "length (accepted p) \<le> length (delivered p) + cap (rb p)"
    using f by (auto simp: rbq.fifo_def wf_buffer_def)
  have eof: "delivered p = offered p" if "reader p = R_ret 0 n dest" for n dest
  proof -
    have "contents (rb p) = []" "offered p = accepted p"
      using i that by (auto simp flip: length_0_conv)
    then show ?thesis using rbq.fifo_drained [OF f] by simp
  qed
  show ?thesis
    using pre len eof i by (cases "reader p") auto
qed

theorem pipe_transfer_witness:
  "\<exists>p. pipe_reachable 32 p \<and> offered p = [1, 2, 3] \<and> writer p = W_run [1, 2, 3] 0 \<and>
     prefix (delivered p) (offered p) \<and> length (accepted p) \<le> length (delivered p) + cap (rb p)"
proof -
  obtain b where b: "iso_ring_buffer_new True 32 = Inr b"
    by (simp add: iso_ring_buffer_new_def Let_def)
  have "pipe_step (pipe_start b) ((pipe_start b)\<lparr>writer := W_run [1, 2, 3] 0,
      offered := offered (pipe_start b) @ [1, 2, 3]\<rparr>)"
    by (rule write_call [of _ "[]"]) (simp add: pipe_start_def)
  with pipe_reachable.start [OF b] have "pipe_reachable 32 ((pipe_start b)\<lparr>writer := W_run [1, 2, 3] 0,
      offered := offered (pipe_start b) @ [1, 2, 3]\<rparr>)"
    by (rule pipe_reachable.step)
  with pipe_transfer [OF this] show ?thesis
    by (intro exI conjI) (auto simp: pipe_start_def)
qed

text \<open>
  C17: No wake-up gets lost.  A writer that sleeps has a full buffer and a reader that is
  neither asleep nor gone, a reader that sleeps has an empty buffer and a writer that is
  neither asleep nor gone.
\<close>
theorem pipe_no_lost_wakeup:
  assumes "pipe_reachable blocks p"
  shows "(case writer p of
       W_wait data k \<Rightarrow> fill (rb p) = cap (rb p) \<and> k < length data \<and>
         (case reader p of R_wait _ _ \<Rightarrow> False | R_closed \<Rightarrow> False | _ \<Rightarrow> True)
     | _ \<Rightarrow> True) \<and>
    (case reader p of
       R_wait n dest \<Rightarrow> fill (rb p) = 0 \<and> length dest < n \<and>
         (case writer p of W_wait _ _ \<Rightarrow> False | W_closed \<Rightarrow> False | _ \<Rightarrow> True)
     | _ \<Rightarrow> True)"
proof -
  note i = pipe_reachable_inv [OF assms, unfolded pipe_inv_def]
  have "0 < cap (rb p)" using i by (simp add: rbq.fifo_def wf_buffer_def)
  then show ?thesis
    using i by (cases "writer p"; cases "reader p") auto
qed

theorem pipe_no_lost_wakeup_witness:
  "\<exists>p. pipe_reachable 32 p \<and> reader p = R_wait 3 [] \<and> fill (rb p) = 0 \<and> writer p \<noteq> W_closed"
proof -
  obtain b where b: "iso_ring_buffer_new True 32 = Inr b"
    by (simp add: iso_ring_buffer_new_def Let_def)
  then have e: "fill b = 0" "wend b = 0"
    by (auto simp: iso_ring_buffer_new_def Let_def)
  let ?p = "(pipe_start b)\<lparr>reader := R_run 3 []\<rparr>" and ?q = "reader_section ((pipe_start b)\<lparr>reader := R_run 3 []\<rparr>) 3 []"
  have "pipe_step (pipe_start b) ?p"
    by (rule read_call [of _ 1 0 "[]"]) (simp add: pipe_start_def)
  moreover have "pipe_step ?p ?q"
    by (rule read_run) simp
  ultimately have r: "pipe_reachable 32 ?q"
    using pipe_reachable.start [OF b] by (blast intro: pipe_reachable.step)
  have "reader ?q = R_wait 3 []"
    using e by (simp add: reader_section_def read_section_def pipe_start_def)
  with r pipe_no_lost_wakeup [OF r] show ?thesis
    by (intro exI [of _ ?q]) (auto split: writer.splits)
qed

text \<open>
  C22: A write that fits into the free room returns success without a wait, with as many
  passes as there are bytes at most, and a following read of the whole fill returns what
  was in the buffer, followed by the bytes written, and leaves the buffer empty.
\<close>
theorem write_read:
  assumes "wf_buffer b" "length data \<le> room b"
  shows "\<exists>b' b''.
    iso_ring_buffer_write (Suc (length data)) b data 0 = Some (b', length data, Returns 1) \<and>
    iso_ring_buffer_read (Suc (fill b')) b' (fill b + length data) [] =
      Some (b'', contents b @ data, Returns 1) \<and> contents b'' = []"
proof -
  obtain b' where b': "iso_ring_buffer_write (Suc (length data)) b data 0 = Some (b', length data, Returns 1)"
    "wf_buffer b'" "contents b' = contents b @ data"
    using write_fits [of b 0 data "Suc (length data)"] assms by auto
  then have f: "fill b' = fill b + length data"
    by (metis length_append length_contents)
  then obtain b'' where "iso_ring_buffer_read (Suc (fill b')) b' (fill b + length data) [] =
      Some (b'', take (fill b + length data) (contents b'), Returns 1)"
    "contents b'' = drop (fill b + length data) (contents b')"
    using read_available [of b' "[]" "fill b + length data" "Suc (fill b')"] b' by auto
  then show ?thesis using b' f by simp
qed

theorem write_read_witness:
  "case iso_ring_buffer_new True 32 of
     Inl _ \<Rightarrow> False
   | Inr b \<Rightarrow> \<exists>b' b''. iso_ring_buffer_write 3 b [7, 8] 0 = Some (b', 2, Returns 1) \<and>
       iso_ring_buffer_read (Suc (fill b')) b' 2 [] = Some (b'', [7, 8], Returns 1)"
proof -
  obtain b where b: "iso_ring_buffer_new True 32 = Inr b" "fill b = 0" "cap b = 65536"
    by (simp add: iso_ring_buffer_new_def Let_def)
  then show ?thesis
    using write_read [of b "[7, 8]"] wf_new [OF b(1)]
    by (auto simp: room_def numeral_3_eq_3 numeral_2_eq_2
        simp del: iso_ring_buffer_write.simps iso_ring_buffer_read.simps)
qed

end
