(* ===== verification/Names.thy ===== *)
theory Names
  imports Bytes
begin

text \<open>
  How libisofs derives ECMA-119 and Joliet file identifiers from names
  (\<open>libisofs/util.c\<close>, \<open>get_iso_name\<close> of \<open>libisofs/ecma119_tree.c\<close>).

  A NULL name is \<open>None\<close>.  \<open>malloc\<close> and \<open>strdup\<close> are taken to succeed here.  Joliet names
  are lists of 16-bit characters; in memory they are big endian.  The conversion to
  ASCII is done by \<open>iconv\<close> of the C library and is a parameter of \<open>get_iso_name\<close>.
\<close>

section \<open>Character classes\<close>

definition valid_d_char :: "byte \<Rightarrow> bool" where
  "valid_d_char c \<longleftrightarrow> (c \<ge> asc CHR ''0'' \<and> c \<le> asc CHR ''9'') \<or>
     (c \<ge> asc CHR ''A'' \<and> c \<le> asc CHR ''Z'') \<or> c = asc CHR ''_''"

definition valid_a_char :: "byte \<Rightarrow> bool" where
  "valid_a_char c \<longleftrightarrow> (c \<ge> asc CHR '' '' \<and> c \<le> 0x22) \<or> (c \<ge> asc CHR ''%'' \<and> c \<le> asc CHR ''?'') \<or>
     (c \<ge> asc CHR ''A'' \<and> c \<le> asc CHR ''Z'') \<or> c = asc CHR ''_''"

text \<open>\<open>cmp_ucsbe\<close>: a 16-bit character against an 8-bit one.\<close>

definition cmp_ucsbe :: "u16 \<Rightarrow> byte \<Rightarrow> int" where
  "cmp_ucsbe u c =
     (let v0 = ucast (drop_bit 8 u) :: byte; v1 = ucast u :: byte
      in if v0 \<noteq> 0 then 1 else if v1 = c then 0 else if c > v1 then -1 else 1)"

definition set_ucsbe :: "byte \<Rightarrow> u16" where
  "set_ucsbe c = ucast c"

definition valid_j_char :: "u16 \<Rightarrow> bool" where
  "valid_j_char c \<longleftrightarrow> cmp_ucsbe c (asc CHR '' '') \<noteq> -1 \<and> cmp_ucsbe c (asc CHR ''*'') \<noteq> 0 \<and>
     cmp_ucsbe c (asc CHR ''/'') \<noteq> 0 \<and> cmp_ucsbe c (asc CHR '':'') \<noteq> 0 \<and>
     cmp_ucsbe c (asc CHR '';'') \<noteq> 0 \<and> cmp_ucsbe c (asc CHR ''?'') \<noteq> 0 \<and>
     cmp_ucsbe c 0x5c \<noteq> 0"

text \<open>
  \<open>relaxed\<close>: the low two bits are 0 for strict ECMA-119, 1 to allow lower case, 2 to allow
  all 8-bit characters; bit 2 allows all 7-bit characters.
\<close>

definition map_fileid_char :: "byte \<Rightarrow> nat \<Rightarrow> byte" where
  "map_fileid_char c relaxed =
     (if c = asc CHR ''/'' then asc CHR ''_''
      else if relaxed AND 3 = 2 then c
      else if valid_d_char c then c
      else if relaxed AND 4 \<noteq> 0 \<and> c AND 0x7f = c \<and> (c < asc CHR ''a'' \<or> c > asc CHR ''z'') then c
      else let upper = toupper c
           in if valid_d_char upper then (if relaxed AND 3 \<noteq> 0 then c else upper)
              else asc CHR ''_'')"

section \<open>Directory and file identifiers of ECMA-119\<close>

definition iso_dirid :: "cstring \<Rightarrow> nat \<Rightarrow> nat \<Rightarrow> cstring" where
  "iso_dirid src maxlen relaxed =
     (let len = (if length src > maxlen then maxlen else length src)
      in map (\<lambda>c. map_fileid_char c relaxed) (take len src))"

definition iso_1_dirid :: "cstring \<Rightarrow> nat \<Rightarrow> cstring" where
  "iso_1_dirid src relaxed = iso_dirid src 8 relaxed"

definition iso_2_dirid :: "cstring \<Rightarrow> cstring" where
  "iso_2_dirid src = iso_dirid src 31 0"

definition iso_r_dirid :: "cstring \<Rightarrow> nat \<Rightarrow> nat \<Rightarrow> cstring" where
  "iso_r_dirid src maxlen relaxed =
     (let len = (if length src > maxlen then maxlen else length src)
      in map (\<lambda>c. map_fileid_char c relaxed) (take len src))"

definition iso_1_fileid :: "cstring option \<Rightarrow> nat \<Rightarrow> bool \<Rightarrow> cstring option" where
  "iso_1_fileid src0 relaxed force_dots =
     (case src0 of None \<Rightarrow> None
      | Some src \<Rightarrow>
          let dot = strrchr src (asc CHR ''.'');
              dot = (if dot = Some 0 \<and> length src > 4 then None else dot);
              lext = (case dot of None \<Rightarrow> 0 | Some d \<Rightarrow> length (drop (d + 1) src));
              lname = length src - lext - (if dot = None then 0 else 1)
          in if lname = 0 \<and> lext = 0 then None
             else Some
               (map (\<lambda>c. if dot = None \<and> c = asc CHR ''.'' then asc CHR ''_''
                         else map_fileid_char c relaxed) (take 8 (take lname src)) @
                (if force_dots \<or> lext > 0 then [asc CHR ''.''] else []) @
                map (\<lambda>c. map_fileid_char c relaxed) (take 3 (take lext (drop (lname + 1) src)))))"

text \<open>
  The split of the available length over name and extension, common to \<open>iso_2_fileid\<close>
  (with 30), \<open>iso_r_fileid\<close> and \<open>iso_j_file_id\<close>: (\<open>lname\<close>, \<open>lnname\<close>, \<open>lnext\<close>).  The
  argument \<open>dot\<close> is the offset of the last dot.
\<close>

definition split_lengths :: "nat \<Rightarrow> nat option \<Rightarrow> nat \<Rightarrow> nat \<times> nat \<times> nat" where
  "split_lengths srclen dot len =
     (case dot of
        Some d \<Rightarrow>
          if d + 1 = srclen then (srclen, (if srclen > len then len else srclen), 0)
          else let lext = srclen - (d + 1);
                   lname = srclen - lext - 1;
                   lnext = (if srclen > len + 1 \<and> lext > 3
                            then (if int lname < int len - 3 then len - lname else 3) else lext);
                   lnname = (if srclen > len + 1 then len - lnext else lname)
               in (lname, lnname, lnext)
      | None \<Rightarrow> (srclen, (if srclen > len then len else srclen), 0))"

definition iso_2_fileid :: "cstring option \<Rightarrow> cstring option" where
  "iso_2_fileid src0 =
     (case src0 of None \<Rightarrow> None
      | Some src \<Rightarrow>
          (case split_lengths (length src) (strrchr src (asc CHR ''.'')) 30 of
             (lname, lnname, lnext) \<Rightarrow>
               if lnname = 0 \<and> lnext = 0 then None
               else let conv = (\<lambda>c. let c = toupper c in if valid_d_char c then c else asc CHR ''_'')
                    in Some (map conv (take lnname src) @ [asc CHR ''.''] @
                             map conv (take lnext (drop (lname + 1) src)))))"

definition iso_r_fileid :: "cstring option \<Rightarrow> nat \<Rightarrow> nat \<Rightarrow> bool \<Rightarrow> cstring option" where
  "iso_r_fileid src0 len relaxed forcedot =
     (case src0 of None \<Rightarrow> None
      | Some src \<Rightarrow>
          (case split_lengths (length src) (strrchr src (asc CHR ''.'')) len of
             (lname, lnname, lnext) \<Rightarrow>
               if lnname = 0 \<and> lnext = 0 then None
               else Some (map (\<lambda>c. map_fileid_char c relaxed) (take lnname src) @
                          (if lnext > 0 \<or> forcedot then [asc CHR ''.''] else []) @
                          map (\<lambda>c. map_fileid_char c relaxed) (take lnext (drop (lname + 1) src)))))"

section \<open>Joliet identifiers\<close>

text \<open>\<open>ucsrchr\<close>: the offset of the last 16-bit character equal to \<open>c\<close>.\<close>

fun ucsrchr :: "u16 list \<Rightarrow> byte \<Rightarrow> nat option" where
  "ucsrchr [] c = None"
| "ucsrchr (x # xs) c =
     (case ucsrchr xs c of
        Some i \<Rightarrow> Some (Suc i)
      | None \<Rightarrow> if cmp_ucsbe x c = 0 then Some 0 else None)"

definition joliet_char :: "u16 \<Rightarrow> u16" where
  "joliet_char c = (if valid_j_char c then c else set_ucsbe (asc CHR ''_''))"

text \<open>\<open>no_force_dots\<close> and \<open>long\<close> are bit 0 and bit 1 of \<open>flag\<close>.\<close>

definition iso_j_file_id :: "u16 list option \<Rightarrow> bool \<Rightarrow> bool \<Rightarrow> u16 list option" where
  "iso_j_file_id src0 no_force_dots long =
     (case src0 of None \<Rightarrow> None
      | Some src \<Rightarrow>
          (case split_lengths (length src) (ucsrchr src (asc CHR ''.'')) (if long then 103 else 64) of
             (lname, lnname, lnext) \<Rightarrow>
               if lnname = 0 \<and> lnext = 0 then None
               else Some (map joliet_char (take lnname src) @
                          (if no_force_dots \<and> lnext = 0 then []
                           else set_ucsbe (asc CHR ''.'') #
                                map joliet_char (take lnext (drop (lname + 1) src))))))"

definition iso_j_dir_id :: "u16 list option \<Rightarrow> bool \<Rightarrow> u16 list option" where
  "iso_j_dir_id src0 long =
     (case src0 of None \<Rightarrow> None
      | Some src \<Rightarrow>
          let maxchar = (if long then 103 else 64);
              len = (if length src > maxchar then maxchar else length src)
          in Some (map joliet_char (take len src)))"

text \<open>\<open>ucscmp\<close> compares the big endian bytes, which is the order of the characters.\<close>

fun ucscmp_bytes :: "nat \<Rightarrow> byte list \<Rightarrow> byte list \<Rightarrow> int" where
  "ucscmp_bytes 0 s t = 0"
| "ucscmp_bytes (Suc n) s t =
     (if hd s < hd t then -1 else if hd s > hd t then 1 else ucscmp_bytes n (tl s) (tl t))"

definition ucs_bytes :: "u16 list \<Rightarrow> byte list" where
  "ucs_bytes s = concat (map (\<lambda>c. [ucast (drop_bit 8 c), ucast c]) s)"

definition ucscmp :: "u16 list \<Rightarrow> u16 list \<Rightarrow> int" where
  "ucscmp s1 s2 =
     (let r = ucscmp_bytes (min (length s1) (length s2) * 2) (ucs_bytes s1) (ucs_bytes s2)
      in if r \<noteq> 0 then r
         else if length s1 < length s2 then -1 else if length s1 > length s2 then 1 else 0)"

section \<open>Volume descriptor strings\<close>

definition str2d_char :: "(cstring \<Rightarrow> cstring res) \<Rightarrow> cstring option \<Rightarrow> cstring option res" where
  "str2d_char str2ascii input =
     (case input of None \<Rightarrow> Inr None
      | Some s \<Rightarrow>
          (case str2ascii s of Inl e \<Rightarrow> Inl e
           | Inr ascii \<Rightarrow> Inr (Some (map (\<lambda>c. let c = toupper c in
               if valid_d_char c then c else asc CHR ''_'') ascii))))"

definition str2a_char :: "(cstring \<Rightarrow> cstring res) \<Rightarrow> cstring option \<Rightarrow> cstring option res" where
  "str2a_char str2ascii input =
     (case input of None \<Rightarrow> Inr None
      | Some s \<Rightarrow>
          (case str2ascii s of Inl e \<Rightarrow> Inl e
           | Inr ascii \<Rightarrow> Inr (Some (map (\<lambda>c. let c = toupper c in
               if valid_a_char c then c else asc CHR ''_'') ascii))))"

section \<open>The identifier of a node\<close>

text \<open>The options of \<open>Ecma119Image\<close> which shape the names.\<close>

record name_opts =
  untranslated_name_len :: nat
  allow_full_ascii :: bool
  allow_lowercase :: bool
  allow_7bit_ascii :: bool
  allow_dir_id_ext :: bool
  max_37_char_filenames :: bool
  iso_level :: nat
  no_force_dots :: bool

definition name_relaxed :: "name_opts \<Rightarrow> nat" where
  "name_relaxed img =
     (let relaxed = (if allow_full_ascii img then 2 else if allow_lowercase img then 1 else 0)
      in if allow_7bit_ascii img then relaxed OR 4 else relaxed)"

text \<open>The result \<open>Inr None\<close> is success without a name, for the root.\<close>

definition get_iso_name ::
  "(cstring \<Rightarrow> cstring res) \<Rightarrow> name_opts \<Rightarrow> bool \<Rightarrow> cstring option \<Rightarrow> cstring option res" where
  "get_iso_name str2ascii img is_dir iso_node_name =
     (case iso_node_name of None \<Rightarrow> Inr None
      | Some nm \<Rightarrow>
          (case (if untranslated_name_len img > 0 then Inr nm else str2ascii nm) of
             Inl e \<Rightarrow> Inl e
           | Inr ascii_name \<Rightarrow>
               let relaxed = name_relaxed img;
                   to_name = (\<lambda>r. case r of None \<Rightarrow> Inl ISO_OUT_OF_MEM | Some n \<Rightarrow> Inr (Some n))
               in if is_dir \<and> \<not> allow_dir_id_ext img then
                    if untranslated_name_len img > 0 then
                      if length ascii_name > untranslated_name_len img then Inl ISO_NAME_NEEDS_TRANSL
                      else Inr (Some ascii_name)
                    else if max_37_char_filenames img then Inr (Some (iso_r_dirid ascii_name 37 relaxed))
                    else if iso_level img = 1 then Inr (Some (iso_1_dirid ascii_name relaxed))
                    else if relaxed \<noteq> 0 then Inr (Some (iso_r_dirid ascii_name 31 relaxed))
                    else Inr (Some (iso_2_dirid ascii_name))
                  else
                    let force_dots = (\<not> (no_force_dots img \<or> is_dir))
                    in if untranslated_name_len img > 0 then
                         if length ascii_name > untranslated_name_len img then Inl ISO_NAME_NEEDS_TRANSL
                         else Inr (Some ascii_name)
                       else if max_37_char_filenames img then
                         to_name (iso_r_fileid (Some ascii_name) 36 relaxed force_dots)
                       else if iso_level img = 1 then
                         to_name (iso_1_fileid (Some ascii_name) relaxed force_dots)
                       else if relaxed \<noteq> 0 \<or> \<not> force_dots then
                         to_name (iso_r_fileid (Some ascii_name) 30 relaxed force_dots)
                       else to_name (iso_2_fileid (Some ascii_name))))"

section \<open>Characters\<close>

text \<open>The characters a name may hold when neither all 8-bit nor all 7-bit ones are allowed.\<close>

definition fileid_char :: "nat \<Rightarrow> byte \<Rightarrow> bool" where
  "fileid_char relaxed c \<longleftrightarrow> valid_d_char c \<or> (relaxed AND 3 \<noteq> 0 \<and> valid_d_char (toupper c))"

definition strict_opts :: "nat \<Rightarrow> bool" where
  "strict_opts relaxed \<longleftrightarrow> relaxed AND 3 \<noteq> 2 \<and> relaxed AND 4 = 0"

lemma d_char_facts [simp]:
  "valid_d_char 0x5f" "\<not> valid_d_char 0x2e" "\<not> valid_d_char 0x2f" "toupper 0x2e = 0x2e"
  by (simp_all add: valid_d_char_def toupper_def)

lemma map_fileid_char_idem [simp]:
  "map_fileid_char (map_fileid_char c relaxed) relaxed = map_fileid_char c relaxed"
  unfolding map_fileid_char_def Let_def by auto

lemma map_fileid_char_class: "strict_opts relaxed \<Longrightarrow> fileid_char relaxed (map_fileid_char c relaxed)"
  unfolding map_fileid_char_def fileid_char_def strict_opts_def Let_def by simp

lemma fileid_char_no_dot: "fileid_char relaxed c \<Longrightarrow> c \<noteq> 0x2e"
  by (auto simp: fileid_char_def)

lemma map_fileid_char_no_dot: "strict_opts relaxed \<Longrightarrow> map_fileid_char c relaxed \<noteq> 0x2e"
  using map_fileid_char_class fileid_char_no_dot by blast

section \<open>The last dot\<close>

lemma strrchr_append: "c \<notin> set b \<Longrightarrow> strrchr (a @ c # b) c = Some (length a)"
proof (induction a)
  case Nil
  then show ?case by (simp add: strrchr_None_iff [THEN iffD2])
qed simp

lemma strrchr_split: "strrchr s c = Some d \<Longrightarrow>
   s = take d s @ c # drop (Suc d) s \<and> c \<notin> set (drop (Suc d) s) \<and> d < length s"
  using strrchr_Some [of s c d] by (auto simp: id_take_nth_drop)

section \<open>The 8.3 names of level 1\<close>

lemma iso_1_fileid_parts:
  assumes "iso_1_fileid (Some src) relaxed force = Some r" "strict_opts relaxed"
  obtains n e where "length n \<le> 8" "length e \<le> 3" "n \<noteq> [] \<or> e \<noteq> []"
    "r = n @ (if force \<or> e \<noteq> [] then 0x2e # e else [])"
    "map (\<lambda>c. map_fileid_char c relaxed) (n @ e) = n @ e"
    "list_all (fileid_char relaxed) (n @ e)"
proof -
  let ?f = "\<lambda>c. map_fileid_char c relaxed"
  define dot where "dot = (if strrchr src 0x2e = Some 0 \<and> length src > 4 then None else strrchr src 0x2e)"
  define lext where "lext = (case dot of None \<Rightarrow> 0 | Some d \<Rightarrow> length (drop (d + 1) src))"
  define lname where "lname = length src - lext - (if dot = None then 0 else 1)"
  define n where "n = map (\<lambda>c. if dot = None \<and> c = 0x2e then 0x5f else ?f c) (take 8 (take lname src))"
  define e where "e = map ?f (take 3 (take lext (drop (lname + 1) src)))"
  have r: "\<not> (lname = 0 \<and> lext = 0)" "r = n @ (if force \<or> lext > 0 then [0x2e] else []) @ e"
    using assms(1) unfolding iso_1_fileid_def
    by (auto simp: Let_def n_def e_def lname_def lext_def dot_def split: if_splits)
  have split: "lname + 1 + lext = length src" if nn: "dot \<noteq> None"
  proof -
    obtain d where d: "dot = Some d" using nn by auto
    then have "d < length src"
      using strrchr_split [of src "0x2e" d] by (auto simp: dot_def split: if_splits)
    then show ?thesis by (simp add: lname_def lext_def d)
  qed
  have ext: "e \<noteq> [] \<longleftrightarrow> 0 < lext"
  proof
    assume "0 < lext"
    then have "dot \<noteq> None" by (cases dot) (simp_all add: lext_def)
    with split \<open>0 < lext\<close> show "e \<noteq> []" by (simp add: e_def)
  qed (auto simp: e_def)
  have und: "?f 0x5f = 0x5f" by (simp add: map_fileid_char_def)
  have cls: "fileid_char relaxed 0x5f" by (simp add: fileid_char_def)
  have "n \<noteq> [] \<or> e \<noteq> []"
  proof (cases "lext = 0")
    case True
    then have "lname \<noteq> 0" using r(1) by simp
    moreover have "lname \<le> length src" by (simp add: lname_def)
    ultimately show ?thesis by (auto simp: n_def)
  next
    case False
    then show ?thesis using ext by simp
  qed
  moreover have "length n \<le> 8" "length e \<le> 3"
    by (simp_all add: n_def e_def)
  moreover have "r = n @ (if force \<or> e \<noteq> [] then 0x2e # e else [])"
    using r(2) ext by auto
  moreover have "map ?f (n @ e) = n @ e"
    by (simp add: n_def e_def und)
  moreover have "list_all (fileid_char relaxed) (n @ e)"
    using map_fileid_char_class [OF assms(2)] cls by (auto simp: n_def e_def list_all_iff)
  ultimately show ?thesis using that by blast
qed

lemma iso_1_fileid_fixed:
  assumes "length n \<le> 8" "length e \<le> 3" "n \<noteq> [] \<or> e \<noteq> []" "0x2e \<notin> set (n @ e)"
    "map (\<lambda>c. map_fileid_char c relaxed) (n @ e) = n @ e"
  shows "iso_1_fileid (Some (n @ (if force \<or> e \<noteq> [] then 0x2e # e else []))) relaxed force =
    Some (n @ (if force \<or> e \<noteq> [] then 0x2e # e else []))"
proof (cases "force \<or> e \<noteq> []")
  case True
  have "strrchr (n @ 0x2e # e) 0x2e = Some (length n)"
    using assms(4) by (simp add: strrchr_append)
  with True assms show ?thesis
    by (auto simp: iso_1_fileid_def Let_def)
next
  case False
  moreover have "strrchr n 0x2e = None" using assms(4) by (simp add: strrchr_None_iff)
  moreover have "map (\<lambda>c. if c = 0x2e then 0x5f else map_fileid_char c relaxed) n = n"
    using assms(4,5) by (induction n) auto
  ultimately show ?thesis
    using assms by (simp add: iso_1_fileid_def cong: if_cong)
qed

section \<open>Truncated names\<close>

definition split_ok :: "nat \<Rightarrow> nat \<Rightarrow> nat \<Rightarrow> nat \<Rightarrow> nat \<Rightarrow> bool" where
  "split_ok len base ext i j \<longleftrightarrow> i \<le> base \<and> j \<le> ext \<and> min 3 ext \<le> j \<and> i + j = min len (base + ext)"

lemma split_lengths_dot:
  assumes "3 \<le> len" "d < srclen" "srclen \<noteq> d + 1"
  shows "case split_lengths srclen (Some d) len of (lname, i, j) \<Rightarrow>
    lname = d \<and> 0 < j \<and> split_ok len d (srclen - (d + 1)) i j"
  using assms by (auto simp: split_lengths_def Let_def split_ok_def)

lemma split_lengths_plain:
  "dot = None \<or> dot = Some (srclen - 1) \<and> 0 < srclen \<Longrightarrow>
   split_lengths srclen dot len = (srclen, min len srclen, 0)"
  by (auto simp: split_lengths_def)

lemma iso_r_fileid_shape:
  assumes "iso_r_fileid (Some src) len relaxed force = Some r" "3 \<le> len"
    "(base, ext) = (case strrchr src 0x2e of
        Some d \<Rightarrow> if d + 1 = length src then (src, []) else (take d src, drop (d + 1) src)
      | None \<Rightarrow> (src, []))"
  shows "\<exists>i j. split_ok len (length base) (length ext) i j \<and>
    r = map (\<lambda>c. map_fileid_char c relaxed) (take i base) @
        (if j > 0 \<or> force then 0x2e # map (\<lambda>c. map_fileid_char c relaxed) (take j ext) else [])"
proof (cases "\<exists>d. strrchr src 0x2e = Some d \<and> d + 1 \<noteq> length src")
  case True
  then obtain d where d: "strrchr src 0x2e = Some d" "d + 1 \<noteq> length src" by blast
  then have dl: "d < length src" using strrchr_split [of src] by blast
  obtain i j where s: "split_lengths (length src) (Some d) len = (d, i, j)" "0 < j"
    "split_ok len d (length src - (d + 1)) i j"
    using split_lengths_dot [OF assms(2) dl] d(2) by (auto split: prod.splits)
  have be: "base = take d src" "ext = drop (d + 1) src" using assms(3) d by auto
  have "take i (take d src) = take i src" using s(3) by (simp add: split_ok_def min_def)
  then show ?thesis
    using assms(1) d dl s by (intro exI [of _ i] exI [of _ j]) (auto simp: be iso_r_fileid_def)
next
  case False
  then have "strrchr src 0x2e = None \<or> strrchr src 0x2e = Some (length src - 1) \<and> 0 < length src"
    using strrchr_split [of src "0x2e"] by (cases "strrchr src 0x2e") force+
  note s = split_lengths_plain [OF this, of len]
  have be: "base = src" "ext = []" using assms(3) False by (auto split: option.splits if_splits)
  show ?thesis
    using assms(1) s by (intro exI [of _ "min len (length src)"] exI [of _ 0])
      (auto simp: be iso_r_fileid_def split_ok_def split: if_splits)
qed

lemma ucsrchr_Some: "ucsrchr s c = Some d \<Longrightarrow> d < length s"
  by (induction s arbitrary: d) (auto split: option.splits if_splits)

lemma joliet_char_valid: "valid_j_char (joliet_char c)"
  by (simp add: joliet_char_def valid_j_char_def cmp_ucsbe_def set_ucsbe_def Let_def)

lemma set_ucsbe_dot_valid: "valid_j_char (set_ucsbe 0x2e)"
  by (simp add: valid_j_char_def cmp_ucsbe_def set_ucsbe_def Let_def)

lemma iso_j_file_id_shape:
  assumes "iso_j_file_id (Some src) nodots long = Some r"
    "(base, ext) = (case ucsrchr src 0x2e of
        Some d \<Rightarrow> if d + 1 = length src then (src, []) else (take d src, drop (d + 1) src)
      | None \<Rightarrow> (src, []))"
  shows "\<exists>i j. split_ok (if long then 103 else 64) (length base) (length ext) i j \<and>
    r = map joliet_char (take i base) @
        (if nodots \<and> j = 0 then [] else set_ucsbe 0x2e # map joliet_char (take j ext))"
proof (cases "\<exists>d. ucsrchr src 0x2e = Some d \<and> d + 1 \<noteq> length src")
  case True
  define len :: nat where "len = (if long then 103 else 64)"
  then have len: "3 \<le> len" by simp
  from True obtain d where d: "ucsrchr src 0x2e = Some d" "d + 1 \<noteq> length src" by blast
  then have dl: "d < length src" using ucsrchr_Some by blast
  obtain i j where s: "split_lengths (length src) (Some d) len = (d, i, j)" "0 < j"
    "split_ok len d (length src - (d + 1)) i j"
    using split_lengths_dot [OF len dl] d(2) by (auto split: prod.splits)
  have be: "base = take d src" "ext = drop (d + 1) src" using assms(2) d by auto
  have "take i (take d src) = take i src" using s(3) by (simp add: split_ok_def min_def)
  then show ?thesis
    using assms(1) d dl s unfolding len_def [symmetric]
    by (intro exI [of _ i] exI [of _ j]) (auto simp: be iso_j_file_id_def simp flip: len_def)
next
  case False
  then have "ucsrchr src 0x2e = None \<or> ucsrchr src 0x2e = Some (length src - 1) \<and> 0 < length src"
    using ucsrchr_Some [of src "0x2e"] by (cases "ucsrchr src 0x2e") force+
  note s = split_lengths_plain [OF this, of "if long then 103 else 64"]
  have be: "base = src" "ext = []" using assms(2) False by (auto split: option.splits if_splits)
  show ?thesis
    using assms(1) s
    by (intro exI [of _ "min (if long then 103 else 64) (length src)"] exI [of _ 0])
      (auto simp: be iso_j_file_id_def split_ok_def split: if_splits)
qed

section \<open>The order of Joliet names\<close>

lemma u16_bytes: "unat (c :: u16) = 256 * unat (ucast (drop_bit 8 c) :: byte) + unat (ucast c :: byte)"
proof -
  have "unat c div 256 < 256"
    using unsigned_less [of c, where ?'a = nat] by simp
  moreover have "unat (drop_bit 8 c) = unat c div 256"
    unfolding unsigned_drop_bit_eq using unsigned_less [of c, where ?'a = nat]
    by (simp add: drop_bit_eq_div take_bit_nat_eq_self)
  ultimately have "unat (ucast (drop_bit 8 c) :: byte) = unat c div 256"
    unfolding unsigned_ucast_eq by (simp add: take_bit_eq_mod)
  moreover have "unat (ucast c :: byte) = unat c mod 256"
    by (simp add: unsigned_ucast_eq take_bit_eq_mod)
  ultimately show ?thesis by simp
qed

lemma ucs_bytes_Cons [simp]: "ucs_bytes (c # s) = ucast (drop_bit 8 c) # ucast c # ucs_bytes s"
  by (simp add: ucs_bytes_def)

lemma u16_less: "(c :: u16) < d \<longleftrightarrow> (ucast (drop_bit 8 c) :: byte) < ucast (drop_bit 8 d) \<or>
    (ucast (drop_bit 8 c) :: byte) = ucast (drop_bit 8 d) \<and> (ucast c :: byte) < ucast d"
proof -
  have lt: "unat (ucast c :: byte) < 256" "unat (ucast d :: byte) < 256"
    using unsigned_less [of "ucast c :: byte", where ?'a = nat]
      unsigned_less [of "ucast d :: byte", where ?'a = nat] by simp_all
  show ?thesis
    unfolding word_less_nat_alt word_unat_eq_iff u16_bytes [of c] u16_bytes [of d]
    using lt by linarith
qed

lemma u16_eq: "(c :: u16) = d \<longleftrightarrow> (ucast (drop_bit 8 c) :: byte) = ucast (drop_bit 8 d) \<and>
    (ucast c :: byte) = ucast d"
  by (metis less_irrefl linorder_neqE u16_less)

lemma ucscmp_simps [simp]:
  "ucscmp [] [] = 0" "ucscmp [] (d # t) = -1" "ucscmp (c # s) [] = 1"
  "ucscmp (c # s) (d # t) = (if c < d then -1 else if d < c then 1 else ucscmp s t)"
  by (auto simp: ucscmp_def Let_def u16_less u16_eq)

lemma ucscmp_order: "(ucscmp s t < 0 \<longleftrightarrow> s < t) \<and> (ucscmp s t = 0 \<longleftrightarrow> s = t)"
proof (induction s arbitrary: t)
  case Nil
  then show ?case by (cases t) simp_all
next
  case (Cons c s)
  then show ?case by (cases t) auto
qed

section \<open>Properties\<close>

text \<open>
  C24: A level 1 file identifier in strict or lowercase mode has the 8.3 shape: at most 8
  permitted characters, then, if there is an extension or the dot is forced, a dot and at
  most 3 permitted characters; both parts cannot be empty.  Converting the identifier once
  more does not change it.
\<close>
theorem iso_1_fileid_8_3:
  assumes "iso_1_fileid (Some src) relaxed force = Some r" "strict_opts relaxed"
  shows "(\<exists>n e. r = n @ (if force \<or> e \<noteq> [] then asc CHR ''.'' # e else []) \<and>
      length n \<le> 8 \<and> length e \<le> 3 \<and> (n \<noteq> [] \<or> e \<noteq> []) \<and>
      list_all (fileid_char relaxed) (n @ e)) \<and>
    iso_1_fileid (Some r) relaxed force = Some r"
proof -
  obtain n e where ne: "length n \<le> 8" "length e \<le> 3" "n \<noteq> [] \<or> e \<noteq> []"
    "r = n @ (if force \<or> e \<noteq> [] then 0x2e # e else [])"
    "map (\<lambda>c. map_fileid_char c relaxed) (n @ e) = n @ e" "list_all (fileid_char relaxed) (n @ e)"
    using iso_1_fileid_parts [OF assms] .
  have "0x2e \<notin> set (n @ e)" using ne(6) fileid_char_no_dot by (auto simp: list_all_iff)
  from iso_1_fileid_fixed [OF ne(1-3) this ne(5), of force] ne show ?thesis
    by (intro conjI exI [of _ n] exI [of _ e]) simp_all
qed

theorem iso_1_fileid_8_3_witness:
  "\<exists>r. iso_1_fileid (Some (str ''long.name.text'')) 0 True = Some r \<and> r = str ''LONG_NAM.TEX'' \<and>
     iso_1_fileid (Some r) 0 True = Some r"
proof -
  have "iso_1_fileid (Some (str ''long.name.text'')) 0 True = Some (str ''LONG_NAM.TEX'')"
    by code_simp
  then show ?thesis
    using iso_1_fileid_8_3 [of "str ''long.name.text''" 0 True "str ''LONG_NAM.TEX''"]
    by (simp add: strict_opts_def)
qed

text \<open>
  C25: \<open>iso_r_fileid\<close> keeps a beginning of the base name and of the extension (the part
  behind the last dot, if it is not empty).  Together they use all of the available
  length if the name is too long and are complete otherwise, and at least 3 characters
  of the extension survive.
\<close>
theorem iso_r_fileid_truncates:
  assumes "iso_r_fileid (Some src) len relaxed force = Some r" "3 \<le> len"
    "(base, ext) = (case strrchr src (asc CHR ''.'') of
        Some d \<Rightarrow> if d + 1 = length src then (src, []) else (take d src, drop (d + 1) src)
      | None \<Rightarrow> (src, []))"
  shows "\<exists>i j. i \<le> length base \<and> j \<le> length ext \<and> min 3 (length ext) \<le> j \<and>
    i + j = min len (length base + length ext) \<and>
    r = map (\<lambda>c. map_fileid_char c relaxed) (take i base) @
        (if j > 0 \<or> force then asc CHR ''.'' # map (\<lambda>c. map_fileid_char c relaxed) (take j ext) else [])"
proof -
  obtain i j where "split_ok len (length base) (length ext) i j"
    "r = map (\<lambda>c. map_fileid_char c relaxed) (take i base) @
        (if j > 0 \<or> force then 0x2e # map (\<lambda>c. map_fileid_char c relaxed) (take j ext) else [])"
    using iso_r_fileid_shape [of src len relaxed force r base ext] assms by auto
  then show ?thesis
    by (intro exI [of _ i] exI [of _ j]) (simp add: split_ok_def)
qed

theorem iso_r_fileid_truncates_witness:
  "\<exists>i j. i \<le> length (str ''archive'') \<and> j \<le> length (str ''targz'') \<and>
     min 3 (length (str ''targz'')) \<le> j \<and>
     i + j = min 10 (length (str ''archive'') + length (str ''targz'')) \<and>
     str ''archive.tar'' = map (\<lambda>c. map_fileid_char c 1) (take i (str ''archive'')) @
       (if j > 0 \<or> True
        then asc CHR ''.'' # map (\<lambda>c. map_fileid_char c 1) (take j (str ''targz'')) else [])"
proof (rule iso_r_fileid_truncates)
  show "iso_r_fileid (Some (str ''archive.targz'')) 10 1 True = Some (str ''archive.tar'')"
    by code_simp
  show "(str ''archive'', str ''targz'') =
    (case strrchr (str ''archive.targz'') (asc CHR ''.'') of
       Some d \<Rightarrow> if d + 1 = length (str ''archive.targz'') then (str ''archive.targz'', [])
                 else (take d (str ''archive.targz''), drop (d + 1) (str ''archive.targz''))
     | None \<Rightarrow> (str ''archive.targz'', []))"
    by code_simp
qed simp



text \<open>
  C27: \<open>ucscmp\<close>, which compares the big endian bytes of Joliet names, is the
  lexicographic order of their 16-bit characters.
\<close>
theorem ucscmp_lexicographic:
  "(ucscmp s t < 0 \<longleftrightarrow> s < t) \<and> (ucscmp s t = 0 \<longleftrightarrow> s = t) \<and> (ucscmp s t > 0 \<longleftrightarrow> t < s)"
  using ucscmp_order [of s t] by (cases s t rule: linorder_cases) auto

end
