(* ===== verification/Htable.thy ===== *)
theory Htable
  imports Bytes "HOL-Library.Multiset"
begin

text \<open>
  The hash table of \<open>libisofs/util_htable.c\<close>.  A key is a pointer to what it points at:
  \<open>table->compare\<close> and \<open>table->hash\<close> look at the contents, \<open>iso_htable_remove_ptr\<close>
  compares the pointers, which here is equality of keys.  \<open>mem\<close> tells whether
  \<open>malloc\<close> succeeds.  The freeing of the removed items is left to the caller.
\<close>

section \<open>The table\<close>

record ('k, 'd) iso_htable =
  slots :: "('k \<times> 'd) list list"
  items :: nat
  hash :: "'k \<Rightarrow> u32"
  compare :: "'k \<Rightarrow> 'k \<Rightarrow> int"

definition slot_of :: "('k, 'd) iso_htable \<Rightarrow> 'k \<Rightarrow> nat" where
  "slot_of t key = unat (hash t key) mod length (slots t)"

definition iso_htable_create ::
  "bool \<Rightarrow> nat \<Rightarrow> ('k \<Rightarrow> u32) \<Rightarrow> ('k \<Rightarrow> 'k \<Rightarrow> int) \<Rightarrow> ('k, 'd) iso_htable res" where
  "iso_htable_create mem n h c =
     (if \<not> mem then Inl ISO_OUT_OF_MEM
      else Inr \<lparr>slots = replicate n [], items = 0, hash = h, compare = c\<rparr>)"

definition iso_htable_add ::
  "bool \<Rightarrow> ('k, 'd) iso_htable \<Rightarrow> 'k \<Rightarrow> 'd \<Rightarrow> ('k, 'd) iso_htable res" where
  "iso_htable_add mem t key data =
     (if \<not> mem then Inl ISO_OUT_OF_MEM
      else let i = slot_of t key; node = slots t ! i
           in Inr (t\<lparr>items := items t + 1, slots := (slots t)[i := (key, data) # node]\<rparr>))"

text \<open>The loop over a chain which stops at the first node whose key compares equal.\<close>

fun chain_find :: "('k \<Rightarrow> bool) \<Rightarrow> ('k \<times> 'd) list \<Rightarrow> 'd option" where
  "chain_find P [] = None"
| "chain_find P ((k, d) # rest) = (if P k then Some d else chain_find P rest)"

text \<open>The loop which unlinks the first such node.\<close>

fun chain_unlink :: "('k \<Rightarrow> bool) \<Rightarrow> ('k \<times> 'd) list \<Rightarrow> ('k \<times> 'd) list option" where
  "chain_unlink P [] = None"
| "chain_unlink P ((k, d) # rest) =
     (if P k then Some rest else map_option ((#) (k, d)) (chain_unlink P rest))"

text \<open>\<open>Inr (t, False)\<close> is the result 0: the key exists already.\<close>

definition iso_htable_put ::
  "bool \<Rightarrow> ('k, 'd) iso_htable \<Rightarrow> 'k \<Rightarrow> 'd \<Rightarrow> (('k, 'd) iso_htable \<times> bool) res" where
  "iso_htable_put mem t key data =
     (let i = slot_of t key
      in if chain_find (\<lambda>k. compare t key k = 0) (slots t ! i) \<noteq> None then Inr (t, False)
         else if \<not> mem then Inl ISO_OUT_OF_MEM
         else Inr (t\<lparr>items := items t + 1, slots := (slots t)[i := (key, data) # slots t ! i]\<rparr>, True))"

definition iso_htable_get :: "('k, 'd) iso_htable \<Rightarrow> 'k \<Rightarrow> 'd option" where
  "iso_htable_get t key = chain_find (\<lambda>k. compare t key k = 0) (slots t ! slot_of t key)"

definition unlink_at :: "('k, 'd) iso_htable \<Rightarrow> nat \<Rightarrow> ('k \<Rightarrow> bool) \<Rightarrow> ('k, 'd) iso_htable \<times> bool" where
  "unlink_at t i P =
     (case chain_unlink P (slots t ! i) of
        None \<Rightarrow> (t, False)
      | Some rest \<Rightarrow> (t\<lparr>items := items t - 1, slots := (slots t)[i := rest]\<rparr>, True))"

definition iso_htable_remove :: "('k, 'd) iso_htable \<Rightarrow> 'k \<Rightarrow> ('k, 'd) iso_htable \<times> bool" where
  "iso_htable_remove t key = unlink_at t (slot_of t key) (\<lambda>k. compare t key k = 0)"

definition iso_htable_remove_ptr :: "('k, 'd) iso_htable \<Rightarrow> 'k \<Rightarrow> ('k, 'd) iso_htable \<times> bool" where
  "iso_htable_remove_ptr t key = unlink_at t (slot_of t key) (\<lambda>k. key = k)"

text \<open>\<open>char\<close> is signed, so the byte is sign extended before the exclusive or.\<close>

definition iso_str_hash :: "cstring \<Rightarrow> u32" where
  "iso_str_hash key = foldl (\<lambda>h c. (h * 16777619) XOR scast c) 2166136261 key"

section \<open>The contents of a table\<close>

definition entries :: "('k, 'd) iso_htable \<Rightarrow> ('k \<times> 'd) multiset" where
  "entries t = mset (concat (slots t))"

text \<open>
  Every item is in the slot of its key, the counter is right, and keys which compare
  equal have the same hash.
\<close>

definition wf_htable :: "('k, 'd) iso_htable \<Rightarrow> bool" where
  "wf_htable t \<longleftrightarrow> slots t \<noteq> [] \<and> items t = length (concat (slots t)) \<and>
     (\<forall>i < length (slots t). \<forall>e \<in> set (slots t ! i). slot_of t (fst e) = i) \<and>
     (\<forall>k k'. compare t k k' = 0 \<longrightarrow> hash t k = hash t k')"

lemma slot_of_less: "slots t \<noteq> [] \<Longrightarrow> slot_of t key < length (slots t)"
  by (simp add: slot_of_def)

lemma slot_subset: "i < length xss \<Longrightarrow> mset (xss ! i) \<subseteq># mset (concat xss)"
proof -
  assume "i < length xss"
  then have "concat xss = concat (take i xss @ xss ! i # drop (Suc i) xss)"
    using id_take_nth_drop by metis
  then show ?thesis by simp
qed

lemma mset_concat_update:
  "i < length xss \<Longrightarrow> mset (concat (xss[i := ys])) = mset (concat xss) - mset (xss ! i) + mset ys"
proof -
  assume i: "i < length xss"
  have "concat xss = concat (take i xss @ xss ! i # drop (Suc i) xss)"
    using id_take_nth_drop [OF i] by simp
  moreover have "concat (xss[i := ys]) = concat (take i xss @ ys # drop (Suc i) xss)"
    using upd_conv_take_nth_drop [OF i] by simp
  ultimately show ?thesis by simp
qed

lemma chain_find_None: "chain_find P c = None \<longleftrightarrow> (\<forall>e \<in> set c. \<not> P (fst e))"
  by (induction P c rule: chain_find.induct) auto

lemma chain_find_Some: "chain_find P c = Some d \<Longrightarrow> \<exists>k. (k, d) \<in> set c \<and> P k"
  by (induction P c rule: chain_find.induct) (auto split: if_splits)

lemma chain_unlink_None: "chain_unlink P c = None \<longleftrightarrow> (\<forall>e \<in> set c. \<not> P (fst e))"
  by (induction P c rule: chain_unlink.induct) auto

lemma chain_unlink_Some: "chain_unlink P c = Some rest \<Longrightarrow>
   \<exists>k d. P k \<and> mset c = add_mset (k, d) (mset rest)"
  by (induction P c arbitrary: rest rule: chain_unlink.induct) (auto split: if_splits)

lemma wf_htable_slot:
  "wf_htable t \<Longrightarrow> i < length (slots t) \<Longrightarrow> e \<in> set (slots t ! i) \<Longrightarrow> slot_of t (fst e) = i"
  unfolding wf_htable_def by blast

lemma in_entries_slot:
  assumes "wf_htable t"
  shows "e \<in># entries t \<longleftrightarrow> e \<in> set (slots t ! slot_of t (fst e))"
proof
  assume "e \<in># entries t"
  then obtain xs where "xs \<in> set (slots t)" "e \<in> set xs" by (auto simp: entries_def)
  then obtain i where "i < length (slots t)" "e \<in> set (slots t ! i)"
    by (metis in_set_conv_nth)
  then show "e \<in> set (slots t ! slot_of t (fst e))"
    using wf_htable_slot [OF assms] by blast
next
  assume "e \<in> set (slots t ! slot_of t (fst e))"
  moreover have "slots t ! slot_of t (fst e) \<in> set (slots t)"
    using assms slot_of_less [of t "fst e"] by (simp add: wf_htable_def)
  ultimately show "e \<in># entries t" by (auto simp: entries_def)
qed

lemma compare_same_slot: "wf_htable t \<Longrightarrow> compare t key k = 0 \<Longrightarrow> slot_of t k = slot_of t key"
  by (metis slot_of_def wf_htable_def)

lemma update_slot:
  assumes "wf_htable t" "i < length (slots t)"
    and new: "\<forall>e \<in> set c. slot_of t (fst e) = i"
    and n: "n = items t - length (slots t ! i) + length c"
  shows "wf_htable (t\<lparr>items := n, slots := (slots t)[i := c]\<rparr>)"
    and "entries (t\<lparr>items := n, slots := (slots t)[i := c]\<rparr>) = entries t - mset (slots t ! i) + mset c"
proof -
  let ?t = "t\<lparr>items := n, slots := (slots t)[i := c]\<rparr>"
  show e: "entries ?t = entries t - mset (slots t ! i) + mset c"
    using assms(2) by (simp add: entries_def mset_concat_update)
  have "mset (slots t ! i) \<subseteq># entries t"
    using assms(2) by (simp add: entries_def slot_subset)
  then have "size (entries ?t) = size (entries t) - length (slots t ! i) + length c"
    unfolding e by (simp only: size_union size_Diff_submset size_mset)
  then have "length (concat (slots ?t)) = n"
    using n assms(1) by (simp add: entries_def wf_htable_def)
  then show "wf_htable ?t"
    using assms by (auto simp: wf_htable_def slot_of_def nth_list_update)
qed

lemma iso_htable_add_spec:
  assumes "wf_htable t" "iso_htable_add True t key data = Inr t'"
  shows "wf_htable t'" "entries t' = add_mset (key, data) (entries t)"
    "hash t' = hash t" "compare t' = compare t"
proof -
  let ?i = "slot_of t key" and ?c = "(key, data) # slots t ! slot_of t key"
  have t': "t' = t\<lparr>items := items t + 1, slots := (slots t)[?i := ?c]\<rparr>"
    using assms(2) by (simp add: iso_htable_add_def Let_def)
  have i: "?i < length (slots t)" using assms(1) by (simp add: slot_of_less wf_htable_def)
  have new: "\<forall>e \<in> set ?c. slot_of t (fst e) = ?i" using wf_htable_slot [OF assms(1) i] by simp
  have sub: "mset (slots t ! ?i) \<subseteq># entries t"
    using i by (simp add: entries_def slot_subset)
  then have "length (slots t ! ?i) \<le> items t"
    using size_mset_mono [OF sub] assms(1) by (simp add: entries_def wf_htable_def)
  then have n: "items t + 1 = items t - length (slots t ! ?i) + length ?c" by simp
  show "wf_htable t'" unfolding t' by (rule update_slot(1) [OF assms(1) i new n])
  show "entries t' = add_mset (key, data) (entries t)"
    unfolding t' update_slot(2) [OF assms(1) i new n] using sub by simp
  show "hash t' = hash t" "compare t' = compare t" by (simp_all add: t')
qed

lemma iso_htable_get_spec:
  assumes "wf_htable t"
  shows "iso_htable_get t key = None \<longleftrightarrow> (\<forall>e \<in># entries t. compare t key (fst e) \<noteq> 0)"
    and "iso_htable_get t key = Some d \<Longrightarrow> \<exists>k. (k, d) \<in># entries t \<and> compare t key k = 0"
proof -
  have i: "slot_of t key < length (slots t)" using assms by (simp add: slot_of_less wf_htable_def)
  show "iso_htable_get t key = None \<longleftrightarrow> (\<forall>e \<in># entries t. compare t key (fst e) \<noteq> 0)"
    unfolding iso_htable_get_def chain_find_None
    using compare_same_slot [OF assms, of key] in_entries_slot [OF assms]
    by (metis (no_types, lifting) assms i wf_htable_def)
  show "\<exists>k. (k, d) \<in># entries t \<and> compare t key k = 0" if "iso_htable_get t key = Some d"
    using chain_find_Some [OF that [unfolded iso_htable_get_def]]
      compare_same_slot [OF assms, of key] in_entries_slot [OF assms] by fastforce
qed

lemma unlink_at_spec:
  assumes "wf_htable t" "i < length (slots t)" "unlink_at t i P = (t', found)"
  shows "wf_htable t'" "hash t' = hash t" "compare t' = compare t"
    "if found then \<exists>k d. P k \<and> entries t = add_mset (k, d) (entries t')
     else t' = t \<and> (\<forall>e \<in> set (slots t ! i). \<not> P (fst e))"
proof -
  have *: "wf_htable t' \<and> hash t' = hash t \<and> compare t' = compare t \<and>
    (if found then \<exists>k d. P k \<and> entries t = add_mset (k, d) (entries t')
     else t' = t \<and> (\<forall>e \<in> set (slots t ! i). \<not> P (fst e)))"
  proof (cases "chain_unlink P (slots t ! i)")
    case None
    then have "t' = t" "\<not> found" using assms(3) by (simp_all add: unlink_at_def)
    then show ?thesis using None assms(1) by (simp add: chain_unlink_None)
  next
    case (Some rest)
    from chain_unlink_Some [OF this] obtain k d where kd:
      "P k" "mset (slots t ! i) = add_mset (k, d) (mset rest)" by blast
    have t': "t' = t\<lparr>items := items t - 1, slots := (slots t)[i := rest]\<rparr>" "found"
      using assms(3) Some by (simp_all add: unlink_at_def)
    have "set rest \<subseteq> set (slots t ! i)" using kd(2) by (metis set_mset_add_mset_insert
        set_mset_mset subset_insertI)
    then have new: "\<forall>e \<in> set rest. slot_of t (fst e) = i"
      using wf_htable_slot [OF assms(1,2)] by blast
    have sub: "mset (slots t ! i) \<subseteq># entries t"
      using assms(2) by (simp add: entries_def slot_subset)
    have l: "length (slots t ! i) = Suc (length rest)"
      using kd(2) by (metis size_add_mset size_mset)
    moreover have "length (slots t ! i) \<le> items t"
      using size_mset_mono [OF sub] assms(1) by (simp add: entries_def wf_htable_def)
    ultimately have n: "items t - 1 = items t - length (slots t ! i) + length rest" by simp
    have "entries t = add_mset (k, d) (entries t')"
      unfolding t' update_slot(2) [OF assms(1,2) new n]
      using sub kd(2) by (auto simp: mset_subset_eq_exists_conv)
    then show ?thesis
      using update_slot(1) [OF assms(1,2) new n] kd(1) t' by auto
  qed
  then show "wf_htable t'" "hash t' = hash t" "compare t' = compare t"
    "if found then \<exists>k d. P k \<and> entries t = add_mset (k, d) (entries t')
     else t' = t \<and> (\<forall>e \<in> set (slots t ! i). \<not> P (fst e))" by blast+
qed

section \<open>Tables of names\<close>

text \<open>
  The tables of the library map strings: a key is the address and the bytes of a C string,
  \<open>hash\<close> is \<open>iso_str_hash\<close> and \<open>compare\<close> is \<open>strcmp\<close>.
\<close>

type_synonym name_key = "nat \<times> cstring"

definition name_htable :: "nat \<Rightarrow> (name_key, 'd) iso_htable res" where
  "name_htable n =
     iso_htable_create True n (\<lambda>k. iso_str_hash (snd k)) (\<lambda>a b. strcmp (snd a) (snd b))"

definition wf_names :: "(name_key, 'd) iso_htable \<Rightarrow> bool" where
  "wf_names t \<longleftrightarrow> wf_htable t \<and> hash t = (\<lambda>k. iso_str_hash (snd k)) \<and>
     compare t = (\<lambda>a b. strcmp (snd a) (snd b))"

definition keys :: "('k, 'd) iso_htable \<Rightarrow> 'k multiset" where
  "keys t = image_mset fst (entries t)"

definition add_name :: "(name_key, name_key) iso_htable \<Rightarrow> name_key \<Rightarrow> (name_key, name_key) iso_htable" where
  "add_name t k = (case iso_htable_add True t k k of Inr t' \<Rightarrow> t' | Inl _ \<Rightarrow> t)"

definition has_name :: "(name_key, 'd) iso_htable \<Rightarrow> cstring \<Rightarrow> bool" where
  "has_name t s \<longleftrightarrow> iso_htable_get t (0, s) \<noteq> None"

lemma name_htable_wf: "0 < n \<Longrightarrow> \<exists>t. name_htable n = Inr t \<and> wf_names t \<and> entries t = {#}"
  by (auto simp: name_htable_def iso_htable_create_def wf_names_def wf_htable_def entries_def)

lemma wf_names_add:
  assumes "wf_names t" "iso_htable_add True t k d = Inr t'"
  shows "wf_names t' \<and> entries t' = add_mset (k, d) (entries t)"
  using assms(1) iso_htable_add_spec [OF _ assms(2)] by (auto simp: wf_names_def)

lemma wf_names_get_None:
  "wf_names t \<Longrightarrow> iso_htable_get t k = None \<longleftrightarrow> (\<forall>e \<in># entries t. snd (fst e) \<noteq> snd k)"
  using iso_htable_get_spec(1) [of t k] by (auto simp: wf_names_def)

lemma wf_names_get_Some:
  "wf_names t \<Longrightarrow> iso_htable_get t k = Some d \<Longrightarrow> \<exists>k'. (k', d) \<in># entries t \<and> snd k' = snd k"
  using iso_htable_get_spec(2) [of t k d] by (auto simp: wf_names_def)

lemma remove_ptr_keys:
  assumes "wf_names t"
  shows "wf_names (fst (iso_htable_remove_ptr t k)) \<and>
    keys (fst (iso_htable_remove_ptr t k)) = keys t - {#k#}"
proof -
  have wf: "wf_htable t" using assms by (simp add: wf_names_def)
  then have i: "slot_of t k < length (slots t)" by (simp add: slot_of_less wf_htable_def)
  obtain t' found where u: "unlink_at t (slot_of t k) (\<lambda>x. k = x) = (t', found)"
    by fastforce
  note s = unlink_at_spec [OF wf i u]
  show ?thesis
  proof (cases found)
    case True
    then show ?thesis
      using s u assms by (auto simp: iso_htable_remove_ptr_def wf_names_def keys_def)
  next
    case False
    then have "t' = t" "\<forall>e \<in> set (slots t ! slot_of t k). k \<noteq> fst e"
      using s(4) by simp_all
    then have "k \<notin># keys t"
      using in_entries_slot [OF wf] by (auto simp: keys_def)
    then show ?thesis
      using u assms \<open>t' = t\<close> by (simp add: iso_htable_remove_ptr_def diff_single_trivial)
  qed
qed

section \<open>The contract of a name table\<close>

locale name_table =
  fixes ok :: "'t \<Rightarrow> bool"
    and keyset :: "'t \<Rightarrow> ('p \<times> 'n) multiset"
    and add :: "'t \<Rightarrow> 'p \<times> 'n \<Rightarrow> 't"
    and has :: "'t \<Rightarrow> 'n \<Rightarrow> bool"
    and del :: "'t \<Rightarrow> 'p \<times> 'n \<Rightarrow> 't"
  assumes add_ok: "ok t \<Longrightarrow> ok (add t k) \<and> keyset (add t k) = add_mset k (keyset t)"
    and has_key: "ok t \<Longrightarrow> has t n \<longleftrightarrow> (\<exists>k \<in># keyset t. snd k = n)"
    and del_ok: "ok t \<Longrightarrow> ok (del t k) \<and> keyset (del t k) = keyset t - {#k#}"
begin

text \<open>The table holds exactly the keys of a list.\<close>

definition tracks :: "'t \<Rightarrow> ('p \<times> 'n) list \<Rightarrow> bool" where
  "tracks t ks \<longleftrightarrow> ok t \<and> keyset t = mset ks"

lemma tracks_all: "tracks t ks \<Longrightarrow> tracks (foldl add t ks') (ks @ ks')"
proof (induction ks' arbitrary: t ks)
  case (Cons k ks')
  then have "tracks (add t k) (ks @ [k])" by (simp add: tracks_def add_ok)
  from Cons.IH [OF this] show ?case by simp
qed simp

lemma tracks_has: "tracks t ks \<Longrightarrow> has t n \<longleftrightarrow> n \<in> snd ` set ks"
  by (auto simp: tracks_def has_key)

lemma tracks_rename: "tracks t ks \<Longrightarrow> i < length ks \<Longrightarrow> tracks (add (del t (ks ! i)) k) (ks[i := k])"
  by (simp add: tracks_def add_ok del_ok mset_update)

end

interpretation nt: name_table wf_names keys add_name has_name "\<lambda>t k. fst (iso_htable_remove_ptr t k)"
proof unfold_locales
  fix t :: "(name_key, name_key) iso_htable" and k :: name_key and n
  assume t: "wf_names t"
  obtain t' where a: "iso_htable_add True t k k = Inr t'"
    by (auto simp: iso_htable_add_def Let_def)
  then show "wf_names (add_name t k) \<and> keys (add_name t k) = add_mset k (keys t)"
    using wf_names_add [OF t a] by (simp add: add_name_def keys_def)
  show "has_name t n \<longleftrightarrow> (\<exists>k \<in># keys t. snd k = n)"
    using wf_names_get_None [OF t, of "(0, n)"] by (auto simp: has_name_def keys_def)
  show "wf_names (fst (iso_htable_remove_ptr t k)) \<and>
      keys (fst (iso_htable_remove_ptr t k)) = keys t - {#k#}"
    by (rule remove_ptr_keys [OF t])
qed

section \<open>Tables without duplicates\<close>

definition unique_names :: "(name_key, 'd) iso_htable \<Rightarrow> bool" where
  "unique_names t \<longleftrightarrow> (\<forall>s. size (filter_mset (\<lambda>e. snd (fst e) = s) (entries t)) \<le> 1)"

lemma mset_le_1_eq: "x \<in># M \<Longrightarrow> y \<in># M \<Longrightarrow> size M \<le> 1 \<Longrightarrow> x = y"
proof -
  assume "x \<in># M"
  then obtain N where N: "M = add_mset x N" by (blast dest: multi_member_split)
  assume "y \<in># M" "size M \<le> 1"
  then show "x = y" by (simp add: N)
qed

lemma unique_get:
  assumes "wf_names t" "unique_names t"
  shows "iso_htable_get t k = Some d \<longleftrightarrow> (\<exists>a. ((a, snd k), d) \<in># entries t)"
proof
  assume "iso_htable_get t k = Some d"
  then show "\<exists>a. ((a, snd k), d) \<in># entries t"
    using wf_names_get_Some [OF assms(1)] by fastforce
next
  assume "\<exists>a. ((a, snd k), d) \<in># entries t"
  then obtain a where a: "((a, snd k), d) \<in># entries t" ..
  then obtain d' where d': "iso_htable_get t k = Some d'"
    using wf_names_get_None [OF assms(1), of k] by fastforce
  then obtain a' where a': "((a', snd k), d') \<in># entries t"
    using wf_names_get_Some [OF assms(1)] by fastforce
  let ?F = "filter_mset (\<lambda>e. snd (fst e) = snd k) (entries t)"
  have "((a, snd k), d) \<in># ?F" "((a', snd k), d') \<in># ?F" using a a' by simp_all
  moreover have "size ?F \<le> 1" using assms(2) by (simp add: unique_names_def)
  ultimately have "((a, snd k), d) = ((a', snd k), d')"
    by (rule mset_le_1_eq)
  then show "iso_htable_get t k = Some d" using d' by simp
qed

lemma filter_none: "\<forall>e \<in># M. f e \<noteq> z \<Longrightarrow> filter_mset (\<lambda>e. f e = z) M = {#}"
  by (induction M) auto

lemma unique_names_add:
  "unique_names t \<Longrightarrow> entries t' = add_mset (k, d) (entries t) \<Longrightarrow>
   \<forall>e \<in># entries t. snd (fst e) \<noteq> snd k \<Longrightarrow> unique_names t'"
proof -
  assume a: "unique_names t" "entries t' = add_mset (k, d) (entries t)"
    "\<forall>e \<in># entries t. snd (fst e) \<noteq> snd k"
  have "filter_mset (\<lambda>e. snd (fst e) = snd k) (entries t) = {#}"
    using a(3) by (rule filter_none)
  with a(1,2) show ?thesis by (simp add: unique_names_def)
qed

lemma put_get:
  assumes "wf_names t" "unique_names t" "iso_htable_put True t k d = Inr (t', new)"
  shows "wf_names t' \<and> unique_names t' \<and> (new \<longleftrightarrow> iso_htable_get t k = None) \<and>
    iso_htable_get t' k' = (if new \<and> snd k' = snd k then Some d else iso_htable_get t k')"
proof (cases "iso_htable_get t k = None")
  case True
  then have new: "new" "iso_htable_add True t k d = Inr t'"
    using assms(3) by (simp_all add: iso_htable_put_def iso_htable_get_def iso_htable_add_def Let_def)
  note wf = wf_names_add [OF assms(1) new(2)]
  have no: "\<forall>e \<in># entries t. snd (fst e) \<noteq> snd k"
    using wf_names_get_None [OF assms(1)] True by blast
  have u: "unique_names t'"
    using assms(2) wf no by (blast intro: unique_names_add)
  have "iso_htable_get t' k' = Some x \<longleftrightarrow>
      (if snd k' = snd k then Some d else iso_htable_get t k') = Some x" for x
  proof -
    have "iso_htable_get t' k' = Some x \<longleftrightarrow> (\<exists>a. ((a, snd k'), x) \<in># add_mset (k, d) (entries t))"
      using unique_get [of t' k' x] wf u by simp
    moreover have "snd k' = snd k \<Longrightarrow> \<not> ((a, snd k'), x) \<in># entries t" for a
      using no by auto
    moreover have "iso_htable_get t k' = Some x \<longleftrightarrow> (\<exists>a. ((a, snd k'), x) \<in># entries t)"
      by (rule unique_get [OF assms(1,2)])
    ultimately show ?thesis
      by (cases k) auto
  qed
  then have "iso_htable_get t' k' = (if snd k' = snd k then Some d else iso_htable_get t k')"
    by (metis option.exhaust)
  then show ?thesis using wf u new True by simp
next
  case False
  then have "t' = t" "\<not> new"
    using assms(3) by (auto simp: iso_htable_put_def iso_htable_get_def Let_def)
  with False assms show ?thesis by simp
qed

lemma remove_get:
  assumes "wf_names t" "unique_names t" "iso_htable_remove t k = (t', found)"
  shows "wf_names t' \<and> unique_names t' \<and> (found \<longleftrightarrow> iso_htable_get t k \<noteq> None) \<and>
    iso_htable_get t' k' = (if snd k' = snd k then None else iso_htable_get t k')"
proof -
  have wf: "wf_htable t" using assms(1) by (simp add: wf_names_def)
  then have i: "slot_of t k < length (slots t)" by (simp add: slot_of_less wf_htable_def)
  note s = unlink_at_spec [OF wf i assms(3) [unfolded iso_htable_remove_def]]
  have wf': "wf_names t'" using s(1-3) assms(1) by (simp add: wf_names_def)
  show ?thesis
  proof (cases found)
    case True
    then obtain x y where e: "entries t = add_mset (x, y) (entries t')" "snd x = snd k"
      using s(4) assms(1) by (auto simp: wf_names_def)
    have sub: "entries t' \<subseteq># entries t" by (simp add: e(1))
    have u: "unique_names t'"
      unfolding unique_names_def
    proof
      fix z
      have "size (filter_mset (\<lambda>e. snd (fst e) = z) (entries t)) \<le> 1"
        using assms(2) unfolding unique_names_def by blast
      then show "size (filter_mset (\<lambda>e. snd (fst e) = z) (entries t')) \<le> 1"
        using size_mset_mono [OF multiset_filter_mono [OF sub, of "\<lambda>e. snd (fst e) = z"]] by simp
    qed
    have none: "snd (fst e) \<noteq> snd k" if "e \<in># entries t'" for e
    proof
      assume k: "snd (fst e) = snd k"
      have "size (filter_mset (\<lambda>e. snd (fst e) = snd k) (entries t)) \<le> 1"
        using assms(2) unfolding unique_names_def by blast
      then have "filter_mset (\<lambda>e. snd (fst e) = snd k) (entries t') = {#}"
        by (simp add: e)
      moreover have "e \<in># filter_mset (\<lambda>e. snd (fst e) = snd k) (entries t')"
        using that k by simp
      ultimately show False by (metis (no_types, lifting) empty_iff set_mset_empty)
    qed
    have "iso_htable_get t' k' = Some v \<longleftrightarrow>
        (if snd k' = snd k then None else iso_htable_get t k') = Some v" for v
    proof -
      have "iso_htable_get t' k' = Some v \<longleftrightarrow> (\<exists>a. ((a, snd k'), v) \<in># entries t')"
        by (rule unique_get [OF wf' u])
      moreover have "iso_htable_get t k' = Some v \<longleftrightarrow>
          (\<exists>a. ((a, snd k'), v) \<in># add_mset (x, y) (entries t'))"
        using unique_get [OF assms(1,2), of k' v] by (simp add: e(1))
      moreover have "snd k' = snd k \<Longrightarrow> \<not> ((a, snd k'), v) \<in># entries t'" for a
        using none [of "((a, snd k'), v)"] by auto
      ultimately show ?thesis using e(2) by (cases x) auto
    qed
    then have "iso_htable_get t' k' = (if snd k' = snd k then None else iso_htable_get t k')"
      by (metis option.exhaust)
    moreover have "iso_htable_get t k \<noteq> None"
      using wf_names_get_None [OF assms(1), of k] e by auto
    ultimately show ?thesis using wf' u True by simp
  next
    case False
    then have t': "t' = t" and no: "\<forall>e \<in> set (slots t ! slot_of t k). compare t k (fst e) \<noteq> 0"
      using s(4) by simp_all
    then have "iso_htable_get t k = None"
      by (simp add: iso_htable_get_def chain_find_None)
    moreover have "iso_htable_get t k' = iso_htable_get t k" if "snd k' = snd k"
    proof -
      have "compare t k' = compare t k" "slot_of t k' = slot_of t k"
        using assms(1) that by (simp_all add: wf_names_def slot_of_def)
      then show ?thesis by (simp add: iso_htable_get_def)
    qed
    ultimately show ?thesis using False t' assms by simp
  qed
qed

section \<open>Properties\<close>

text \<open>
  C18: Built with \<open>iso_htable_put\<close> and \<open>iso_htable_remove\<close>, a hash table of strings is a
  finite map.  \<open>put\<close> reports whether the key was new and enters it then, \<open>remove\<close> reports
  whether the key was there and takes it out; the values of all other keys stay, and the
  table remains well-formed and free of duplicates.
\<close>
theorem htable_map:
  assumes "wf_names t" "unique_names t"
    "iso_htable_put True t k d = Inr (t1, new)" "iso_htable_remove t k = (t2, found)"
  shows "wf_names t1 \<and> unique_names t1 \<and> wf_names t2 \<and> unique_names t2 \<and>
    (new \<longleftrightarrow> iso_htable_get t k = None) \<and> (found \<longleftrightarrow> iso_htable_get t k \<noteq> None) \<and>
    (\<forall>k'. iso_htable_get t1 k' = (if new \<and> snd k' = snd k then Some d else iso_htable_get t k')) \<and>
    (\<forall>k'. iso_htable_get t2 k' = (if snd k' = snd k then None else iso_htable_get t k'))"
  using put_get [OF assms(1-3)] remove_get [OF assms(1,2,4)] by blast

theorem htable_map_witness:
  "\<exists>t t1 t2. name_htable 3 = Inr t \<and> iso_htable_put True t (1, str ''abc'') (5 :: nat) = Inr (t1, True) \<and>
     iso_htable_remove t (1, str ''abc'') = (t2, False) \<and>
     iso_htable_get t1 (9, str ''abc'') = Some 5 \<and> iso_htable_get t2 (9, str ''abc'') = None"
proof -
  obtain t :: "(name_key, nat) iso_htable" where t: "name_htable 3 = Inr t" "wf_names t" "entries t = {#}"
    using name_htable_wf [of 3] by auto
  then have u: "unique_names t" by (simp add: unique_names_def)
  have n: "iso_htable_get t (1, str ''abc'') = None"
    using wf_names_get_None [OF t(2)] t(3) by simp
  obtain t1 new where p: "iso_htable_put True t (1, str ''abc'') 5 = Inr (t1, new)"
    by (cases "iso_htable_put True t (1, str ''abc'') 5") (auto simp: iso_htable_put_def Let_def split: if_splits)
  obtain t2 found where r: "iso_htable_remove t (1, str ''abc'') = (t2, found)" by fastforce
  from htable_map [OF t(2) u p r] n p r t(1) show ?thesis by auto
qed

end
