(* ===== verification/Mangle.thy ===== *)
theory Mangle
  imports Names Htable
begin

text \<open>
  Name mangling of \<open>libisofs/ecma119_tree.c\<close>: \<open>mangle_single_dir\<close> gives the children of a
  directory distinct names, \<open>mangle_dir\<close> does so for a whole tree, \<open>sort_tree\<close> sorts every
  directory as ECMA-119 demands.

  The name of a node is a pointer and the characters it points at.  \<open>brk\<close> is the lowest
  address that was never handed out; \<open>strdup\<close> takes it.  Allocation succeeds.  \<open>qsort\<close> of
  the C library is \<open>sort_key\<close>.  The C integers \<open>max\<close> and \<open>extlen\<close>, which may become
  negative, are values of type \<open>int\<close>.
\<close>

section \<open>Nodes\<close>

datatype ecma119_type =
    ECMA119_FILE
  | ECMA119_SYMLINK
  | ECMA119_DIR
  | ECMA119_SPECIAL
  | ECMA119_PLACEHOLDER

datatype 'a ecma119_node =
  ENode (iso_name: name_key) (node_type: ecma119_type) (info: 'a) (children: "'a ecma119_node list")

abbreviation name_of :: "'a ecma119_node \<Rightarrow> cstring" where
  "name_of n \<equiv> snd (iso_name n)"

definition set_iso_name :: "name_key \<Rightarrow> 'a ecma119_node \<Rightarrow> 'a ecma119_node" where
  "set_iso_name k n = ENode k (node_type n) (info n) (children n)"

definition cmp_node_name :: "'a ecma119_node \<Rightarrow> 'a ecma119_node \<Rightarrow> int" where
  "cmp_node_name f g = strcmp (name_of f) (name_of g)"

text \<open>\<open>qsort\<close> with \<open>cmp_node_name\<close>; \<open>strcmp\<close> is the order of \<open>cstring\<close>.\<close>

definition qsort_names :: "'a ecma119_node list \<Rightarrow> 'a ecma119_node list" where
  "qsort_names ns = sort_key name_of ns"

lemma set_qsort_names [simp]: "set (qsort_names ns) = set ns"
  by (simp add: qsort_names_def)

function sort_tree :: "'a ecma119_node \<Rightarrow> 'a ecma119_node" where
  "sort_tree (ENode k t i cs) =
     ENode k t i (map (\<lambda>c. if node_type c = ECMA119_DIR then sort_tree c else c) (qsort_names cs))"
  by pat_completeness auto

termination
  by (relation "measure size") (auto simp: less_Suc_eq_le intro: size_list_estimation')

section \<open>Numbered names\<close>

text \<open>\<open>%0*d\<close> of a number that is not negative.\<close>

definition pad :: "nat \<Rightarrow> nat \<Rightarrow> cstring" where
  "pad digits n = replicate (digits - length (dec n)) (asc CHR ''0'') @ dec n"

text \<open>The two formats which \<open>mangle_single_dir\<close> composes.\<close>

definition mangled_name :: "cstring \<Rightarrow> bool \<Rightarrow> cstring \<Rightarrow> nat \<Rightarrow> nat \<Rightarrow> cstring" where
  "mangled_name nm dot ext digits change =
     nm @ pad digits change @ (if dot then asc CHR ''.'' # ext else ext)"

fun int_pow :: "nat \<Rightarrow> nat \<Rightarrow> nat" where
  "int_pow base 0 = 1"
| "int_pow base (Suc p) = int_pow base p * base"

section \<open>One directory\<close>

text \<open>
  The first part of the loop over \<open>digits\<close>: the name and the extension between which the
  number goes, and whether a dot is to follow the number.
\<close>

definition split_name ::
  "name_opts \<Rightarrow> nat \<Rightarrow> nat \<Rightarrow> 'a ecma119_node \<Rightarrow> nat \<Rightarrow> (cstring \<times> cstring \<times> bool) res" where
  "split_name img max_file_len max_dir_len child digits =
     (let full_name = name_of child
      in case strrchr full_name (asc CHR ''.'') of
           Some d \<Rightarrow>
             if node_type child \<noteq> ECMA119_DIR \<or> allow_dir_id_ext img then
               let ext = drop (d + 1) full_name;
                   extlen = (if max_file_len = 12 then 3 else int (length ext));
                   mx = int max_file_len - extlen - 1 - int digits
               in if mx \<le> 0 then
                    if extlen + mx > 3 then
                      let extlen = extlen + mx - 1;
                          mx = int max_file_len - extlen - 1 - int digits
                      in Inr (if mx < int d then take (nat mx) full_name else take d full_name,
                              take (nat extlen) ext, True)
                    else Inl ISO_ERROR
                  else Inr (if mx < int d then take (nat mx) full_name else take d full_name, ext, True)
             else
               let mx = int max_dir_len - int digits
               in Inr (if 0 \<le> mx \<and> mx < int (length full_name) then take (nat mx) full_name
                       else full_name, [], False)
         | None \<Rightarrow>
             let mx = (if node_type child = ECMA119_DIR then int max_dir_len else int max_file_len)
                      - int digits
             in Inr (if 0 \<le> mx \<and> mx < int (length full_name) then take (nat mx) full_name
                     else full_name, [], False))"

text \<open>
  The \<open>while (1)\<close> loop: the next number whose name is not in the table, together with the
  new value of \<open>change\<close>; no name if the digits do not suffice.
\<close>

function pick_name ::
  "(name_key, name_key) iso_htable \<Rightarrow> (nat \<Rightarrow> cstring) \<Rightarrow> nat \<Rightarrow> nat \<Rightarrow> cstring option \<times> nat" where
  "pick_name table cand limit change =
     (let tmp = cand change; change' = change + 1
      in if change' > limit then (None, change')
         else if \<not> has_name table tmp then (Some tmp, change')
         else pick_name table cand limit change')"
  by auto

termination by (relation "measure (\<lambda>(_, _, limit, change). limit - change)") auto

declare pick_name.simps [simp del]

text \<open>The variables of \<open>mangle_single_dir\<close> which outlive a pass of its loops.\<close>

record 'a mangle_state =
  kids :: "'a ecma119_node list"
  table :: "(name_key, name_key) iso_htable"
  brk :: nat
  need_sort :: bool

definition rename_child :: "'a mangle_state \<Rightarrow> nat \<Rightarrow> cstring \<Rightarrow> 'a mangle_state" where
  "rename_child st k tmp =
     (let new = (brk st, tmp);
          t = fst (iso_htable_remove_ptr (table st) (iso_name (kids st ! k)))
      in st\<lparr>kids := (kids st)[k := set_iso_name new (kids st ! k)],
            table := add_name t new, brk := brk st + 1, need_sort := True\<rparr>)"

text \<open>
  The loop over \<open>k\<close>, \<open>n\<close> children from \<open>k\<close> on; the boolean is \<open>ok\<close>.
\<close>

fun rename_group ::
  "(nat \<Rightarrow> cstring) \<Rightarrow> nat \<Rightarrow> nat \<Rightarrow> nat \<Rightarrow> nat \<Rightarrow> 'a mangle_state \<Rightarrow> bool \<times> 'a mangle_state" where
  "rename_group cand limit k 0 change st = (True, st)"
| "rename_group cand limit k (Suc n) change st =
     (case pick_name (table st) cand limit change of
        (None, change') \<Rightarrow> (False, st)
      | (Some tmp, change') \<Rightarrow> rename_group cand limit (k + 1) n change' (rename_child st k tmp))"

text \<open>The loop over \<open>digits\<close> for the children \<open>i\<close> to \<open>j\<close>; \<open>left\<close> is \<open>8 - digits\<close>.\<close>

fun mangle_digits ::
  "name_opts \<Rightarrow> nat \<Rightarrow> nat \<Rightarrow> nat \<Rightarrow> nat \<Rightarrow> nat \<Rightarrow> 'a mangle_state \<Rightarrow> 'a mangle_state res" where
  "mangle_digits img max_file_len max_dir_len i j 0 st = Inl ISO_MANGLE_TOO_MUCH_FILES"
| "mangle_digits img max_file_len max_dir_len i j (Suc left) st =
     (let digits = 8 - Suc left
      in case split_name img max_file_len max_dir_len (kids st ! i) digits of
           Inl e \<Rightarrow> Inl e
         | Inr (nm, ext, dot) \<Rightarrow>
             (case rename_group (mangled_name nm dot ext digits) (int_pow 10 digits) i (j + 1 - i) 0 st of
                (True, st') \<Rightarrow> Inr st'
              | (False, st') \<Rightarrow> mangle_digits img max_file_len max_dir_len i j left st'))"

text \<open>The last child with the same name as its neighbours before it.\<close>

function last_same :: "'a ecma119_node list \<Rightarrow> nat \<Rightarrow> nat" where
  "last_same cs j =
     (if j + 1 < length cs \<and> cmp_node_name (cs ! j) (cs ! (j + 1)) = 0 then last_same cs (j + 1) else j)"
  by auto

termination by (relation "measure (\<lambda>(cs, j). length cs - j)") auto

declare last_same.simps [simp del]

lemma last_same_ge: "j \<le> last_same cs j"
  by (induction cs j rule: last_same.induct) (subst last_same.simps, auto)

function mangle_loop ::
  "name_opts \<Rightarrow> nat \<Rightarrow> nat \<Rightarrow> nat \<Rightarrow> nat \<Rightarrow> 'a mangle_state \<Rightarrow> 'a mangle_state res" where
  "mangle_loop img max_file_len max_dir_len nchildren i st =
     (if i < nchildren then
        let j = last_same (kids st) i
        in if j = i then mangle_loop img max_file_len max_dir_len nchildren (i + 1) st
           else if untranslated_name_len img > 0 then Inl ISO_NAME_NEEDS_TRANSL
           else (case mangle_digits img max_file_len max_dir_len i j 7 st of
                   Inl e \<Rightarrow> Inl e
                 | Inr st' \<Rightarrow> mangle_loop img max_file_len max_dir_len nchildren (j + 1) st')
      else Inr st)"
  by auto

termination
  by (relation "measure (\<lambda>(_, _, _, n, i, _). n - i)")
    (auto simp: less_Suc_eq_le last_same_ge intro!: diff_less_mono2 le_imp_less_Suc)

declare mangle_loop.simps [simp del]

text \<open>The result is the new array of children and the new \<open>brk\<close>.\<close>

definition mangle_single_dir ::
  "name_opts \<Rightarrow> nat \<Rightarrow> nat \<Rightarrow> nat \<Rightarrow> 'a ecma119_node list \<Rightarrow> ('a ecma119_node list \<times> nat) res" where
  "mangle_single_dir img max_file_len max_dir_len brk0 cs =
     (case name_htable (length cs * 100 div 80) of
        Inl e \<Rightarrow> Inl e
      | Inr t \<Rightarrow>
          (case mangle_loop img max_file_len max_dir_len (length cs) 0
                  \<lparr>kids = cs, table = foldl add_name t (map iso_name cs), brk = brk0,
                   need_sort = False\<rparr> of
             Inl e \<Rightarrow> Inl e
           | Inr st \<Rightarrow> Inr (if need_sort st then qsort_names (kids st) else kids st, brk st)))"

section \<open>The tree\<close>

text \<open>\<open>mangle_dir\<close> recurses into the directories among the children; \<open>fuel\<close> bounds the depth.\<close>

fun mangle_dir ::
  "nat \<Rightarrow> name_opts \<Rightarrow> nat \<Rightarrow> nat \<Rightarrow> nat \<Rightarrow> 'a ecma119_node \<Rightarrow> ('a ecma119_node \<times> nat) res option"
and mangle_subdirs ::
  "nat \<Rightarrow> name_opts \<Rightarrow> nat \<Rightarrow> nat \<Rightarrow> nat \<Rightarrow> 'a ecma119_node list \<Rightarrow>
     ('a ecma119_node list \<times> nat) res option" where
  "mangle_dir 0 img mf md b dir = None"
| "mangle_dir (Suc fuel) img mf md b dir =
     (case mangle_single_dir img mf md b (children dir) of
        Inl e \<Rightarrow> Some (Inl e)
      | Inr (cs, b') \<Rightarrow>
          (case mangle_subdirs fuel img mf md b' cs of
             None \<Rightarrow> None
           | Some (Inl e) \<Rightarrow> Some (Inl e)
           | Some (Inr (cs', b'')) \<Rightarrow> Some (Inr (ENode (iso_name dir) (node_type dir) (info dir) cs', b''))))"
| "mangle_subdirs fuel img mf md b [] = Some (Inr ([], b))"
| "mangle_subdirs fuel img mf md b (c # cs) =
     (case (if node_type c = ECMA119_DIR then mangle_dir fuel img mf md b c else Some (Inr (c, b))) of
        None \<Rightarrow> None
      | Some (Inl e) \<Rightarrow> Some (Inl e)
      | Some (Inr (c', b')) \<Rightarrow>
          (case mangle_subdirs fuel img mf md b' cs of
             None \<Rightarrow> None
           | Some (Inl e) \<Rightarrow> Some (Inl e)
           | Some (Inr (cs', b'')) \<Rightarrow> Some (Inr (c' # cs', b''))))"

text \<open>The length limits which \<open>mangle_tree\<close> hands down, for files and for directories.\<close>

definition mangle_limits :: "name_opts \<Rightarrow> nat \<times> nat" where
  "mangle_limits img =
     (if untranslated_name_len img > 0 then (untranslated_name_len img, untranslated_name_len img)
      else if max_37_char_filenames img then (37, 37)
      else if iso_level img = 1 then (12, 8)
      else (31, 31))"

definition mangle_tree ::
  "nat \<Rightarrow> name_opts \<Rightarrow> nat \<Rightarrow> 'a ecma119_node \<Rightarrow> bool \<Rightarrow> ('a ecma119_node \<times> nat) res option" where
  "mangle_tree fuel img b root recurse =
     (case mangle_limits img of (max_file, max_dir) \<Rightarrow>
        if recurse then mangle_dir fuel img max_file max_dir b root
        else (case mangle_single_dir img max_file max_dir b (children root) of
                Inl e \<Rightarrow> Some (Inl e)
              | Inr (cs, b') \<Rightarrow>
                  Some (Inr (ENode (iso_name root) (node_type root) (info root) cs, b'))))"

section \<open>Facts about numbers\<close>

lemma pad_inj: "pad d m = pad d n \<Longrightarrow> m = n"
proof -
  assume "pad d m = pad d n"
  then have "dec_value (pad d m) = dec_value (pad d n)" by simp
  then show ?thesis by (simp add: pad_def dec_value_zeros dec_value_dec)
qed

lemma length_pad: "n < 10 ^ d \<Longrightarrow> 0 < d \<Longrightarrow> length (pad d n) = d"
  using length_dec [of n d] by (simp add: pad_def)

lemma pad_no_dot: "0x2e \<notin> set (pad d n)"
  using dec_digits [of n] by (auto simp: pad_def is_digit_def)

lemma pick_name_Some:
  "pick_name t cand limit ch = (Some tmp, ch') \<Longrightarrow>
   \<exists>c. ch \<le> c \<and> c < limit \<and> ch' = c + 1 \<and> tmp = cand c \<and> \<not> has_name t tmp \<and>
     (\<forall>c'. ch \<le> c' \<and> c' < c \<longrightarrow> has_name t (cand c'))"
proof (induction t cand limit ch rule: pick_name.induct)
  case (1 t cand limit ch)
  show ?case
  proof (cases "ch + 1 > limit \<or> \<not> has_name t (cand ch)")
    case True
    then show ?thesis
      using "1.prems" by (subst (asm) pick_name.simps) (auto simp: Let_def split: if_splits)
  next
    case False
    then have "pick_name t cand limit (ch + 1) = (Some tmp, ch')"
      using "1.prems" by (subst (asm) pick_name.simps) (simp add: Let_def)
    with "1.IH" [OF refl refl] False obtain c where c: "ch + 1 \<le> c" "c < limit" "ch' = c + 1"
      "tmp = cand c" "\<not> has_name t tmp" "\<forall>c'. ch + 1 \<le> c' \<and> c' < c \<longrightarrow> has_name t (cand c')"
      by auto
    have "has_name t (cand c')" if "ch \<le> c'" "c' < c" for c'
      using c(6) False that by (cases "c' = ch") auto
    with c show ?thesis by (intro exI [of _ c]) simp
  qed
qed

lemma pick_name_None:
  "pick_name t cand limit ch = (None, ch') \<Longrightarrow> ch \<le> c \<Longrightarrow> c < limit \<Longrightarrow> has_name t (cand c)"
proof (induction t cand limit ch rule: pick_name.induct)
  case (1 t cand limit ch)
  have nle: "\<not> ch + 1 > limit" using "1.prems" by simp
  have h: "has_name t (cand ch)"
    using "1.prems"(1) nle by (subst (asm) pick_name.simps) (auto simp: Let_def split: if_splits)
  have "pick_name t cand limit (ch + 1) = (None, ch')"
    using "1.prems"(1) nle h by (subst (asm) pick_name.simps) (simp add: Let_def)
  then show ?case
    using "1.IH" nle h "1.prems"(2,3) by (cases "c = ch") auto
qed

section \<open>Renaming\<close>

abbreviation nm :: "'a mangle_state \<Rightarrow> nat \<Rightarrow> cstring" where
  "nm st k \<equiv> name_of (kids st ! k)"

text \<open>The table holds the names of the children.\<close>

definition minv :: "'a mangle_state \<Rightarrow> bool" where
  "minv st \<longleftrightarrow> nt.tracks (table st) (map iso_name (kids st))"

text \<open>The names at the positions of \<open>S\<close> occur nowhere else.\<close>

definition uniq :: "'a mangle_state \<Rightarrow> nat set \<Rightarrow> bool" where
  "uniq st S \<longleftrightarrow> (\<forall>a \<in> S. \<forall>b < length (kids st). b \<noteq> a \<longrightarrow> nm st a \<noteq> nm st b)"

text \<open>A node without its name.\<close>

definition erase :: "'a ecma119_node \<Rightarrow> 'a ecma119_node" where
  "erase n = set_iso_name (0, []) n"

lemma set_iso_name_simps [simp]:
  "iso_name (set_iso_name k n) = k" "node_type (set_iso_name k n) = node_type n"
  "info (set_iso_name k n) = info n" "children (set_iso_name k n) = children n"
  "erase (set_iso_name k n) = erase n"
  by (simp_all add: set_iso_name_def erase_def)

lemma rename_child_kids [simp]:
  "kids (rename_child st k tmp) = (kids st)[k := set_iso_name (brk st, tmp) (kids st ! k)]"
  "need_sort (rename_child st k tmp)"
  by (simp_all add: rename_child_def Let_def)

lemma rename_child_inv:
  assumes "minv st" "k < length (kids st)"
  shows "minv (rename_child st k tmp)"
  using nt.tracks_rename [of "table st" "map iso_name (kids st)" k "(brk st, tmp)"] assms
  by (simp add: minv_def rename_child_def Let_def map_update)

lemma has_name_nm: "minv st \<Longrightarrow> has_name (table st) s \<longleftrightarrow> (\<exists>p < length (kids st). nm st p = s)"
  by (simp add: minv_def nt.tracks_has image_image) (auto simp: in_set_conv_nth image_iff Bex_def)

lemma rename_child_uniq:
  assumes "minv st" "k < length (kids st)" "\<not> has_name (table st) tmp" "uniq st S" "S \<subseteq> {..<length (kids st)}"
  shows "uniq (rename_child st k tmp) (insert k S)"
  using assms(2-5) unfolding has_name_nm [OF assms(1)] uniq_def
  by (auto simp: nth_list_update)

lemma map_erase_update: "k < length ns \<Longrightarrow> map erase (ns[k := set_iso_name x (ns ! k)]) = map erase ns"
  by (simp add: map_update list_update_same_conv)

text \<open>What renaming the group \<open>k, ..., k + n - 1\<close> does.\<close>

definition renamed :: "(nat \<Rightarrow> cstring) \<Rightarrow> nat \<Rightarrow> nat set \<Rightarrow> 'a mangle_state \<Rightarrow> 'a mangle_state \<Rightarrow> bool" where
  "renamed cand limit G st st' \<longleftrightarrow> minv st' \<and> length (kids st') = length (kids st) \<and>
     map erase (kids st') = map erase (kids st) \<and>
     (\<forall>p < length (kids st). kids st' ! p = kids st ! p \<or>
        p \<in> G \<and> (\<exists>c < limit. nm st' p = cand c) \<and> need_sort st') \<and>
     (need_sort st \<longrightarrow> need_sort st')"

lemma rename_group_spec:
  assumes "rename_group cand limit k n ch st = (ok, st')" "minv st" "k + n \<le> length (kids st)"
    "uniq st S" "S \<subseteq> {..<length (kids st)}"
    "\<forall>c < ch. cand c \<in> N0 \<union> nm st ` {i..<k}"
    "\<forall>p < length (kids st). nm st p \<in> N0 \<union> nm st ` {i..<k}" "i \<le> k"
  shows "renamed cand limit {k..<k + n} st st' \<and> uniq st' S \<and>
    (ok \<longrightarrow> uniq st' (S \<union> {k..<k + n})) \<and>
    (\<not> ok \<longrightarrow> (\<forall>c < limit. cand c \<in> N0 \<union> nm st' ` {i..<k + n}))"
  using assms
proof (induction n arbitrary: k ch st S)
  case 0
  then show ?case by (auto simp: renamed_def)
next
  case (Suc n)
  let ?L = "length (kids st)"
  show ?case
  proof (cases "pick_name (table st) cand limit ch")
    case (Pair r ch')
    show ?thesis
    proof (cases r)
      case None
      with Pair Suc.prems(1) have st': "st' = st" "\<not> ok" by simp_all
      have "cand c \<in> N0 \<union> nm st ` {i..<k + Suc n}" if "c < limit" for c
      proof (cases "c < ch")
        case True
        then show ?thesis using Suc.prems(6) by fastforce
      next
        case False
        then have "has_name (table st) (cand c)"
          using pick_name_None [of "table st" cand limit ch ch' c] Pair None that by simp
        then obtain p where "p < ?L" "nm st p = cand c"
          using has_name_nm [OF Suc.prems(2)] by blast
        then have "cand c \<in> N0 \<union> nm st ` {i..<k}" using Suc.prems(7) by metis
        then show ?thesis by auto
      qed
      then show ?thesis using st' Suc.prems by (auto simp: renamed_def)
    next
      case (Some tmp)
      with Pair obtain c where c: "ch \<le> c" "c < limit" "ch' = c + 1" "tmp = cand c"
        "\<not> has_name (table st) tmp" "\<And>c'. ch \<le> c' \<Longrightarrow> c' < c \<Longrightarrow> has_name (table st) (cand c')"
        using pick_name_Some [of "table st" cand limit ch tmp ch'] by auto
      let ?s = "rename_child st k tmp"
      have kL: "k < ?L" using Suc.prems by simp
      have len: "length (kids ?s) = ?L" by simp
      have other: "nm ?s p = nm st p" if "p \<noteq> k" for p using that by simp
      have new: "nm ?s k = cand c" using kL c(4) by simp
      have img: "nm st ` {i..<k} \<subseteq> nm ?s ` {i..<Suc k}"
        by (force simp: other)
      have cov: "\<forall>d < ch'. cand d \<in> N0 \<union> nm ?s ` {i..<k + 1}"
      proof (intro allI impI)
        fix d
        assume "d < ch'"
        then consider "d < ch" | "ch \<le> d" "d < c" | "d = c" using c by linarith
        then show "cand d \<in> N0 \<union> nm ?s ` {i..<k + 1}"
        proof cases
          case 1
          then show ?thesis using Suc.prems(6) img by auto
        next
          case 2
          then obtain p where "p < ?L" "nm st p = cand d"
            using c(6) has_name_nm [OF Suc.prems(2)] by blast
          then have "cand d \<in> N0 \<union> nm st ` {i..<k}" using Suc.prems(7) by metis
          then show ?thesis using img by auto
        next
          case 3
          have "k \<in> {i..<k + 1}" using Suc.prems(8) by simp
          then have "nm ?s k \<in> nm ?s ` {i..<k + 1}" by (rule imageI)
          then show ?thesis unfolding 3 new by (rule UnI2)
        qed
      qed
      have cov': "\<forall>p < length (kids ?s). nm ?s p \<in> N0 \<union> nm ?s ` {i..<k + 1}"
      proof (intro allI impI)
        fix p
        assume p: "p < length (kids ?s)"
        show "nm ?s p \<in> N0 \<union> nm ?s ` {i..<k + 1}"
        proof (cases "p = k")
          case True
          then show ?thesis using Suc.prems(8) by auto
        next
          case False
          then show ?thesis using Suc.prems(7) p img by (auto simp: other)
        qed
      qed
      have u: "uniq ?s (insert k S)"
        using rename_child_uniq [OF Suc.prems(2) kL c(5) Suc.prems(4,5)] .
      have run: "rename_group cand limit (k + 1) n ch' ?s = (ok, st')"
        using Suc.prems(1) Pair Some by simp
      have IH: "renamed cand limit {k + 1..<k + 1 + n} ?s st' \<and> uniq st' (insert k S) \<and>
        (ok \<longrightarrow> uniq st' (insert k S \<union> {k + 1..<k + 1 + n})) \<and>
        (\<not> ok \<longrightarrow> (\<forall>c < limit. cand c \<in> N0 \<union> nm st' ` {i..<k + 1 + n}))"
        using kL Suc.prems by (intro Suc.IH [OF run rename_child_inv [OF Suc.prems(2) kL] _ u _ cov cov']) auto
      have k': "kids st' ! k = kids ?s ! k"
        using IH kL by (auto simp: renamed_def)
      have "renamed cand limit {k..<k + Suc n} st st'"
        unfolding renamed_def
      proof (intro conjI allI impI)
        show "minv st'" "length (kids st') = ?L" "map erase (kids st') = map erase (kids st)"
          using IH kL by (auto simp: renamed_def map_erase_update)
        show "need_sort st'" using IH by (auto simp: renamed_def)
        fix p
        assume p: "p < ?L"
        show "kids st' ! p = kids st ! p \<or>
            p \<in> {k..<k + Suc n} \<and> (\<exists>c < limit. nm st' p = cand c) \<and> need_sort st'"
        proof (cases "p = k")
          case True
          then show ?thesis using k' new c(2) IH by (auto simp: renamed_def)
        next
          case False
          then show ?thesis using IH p by (auto simp: renamed_def)
        qed
      qed
      moreover have "uniq st' S" using IH by (simp add: uniq_def)
      moreover have "insert k S \<union> {k + 1..<k + 1 + n} = S \<union> {k..<k + Suc n}"
        by auto
      ultimately show ?thesis using IH by simp
    qed
  qed
qed

lemma mangled_name_inj: "mangled_name s dot ext d c = mangled_name s dot ext d c' \<Longrightarrow> c = c'"
  using pad_inj [of d c c'] by (auto simp: mangled_name_def split: if_splits)

lemma rename_group_count:
  assumes "rename_group cand limit i n 0 st = (False, st')" "minv st" "i + n \<le> length (kids st)"
    "inj_on cand {..<limit}"
  shows "limit \<le> 2 * length (kids st)"
proof -
  let ?N = "nm st ` {..<length (kids st)}" and ?M = "nm st' ` {i..<i + n}"
  have "uniq st {}" by (simp add: uniq_def)
  then have "\<forall>c < limit. cand c \<in> ?N \<union> ?M"
    using rename_group_spec [OF assms(1-3), of "{}" ?N i] by auto
  then have "cand ` {..<limit} \<subseteq> ?N \<union> ?M" by auto
  then have "card (cand ` {..<limit}) \<le> card (?N \<union> ?M)"
    by (intro card_mono) auto
  also have "\<dots> \<le> card ?N + card ?M" by (rule card_Un_le)
  also have "\<dots> \<le> length (kids st) + n"
    using card_image_le [of "{..<length (kids st)}" "nm st"] card_image_le [of "{i..<i + n}" "nm st'"]
    by simp
  finally show ?thesis
    using assms(3) card_image [OF assms(4)] by simp
qed

text \<open>
  A name that mangling can start from: within the limit, and at level 1 (a limit of 12)
  with at most 3 characters behind the dot, if the dot counts as one.
\<close>

definition mangleable :: "name_opts \<Rightarrow> nat \<Rightarrow> 'a ecma119_node \<Rightarrow> bool" where
  "mangleable img mf n \<longleftrightarrow> length (name_of n) \<le> mf \<and>
     (mf = 12 \<and> (node_type n \<noteq> ECMA119_DIR \<or> allow_dir_id_ext img) \<longrightarrow>
      (case strrchr (name_of n) 0x2e of None \<Rightarrow> True | Some d \<Rightarrow> length (name_of n) \<le> d + 4))"

lemma split_name_plain:
  assumes "digits \<le> 7" "12 \<le> mf" "8 \<le> md" "md \<le> mf" "0 < digits"
    "strrchr (name_of n) 0x2e = None \<or> node_type n = ECMA119_DIR \<and> \<not> allow_dir_id_ext img"
  obtains s where "split_name img mf md n digits = Inr (s, [], False)"
    "length s + digits \<le> mf" "set s \<subseteq> set (name_of n)"
proof -
  define mx where "mx = (if node_type n = ECMA119_DIR then md else mf) - digits"
  have mx: "mx + digits \<le> mf"
    "int mx = (if node_type n = ECMA119_DIR then int md else int mf) - int digits"
    using assms by (auto simp: mx_def)
  let ?s = "if mx < length (name_of n) then take mx (name_of n) else name_of n"
  have m: "node_type n = ECMA119_DIR \<Longrightarrow> int md - int digits = int mx"
    "node_type n \<noteq> ECMA119_DIR \<Longrightarrow> int mf - int digits = int mx"
    using mx(2) by simp_all
  have "split_name img mf md n digits = Inr (?s, [], False)"
    using assms(6) by (cases "node_type n = ECMA119_DIR"; cases "strrchr (name_of n) 0x2e")
      (auto simp: split_name_def Let_def m)
  moreover have "length ?s + digits \<le> mf" using mx(1) by auto
  moreover have "set ?s \<subseteq> set (name_of n)" by (auto dest: in_set_takeD)
  ultimately show ?thesis using that by blast
qed

lemma split_name_dot:
  assumes "digits \<le> 7" "12 \<le> mf" "0 < digits" "mangleable img mf n"
    "strrchr (name_of n) 0x2e = Some d" "node_type n \<noteq> ECMA119_DIR \<or> allow_dir_id_ext img"
  obtains s ext where "split_name img mf md n digits = Inr (s, ext, True)"
    "length s + digits + 1 + length ext \<le> mf" "0x2e \<notin> set ext" "mf = 12 \<Longrightarrow> length ext \<le> 3"
proof -
  let ?f = "name_of n"
  let ?ext = "drop (d + 1) ?f"
  have dot: "asc CHR ''.'' = (0x2e :: byte)" by simp
  have d: "d < length ?f" "0x2e \<notin> set ?ext" using strrchr_Some [OF assms(5)] by simp_all
  have le3: "length ?ext \<le> 3" if "mf = 12"
    using assms(4-6) that by (auto simp: mangleable_def)
  define extlen where "extlen = (if mf = 12 then 3 else int (length ?ext))"
  define mx where "mx = int mf - extlen - 1 - int digits"
  have ext: "int (length ?ext) \<le> extlen" using le3 by (simp add: extlen_def)
  show ?thesis
  proof (cases "mx \<le> 0")
    case False
    let ?s = "if mx < int d then take (nat mx) ?f else take d ?f"
    have "split_name img mf md n digits = Inr (?s, ?ext, True)"
      unfolding split_name_def Let_def dot assms(5) option.case extlen_def [symmetric] mx_def [symmetric]
      using assms(6) False by simp
    moreover have "int (length ?s) \<le> mx" using False d by auto
    then have "int (length ?s + digits + 1 + length ?ext) \<le> int mf"
      using ext by (simp add: mx_def)
    then have "length ?s + digits + 1 + length ?ext \<le> mf" by linarith
    ultimately show ?thesis using that le3 d(2) by blast
  next
    case True
    then have m12: "mf \<noteq> 12" using assms(1,2) by (auto simp: mx_def extlen_def)
    then have el: "extlen = int (length ?ext)" by (simp add: extlen_def)
    have "extlen + mx = int mf - 1 - int digits" by (simp add: mx_def)
    then have g3: "extlen + mx > 3" using assms(1,2) m12 by linarith
    define el' where "el' = extlen + mx - 1"
    have mx': "int mf - el' - 1 - int digits = 1" by (simp add: el'_def mx_def)
    let ?s = "if 1 < int d then take 1 ?f else take d ?f"
    have "split_name img mf md n digits = Inr (?s, take (nat el') ?ext, True)"
      unfolding split_name_def Let_def dot assms(5) option.case extlen_def [symmetric] mx_def [symmetric]
        el'_def [symmetric] mx'
      using assms(6) True g3 by simp
    moreover have "length ?s \<le> 1" by auto
    moreover have "int (length (take (nat el') ?ext)) \<le> el'" using g3 by (simp add: el'_def)
    then have "int (digits + 1 + length (take (nat el') ?ext)) \<le> int mf - 1"
      using mx' by simp
    ultimately have "split_name img mf md n digits = Inr (?s, take (nat el') ?ext, True)"
      "length ?s + digits + 1 + length (take (nat el') ?ext) \<le> mf" by linarith+
    then show ?thesis using that m12 d(2) by (meson in_set_takeD)
  qed
qed

lemma split_name_ok:
  fixes n :: "'a ecma119_node"
  assumes "digits \<le> 7" "12 \<le> mf" "8 \<le> md" "md \<le> mf" "0 < digits" "mangleable img mf n"
  obtains s ext dot where "split_name img mf md n digits = Inr (s, ext, dot)"
    "\<And>c. c < 10 ^ digits \<Longrightarrow> length (mangled_name s dot ext digits c) \<le> mf"
    "\<And>c (n' :: 'a ecma119_node). c < 10 ^ digits \<Longrightarrow> node_type n' = node_type n \<Longrightarrow>
       name_of n' = mangled_name s dot ext digits c \<Longrightarrow> mangleable img mf n'"
proof (cases "strrchr (name_of n) 0x2e = None \<or> node_type n = ECMA119_DIR \<and> \<not> allow_dir_id_ext img")
  case True
  obtain s where s: "split_name img mf md n digits = Inr (s, [], False)"
    "length s + digits \<le> mf" "set s \<subseteq> set (name_of n)"
    using split_name_plain [OF assms(1-5) True] .
  have l: "length (mangled_name s False [] digits c) \<le> mf" if "c < 10 ^ digits" for c
    using that s(2) assms(5) by (simp add: mangled_name_def length_pad)
  show ?thesis
  proof (rule that [OF s(1) l])
    fix c and n' :: "'a ecma119_node"
    assume c: "c < 10 ^ digits" "node_type n' = node_type n"
      "name_of n' = mangled_name s False [] digits c"
    have "strrchr (name_of n') 0x2e = None" if "node_type n \<noteq> ECMA119_DIR \<or> allow_dir_id_ext img"
      using True that s(3) pad_no_dot by (auto simp: c(3) mangled_name_def strrchr_None_iff)
    then show "mangleable img mf n'" using l [OF c(1)] c(2,3) by (auto simp: mangleable_def)
  qed
next
  case False
  then obtain d where "strrchr (name_of n) 0x2e = Some d" "node_type n \<noteq> ECMA119_DIR \<or> allow_dir_id_ext img"
    by auto
  from split_name_dot [OF assms(1,2,5,6) this, of md] obtain s ext where
    s: "split_name img mf md n digits = Inr (s, ext, True)"
    "length s + digits + 1 + length ext \<le> mf" "0x2e \<notin> set ext" "mf = 12 \<Longrightarrow> length ext \<le> 3"
    by blast
  have l: "length (mangled_name s True ext digits c) \<le> mf" if "c < 10 ^ digits" for c
    using that s(2) assms(5) by (simp add: mangled_name_def length_pad)
  show ?thesis
  proof (rule that [OF s(1) l])
    fix c and n' :: "'a ecma119_node"
    assume c: "c < 10 ^ digits" "node_type n' = node_type n"
      "name_of n' = mangled_name s True ext digits c"
    have "strrchr ((s @ pad digits c) @ 0x2e # ext) 0x2e = Some (length (s @ pad digits c))"
      by (rule strrchr_append [OF s(3)])
    then show "mangleable img mf n'"
      using l [OF c(1)] s(4) by (auto simp: mangleable_def c(3) mangled_name_def)
  qed
qed

lemma int_pow_eq: "int_pow b n = b ^ n"
  by (induction n) (simp_all add: mult.commute)

text \<open>Some renaming of the positions in \<open>G\<close> which makes them unique.\<close>

definition group_done :: "nat \<Rightarrow> nat set \<Rightarrow> nat set \<Rightarrow> 'a mangle_state \<Rightarrow> 'a mangle_state \<Rightarrow> bool" where
  "group_done mf G S st st' \<longleftrightarrow> minv st' \<and> uniq st' (S \<union> G) \<and>
     length (kids st') = length (kids st) \<and> map erase (kids st') = map erase (kids st) \<and>
     (\<forall>p < length (kids st). kids st' ! p = kids st ! p \<or>
        p \<in> G \<and> length (nm st' p) \<le> mf \<and> need_sort st') \<and>
     (need_sort st \<longrightarrow> need_sort st')"

lemma group_done_trans:
  assumes "group_done mf G S st1 st2" "minv st1"
    "length (kids st1) = length (kids st)" "map erase (kids st1) = map erase (kids st)"
    "\<And>p. p < length (kids st) \<Longrightarrow> kids st1 ! p = kids st ! p \<or>
        p \<in> G \<and> length (nm st1 p) \<le> mf \<and> need_sort st1" "need_sort st \<longrightarrow> need_sort st1"
  shows "group_done mf G S st st2"
  using assms unfolding group_done_def by (smt (verit))

lemma mangle_digits_spec:
  assumes "minv st" "uniq st S" "S \<subseteq> {..<length (kids st)}" "i \<le> j" "j < length (kids st)"
    "mangleable img mf (kids st ! i)" "12 \<le> mf" "8 \<le> md" "md \<le> mf" "2 * length (kids st) < 10 ^ 7"
    "0 < left" "left \<le> 7"
  shows "\<exists>st'. mangle_digits img mf md i j left st = Inr st' \<and> group_done mf {i..j} S st st'"
  using assms
proof (induction left arbitrary: st)
  case (Suc left)
  define digits where "digits = 8 - Suc left"
  have dg: "0 < digits" "digits \<le> 7" using Suc.prems by (simp_all add: digits_def)
  obtain s ext dot where s: "split_name img mf md (kids st ! i) digits = Inr (s, ext, dot)"
    "\<And>c. c < 10 ^ digits \<Longrightarrow> length (mangled_name s dot ext digits c) \<le> mf"
    "\<And>c (n' :: 'a ecma119_node). c < 10 ^ digits \<Longrightarrow> node_type n' = node_type (kids st ! i) \<Longrightarrow>
       name_of n' = mangled_name s dot ext digits c \<Longrightarrow> mangleable img mf n'"
    using split_name_ok [OF dg(2) Suc.prems(7-9) dg(1) Suc.prems(6)] by blast
  let ?cand = "mangled_name s dot ext digits"
  obtain ok st' where run: "rename_group ?cand (10 ^ digits) i (j + 1 - i) 0 st = (ok, st')"
    by fastforce
  have G: "i + (j + 1 - i) \<le> length (kids st)" "{i..<i + (j + 1 - i)} = {i..j}"
    using Suc.prems(4,5) by auto
  let ?N = "nm st ` {..<length (kids st)}"
  have spec: "renamed ?cand (10 ^ digits) {i..j} st st' \<and> uniq st' S \<and> (ok \<longrightarrow> uniq st' (S \<union> {i..j}))"
    using rename_group_spec [OF run Suc.prems(1) G(1) Suc.prems(2,3), of ?N i] G(2) by auto
  have pos: "kids st' ! p = kids st ! p \<or> p \<in> {i..j} \<and> length (nm st' p) \<le> mf \<and> need_sort st'"
    if "p < length (kids st)" for p
    using spec that s(2) by (auto simp: renamed_def)
  show ?case
  proof (cases ok)
    case True
    have "mangle_digits img mf md i j (Suc left) st = Inr st'"
      unfolding mangle_digits.simps Let_def digits_def [symmetric] int_pow_eq s(1)
      using run True by simp
    then show ?thesis
      using spec True pos unfolding group_done_def renamed_def by blast
  next
    case False
    have cnt: "10 ^ digits \<le> 2 * length (kids st)"
      using run False Suc.prems(1) G(1) mangled_name_inj
      by (intro rename_group_count [of ?cand _ i]) (auto simp: inj_on_def)
    have left: "0 < left"
    proof (rule ccontr)
      assume "\<not> 0 < left"
      then have "digits = 7" by (simp add: digits_def)
      with cnt Suc.prems(10) show False by simp
    qed
    have L: "length (kids st') = length (kids st)" "map erase (kids st') = map erase (kids st)" "minv st'"
      using spec by (auto simp: renamed_def)
    have er: "erase (kids st' ! i) = erase (kids st ! i)"
      using L(1,2) Suc.prems(4,5) by (metis le_less_trans nth_map)
    have C: "mangleable img mf (kids st' ! i)"
    proof -
      have "kids st' ! i = kids st ! i \<or> (\<exists>c < 10 ^ digits. nm st' i = ?cand c)"
        using spec Suc.prems(4,5) unfolding renamed_def by (meson le_less_trans)
      moreover have "node_type (kids st' ! i) = node_type (kids st ! i)"
        using er by (metis erase_def set_iso_name_simps(2))
      ultimately show ?thesis using s(3) Suc.prems(6) by auto
    qed
    have "\<exists>st''. mangle_digits img mf md i j left st' = Inr st'' \<and> group_done mf {i..j} S st' st''"
      using Suc.prems(3-12) spec L left C by (intro Suc.IH) (simp_all add: L)
    then obtain st'' where IH: "mangle_digits img mf md i j left st' = Inr st''"
      "group_done mf {i..j} S st' st''" by blast
    have "mangle_digits img mf md i j (Suc left) st = Inr st''"
      unfolding mangle_digits.simps Let_def digits_def [symmetric] int_pow_eq s(1)
      using run False IH(1) by simp
    moreover have "group_done mf {i..j} S st st''"
      by (rule group_done_trans [OF IH(2) L(3,1,2) pos]) (use spec in \<open>auto simp: renamed_def\<close>)
    ultimately show ?thesis by blast
  qed
qed simp

lemma last_same_spec:
  assumes "i < length cs"
  shows "last_same cs i < length cs \<and> (\<forall>p. i \<le> p \<and> p \<le> last_same cs i \<longrightarrow> name_of (cs ! p) = name_of (cs ! i)) \<and>
    (last_same cs i + 1 < length cs \<longrightarrow> name_of (cs ! last_same cs i) \<noteq> name_of (cs ! (last_same cs i + 1)))"
  using assms
proof (induction cs i rule: last_same.induct)
  case (1 cs j)
  show ?case
  proof (cases "j + 1 < length cs \<and> cmp_node_name (cs ! j) (cs ! (j + 1)) = 0")
    case True
    then have e: "last_same cs j = last_same cs (j + 1)" by (subst last_same.simps) simp
    have n: "name_of (cs ! j) = name_of (cs ! (j + 1))" using True by (simp add: cmp_node_name_def)
    note IH = "1.IH" [OF True conjunct1 [OF True]]
    have "\<forall>p. j \<le> p \<and> p \<le> last_same cs (j + 1) \<longrightarrow> name_of (cs ! p) = name_of (cs ! j)"
    proof (intro allI impI)
      fix p
      assume p: "j \<le> p \<and> p \<le> last_same cs (j + 1)"
      show "name_of (cs ! p) = name_of (cs ! j)"
      proof (cases "p = j")
        case False
        with p have "j + 1 \<le> p \<and> p \<le> last_same cs (j + 1)" by simp
        then have "name_of (cs ! p) = name_of (cs ! (j + 1))" using IH by blast
        then show ?thesis using n by (rule trans [OF _ sym])
      qed simp
    qed
    then show ?thesis using IH unfolding e by blast
  next
    case False
    then have e: "last_same cs j = j" by (subst last_same.simps) auto
    have "\<forall>p. j \<le> p \<and> p \<le> j \<longrightarrow> name_of (cs ! p) = name_of (cs ! j)"
      by (metis order_antisym)
    then show ?thesis using False "1.prems" unfolding e cmp_node_name_def strcmp_0_iff by blast
  qed
qed

text \<open>
  The invariant of the outer loop over the children \<open>cs\<close>: the first \<open>i\<close> are done, the others
  are as they were, and only a child whose name occurred twice has got a new one.
\<close>

definition loop_inv :: "nat \<Rightarrow> 'a ecma119_node list \<Rightarrow> nat \<Rightarrow> 'a mangle_state \<Rightarrow> bool" where
  "loop_inv mf cs i st \<longleftrightarrow> minv st \<and> uniq st {..<i} \<and> length (kids st) = length cs \<and>
     map erase (kids st) = map erase cs \<and>
     (\<forall>p < length cs. kids st ! p = cs ! p \<or>
        p < i \<and> length (nm st p) \<le> mf \<and> need_sort st \<and>
        (\<exists>q < length cs. q \<noteq> p \<and> name_of (cs ! q) = name_of (cs ! p)))"

lemma loop_inv_rest: "loop_inv mf cs i st \<Longrightarrow> i \<le> p \<Longrightarrow> p < length cs \<Longrightarrow> kids st ! p = cs ! p"
  by (auto simp: loop_inv_def)

lemma sorted_names_less:
  assumes "sorted (map name_of cs)" "i < b" "b < length cs" "name_of (cs ! i) \<noteq> name_of (cs ! (i + 1))"
  shows "name_of (cs ! i) \<noteq> name_of (cs ! b)"
proof -
  have "name_of (cs ! i) \<le> name_of (cs ! (i + 1))" "name_of (cs ! (i + 1)) \<le> name_of (cs ! b)"
    using sorted_nth_mono [OF assms(1), of i "i + 1"] sorted_nth_mono [OF assms(1), of "i + 1" b] assms(2,3)
    by simp_all
  with assms(4) show ?thesis by auto
qed

lemma loop_inv_single:
  assumes "loop_inv mf cs i st" "i < length cs" "sorted (map name_of cs)" "last_same (kids st) i = i"
  shows "loop_inv mf cs (i + 1) st"
proof -
  have len: "length (kids st) = length cs" using assms(1) by (simp add: loop_inv_def)
  have u: "uniq st {..<i}" using assms(1) by (simp add: loop_inv_def)
  have ne: "i + 1 < length cs \<Longrightarrow> name_of (cs ! i) \<noteq> name_of (cs ! (i + 1))"
    using last_same_spec [of i "kids st"] assms(2,4) len
      loop_inv_rest [OF assms(1), of i] loop_inv_rest [OF assms(1), of "i + 1"] by simp
  have "nm st i \<noteq> nm st b" if "b < length cs" "b \<noteq> i" for b
  proof (cases "b < i")
    case True
    then have "nm st b \<noteq> nm st i" using u assms(2) len unfolding uniq_def by auto
    then show ?thesis by simp
  next
    case False
    then have "i < b" using that by simp
    then have "name_of (cs ! i) \<noteq> name_of (cs ! b)"
      using sorted_names_less [OF assms(3) _ that(1)] ne that(1) by simp
    then show ?thesis
      using loop_inv_rest [OF assms(1)] assms(2) that(1) \<open>i < b\<close> by simp
  qed
  then have "uniq st (insert i {..<i})"
    using u unfolding uniq_def len by blast
  moreover have "insert i {..<i} = {..<i + 1}" by auto
  ultimately have "uniq st {..<i + 1}" by simp
  then show ?thesis using assms(1) by (auto simp: loop_inv_def)
qed

lemma loop_inv_group:
  assumes inv: "loop_inv mf cs i st" and j: "i < j" "j < length cs" "j = last_same (kids st) i"
    and g: "group_done mf {i..j} {..<i} st st'"
  shows "loop_inv mf cs (j + 1) st'"
proof -
  have len: "length (kids st) = length cs" using inv by (simp add: loop_inv_def)
  have s: "\<forall>p. i \<le> p \<and> p \<le> j \<longrightarrow> nm st p = nm st i"
    using last_same_spec [of i "kids st"] j len by (metis less_trans)
  have same: "name_of (cs ! p) = name_of (cs ! i)" if "p \<in> {i..j}" for p
  proof -
    from that have "i \<le> p \<and> p \<le> j" by simp
    then have "nm st p = nm st i" using s by blast
    moreover have "kids st ! p = cs ! p" "kids st ! i = cs ! i"
      using that j by (simp_all add: loop_inv_rest [OF inv])
    ultimately show ?thesis by simp
  qed
  have dup: "\<exists>q < length cs. q \<noteq> p \<and> name_of (cs ! q) = name_of (cs ! p)" if p: "p \<in> {i..j}" for p
  proof (cases "p = i")
    case True
    then show ?thesis using same [of j] j by (intro exI [of _ j]) simp
  next
    case False
    then show ?thesis using same [OF p] j by (intro exI [of _ i]) simp
  qed
  have "{..<i} \<union> {i..j} = {..<j + 1}" using j by auto
  then have "uniq st' {..<j + 1}" using g by (simp add: group_done_def)
  moreover have "kids st' ! p = cs ! p \<or>
        p < j + 1 \<and> length (nm st' p) \<le> mf \<and> need_sort st' \<and>
        (\<exists>q < length cs. q \<noteq> p \<and> name_of (cs ! q) = name_of (cs ! p))" if p: "p < length cs" for p
  proof (cases "p \<in> {i..j} \<and> kids st' ! p \<noteq> kids st ! p")
    case True
    then show ?thesis using g p len dup [of p] by (auto simp: group_done_def)
  next
    case False
    then have e: "kids st' ! p = kids st ! p" using g p len by (auto simp: group_done_def)
    moreover have "need_sort st \<longrightarrow> need_sort st'" using g by (simp add: group_done_def)
    ultimately show ?thesis using inv p j by (auto simp: loop_inv_def)
  qed
  ultimately show ?thesis
    using g inv by (auto simp: loop_inv_def group_done_def)
qed

lemma mangle_loop_spec:
  assumes "sorted (map name_of cs)" "\<forall>c \<in> set cs. mangleable img mf c" "12 \<le> mf" "8 \<le> md" "md \<le> mf"
    "2 * length cs < 10 ^ 7" "untranslated_name_len img = 0"
  shows "loop_inv mf cs i st \<Longrightarrow> i \<le> length cs \<Longrightarrow>
    \<exists>st'. mangle_loop img mf md (length cs) i st = Inr st' \<and> loop_inv mf cs (length cs) st'"
proof (induction "length cs - i" arbitrary: i st rule: less_induct)
  case less
  show ?case
  proof (cases "i < length cs")
    case False
    then have "mangle_loop img mf md (length cs) i st = Inr st"
      by (subst mangle_loop.simps) simp
    then show ?thesis using less.prems False by simp
  next
    case True
    define j where "j = last_same (kids st) i"
    have len: "length (kids st) = length cs" using less.prems by (simp add: loop_inv_def)
    have j: "i \<le> j" "j < length cs"
      using last_same_spec [of i "kids st"] True len last_same_ge [of i "kids st"] by (simp_all add: j_def)
    show ?thesis
    proof (cases "j = i")
      case True
      have "mangle_loop img mf md (length cs) i st = mangle_loop img mf md (length cs) (i + 1) st"
        using \<open>i < length cs\<close> True by (subst mangle_loop.simps) (simp add: Let_def flip: j_def)
      moreover have "loop_inv mf cs (i + 1) st"
        using loop_inv_single [OF less.prems(1) \<open>i < length cs\<close> assms(1)] True by (simp add: j_def)
      ultimately show ?thesis using less.hyps [of "i + 1" st] \<open>i < length cs\<close> by simp
    next
      case False
      have k: "kids st ! i = cs ! i" using loop_inv_rest [OF less.prems(1), of i] True by simp
      have "minv st" "uniq st {..<i}" using less.prems by (simp_all add: loop_inv_def)
      then obtain st' where st': "mangle_digits img mf md i j 7 st = Inr st'"
        "group_done mf {i..j} {..<i} st st'"
        using mangle_digits_spec [of st "{..<i}" i j img mf md 7] j len k True assms by auto
      have "loop_inv mf cs (j + 1) st'"
        using loop_inv_group [OF less.prems(1) _ j(2) j_def st'(2)] False j by simp
      moreover have "mangle_loop img mf md (length cs) i st = mangle_loop img mf md (length cs) (j + 1) st'"
        using \<open>i < length cs\<close> False st'(1) assms(7)
        by (subst mangle_loop.simps) (simp add: Let_def flip: j_def)
      ultimately show ?thesis using less.hyps [of "j + 1" st'] j by simp
    qed
  qed
qed

lemma loop_inv_start:
  "name_htable n = Inr t \<Longrightarrow> 0 < n \<Longrightarrow>
   loop_inv mf cs 0 \<lparr>kids = cs, table = foldl add_name t (map iso_name cs), brk = b, need_sort = False\<rparr>"
proof -
  assume "name_htable n = Inr t" "0 < n"
  then have "nt.tracks t []"
    using name_htable_wf [where 'a = name_key, of n] by (auto simp: nt.tracks_def keys_def)
  from nt.tracks_all [OF this, of "map iso_name cs"] show ?thesis
    by (simp add: loop_inv_def minv_def uniq_def)
qed

lemma finite_set_index: "finite {i. i < (n :: nat) \<and> P i}"
  by simp

lemma mangle_single_dir_spec:
  assumes "sorted (map name_of cs)" "\<forall>c \<in> set cs. mangleable img mf c" "12 \<le> mf" "8 \<le> md" "md \<le> mf"
    "2 * length cs < 10 ^ 7" "untranslated_name_len img = 0"
  shows "\<exists>cs' b'. mangle_single_dir img mf md b cs = Inr (cs', b') \<and>
    sorted (map name_of cs') \<and> distinct (map name_of cs') \<and>
    mset (map erase cs') = mset (map erase cs) \<and> list_all (\<lambda>c. length (name_of c) \<le> mf) cs' \<and>
    (\<forall>c \<in> set cs. length (filter (\<lambda>n. n = name_of c) (map name_of cs)) = 1 \<longrightarrow> c \<in> set cs')"
proof (cases "cs = []")
  case True
  have "mangle_loop img mf md 0 0 st = Inr st" for st :: "'a mangle_state"
    by (subst mangle_loop.simps) simp
  then show ?thesis
    using True by (simp add: mangle_single_dir_def name_htable_def iso_htable_create_def)
next
  case False
  then have n: "0 < length cs * 100 div 80" by (cases cs) simp_all
  obtain t :: "(name_key, name_key) iso_htable" where t: "name_htable (length cs * 100 div 80) = Inr t"
    using name_htable_wf [OF n] by blast
  obtain st where st: "mangle_loop img mf md (length cs) 0
      \<lparr>kids = cs, table = foldl add_name t (map iso_name cs), brk = b, need_sort = False\<rparr> = Inr st"
    "loop_inv mf cs (length cs) st"
    using mangle_loop_spec [OF assms loop_inv_start [OF t n, of mf cs b]] by auto
  note inv = st(2) [unfolded loop_inv_def]
  define cs' where "cs' = (if need_sort st then qsort_names (kids st) else kids st)"
  have run: "mangle_single_dir img mf md b cs = Inr (cs', brk st)"
    using t st(1) by (simp add: mangle_single_dir_def cs'_def)
  have ms: "mset cs' = mset (kids st)" by (simp add: cs'_def qsort_names_def)
  have unsorted: "kids st = cs" if "\<not> need_sort st"
    using inv that by (intro nth_equalityI) auto
  have "sorted (map name_of cs')"
    using unsorted assms(1) by (simp add: cs'_def qsort_names_def)
  moreover have "distinct (map name_of (kids st))"
    unfolding distinct_conv_nth using inv by (auto simp: uniq_def)
  then have "distinct (map name_of cs')"
    using ms by (metis distinct_map mset_eq_imp_distinct_iff mset_eq_setD)
  moreover have "mset (map erase cs') = mset (map erase cs)"
    using ms inv by (metis mset_map)
  moreover have "list_all (\<lambda>c. length (name_of c) \<le> mf) (kids st)"
    using inv assms(2) by (auto simp: list_all_length mangleable_def)
  then have "list_all (\<lambda>c. length (name_of c) \<le> mf) cs'"
    using mset_eq_setD [OF ms] by (simp add: list_all_iff)
  moreover have "c \<in> set cs'"
    if c: "c \<in> set cs" "length (filter (\<lambda>n. n = name_of c) (map name_of cs)) = 1" for c
  proof -
    obtain p where p: "p < length cs" "cs ! p = c" using c(1) by (auto simp: in_set_conv_nth)
    have "kids st ! p = cs ! p"
    proof (rule ccontr)
      assume "kids st ! p \<noteq> cs ! p"
      then obtain q where q: "q < length cs" "q \<noteq> p" "name_of (cs ! q) = name_of (cs ! p)"
        using inv p(1) by auto
      have "{p, q} \<subseteq> {i. i < length (map name_of cs) \<and> map name_of cs ! i = name_of c}"
        using p q by auto
      then have "card {p, q} \<le> card {i. i < length (map name_of cs) \<and> map name_of cs ! i = name_of c}"
        by (intro card_mono finite_set_index)
      moreover have "card {p, q} = 2" using q(2) by simp
      ultimately have "2 \<le> card {i. i < length (map name_of cs) \<and> map name_of cs ! i = name_of c}"
        by simp
      then show False using c(2) by (simp add: length_filter_conv_card)
    qed
    then have "c \<in> set (kids st)" using p inv by (metis nth_mem)
    then show ?thesis using mset_eq_setD [OF ms] by simp
  qed
  ultimately show ?thesis using run by blast
qed

section \<open>The whole tree\<close>

text \<open>A predicate on the list of children of every directory in a tree.\<close>

fun all_dirs :: "('a ecma119_node list \<Rightarrow> bool) \<Rightarrow> 'a ecma119_node \<Rightarrow> bool" where
  "all_dirs P (ENode k t i cs) \<longleftrightarrow>
     P cs \<and> (\<forall>c \<in> set cs. node_type c = ECMA119_DIR \<longrightarrow> all_dirs P c)"

fun depth :: "'a ecma119_node \<Rightarrow> nat" where
  "depth (ENode k t i cs) = Suc (foldr (\<lambda>c m. max (depth c) m) cs 0)"

lemma depth_child: "c \<in> set (children n) \<Longrightarrow> depth c < depth n"
proof (cases n)
  case (ENode k t i cs)
  have "c \<in> set cs \<Longrightarrow> depth c \<le> foldr (\<lambda>c m. max (depth c) m) cs 0" for cs
    by (induction cs) auto
  then show "c \<in> set (children n) \<Longrightarrow> depth c < depth n"
    using ENode by (simp add: less_Suc_eq_le)
qed

lemma sort_tree_sorted: "all_dirs (\<lambda>cs. sorted (map name_of cs)) (sort_tree n)"
proof (induction n rule: sort_tree.induct)
  case (1 k t i cs)
  have nm: "name_of (sort_tree c) = name_of c" "node_type (sort_tree c) = node_type c" for c :: "'a ecma119_node"
    by (cases c; simp)+
  have f: "name_of \<circ> (\<lambda>c :: 'a ecma119_node. if node_type c = ECMA119_DIR then sort_tree c else c) = name_of"
    by (auto simp: fun_eq_iff nm)
  show ?case
    using 1 by (auto simp: qsort_names_def nm f split: if_splits)
qed

lemma all_dirs_iff: "all_dirs P n \<longleftrightarrow>
    P (children n) \<and> (\<forall>c \<in> set (children n). node_type c = ECMA119_DIR \<longrightarrow> all_dirs P c)"
  by (cases n) simp

lemma mangle_subdirs_spec:
  assumes "\<And>c b. c \<in> set cs \<Longrightarrow> node_type c = ECMA119_DIR \<Longrightarrow>
    \<exists>c' b'. mangle_dir fuel img mf md b c = Some (Inr (c', b')) \<and> iso_name c' = iso_name c \<and>
      node_type c' = node_type c \<and> Q c'"
  shows "\<exists>cs' b'. mangle_subdirs fuel img mf md b cs = Some (Inr (cs', b')) \<and>
    map iso_name cs' = map iso_name cs \<and> map node_type cs' = map node_type cs \<and>
    (\<forall>c \<in> set cs'. node_type c = ECMA119_DIR \<longrightarrow> Q c)"
  using assms
proof (induction cs arbitrary: b)
  case (Cons c cs)
  obtain c' b' where c': "(if node_type c = ECMA119_DIR then mangle_dir fuel img mf md b c
      else Some (Inr (c, b))) = Some (Inr (c', b'))" "iso_name c' = iso_name c" "node_type c' = node_type c"
      "node_type c' = ECMA119_DIR \<longrightarrow> Q c'"
    using Cons.prems [of c b] by (cases "node_type c = ECMA119_DIR") auto
  obtain cs' b'' where cs': "mangle_subdirs fuel img mf md b' cs = Some (Inr (cs', b''))"
    "map iso_name cs' = map iso_name cs" "map node_type cs' = map node_type cs"
    "\<forall>c \<in> set cs'. node_type c = ECMA119_DIR \<longrightarrow> Q c"
    using Cons.IH [of b'] Cons.prems by auto
  then show ?case using c' by (intro exI [of _ "c' # cs'"]) auto
qed simp

text \<open>What a directory must be for mangling to succeed.\<close>

definition mangle_ready :: "name_opts \<Rightarrow> nat \<Rightarrow> 'a ecma119_node list \<Rightarrow> bool" where
  "mangle_ready img mf cs \<longleftrightarrow> sorted (map name_of cs) \<and> list_all (mangleable img mf) cs \<and>
     2 * length cs < 10 ^ 7"

definition mangle_done :: "nat \<Rightarrow> 'a ecma119_node list \<Rightarrow> bool" where
  "mangle_done mf cs \<longleftrightarrow> sorted (map name_of cs) \<and> distinct (map name_of cs) \<and>
     list_all (\<lambda>c. length (name_of c) \<le> mf) cs"

lemma mangle_dir_spec:
  assumes "12 \<le> mf" "8 \<le> md" "md \<le> mf" "untranslated_name_len img = 0"
  shows "all_dirs (mangle_ready img mf) n \<Longrightarrow> depth n \<le> fuel \<Longrightarrow>
    \<exists>n' b'. mangle_dir fuel img mf md b n = Some (Inr (n', b')) \<and> iso_name n' = iso_name n \<and>
      node_type n' = node_type n \<and> all_dirs (mangle_done mf) n'"
proof (induction fuel arbitrary: n b)
  case 0
  then show ?case by (cases n) simp
next
  case (Suc fuel)
  let ?cs = "children n"
  have ready: "mangle_ready img mf ?cs" using Suc.prems(1) by (subst (asm) all_dirs_iff) simp
  then obtain cs1 b1 where cs1: "mangle_single_dir img mf md b ?cs = Inr (cs1, b1)"
    "sorted (map name_of cs1)" "distinct (map name_of cs1)"
    "mset (map erase cs1) = mset (map erase ?cs)" "list_all (\<lambda>c. length (name_of c) \<le> mf) cs1"
    using mangle_single_dir_spec [of ?cs img mf md b] assms
    by (auto simp: mangle_ready_def list_all_iff)
  have sub: "\<exists>c \<in> set ?cs. children c' = children c \<and> node_type c' = node_type c" if "c' \<in> set cs1" for c'
  proof -
    have "erase c' \<in> erase ` set ?cs"
      using mset_eq_setD [OF cs1(4)] that by auto
    then show ?thesis by (auto simp: erase_def set_iso_name_def)
  qed
  have rec: "\<exists>c'' b''. mangle_dir fuel img mf md b' c' = Some (Inr (c'', b'')) \<and> iso_name c'' = iso_name c' \<and>
      node_type c'' = node_type c' \<and> all_dirs (mangle_done mf) c''"
    if c': "c' \<in> set cs1" "node_type c' = ECMA119_DIR" for c' b'
  proof -
    obtain c where c: "c \<in> set ?cs" "children c' = children c" "node_type c = ECMA119_DIR"
      using sub [OF c'(1)] c'(2) by auto
    have "all_dirs (mangle_ready img mf) c"
      using Suc.prems(1) c(1,3) by (subst (asm) all_dirs_iff) blast
    then have "all_dirs (mangle_ready img mf) c'"
      by (subst all_dirs_iff) (subst (asm) all_dirs_iff, simp add: c(2))
    moreover have "depth c' = depth c" using c(2) by (cases c; cases c') simp
    then have "depth c' \<le> fuel" using depth_child [OF c(1)] Suc.prems(2) by simp
    ultimately show ?thesis by (rule Suc.IH)
  qed
  obtain cs2 b2 where cs2: "mangle_subdirs fuel img mf md b1 cs1 = Some (Inr (cs2, b2))"
    "map iso_name cs2 = map iso_name cs1" "map node_type cs2 = map node_type cs1"
    "\<forall>c \<in> set cs2. node_type c = ECMA119_DIR \<longrightarrow> all_dirs (mangle_done mf) c"
    using mangle_subdirs_spec [OF rec, where b = b1] by blast
  have "map snd (map iso_name cs2) = map snd (map iso_name cs1)" by (simp only: cs2(2))
  then have nm: "map name_of cs2 = map name_of cs1" by (simp add: comp_def)
  have "list_all (\<lambda>s. length s \<le> mf) (map name_of cs1)"
    using cs1(5) by (simp add: list_all_iff)
  then have "mangle_done mf cs2"
    using cs1(2,3) unfolding mangle_done_def nm [symmetric] by (simp add: list_all_iff)
  then show ?case
    using cs1(1) cs2(1,4) by simp
qed

section \<open>The names that mangling starts from\<close>

lemma length_iso_r_fileid:
  assumes "iso_r_fileid (Some src) len relaxed force = Some r" "3 \<le> len"
  shows "length r \<le> len + 1"
proof -
  obtain base ext where be: "(base, ext) = (case strrchr src 0x2e of
        Some d \<Rightarrow> if d + 1 = length src then (src, []) else (take d src, drop (d + 1) src)
      | None \<Rightarrow> (src, []))"
    by (cases "case strrchr src 0x2e of
        Some d \<Rightarrow> if d + 1 = length src then (src, []) else (take d src, drop (d + 1) src)
      | None \<Rightarrow> (src, [])") auto
  from iso_r_fileid_shape [OF assms be] show ?thesis
    by (auto simp: split_ok_def)
qed

lemma length_iso_2_fileid:
  assumes "iso_2_fileid (Some src) = Some r"
  shows "length r \<le> 31"
proof (cases "\<exists>d. strrchr src 0x2e = Some d \<and> d + 1 \<noteq> length src")
  case True
  then obtain d where d: "strrchr src 0x2e = Some d" "d + 1 \<noteq> length src" by blast
  then have "d < length src" using strrchr_Some by blast
  then obtain lname i j where "split_lengths (length src) (Some d) 30 = (lname, i, j)" "i + j \<le> 30"
    using split_lengths_dot [of 30 d "length src"] d(2) by (auto simp: split_ok_def split: prod.splits)
  then show ?thesis using assms d by (auto simp: iso_2_fileid_def Let_def split: if_splits)
next
  case False
  then have "strrchr src 0x2e = None \<or> strrchr src 0x2e = Some (length src - 1) \<and> 0 < length src"
    using strrchr_Some [of src "0x2e"] by (cases "strrchr src 0x2e") force+
  from split_lengths_plain [OF this, of 30] show ?thesis
    using assms by (auto simp: iso_2_fileid_def Let_def split: if_splits)
qed

lemma iso_1_fileid_mangleable:
  assumes "iso_1_fileid (Some src) relaxed force = Some r" "strict_opts relaxed"
  shows "length r \<le> 12 \<and> (case strrchr r 0x2e of None \<Rightarrow> True | Some d \<Rightarrow> length r \<le> d + 4)"
proof -
  obtain n e where ne: "length n \<le> 8" "length e \<le> 3"
    "r = n @ (if force \<or> e \<noteq> [] then 0x2e # e else [])" "list_all (fileid_char relaxed) (n @ e)"
    using iso_1_fileid_parts [OF assms] by blast
  have "0x2e \<notin> set (n @ e)" using ne(4) fileid_char_no_dot by (auto simp: list_all_iff)
  then show ?thesis
    using ne(1-3) strrchr_append [of "0x2e" e n] by (auto simp: strrchr_None_iff [THEN iffD2])
qed

lemma length_dirids:
  "length (iso_r_dirid s n r) \<le> n" "length (iso_1_dirid s r) \<le> 8" "length (iso_2_dirid s) \<le> 31"
  by (simp_all add: iso_r_dirid_def iso_1_dirid_def iso_2_dirid_def iso_dirid_def Let_def)

section \<open>Properties\<close>

text \<open>
  C14: \<open>mangle_single_dir\<close> always succeeds on a sorted directory of less than five million
  children.  Afterwards the names are sorted, all different and within the limit; nothing
  but names has changed; and a child whose name was unique before has kept it.
\<close>
theorem mangle_single_dir_correct:
  assumes "mangle_ready img mf cs" "12 \<le> mf" "8 \<le> md" "md \<le> mf" "untranslated_name_len img = 0"
  shows "\<exists>cs' b'. mangle_single_dir img mf md b cs = Inr (cs', b') \<and>
    sorted (map name_of cs') \<and> distinct (map name_of cs') \<and>
    list_all (\<lambda>c. length (name_of c) \<le> mf) cs' \<and>
    mset (map erase cs') = mset (map erase cs) \<and>
    (\<forall>c \<in> set cs. length (filter (\<lambda>n. n = name_of c) (map name_of cs)) = 1 \<longrightarrow> c \<in> set cs')"
  using mangle_single_dir_spec [of cs img mf md b] assms
  by (auto simp: mangle_ready_def list_all_iff)



definition example_opts :: name_opts where
  "example_opts = \<lparr>untranslated_name_len = 0, allow_full_ascii = False, allow_lowercase = False,
     allow_7bit_ascii = False, allow_dir_id_ext = False, max_37_char_filenames = False,
     iso_level = 1, no_force_dots = False\<rparr>"

definition example_kids :: "nat ecma119_node list" where
  "example_kids =
     [ENode (1, str ''A.TXT'') ECMA119_FILE 10 [], ENode (2, str ''A.TXT'') ECMA119_FILE 11 [],
      ENode (3, str ''SUB'') ECMA119_DIR 12 []]"

lemma example_ready: "mangle_ready example_opts 12 example_kids"
proof -
  have "mangleable example_opts 12 (ENode (p, str ''A.TXT'') ECMA119_FILE k [])" for p and k :: nat
    by (simp add: mangleable_def)
  moreover have "mangleable example_opts 12 (ENode (p, str ''SUB'') ECMA119_DIR k [])" for p and k :: nat
    by (simp add: mangleable_def example_opts_def)
  ultimately show ?thesis
    by (simp add: mangle_ready_def example_kids_def)
qed

theorem mangle_single_dir_correct_witness:
  "\<exists>cs' b'. mangle_single_dir example_opts 12 8 4 example_kids = Inr (cs', b') \<and>
     distinct (map name_of cs') \<and> ENode (3, str ''SUB'') ECMA119_DIR 12 [] \<in> set cs'"
proof -
  have "length (filter (\<lambda>n. n = str ''SUB'') (map name_of example_kids)) = 1"
    by (simp add: example_kids_def)
  moreover have "ENode (3, str ''SUB'') ECMA119_DIR 12 [] \<in> set example_kids"
    by (simp add: example_kids_def)
  ultimately show ?thesis
    using mangle_single_dir_correct [OF example_ready, of 8 4] by (force simp: example_opts_def)
qed



end
