(* ===== verification/Md5.thy ===== *)
theory Md5
  imports Bytes
begin

text \<open>
  The MD5 computation of \<open>libisofs/md5.c\<close>, from \<open>md5__transform\<close> to the public functions
  \<open>iso_md5_start\<close>, \<open>iso_md5_compute\<close>, \<open>iso_md5_clone\<close>, \<open>iso_md5_end\<close> and \<open>iso_md5_match\<close>.
  A context pointer is an option, \<open>mem\<close> tells whether \<open>calloc\<close> succeeds.

  The result is that a checksum computed in pieces is the one of RFC 1321: the blocks of
  the padded message are run through the transformation.
\<close>

section \<open>The basic transformation\<close>

type_synonym md5_state = "u32 \<times> u32 \<times> u32 \<times> u32"

definition md5_F :: "u32 \<Rightarrow> u32 \<Rightarrow> u32 \<Rightarrow> u32" where
  "md5_F x y z = (x AND y) OR (NOT x AND z)"

definition md5_G :: "u32 \<Rightarrow> u32 \<Rightarrow> u32 \<Rightarrow> u32" where
  "md5_G x y z = (x AND z) OR (y AND NOT z)"

definition md5_H :: "u32 \<Rightarrow> u32 \<Rightarrow> u32 \<Rightarrow> u32" where
  "md5_H x y z = x XOR y XOR z"

definition md5_I :: "u32 \<Rightarrow> u32 \<Rightarrow> u32 \<Rightarrow> u32" where
  "md5_I x y z = y XOR (x OR NOT z)"

definition md5_rotate_left :: "u32 \<Rightarrow> nat \<Rightarrow> u32" where
  "md5_rotate_left x n = push_bit n x OR drop_bit (32 - n) x"

text \<open>The macros assign to their first argument; here they return the new value of it.\<close>

definition md5_FF :: "u32 \<Rightarrow> u32 \<Rightarrow> u32 \<Rightarrow> u32 \<Rightarrow> u32 \<Rightarrow> nat \<Rightarrow> u32 \<Rightarrow> u32" where
  "md5_FF a b c d x s ac = md5_rotate_left (a + (md5_F b c d + x + ac)) s + b"

definition md5_GG :: "u32 \<Rightarrow> u32 \<Rightarrow> u32 \<Rightarrow> u32 \<Rightarrow> u32 \<Rightarrow> nat \<Rightarrow> u32 \<Rightarrow> u32" where
  "md5_GG a b c d x s ac = md5_rotate_left (a + (md5_G b c d + x + ac)) s + b"

definition md5_HH :: "u32 \<Rightarrow> u32 \<Rightarrow> u32 \<Rightarrow> u32 \<Rightarrow> u32 \<Rightarrow> nat \<Rightarrow> u32 \<Rightarrow> u32" where
  "md5_HH a b c d x s ac = md5_rotate_left (a + (md5_H b c d + x + ac)) s + b"

definition md5_II :: "u32 \<Rightarrow> u32 \<Rightarrow> u32 \<Rightarrow> u32 \<Rightarrow> u32 \<Rightarrow> nat \<Rightarrow> u32 \<Rightarrow> u32" where
  "md5_II a b c d x s ac = md5_rotate_left (a + (md5_I b c d + x + ac)) s + b"

text \<open>The sixteen little endian words of a block of 64 bytes.\<close>

definition md5_word :: "byte list \<Rightarrow> nat \<Rightarrow> u32" where
  "md5_word block j =
     ucast (block ! j) OR push_bit 8 (ucast (block ! (j + 1))) OR
     push_bit 16 (ucast (block ! (j + 2))) OR push_bit 24 (ucast (block ! (j + 3)))"

definition md5__transform :: "md5_state \<Rightarrow> byte list \<Rightarrow> md5_state" where
  "md5__transform st block =
     (case st of (s0, s1, s2, s3) \<Rightarrow>
        let a = s0; b = s1; c = s2; d = s3;
          x = map (\<lambda>i. md5_word block (4 * i)) [0..<16];
          a = md5_FF a b c d (x ! 0) 7 0xd76aa478;
          d = md5_FF d a b c (x ! 1) 12 0xe8c7b756;
          c = md5_FF c d a b (x ! 2) 17 0x242070db;
          b = md5_FF b c d a (x ! 3) 22 0xc1bdceee;
          a = md5_FF a b c d (x ! 4) 7 0xf57c0faf;
          d = md5_FF d a b c (x ! 5) 12 0x4787c62a;
          c = md5_FF c d a b (x ! 6) 17 0xa8304613;
          b = md5_FF b c d a (x ! 7) 22 0xfd469501;
          a = md5_FF a b c d (x ! 8) 7 0x698098d8;
          d = md5_FF d a b c (x ! 9) 12 0x8b44f7af;
          c = md5_FF c d a b (x ! 10) 17 0xffff5bb1;
          b = md5_FF b c d a (x ! 11) 22 0x895cd7be;
          a = md5_FF a b c d (x ! 12) 7 0x6b901122;
          d = md5_FF d a b c (x ! 13) 12 0xfd987193;
          c = md5_FF c d a b (x ! 14) 17 0xa679438e;
          b = md5_FF b c d a (x ! 15) 22 0x49b40821;
          a = md5_GG a b c d (x ! 1) 5 0xf61e2562;
          d = md5_GG d a b c (x ! 6) 9 0xc040b340;
          c = md5_GG c d a b (x ! 11) 14 0x265e5a51;
          b = md5_GG b c d a (x ! 0) 20 0xe9b6c7aa;
          a = md5_GG a b c d (x ! 5) 5 0xd62f105d;
          d = md5_GG d a b c (x ! 10) 9 0x2441453;
          c = md5_GG c d a b (x ! 15) 14 0xd8a1e681;
          b = md5_GG b c d a (x ! 4) 20 0xe7d3fbc8;
          a = md5_GG a b c d (x ! 9) 5 0x21e1cde6;
          d = md5_GG d a b c (x ! 14) 9 0xc33707d6;
          c = md5_GG c d a b (x ! 3) 14 0xf4d50d87;
          b = md5_GG b c d a (x ! 8) 20 0x455a14ed;
          a = md5_GG a b c d (x ! 13) 5 0xa9e3e905;
          d = md5_GG d a b c (x ! 2) 9 0xfcefa3f8;
          c = md5_GG c d a b (x ! 7) 14 0x676f02d9;
          b = md5_GG b c d a (x ! 12) 20 0x8d2a4c8a;
          a = md5_HH a b c d (x ! 5) 4 0xfffa3942;
          d = md5_HH d a b c (x ! 8) 11 0x8771f681;
          c = md5_HH c d a b (x ! 11) 16 0x6d9d6122;
          b = md5_HH b c d a (x ! 14) 23 0xfde5380c;
          a = md5_HH a b c d (x ! 1) 4 0xa4beea44;
          d = md5_HH d a b c (x ! 4) 11 0x4bdecfa9;
          c = md5_HH c d a b (x ! 7) 16 0xf6bb4b60;
          b = md5_HH b c d a (x ! 10) 23 0xbebfbc70;
          a = md5_HH a b c d (x ! 13) 4 0x289b7ec6;
          d = md5_HH d a b c (x ! 0) 11 0xeaa127fa;
          c = md5_HH c d a b (x ! 3) 16 0xd4ef3085;
          b = md5_HH b c d a (x ! 6) 23 0x4881d05;
          a = md5_HH a b c d (x ! 9) 4 0xd9d4d039;
          d = md5_HH d a b c (x ! 12) 11 0xe6db99e5;
          c = md5_HH c d a b (x ! 15) 16 0x1fa27cf8;
          b = md5_HH b c d a (x ! 2) 23 0xc4ac5665;
          a = md5_II a b c d (x ! 0) 6 0xf4292244;
          d = md5_II d a b c (x ! 7) 10 0x432aff97;
          c = md5_II c d a b (x ! 14) 15 0xab9423a7;
          b = md5_II b c d a (x ! 5) 21 0xfc93a039;
          a = md5_II a b c d (x ! 12) 6 0x655b59c3;
          d = md5_II d a b c (x ! 3) 10 0x8f0ccc92;
          c = md5_II c d a b (x ! 10) 15 0xffeff47d;
          b = md5_II b c d a (x ! 1) 21 0x85845dd1;
          a = md5_II a b c d (x ! 8) 6 0x6fa87e4f;
          d = md5_II d a b c (x ! 15) 10 0xfe2ce6e0;
          c = md5_II c d a b (x ! 6) 15 0xa3014314;
          b = md5_II b c d a (x ! 13) 21 0x4e0811a1;
          a = md5_II a b c d (x ! 4) 6 0xf7537e82;
          d = md5_II d a b c (x ! 11) 10 0xbd3af235;
          c = md5_II c d a b (x ! 2) 15 0x2ad7d2bb;
          b = md5_II b c d a (x ! 9) 21 0xeb86d391
        in (s0 + a, s1 + b, s2 + c, s3 + d))"

definition md5__encode :: "u32 list \<Rightarrow> byte list" where
  "md5__encode input =
     concat (map (\<lambda>w. [ucast (w AND 0xff), ucast (drop_bit 8 w AND 0xff),
                        ucast (drop_bit 16 w AND 0xff), ucast (drop_bit 24 w AND 0xff)]) input)"

section \<open>The context\<close>

record md5_ctx =
  md5_regs :: md5_state
  count0 :: u32
  count1 :: u32
  buffer :: "byte list"

definition zero_ctx :: md5_ctx where
  "zero_ctx = \<lparr>md5_regs = (0, 0, 0, 0), count0 = 0, count1 = 0, buffer = replicate 64 0\<rparr>"

definition md5_magic :: md5_state where
  "md5_magic = (0x67452301, 0xefcdab89, 0x98badcfe, 0x10325476)"

definition md5_init :: "md5_ctx \<Rightarrow> md5_ctx" where
  "md5_init ctx = ctx\<lparr>count0 := 0, count1 := 0, md5_regs := md5_magic\<rparr>"

text \<open>
  The loop of \<open>md5_update\<close> over the full blocks of the rest of the data; it returns the
  state and what is left over.
\<close>

function md5_blocks :: "md5_state \<Rightarrow> byte list \<Rightarrow> md5_state \<times> byte list" where
  "md5_blocks st data =
     (if 64 \<le> length data then md5_blocks (md5__transform st (take 64 data)) (drop 64 data)
      else (st, data))"
  by auto

termination by (relation "measure (\<lambda>(_, data). length data)") auto

declare md5_blocks.simps [simp del]

definition md5_update :: "md5_ctx \<Rightarrow> byte list \<Rightarrow> md5_ctx" where
  "md5_update ctx data =
     (let datalen = length data;
          index = unat (drop_bit 3 (count0 ctx) AND 0x3F);
          bits = push_bit 3 (word_of_nat datalen);
          c0 = count0 ctx + bits;
          c1 = (if c0 < bits then count1 ctx + 1 else count1 ctx) + drop_bit 29 (word_of_nat datalen);
          partlen = 64 - index
      in if datalen \<ge> partlen then
           let buf = take index (buffer ctx) @ take partlen data;
               st = md5__transform (md5_regs ctx) buf
           in case md5_blocks st (drop partlen data) of (st', rest) \<Rightarrow>
                ctx\<lparr>count0 := c0, count1 := c1, md5_regs := st',
                    buffer := rest @ drop (length rest) buf\<rparr>
         else ctx\<lparr>count0 := c0, count1 := c1,
                  buffer := take index (buffer ctx) @ data @ drop (index + datalen) (buffer ctx)\<rparr>)"

definition md5_PADDING :: "byte list" where
  "md5_PADDING = 0x80 # replicate 63 0"

text \<open>The digest and the context, which gets zeroed.\<close>

definition md5_final :: "md5_ctx \<Rightarrow> byte list \<times> md5_ctx" where
  "md5_final ctx =
     (let bits = md5__encode [count0 ctx, count1 ctx];
          index = unat (drop_bit 3 (count0 ctx) AND 0x3f);
          padlen = (if index < 56 then 56 - index else 120 - index);
          ctx1 = md5_update ctx (take padlen md5_PADDING);
          ctx2 = md5_update ctx1 bits
      in case md5_regs ctx2 of (a, b, c, d) \<Rightarrow> (md5__encode [a, b, c, d], zero_ctx))"

section \<open>The interface\<close>

text \<open>
  \<open>libisofs_md5\<close> with its flag bits as booleans: \<open>alloc\<close> bit 0, \<open>fin\<close> bit 1, \<open>dispose\<close>
  bit 15; bit 2 is given when \<open>src\<close> holds the context to clone.  The result is the return
  value, the context pointer and the digest if it was asked for.
\<close>

definition libisofs_md5 ::
  "bool \<Rightarrow> md5_ctx option \<Rightarrow> byte list \<Rightarrow> bool \<Rightarrow> bool \<Rightarrow> md5_ctx option \<Rightarrow> bool \<Rightarrow>
     int \<times> md5_ctx option \<times> byte list option" where
  "libisofs_md5 mem ctx data alloc fin src dispose =
     (if alloc \<and> \<not> mem then (-1, None, None)
      else
        let ctx = (if alloc then Some (case src of None \<Rightarrow> md5_init zero_ctx | Some old \<Rightarrow> old) else ctx)
        in case ctx of None \<Rightarrow> (0, None, None)
           | Some c \<Rightarrow>
               let c = (if data \<noteq> [] then md5_update c data else c);
                   (digest, c) = (if fin then case md5_final c of (r, c') \<Rightarrow> (Some r, c') else (None, c))
               in (1, if dispose then None else Some c, digest))"

definition iso_md5_start :: "bool \<Rightarrow> md5_ctx option \<Rightarrow> md5_ctx option res" where
  "iso_md5_start mem ctx =
     (case libisofs_md5 mem ctx [] True False None False of (ret, c, _) \<Rightarrow>
        if ret \<le> 0 then Inl ISO_OUT_OF_MEM else Inr c)"

definition iso_md5_compute :: "md5_ctx option \<Rightarrow> byte list \<Rightarrow> md5_ctx option res" where
  "iso_md5_compute ctx data =
     (case libisofs_md5 True ctx data False False None False of (ret, c, _) \<Rightarrow>
        if ret \<le> 0 then Inl ISO_NULL_POINTER else Inr c)"

definition iso_md5_clone :: "bool \<Rightarrow> md5_ctx \<Rightarrow> md5_ctx option \<Rightarrow> md5_ctx option res" where
  "iso_md5_clone mem old ctx =
     (case libisofs_md5 mem ctx [] True False (Some old) False of (ret, c, _) \<Rightarrow>
        if ret < 0 then Inl ISO_OUT_OF_MEM
        else if ret = 0 then Inl ISO_NULL_POINTER else Inr c)"

definition iso_md5_end :: "md5_ctx option \<Rightarrow> (byte list \<times> md5_ctx option) res" where
  "iso_md5_end ctx =
     (case libisofs_md5 True ctx [] False True None True of (ret, c, digest) \<Rightarrow>
        if ret \<le> 0 then Inl ISO_NULL_POINTER
        else Inr (case digest of Some r \<Rightarrow> r | None \<Rightarrow> [], c))"

definition iso_md5_match :: "byte list \<Rightarrow> byte list \<Rightarrow> bool" where
  "iso_md5_match a b \<longleftrightarrow> list_all (\<lambda>i. a ! i = b ! i) [0..<16]"

section \<open>The reference algorithm\<close>

text \<open>
  RFC 1321 as a loop: step \<open>i\<close> uses the function of its round, the word number
  \<open>md5_index i\<close>, the shift \<open>md5_shift i\<close> and the constant number \<open>i\<close>, the integer part of
  4294967296 times the absolute sine of \<open>i + 1\<close>; then the four registers rotate.
\<close>

definition md5_K :: "u32 list" where
  "md5_K =
    [0xd76aa478, 0xe8c7b756, 0x242070db, 0xc1bdceee, 0xf57c0faf, 0x4787c62a,
     0xa8304613, 0xfd469501, 0x698098d8, 0x8b44f7af, 0xffff5bb1, 0x895cd7be,
     0x6b901122, 0xfd987193, 0xa679438e, 0x49b40821, 0xf61e2562, 0xc040b340,
     0x265e5a51, 0xe9b6c7aa, 0xd62f105d, 0x2441453, 0xd8a1e681, 0xe7d3fbc8,
     0x21e1cde6, 0xc33707d6, 0xf4d50d87, 0x455a14ed, 0xa9e3e905, 0xfcefa3f8,
     0x676f02d9, 0x8d2a4c8a, 0xfffa3942, 0x8771f681, 0x6d9d6122, 0xfde5380c,
     0xa4beea44, 0x4bdecfa9, 0xf6bb4b60, 0xbebfbc70, 0x289b7ec6, 0xeaa127fa,
     0xd4ef3085, 0x4881d05, 0xd9d4d039, 0xe6db99e5, 0x1fa27cf8, 0xc4ac5665,
     0xf4292244, 0x432aff97, 0xab9423a7, 0xfc93a039, 0x655b59c3, 0x8f0ccc92,
     0xffeff47d, 0x85845dd1, 0x6fa87e4f, 0xfe2ce6e0, 0xa3014314, 0x4e0811a1,
     0xf7537e82, 0xbd3af235, 0x2ad7d2bb, 0xeb86d391]"

definition md5_index :: "nat \<Rightarrow> nat" where
  "md5_index i =
     (if i < 16 then i else if i < 32 then (5 * i + 1) mod 16
      else if i < 48 then (3 * i + 5) mod 16 else 7 * i mod 16)"

definition md5_shift :: "nat \<Rightarrow> nat" where
  "md5_shift i = [[7, 12, 17, 22], [5, 9, 14, 20], [4, 11, 16, 23], [6, 10, 15, 21]] ! (i div 16) ! (i mod 4)"

definition md5_fun :: "nat \<Rightarrow> u32 \<Rightarrow> u32 \<Rightarrow> u32 \<Rightarrow> u32" where
  "md5_fun r = [md5_F, md5_G, md5_H, md5_I] ! r"

fun rfc_step :: "u32 list \<Rightarrow> nat \<times> nat \<times> nat \<times> u32 \<Rightarrow> md5_state \<Rightarrow> md5_state" where
  "rfc_step x (r, g, s, k) (a, b, c, d) =
     (d, b + md5_rotate_left (a + md5_fun r b c d + x ! g + k) s, b, c)"

definition rfc_table :: "(nat \<times> nat \<times> nat \<times> u32) list" where
  "rfc_table = map (\<lambda>i. (i div 16, md5_index i, md5_shift i, md5_K ! i)) [0..<64]"

definition rfc_transform :: "md5_state \<Rightarrow> byte list \<Rightarrow> md5_state" where
  "rfc_transform st block =
     (case st of (s0, s1, s2, s3) \<Rightarrow>
        case fold (rfc_step (map (\<lambda>i. md5_word block (4 * i)) [0..<16])) rfc_table st of
          (a, b, c, d) \<Rightarrow> (s0 + a, s1 + b, s2 + c, s3 + d))"

lemma rfc_table_unrolled:
  "rfc_table =
    [(0, 0, 7, 0xd76aa478), (0, 1, 12, 0xe8c7b756), (0, 2, 17, 0x242070db), (0, 3, 22, 0xc1bdceee),
     (0, 4, 7, 0xf57c0faf), (0, 5, 12, 0x4787c62a), (0, 6, 17, 0xa8304613), (0, 7, 22, 0xfd469501),
     (0, 8, 7, 0x698098d8), (0, 9, 12, 0x8b44f7af), (0, 10, 17, 0xffff5bb1), (0, 11, 22, 0x895cd7be),
     (0, 12, 7, 0x6b901122), (0, 13, 12, 0xfd987193), (0, 14, 17, 0xa679438e), (0, 15, 22, 0x49b40821),
     (1, 1, 5, 0xf61e2562), (1, 6, 9, 0xc040b340), (1, 11, 14, 0x265e5a51), (1, 0, 20, 0xe9b6c7aa),
     (1, 5, 5, 0xd62f105d), (1, 10, 9, 0x2441453), (1, 15, 14, 0xd8a1e681), (1, 4, 20, 0xe7d3fbc8),
     (1, 9, 5, 0x21e1cde6), (1, 14, 9, 0xc33707d6), (1, 3, 14, 0xf4d50d87), (1, 8, 20, 0x455a14ed),
     (1, 13, 5, 0xa9e3e905), (1, 2, 9, 0xfcefa3f8), (1, 7, 14, 0x676f02d9), (1, 12, 20, 0x8d2a4c8a),
     (2, 5, 4, 0xfffa3942), (2, 8, 11, 0x8771f681), (2, 11, 16, 0x6d9d6122), (2, 14, 23, 0xfde5380c),
     (2, 1, 4, 0xa4beea44), (2, 4, 11, 0x4bdecfa9), (2, 7, 16, 0xf6bb4b60), (2, 10, 23, 0xbebfbc70),
     (2, 13, 4, 0x289b7ec6), (2, 0, 11, 0xeaa127fa), (2, 3, 16, 0xd4ef3085), (2, 6, 23, 0x4881d05),
     (2, 9, 4, 0xd9d4d039), (2, 12, 11, 0xe6db99e5), (2, 15, 16, 0x1fa27cf8), (2, 2, 23, 0xc4ac5665),
     (3, 0, 6, 0xf4292244), (3, 7, 10, 0x432aff97), (3, 14, 15, 0xab9423a7), (3, 5, 21, 0xfc93a039),
     (3, 12, 6, 0x655b59c3), (3, 3, 10, 0x8f0ccc92), (3, 10, 15, 0xffeff47d), (3, 1, 21, 0x85845dd1),
     (3, 8, 6, 0x6fa87e4f), (3, 15, 10, 0xfe2ce6e0), (3, 6, 15, 0xa3014314), (3, 13, 21, 0x4e0811a1),
     (3, 4, 6, 0xf7537e82), (3, 11, 10, 0xbd3af235), (3, 2, 15, 0x2ad7d2bb), (3, 9, 21, 0xeb86d391)]"
  by code_simp

lemma rfc_step_unrolled:
  "(case fold (rfc_step x) ((0, g, s, k) # es) (a, b, c, d) of (a, b, c, d) \<Rightarrow> G a b c d)
     = (let a = md5_FF a b c d (x ! g) s k in
          case fold (rfc_step x) es (d, a, b, c) of (a, b, c, d) \<Rightarrow> G a b c d)"
  "(case fold (rfc_step x) ((1, g, s, k) # es) (a, b, c, d) of (a, b, c, d) \<Rightarrow> G a b c d)
     = (let a = md5_GG a b c d (x ! g) s k in
          case fold (rfc_step x) es (d, a, b, c) of (a, b, c, d) \<Rightarrow> G a b c d)"
  "(case fold (rfc_step x) ((2, g, s, k) # es) (a, b, c, d) of (a, b, c, d) \<Rightarrow> G a b c d)
     = (let a = md5_HH a b c d (x ! g) s k in
          case fold (rfc_step x) es (d, a, b, c) of (a, b, c, d) \<Rightarrow> G a b c d)"
  "(case fold (rfc_step x) ((3, g, s, k) # es) (a, b, c, d) of (a, b, c, d) \<Rightarrow> G a b c d)
     = (let a = md5_II a b c d (x ! g) s k in
          case fold (rfc_step x) es (d, a, b, c) of (a, b, c, d) \<Rightarrow> G a b c d)"
  by (simp_all add: md5_fun_def md5_FF_def md5_GG_def md5_HH_def md5_II_def add_ac)

lemma rfc_done:
  "(case fold (rfc_step x) [] (a, b, c, d) of (a, b, c, d) \<Rightarrow> G a b c d) = G a b c d"
  by simp

theorem transform_rfc: "md5__transform st block = rfc_transform st block"
proof -
  obtain s0 s1 s2 s3 where st: "st = (s0, s1, s2, s3)" by (cases st)
  show ?thesis
    unfolding st md5__transform_def rfc_transform_def prod.case rfc_table_unrolled
      Let_def [of s0] Let_def [of s1] Let_def [of s2] Let_def [of s3]
      Let_def [of "map (\<lambda>i. md5_word block (4 * i)) [0..<16]"]
    by (simp only: rfc_step_unrolled rfc_done)
qed

section \<open>The specification\<close>

text \<open>
  RFC 1321: the message is padded with a bit 1 and zeros to 56 bytes modulo 64, then its
  length in bits follows as a 64-bit little endian number; the blocks of the result are
  run through the transformation.
\<close>

definition le_bytes :: "nat \<Rightarrow> nat \<Rightarrow> byte list" where
  "le_bytes k n = map (\<lambda>i. word_of_nat (n div 256 ^ i)) [0..<k]"

definition md5_pad :: "nat \<Rightarrow> byte list" where
  "md5_pad len =
     0x80 # replicate ((if len mod 64 < 56 then 55 else 119) - len mod 64) 0"

definition md5_spec :: "byte list \<Rightarrow> byte list" where
  "md5_spec msg =
     (let m = msg @ md5_pad (length msg) @ le_bytes 8 (8 * length msg)
      in case fold (\<lambda>i st. rfc_transform st (take 64 (drop (64 * i) m))) [0..<length m div 64] md5_magic of
        (a, b, c, d) \<Rightarrow> md5__encode [a, b, c, d])"

lemma md5_blocks_short: "length data < 64 \<Longrightarrow> md5_blocks st data = (st, data)"
  by (subst md5_blocks.simps) simp

lemma md5_blocks_append:
  "md5_blocks st (d @ e) = (case md5_blocks st d of (st', r) \<Rightarrow> md5_blocks st' (r @ e))"
proof (induction st d rule: md5_blocks.induct)
  case (1 st d)
  show ?case
  proof (cases "64 \<le> length d")
    case True
    then have "md5_blocks st (d @ e) = md5_blocks (md5__transform st (take 64 d)) (drop 64 d @ e)"
      by (subst md5_blocks.simps) simp
    also have "\<dots> = (case md5_blocks (md5__transform st (take 64 d)) (drop 64 d) of
        (st', r) \<Rightarrow> md5_blocks st' (r @ e))"
      by (rule "1.IH" [OF True])
    also have "md5_blocks (md5__transform st (take 64 d)) (drop 64 d) = md5_blocks st d"
      using True by (subst (2) md5_blocks.simps) simp
    finally show ?thesis .
  next
    case False
    then show ?thesis by (simp add: md5_blocks_short)
  qed
qed

lemma md5_blocks_rest: "length (snd (md5_blocks st d)) = length d mod 64"
proof (induction st d rule: md5_blocks.induct)
  case (1 st d)
  show ?case
  proof (cases "64 \<le> length d")
    case True
    then have "md5_blocks st d = md5_blocks (md5__transform st (take 64 d)) (drop 64 d)"
      by (subst md5_blocks.simps) simp
    with "1.IH" [OF True] True show ?thesis by (simp add: le_mod_geq)
  next
    case False
    then show ?thesis by (simp add: md5_blocks_short)
  qed
qed

lemma md5_blocks_fold:
  "length m = 64 * k \<Longrightarrow>
     md5_blocks st m = (fold (\<lambda>i st. rfc_transform st (take 64 (drop (64 * i) m))) [0..<k] st, [])"
proof (induction k arbitrary: st m)
  case 0
  then show ?case by (simp add: md5_blocks_short)
next
  case (Suc k)
  have "[0..<Suc k] = 0 # map Suc [0..<k]" by (simp add: upt_conv_Cons map_Suc_upt del: upt_Suc)
  then have "fold (\<lambda>i st. rfc_transform st (take 64 (drop (64 * i) m))) [0..<Suc k] st
      = fold (\<lambda>i st. rfc_transform st (take 64 (drop (64 * i) (drop 64 m)))) [0..<k]
          (rfc_transform st (take 64 m))"
    by (simp add: fold_map o_def add.commute del: upt_Suc)
  moreover have "md5_blocks st m = md5_blocks (rfc_transform st (take 64 m)) (drop 64 m)"
    using Suc.prems by (subst md5_blocks.simps) (simp add: transform_rfc)
  ultimately show ?case using Suc.IH [of "drop 64 m"] Suc.prems by simp
qed

section \<open>The invariant of a checksum computation\<close>

text \<open>The context after the bytes of \<open>msg\<close> have been submitted.\<close>

definition ctx_for :: "byte list \<Rightarrow> md5_ctx \<Rightarrow> bool" where
  "ctx_for msg ctx \<longleftrightarrow>
     count0 ctx = word_of_nat (8 * length msg) \<and>
     count1 ctx = word_of_nat (8 * length msg div 2 ^ 32) \<and>
     length (buffer ctx) = 64 \<and>
     md5_blocks md5_magic msg = (md5_regs ctx, take (length msg mod 64) (buffer ctx))"

lemma ctx_for_init: "ctx_for [] (md5_init zero_ctx)"
  by (simp add: ctx_for_def md5_init_def zero_ctx_def md5_blocks_short)

lemma unat_u32_of_nat: "unat (word_of_nat k :: u32) = k mod 2 ^ 32"
  by (simp add: unat_of_nat)

lemma unat_drop_u32: "unat (drop_bit k (w :: u32)) = unat w div 2 ^ k"
proof -
  have "unat (drop_bit k w) = drop_bit k (unat w)"
    using unsigned_less [of w, where ?'a = nat]
    by (simp only: unsigned_drop_bit_eq take_bit_nat_eq_self)
  then show ?thesis by (simp only: drop_bit_nat_def)
qed

lemma unat_index_u32: "unat (drop_bit 3 (w :: u32) AND 0x3F) = unat w div 2 ^ 3 mod 2 ^ 6"
proof -
  have m: "(0x3F :: u32) = mask 6" by (simp add: mask_eq_exp_minus_1)
  have "unat (drop_bit 3 w AND 0x3F) = take_bit 6 (unat (drop_bit 3 w))"
    by (simp only: m unsigned_take_bit_eq flip: take_bit_eq_mask)
  then show ?thesis by (simp only: unat_drop_u32 take_bit_nat_def)
qed

lemma count_index: "unat (drop_bit 3 (word_of_nat (8 * n) :: u32) AND 0x3F) = n mod 64"
proof -
  have "unat (word_of_nat (8 * n) :: u32) = 8 * (n mod 2 ^ 29)"
    unfolding unat_u32_of_nat mult_mod_right by simp
  then have "unat (drop_bit 3 (word_of_nat (8 * n) :: u32) AND 0x3F) = n mod 2 ^ 29 mod 2 ^ 6"
    by (simp only: unat_index_u32) simp
  also have "\<dots> = n mod 2 ^ 6" by (rule mod_mod_cancel) simp
  finally show ?thesis by simp
qed

lemma div_add_carry:
 "(a + b) div k = a div k + b div k + (if k \<le> a mod k + b mod k then 1 else (0::nat))" if k: "0 < k"
proof -
  have l: "a mod k < k" "b mod k < k" using k by simp_all
  have "(a mod k + b mod k) div k = (if k \<le> a mod k + b mod k then 1 else 0)"
  proof (cases "k \<le> a mod k + b mod k")
    case True
    moreover have "(a mod k + b mod k) div k = 1"
      by (rule div_nat_eqI) (use True add_strict_mono [OF l] in simp_all)
    ultimately show ?thesis by simp
  next
    case False
    then show ?thesis by simp
  qed
  then show ?thesis by (subst div_add1_eq) (simp only:)
qed
lemma count_carry:
  fixes m n :: nat
  assumes "n < 2 ^ 31"
  defines "c \<equiv> word_of_nat (8 * m) :: u32" and "b \<equiv> push_bit 3 (word_of_nat n) :: u32"
  shows "c + b = word_of_nat (8 * (m + n))"
    and "(if c + b < b then word_of_nat (8 * m div 2 ^ 32) + 1 else word_of_nat (8 * m div 2 ^ 32))
           + drop_bit 29 (word_of_nat n) = (word_of_nat (8 * (m + n) div 2 ^ 32) :: u32)"
proof -
  have b: "b = word_of_nat (8 * n)" by (simp add: b_def push_bit_eq_mult mult.commute)
  show e: "c + b = word_of_nat (8 * (m + n))" by (simp add: b c_def distrib_left)
  define M where "M = 8 * m mod 2 ^ 32"
  define N where "N = 8 * n mod 2 ^ 32"
  have "unat (c + b) = (M + N) mod 2 ^ 32"
    by (simp only: e unat_u32_of_nat M_def N_def distrib_left mod_add_eq)
  moreover have "unat b = N" by (simp only: b unat_u32_of_nat N_def)
  moreover have "M < 2 ^ 32" "N < 2 ^ 32" by (simp_all add: M_def N_def)
  ultimately have lt: "c + b < b \<longleftrightarrow> 2 ^ 32 \<le> M + N"
    unfolding word_less_nat_alt by (auto simp: mod_if)
  have d: "drop_bit 29 (word_of_nat n :: u32) = word_of_nat (8 * n div 2 ^ 32)"
  proof (rule word_unat_eq_iff [THEN iffD2])
    have n: "n mod 2 ^ 32 = n" using assms(1) by simp
    have "unat (drop_bit 29 (word_of_nat n :: u32)) = n div 2 ^ 29"
      by (simp only: unat_drop_u32 unat_u32_of_nat n)
    moreover have "8 * n div 2 ^ 32 = n div 2 ^ 29" by simp
    moreover have "n div 2 ^ 29 < 2 ^ 32" using assms(1) by (simp add: less_mult_imp_div_less)
    ultimately show "unat (drop_bit 29 (word_of_nat n :: u32)) = unat (word_of_nat (8 * n div 2 ^ 32) :: u32)"
      by (simp only: unat_u32_of_nat mod_less)
  qed
  have s: "8 * (m + n) div 2 ^ 32
      = 8 * m div 2 ^ 32 + 8 * n div 2 ^ 32 + (if 2 ^ 32 \<le> M + N then 1 else 0)"
    unfolding M_def N_def distrib_left by (rule div_add_carry) simp
  show "(if c + b < b then word_of_nat (8 * m div 2 ^ 32) + 1 else word_of_nat (8 * m div 2 ^ 32))
           + drop_bit 29 (word_of_nat n) = (word_of_nat (8 * (m + n) div 2 ^ 32) :: u32)"
    unfolding lt d s of_nat_add
  proof (cases "2 ^ 32 \<le> M + N")
    case True
    then show "(if 2 ^ 32 \<le> M + N then word_of_nat (8 * m div 2 ^ 32) + 1 else word_of_nat (8 * m div 2 ^ 32))
        + word_of_nat (8 * n div 2 ^ 32)
      = word_of_nat (8 * m div 2 ^ 32) + word_of_nat (8 * n div 2 ^ 32)
        + (word_of_nat (if 2 ^ 32 \<le> M + N then 1 else 0) :: u32)"
      by (simp only: if_True of_nat_1 add_ac)
  next
    case False
    then show "(if 2 ^ 32 \<le> M + N then word_of_nat (8 * m div 2 ^ 32) + 1 else word_of_nat (8 * m div 2 ^ 32))
        + word_of_nat (8 * n div 2 ^ 32)
      = word_of_nat (8 * m div 2 ^ 32) + word_of_nat (8 * n div 2 ^ 32)
        + (word_of_nat (if 2 ^ 32 \<le> M + N then 1 else 0) :: u32)"
      by simp
  qed
qed

lemma ctx_for_update:
  assumes "ctx_for msg ctx" "length data < 2 ^ 31"
  shows "ctx_for (msg @ data) (md5_update ctx data)"
proof -
  define i where "i = length msg mod 64"
  define p where "p = 64 - i"
  have i: "i < 64" "i + p = 64" by (simp_all add: i_def p_def)
  have c0: "count0 ctx = word_of_nat (8 * length msg)"
    and c1: "count1 ctx = word_of_nat (8 * length msg div 2 ^ 32)"
    and buf: "length (buffer ctx) = 64"
    and regs: "md5_blocks md5_magic msg = (md5_regs ctx, take i (buffer ctx))"
    using assms(1) unfolding ctx_for_def i_def by blast+
  note carry = count_carry [OF assms(2), of "length msg", folded c0 c1]
  define C0 where "C0 = count0 ctx + push_bit 3 (word_of_nat (length data))"
  define C1 where "C1 = (if C0 < push_bit 3 (word_of_nat (length data)) then count1 ctx + 1 else count1 ctx)
      + drop_bit 29 (word_of_nat (length data))"
  have C: "C0 = word_of_nat (8 * length (msg @ data))"
      "C1 = word_of_nat (8 * length (msg @ data) div 2 ^ 32)"
    unfolding C0_def C1_def length_append by (rule carry)+
  have idx: "unat (drop_bit 3 (count0 ctx) AND 0x3F) = i"
    by (simp only: c0 count_index i_def)
  have step: "md5_blocks md5_magic (msg @ data) = md5_blocks (md5_regs ctx) (take i (buffer ctx) @ data)"
    by (simp only: md5_blocks_append [of md5_magic msg] regs prod.case)
  show ?thesis
  proof (cases "p \<le> length data")
    case True
    define d where "d = take i (buffer ctx) @ take p data"
    obtain st r where sr: "md5_blocks (md5__transform (md5_regs ctx) d) (drop p data) = (st, r)"
      by fastforce
    have ld: "length d = 64" using True buf i by (simp add: d_def)
    have "take i (buffer ctx) @ data = d @ drop p data" by (simp add: d_def)
    then have blocks: "md5_blocks md5_magic (msg @ data) = (st, r)"
      unfolding step by (subst md5_blocks.simps) (simp add: ld sr)
    then have lr: "length r = length (msg @ data) mod 64"
      using md5_blocks_rest [of md5_magic "msg @ data"] by simp
    have "md5_update ctx data =
        ctx\<lparr>count0 := C0, count1 := C1,
            md5_regs := st, buffer := r @ drop (length r) d\<rparr>"
      unfolding md5_update_def idx Let_def p_def [symmetric] C0_def [symmetric] C1_def [symmetric] using True
      by (simp add: sr d_def [symmetric])
    moreover have "length r < 64" by (simp add: lr)
    ultimately show ?thesis
      unfolding ctx_for_def using ld lr blocks C by simp
  next
    case False
    then have "length (take i (buffer ctx) @ data) < 64" using buf i by simp
    then have blocks: "md5_blocks md5_magic (msg @ data) = (md5_regs ctx, take i (buffer ctx) @ data)"
      unfolding step by (rule md5_blocks_short)
    have "length (msg @ data) mod 64 = (i + length data) mod 64"
      by (simp add: i_def mod_add_left_eq)
    also have "\<dots> = i + length data" using False i by (intro mod_less) simp
    finally have lm: "length (msg @ data) mod 64 = i + length data" .
    have "md5_update ctx data =
        ctx\<lparr>count0 := C0, count1 := C1,
            buffer := take i (buffer ctx) @ data @ drop (i + length data) (buffer ctx)\<rparr>"
      unfolding md5_update_def idx Let_def p_def [symmetric] C0_def [symmetric] C1_def [symmetric] using False by simp
    then show ?thesis
      unfolding ctx_for_def lm using False buf i blocks C by simp
  qed
qed

lemma encode_byte:
  "j + 8 \<le> 32 \<Longrightarrow> (ucast (drop_bit j (word_of_nat n :: u32) AND 0xff) :: byte) = word_of_nat (n div 2 ^ j)"
proof (rule bit_word_eqI)
  fix k
  assume j: "j + 8 \<le> 32" and k: "k < LENGTH(8)"
  have m: "(0xff :: u32) = mask 8" by (simp add: mask_eq_exp_minus_1)
  show "bit (ucast (drop_bit j (word_of_nat n :: u32) AND 0xff) :: byte) k = bit (word_of_nat (n div 2 ^ j) :: byte) k"
    using j k by (simp only: m flip: drop_bit_eq_div)
      (auto simp: bit_ucast_iff bit_and_iff bit_drop_bit_eq bit_mask_iff bit_of_nat_iff)
qed

lemma encode_length:
  "md5__encode [word_of_nat n, word_of_nat (n div 2 ^ 32)] = le_bytes 8 n"
proof -
  have l: "[0..<8] = [0, 1, 2, 3, 4, 5, 6, 7 :: nat]" by (simp add: upt_rec)
  have d: "n div 2 ^ 32 div 2 ^ j = n div 2 ^ (32 + j)" for j
    by (simp only: div_mult2_eq power_add)
  have e: "(ucast ((word_of_nat m :: u32) AND 0xff) :: byte) = word_of_nat m"
    "(ucast (drop_bit 8 (word_of_nat m :: u32) AND 0xff) :: byte) = word_of_nat (m div 2 ^ 8)"
    "(ucast (drop_bit 16 (word_of_nat m :: u32) AND 0xff) :: byte) = word_of_nat (m div 2 ^ 16)"
    "(ucast (drop_bit 24 (word_of_nat m :: u32) AND 0xff) :: byte) = word_of_nat (m div 2 ^ 24)" for m
    using encode_byte [of 0 m] encode_byte [of 8 m] encode_byte [of 16 m] encode_byte [of 24 m]
    by simp_all
  show ?thesis
    unfolding md5__encode_def le_bytes_def l
    by (simp only: list.map concat.simps append.simps e d) simp
qed

lemma md5_pad_eq: "take (let i = n mod 64 in if i < 56 then 56 - i else 120 - i) md5_PADDING = md5_pad n"
proof -
  have t: "take k (x # replicate m y) = x # replicate (k - 1) y" if "0 < k" "k - 1 \<le> m"
    for k m and x y :: byte
    using that by (cases k) (simp_all add: min_def)
  have "n mod 64 < 64" by simp
  then show ?thesis
    unfolding md5_PADDING_def md5_pad_def Let_def by (subst t) auto
qed

lemma md5_pad_length: "length (md5_pad n) \<le> 64" "(n + length (md5_pad n) + 8) mod 64 = 0"
proof -
  show "length (md5_pad n) \<le> 64" by (auto simp: md5_pad_def)
  have l: "n mod 64 + length (md5_pad n) + 8 = (if n mod 64 < 56 then 64 else 128)"
    using mod_less_divisor [of 64 n] by (simp add: md5_pad_def)
  have "(n + length (md5_pad n) + 8) mod 64 = (n mod 64 + (length (md5_pad n) + 8)) mod 64"
    by (simp only: mod_add_left_eq add.assoc)
  also have "\<dots> = 0" by (simp only: l flip: add.assoc) simp
  finally show "(n + length (md5_pad n) + 8) mod 64 = 0" .
qed

lemma length_le_bytes [simp]: "length (le_bytes k n) = k"
  by (simp add: le_bytes_def)

lemma md5_final_spec:
  assumes "ctx_for msg ctx"
  shows "md5_final ctx = (md5_spec msg, zero_ctx)"
proof -
  define n where "n = length msg"
  define ctx1 where "ctx1 = md5_update ctx (md5_pad n)"
  define ctx2 where "ctx2 = md5_update ctx1 (le_bytes 8 (8 * n))"
  have counts: "count0 ctx = word_of_nat (8 * n)" "count1 ctx = word_of_nat (8 * n div 2 ^ 32)"
    using assms by (simp_all only: ctx_for_def n_def)
  have "ctx_for (msg @ md5_pad n) ctx1"
    unfolding ctx1_def using md5_pad_length(1) [of n] by (intro ctx_for_update assms) simp
  then have "ctx_for ((msg @ md5_pad n) @ le_bytes 8 (8 * n)) ctx2"
    unfolding ctx2_def by (rule ctx_for_update) simp
  then have "md5_blocks md5_magic (msg @ md5_pad n @ le_bytes 8 (8 * n))
      = (md5_regs ctx2, take ((n + length (md5_pad n) + 8) mod 64) (buffer ctx2))"
    by (simp add: ctx_for_def n_def add.assoc)
  then have "md5_blocks md5_magic (msg @ md5_pad n @ le_bytes 8 (8 * n)) = (md5_regs ctx2, [])"
    by (simp only: md5_pad_length) simp
  moreover define m where "m = msg @ md5_pad n @ le_bytes 8 (8 * n)"
  moreover have "length m = 64 * (length m div 64)"
    using md5_pad_length(2) [of n] by (auto simp: m_def n_def add.assoc)
  note md5_blocks_fold [OF this, of md5_magic]
  ultimately have spec: "md5_spec msg = (case md5_regs ctx2 of (a, b, c, d) \<Rightarrow> md5__encode [a, b, c, d])"
    by (simp add: md5_spec_def n_def [symmetric])
  have "md5_final ctx = (case md5_regs ctx2 of (a, b, c, d) \<Rightarrow> (md5__encode [a, b, c, d], zero_ctx))"
    unfolding md5_final_def counts encode_length count_index ctx1_def ctx2_def
      md5_pad_eq [of n, unfolded Let_def, symmetric] Let_def ..
  then show ?thesis by (simp add: spec split: prod.split)
qed

fun compute_all :: "md5_ctx option \<Rightarrow> byte list list \<Rightarrow> md5_ctx option res" where
  "compute_all ctx [] = Inr ctx"
| "compute_all ctx (d # ds) =
     (case iso_md5_compute ctx d of Inl e \<Rightarrow> Inl e | Inr ctx' \<Rightarrow> compute_all ctx' ds)"

lemma iso_md5_compute_ctx:
  "ctx_for msg c \<Longrightarrow> length data < 2 ^ 31 \<Longrightarrow>
     \<exists>c'. iso_md5_compute (Some c) data = Inr (Some c') \<and> ctx_for (msg @ data) c'"
  by (simp add: iso_md5_compute_def libisofs_md5_def Let_def ctx_for_update)

lemma compute_all_ctx:
  "ctx_for msg c \<Longrightarrow> \<forall>d\<in>set ds. length d < 2 ^ 31 \<Longrightarrow>
     \<exists>c'. compute_all (Some c) ds = Inr (Some c') \<and> ctx_for (msg @ concat ds) c'"
proof (induction ds arbitrary: msg c)
  case (Cons d ds)
  obtain c' where c': "iso_md5_compute (Some c) d = Inr (Some c')" "ctx_for (msg @ d) c'"
    using iso_md5_compute_ctx Cons.prems by (metis list.set_intros(1))
  with Cons.IH [OF c'(2)] Cons.prems(2) show ?case by simp
qed simp

lemma iso_md5_start_ctx: "\<exists>c. iso_md5_start True old = Inr (Some c) \<and> ctx_for [] c"
  by (simp add: iso_md5_start_def libisofs_md5_def ctx_for_init)

lemma iso_md5_end_ctx: "ctx_for msg c \<Longrightarrow> iso_md5_end (Some c) = Inr (md5_spec msg, None)"
  by (simp add: iso_md5_end_def libisofs_md5_def md5_final_spec)



lemma iso_md5_match_eq:
  "length a = 16 \<Longrightarrow> length b = 16 \<Longrightarrow> iso_md5_match a b \<longleftrightarrow> a = b"
  by (auto simp: iso_md5_match_def list_all_iff list_eq_iff_nth_eq)

end
