(* ===== verification/Md5_Tags.thy ===== *)
theory Md5_Tags
  imports Md5
begin

text \<open>
  The checksum tags of \<open>libisofs\<close>: \<open>iso_md5_write_tag\<close> and \<open>iso_md5_write_scdbackup_tag\<close> of
  \<open>libisofs/md5.c\<close>, with \<open>iso_write\<close> of \<open>libisofs/ecma119.c\<close>, and the reader's side in
  \<open>libisofs/util.c\<close>: \<open>iso_util_dec_to_uint32\<close>, \<open>iso_util_tag_magic\<close>,
  \<open>iso_util_decode_md5_tag\<close> and \<open>iso_util_eval_md5_tag\<close>.

  A tag block is a list of bytes; \<open>char\<close> pointers into it are offsets.  Variables that the
  code reads before it has set them are arguments (\<open>stale\<close>, \<open>junk\<close>), keyed by the offset of
  the text that was to set them.
\<close>

section \<open>Searching in C strings\<close>

fun starts_with :: "cstring \<Rightarrow> cstring \<Rightarrow> bool" where
  "starts_with [] s = True"
| "starts_with (p # ps) [] = False"
| "starts_with (p # ps) (c # s) = (p = c \<and> starts_with ps s)"

text \<open>\<open>strstr\<close>: the offset of the first occurrence.\<close>

fun strstr :: "cstring \<Rightarrow> cstring \<Rightarrow> nat option" where
  "strstr [] pat = (if pat = [] then Some 0 else None)"
| "strstr (c # s) pat = (if starts_with pat (c # s) then Some 0 else map_option Suc (strstr s pat))"

text \<open>The C string that begins at an offset of a memory area.\<close>

definition c_text :: "byte list \<Rightarrow> nat \<Rightarrow> cstring" where
  "c_text data pos = takeWhile (\<lambda>c. c \<noteq> 0) (drop pos data)"

section \<open>Reading numbers\<close>

text \<open>
  \<open>sscanf (s, "%lf", &num)\<close> on decimal notation: white space, a sign, digits with an optional
  point, and an exponent.  An exponent sign without digits is a matching failure.  The number
  is kept as sign, mantissa and decimal exponent.  Left out are the spellings of infinity and
  NaN, hexadecimal floats, and the rounding of more than 53 bits.
\<close>

datatype lf = Lf (lf_neg: bool) (lf_mant: nat) (lf_exp: int)

definition c_isspace :: "byte \<Rightarrow> bool" where
  "c_isspace c \<longleftrightarrow> c = 0x20 \<or> 9 \<le> c \<and> c \<le> 13"

definition scan_sign :: "cstring \<Rightarrow> bool \<times> cstring" where
  "scan_sign s = (case s of c # s' \<Rightarrow>
      if c = asc CHR ''-'' then (True, s') else if c = asc CHR ''+'' then (False, s') else (False, s)
    | [] \<Rightarrow> (False, s))"

definition scan_exponent :: "cstring \<Rightarrow> int option" where
  "scan_exponent s =
     (case s of c # s' \<Rightarrow>
        if c = asc CHR ''e'' \<or> c = asc CHR ''E'' then
          (case scan_sign s' of (neg, r) \<Rightarrow>
             let ds = takeWhile is_digit r
             in if ds = [] then None else Some ((if neg then - 1 else 1) * int (dec_value ds)))
        else Some 0
      | [] \<Rightarrow> Some 0)"

definition scan_lf :: "cstring \<Rightarrow> lf option" where
  "scan_lf s =
     (case scan_sign (dropWhile c_isspace s) of (neg, s1) \<Rightarrow>
        let ip = takeWhile is_digit s1; s2 = dropWhile is_digit s1;
            (fp, s3) = (case s2 of c # r \<Rightarrow>
                  if c = asc CHR ''.'' then (takeWhile is_digit r, dropWhile is_digit r) else ([], s2)
                | [] \<Rightarrow> ([], s2))
        in if ip = [] \<and> fp = [] then None
           else (case scan_exponent s3 of None \<Rightarrow> None
                 | Some e \<Rightarrow> Some (Lf neg (dec_value (ip @ fp)) (e - int (length fp)))))"

text \<open>
  The range check and the conversion to \<open>uint32_t\<close>, which cuts off the fraction; \<open>None\<close> for
  the return value 0.
\<close>

definition lf_to_u32 :: "lf \<Rightarrow> u32 option" where
  "lf_to_u32 num =
     (case num of Lf neg m e \<Rightarrow>
        if neg \<and> m \<noteq> 0 then None
        else if (if 0 \<le> e then 4294967295 < m * 10 ^ nat e else 4294967295 * 10 ^ nat (- e) < m) then None
        else Some (word_of_nat (if 0 \<le> e then m * 10 ^ nat e else m div 10 ^ nat (- e))))"

definition iso_util_dec_to_uint32 :: "lf \<Rightarrow> cstring \<Rightarrow> u32 option" where
  "iso_util_dec_to_uint32 stale s =
     (let num = (case scan_lf s of None \<Rightarrow> stale | Some num \<Rightarrow> num) in lf_to_u32 num)"

section \<open>The writer of the tags\<close>

text \<open>Result: the return value, the magic text and its length.\<close>

definition iso_util_tag_magic :: "int \<Rightarrow> int res \<times> cstring option \<times> nat" where
  "iso_util_tag_magic tag_type =
     (if tag_type < 0 \<or> tag_type > 4 then (Inl ISO_WRONG_ARG_VALUE, None, 0)
      else
        (let magic = [str '''', str ''libisofs_checksum_tag_v1'', str ''libisofs_sb_checksum_tag_v1'',
                      str ''libisofs_tree_checksum_tag_v1'', str ''libisofs_rlsb32_checksum_tag_v1''];
             magic_len = [0, 24, 27, 29, 31]
         in (Inr 4, Some (magic ! nat tag_type), magic_len ! nat tag_type)))"

text \<open>
  The members of \<open>Ecma119Image\<close> that the functions use.  \<open>checksum_ctx\<close> is not NULL when a
  tag gets written, so it is not an option here.  \<open>written\<close> collects what goes to the ring
  buffer.
\<close>

record tag_image =
  checksum_range_start :: u32
  checksum_range_size :: u32
  checksum_tag_pos :: u32
  checksum_sb_tag_pos :: u32
  checksum_tree_tag_pos :: u32
  checksum_rlsb_tag_pos :: u32
  ms_block :: u32
  checksum_ctx :: md5_ctx
  checksum_counter :: nat
  bytes_written :: nat
  total_size :: nat
  opts_overwrite :: "byte list option"
  scdbackup_tag_parm :: cstring
  scdbackup_tag_written :: "cstring option"
  written :: "byte list"

text \<open>
  \<open>iso_write\<close>: \<open>rb\<close> is the return value of \<open>iso_ring_buffer_write\<close>, \<open>jte\<close> the one of
  \<open>show_chunk_to_jte\<close>.  The progress messages are left out.
\<close>

definition iso_write :: "iso_error + bool \<Rightarrow> iso_error option \<Rightarrow> tag_image \<Rightarrow> byte list \<Rightarrow>
    unit res \<times> tag_image" where
  "iso_write rb jte t buf =
     (if bytes_written t + length buf > total_size t then (Inl ISO_ASSERT_FAILURE, t)
      else case rb of
        Inl e \<Rightarrow> (Inl e, t)
      | Inr False \<Rightarrow> (Inl ISO_CANCELED, t)
      | Inr True \<Rightarrow>
          let t1 = t\<lparr>written := written t @ buf,
                     checksum_counter := checksum_counter t + length buf,
                     checksum_ctx := (case iso_md5_compute (Some (checksum_ctx t)) buf of
                          Inr (Some c) \<Rightarrow> c | _ \<Rightarrow> checksum_ctx t)\<rparr>
          in case jte of Some e \<Rightarrow> (Inl e, t1)
             | None \<Rightarrow> (Inr (), if total_size t1 \<noteq> 0
                               then t1\<lparr>bytes_written := bytes_written t1 + length buf\<rparr> else t1))"

definition sprintf_u :: "u32 \<Rightarrow> cstring" where
  "sprintf_u n = dec (unat n)"

text \<open>\<open>mem i\<close> tells whether the allocation number \<open>i\<close> of the call succeeds.\<close>

definition md5_of :: "bool \<Rightarrow> byte list \<Rightarrow> byte list res" where
  "md5_of mem data =
     (case iso_md5_start mem None of Inl e \<Rightarrow> Inl e
      | Inr ctx \<Rightarrow>
          (case iso_md5_compute ctx data of Inl e \<Rightarrow> Inl e
           | Inr ctx \<Rightarrow> (case iso_md5_end ctx of Inl e \<Rightarrow> Inl e | Inr (md5, _) \<Rightarrow> Inr md5)))"

text \<open>\<open>iso_md5_clone\<close> followed by \<open>iso_md5_end\<close> of the clone.\<close>

definition md5_so_far :: "bool \<Rightarrow> md5_ctx \<Rightarrow> byte list res" where
  "md5_so_far mem ctx =
     (case iso_md5_clone mem ctx None of Inl e \<Rightarrow> Inl e
      | Inr ctx \<Rightarrow> (case iso_md5_end ctx of Inl e \<Rightarrow> Inl e | Inr (md5, _) \<Rightarrow> Inr md5))"

text \<open>The text of the position in the scdbackup tag: \<open>%u%9.9u\<close> of quotient and remainder.\<close>

definition scdbackup_postext :: "nat \<Rightarrow> cstring" where
  "scdbackup_postext pos =
     (if pos \<ge> 1000000000
      then dec (pos div 1000000000 mod 2 ^ 32) @
           (let r = dec (pos mod 1000000000) in replicate (9 - length r) 0x30 @ r)
      else dec pos)"

text \<open>
  The tag block is the text so far, which the zeros of the block follow.  The call of
  \<open>iso_md5_compute\<close> on the image context adds the text before the scdbackup tag.
\<close>

definition iso_md5_write_scdbackup_tag ::
  "(nat \<Rightarrow> bool) \<Rightarrow> tag_image \<Rightarrow> cstring \<Rightarrow> (cstring res) \<times> tag_image" where
  "iso_md5_write_scdbackup_tag mem t tag_block =
     (if \<not> mem 0 then (Inl ISO_OUT_OF_MEM, t)
      else
        let line_start = length tag_block;
            t = t\<lparr>checksum_ctx := (case iso_md5_compute (Some (checksum_ctx t)) tag_block of
                     Inr (Some c) \<Rightarrow> c | _ \<Rightarrow> checksum_ctx t)\<rparr>
        in case md5_so_far (mem 1) (checksum_ctx t) of
             Inl e \<Rightarrow> (Inl e, t)
           | Inr md5 \<Rightarrow>
               let postext = scdbackup_postext (unat (checksum_tag_pos t) * 2048 + line_start);
                   record = scdbackup_tag_parm t @ str '' '' @ postext @ str '' '' @ hex_text md5
               in case md5_of (mem 2) record of
                    Inl e \<Rightarrow> (Inl e, t)
                  | Inr md5 \<Rightarrow>
                      let line = str ''scdbackup_checksum_tag_v0.1 '' @ postext @ str '' '' @
                            dec (length record) @ str '' '' @ record @ str '' '' @ hex_text md5 @ [0x0a]
                      in (Inr (tag_block @ line),
                          t\<lparr>scdbackup_tag_written :=
                              (case scdbackup_tag_written t of None \<Rightarrow> None | Some _ \<Rightarrow> Some line)\<rparr>))"

text \<open>
  The text of the tag up to its \<open>self=\<close>, for the digest \<open>md5\<close> of the data.  \<open>size = pos - start\<close>
  wraps like \<open>uint32_t\<close>.
\<close>

definition tag_range :: "tag_image \<Rightarrow> nat \<Rightarrow> u32 \<times> u32 \<times> u32" where
  "tag_range t mode =
     (let start = checksum_range_start t
      in if mode = 1 then (checksum_tag_pos t, start, checksum_range_size t)
         else
           let pos = (if mode = 2 then checksum_sb_tag_pos t
                      else if mode = 3 then checksum_tree_tag_pos t else checksum_rlsb_tag_pos t);
               start = (if mode = 4 then pos - (pos mod 32) else start)
           in (pos, start, pos - start))"

definition tag_next :: "tag_image \<Rightarrow> nat \<Rightarrow> cstring" where
  "tag_next t mode =
     (if mode = 2 then str '' next='' @ sprintf_u (checksum_tree_tag_pos t)
      else if mode = 3 then str '' next='' @ sprintf_u (checksum_tag_pos t)
      else if mode = 4 then str '' session_start='' @ sprintf_u (ms_block t)
      else [])"

definition tag_text :: "tag_image \<Rightarrow> nat \<Rightarrow> byte list \<Rightarrow> cstring" where
  "tag_text t mode md5 =
     (case tag_range t mode of (pos, start, rsize) \<Rightarrow>
        (case iso_util_tag_magic (int mode) of (_, m, _) \<Rightarrow> case m of Some tag_id \<Rightarrow> tag_id | None \<Rightarrow> []) @
        str '' pos='' @ sprintf_u pos @ str '' range_start='' @ sprintf_u start @
        str '' range_size='' @ sprintf_u rsize @ tag_next t mode @
        str '' md5='' @ hex_text md5)"

text \<open>
  If the second checksum computation cannot start, the 38 bytes of \<open>self=\<close> and its digest are
  missing and the newline stands 32 bytes after the text, beyond zeros.
\<close>

definition tag_block_text :: "bool \<Rightarrow> cstring \<Rightarrow> cstring" where
  "tag_block_text mem text =
     (case md5_of mem text of
        Inr self \<Rightarrow> text @ str '' self='' @ hex_text self @ [0x0a]
      | Inl _ \<Rightarrow> text @ replicate 32 0 @ [0x0a])"

text \<open>\<open>block_of\<close> fills the block of 2048 bytes up with zeros.\<close>

definition block_of :: "cstring \<Rightarrow> byte list" where
  "block_of text = take 2048 (text @ replicate 2048 0)"

text \<open>\<open>memcpy\<close> into a buffer; the position of the relocated tag is computed in 32 bits.\<close>

definition put_at :: "nat \<Rightarrow> byte list \<Rightarrow> byte list \<Rightarrow> byte list" where
  "put_at pos src dest = take pos dest @ src @ drop (pos + length src) dest"

definition iso_md5_write_tag ::
  "(nat \<Rightarrow> bool) \<Rightarrow> iso_error + bool \<Rightarrow> iso_error option \<Rightarrow> tag_image \<Rightarrow> nat \<Rightarrow>
     unit res \<times> tag_image" where
  "iso_md5_write_tag mem rb jte t flag =
     (if \<not> mem 0 then (Inl ISO_OUT_OF_MEM, t)
      else
        let mode = flag mod 256
        in if mode < 1 \<or> mode > 4 then (Inl ISO_WRONG_ARG_VALUE, t)
           else case md5_so_far (mem 1) (checksum_ctx t) of
             Inl e \<Rightarrow> (Inl e, t)
           | Inr md5 \<Rightarrow>
               let tag_block = tag_block_text (mem 2) (tag_text t mode md5);
                   (r, t) = (if mode = 1 \<and> scdbackup_tag_parm t \<noteq> [] \<and> \<not> (ms_block t > 0)
                             then iso_md5_write_scdbackup_tag (\<lambda>i. mem (3 + i)) t tag_block
                             else (Inr tag_block, t))
               in case r of Inl e \<Rightarrow> (Inl e, t)
                  | Inr tag_block \<Rightarrow>
                      if mode = 4 then
                        (Inr (), t\<lparr>opts_overwrite := map_option
                            (put_at (unat (checksum_rlsb_tag_pos t * 2048)) (block_of tag_block))
                            (opts_overwrite t)\<rparr>)
                      else iso_write rb jte t (block_of tag_block))"

section \<open>The reader of the tags\<close>

record tag_fields =
  tf_type :: nat
  tf_pos :: u32
  tf_start :: u32
  tf_size :: u32
  tf_next :: u32
  tf_md5 :: "byte list"

text \<open>
  One search and conversion: the new position and the number, or \<open>None\<close> where the function
  returns 0.
\<close>

definition scan_field :: "(nat \<Rightarrow> lf) \<Rightarrow> byte list \<Rightarrow> nat \<Rightarrow> cstring \<Rightarrow> (nat \<times> u32) option" where
  "scan_field stale data cpt pat =
     (case strstr (c_text data cpt) pat of None \<Rightarrow> None
      | Some i \<Rightarrow>
          let cpt = cpt + i
          in case iso_util_dec_to_uint32 (stale (cpt + length pat)) (c_text data (cpt + length pat)) of
               None \<Rightarrow> None
             | Some v \<Rightarrow> Some (cpt, v))"

definition scan_next :: "(nat \<Rightarrow> lf) \<Rightarrow> byte list \<Rightarrow> nat \<Rightarrow> nat \<Rightarrow> (nat \<times> u32) option" where
  "scan_next stale data cpt tag_type =
     (if tag_type = 2 \<or> tag_type = 3 then scan_field stale data cpt (str ''next='')
      else if tag_type = 4 then scan_field stale data cpt (str ''session_start='')
      else Some (cpt, 0))"

definition scan_hex16 :: "(nat \<Rightarrow> byte) \<Rightarrow> byte list \<Rightarrow> nat \<Rightarrow> cstring \<Rightarrow> (nat \<times> byte list) option" where
  "scan_hex16 junk data cpt pat =
     (case strstr (c_text data cpt) pat of None \<Rightarrow> None
      | Some i \<Rightarrow>
          let cpt = cpt + i
          in case iso_util_hex_to_bin (junk (cpt + length pat)) (drop (cpt + length pat) data) 16 of
               (ok, bin) \<Rightarrow> if \<not> ok \<or> length bin \<noteq> 16 then None else Some (cpt, bin))"

definition find_magic :: "byte list \<Rightarrow> nat \<Rightarrow> nat \<Rightarrow> nat option" where
  "find_magic data i0 i1 =
     List.find (\<lambda>i. case iso_util_tag_magic (int i) of (_, magic, magic_len) \<Rightarrow>
         case magic of None \<Rightarrow> False | Some m \<Rightarrow> strncmp_eq (c_text data 0) m magic_len) [i0..<i1 + 1]"

definition magic_length :: "nat \<Rightarrow> nat" where
  "magic_length i = (case iso_util_tag_magic (int i) of (_, _, l) \<Rightarrow> l)"

text \<open>The checks after the fields: the digest of the tag itself and the newline.\<close>

definition check_self :: "(nat \<Rightarrow> byte) \<Rightarrow> bool \<Rightarrow> byte list \<Rightarrow> nat \<Rightarrow> nat res" where
  "check_self junk mem data cpt =
     (case md5_of mem (take cpt data) of Inl e \<Rightarrow> Inl e
      | Inr tag_md5 \<Rightarrow>
          (case scan_hex16 junk data cpt (str ''self='') of None \<Rightarrow> Inr 0
           | Some (cpt, self_md5) \<Rightarrow>
               if \<not> iso_md5_match self_md5 tag_md5 then Inl ISO_MD5_AREA_CORRUPTED
               else if data ! (cpt + 5 + 32) \<noteq> 0x0a then Inr 0
               else Inr 1))"

definition iso_util_decode_md5_tag ::
  "(nat \<Rightarrow> lf) \<Rightarrow> (nat \<Rightarrow> byte) \<Rightarrow> bool \<Rightarrow> byte list \<Rightarrow> tag_fields \<Rightarrow> nat \<Rightarrow> nat res \<times> tag_fields" where
  "iso_util_decode_md5_tag stale junk mem data out flag =
     (let out = out\<lparr>tf_next := 0\<rparr>; mode = flag mod 256
      in if mode > 4 then (Inl ISO_WRONG_ARG_VALUE, out)
      else case (if mode > 0 then find_magic data mode mode else find_magic data 1 4) of
        None \<Rightarrow> (Inr 0, out)
      | Some i \<Rightarrow>
          let out = out\<lparr>tf_type := i\<rparr>; cpt = magic_length i + 1
          in if \<not> strncmp_eq (c_text data cpt) (str ''pos='') 4 then (Inr 0, out)
          else let cpt = cpt + 4 in
          case iso_util_dec_to_uint32 (stale cpt) (c_text data cpt) of None \<Rightarrow> (Inr 0, out)
          | Some v \<Rightarrow> let out = out\<lparr>tf_pos := v\<rparr> in
          case scan_field stale data cpt (str ''range_start='') of None \<Rightarrow> (Inr 0, out)
          | Some (cpt, v) \<Rightarrow> let out = out\<lparr>tf_start := v\<rparr> in
          case scan_field stale data cpt (str ''range_size='') of None \<Rightarrow> (Inr 0, out)
          | Some (cpt, v) \<Rightarrow> let out = out\<lparr>tf_size := v\<rparr> in
          case scan_next stale data cpt i of None \<Rightarrow> (Inr 0, out)
          | Some (cpt, v) \<Rightarrow> let out = out\<lparr>tf_next := v\<rparr> in
          case scan_hex16 junk data cpt (str ''md5='') of None \<Rightarrow> (Inr 0, out)
          | Some (cpt, md5) \<Rightarrow>
              (check_self junk mem data (cpt + 4 + 32), out\<lparr>tf_md5 := md5\<rparr>))"

text \<open>
  The return value with the tag type and the next tag.  The subtraction of the \<open>off_t\<close> difference
  from \<open>range_start\<close> wraps in 32 bits.  If only the range start differs, the code sets
  \<open>ISO_MD5_TAG_MISPLACED\<close> but does not return; the comparison of the digests decides.
\<close>

definition eval_fresh :: "bool \<Rightarrow> tag_fields \<Rightarrow> u32 \<Rightarrow> md5_ctx \<Rightarrow> u32 \<Rightarrow> nat res" where
  "eval_fresh mem f lba ctx ctx_start_lba =
     (if tf_pos f \<noteq> lba then
        (if tf_type f = 2 \<and> lba < 32 then
           (if tf_start f - (tf_pos f - lba) \<noteq> ctx_start_lba then Inl ISO_MD5_TAG_MISPLACED
            else Inl ISO_MD5_TAG_COPIED)
         else Inl ISO_MD5_TAG_MISPLACED)
      else case md5_so_far mem ctx of
        Inl e \<Rightarrow> Inl e
      | Inr cloned_md5 \<Rightarrow>
          if \<not> iso_md5_match cloned_md5 (tf_md5 f) then Inl ISO_MD5_TAG_MISMATCH else Inr 1)"

definition iso_util_eval_md5_tag ::
  "(nat \<Rightarrow> lf) \<Rightarrow> (nat \<Rightarrow> byte) \<Rightarrow> tag_fields \<Rightarrow> (nat \<Rightarrow> bool) \<Rightarrow> byte list \<Rightarrow> nat \<Rightarrow> u32 \<Rightarrow>
     md5_ctx \<Rightarrow> u32 \<Rightarrow> nat res \<times> nat \<times> u32" where
  "iso_util_eval_md5_tag stale junk out mem block desired lba ctx ctx_start_lba =
     (case iso_util_decode_md5_tag stale junk (mem 0) block (out\<lparr>tf_type := 0\<rparr>) 0 of
        (decode_ret, f) \<Rightarrow>
          (if decode_ret \<noteq> Inr 1 \<and> decode_ret \<noteq> Inl ISO_MD5_AREA_CORRUPTED then Inr 0
           else if tf_type f > 30 then Inr 0
           else if decode_ret = Inl ISO_MD5_AREA_CORRUPTED then Inl ISO_MD5_AREA_CORRUPTED
           else if \<not> bit desired (tf_type f) then Inr 0
           else eval_fresh (mem 1) f lba ctx ctx_start_lba,
           tf_type f, tf_next f))"

section \<open>Searching in the text of a tag\<close>

lemma strstr_skip:
  "\<forall>c\<in>set s. c \<noteq> p \<Longrightarrow> strstr (s @ t) (p # ps) = map_option ((+) (length s)) (strstr t (p # ps))"
  by (induction s) (cases "strstr t (p # ps)", auto)+

definition nonzero :: "cstring \<Rightarrow> bool" where
  "nonzero s \<longleftrightarrow> (\<forall>c\<in>set s. c \<noteq> 0)"

lemma nonzero_simps [simp]:
  "nonzero []" "nonzero (c # s) \<longleftrightarrow> c \<noteq> 0 \<and> nonzero s" "nonzero (s @ t) \<longleftrightarrow> nonzero s \<and> nonzero t"
  by (auto simp: nonzero_def)

lemma digit_bounds: "is_digit c \<Longrightarrow> 0x30 \<le> c" "is_digit c \<Longrightarrow> c \<le> 0x39"
  by (simp_all add: is_digit_def)

lemma dec_not: "c < 0x30 \<or> 0x39 < c \<Longrightarrow> \<forall>d\<in>set (dec n). d \<noteq> c"
  using bspec [OF dec_digits [of n]] digit_bounds by (metis leD)

lemma nonzero_dec [simp]: "nonzero (dec n)"
  using dec_not [of 0 n] by (simp add: nonzero_def)

lemma nonzero_hex_text [simp]: "nonzero (hex_text bs)"
proof (induction bs)
  case (Cons b bs)
  then show ?case
    using hex_digit_props(3) [OF nibble_high, of b] hex_digit_props(3) [OF nibble_low, of b]
    by (simp add: hex_text_def sprintf_02x_def)
qed (simp add: hex_text_def)

lemma c_text_at: "nonzero x \<Longrightarrow> c_text (a @ x @ r) (length a) = x @ takeWhile (\<lambda>c. c \<noteq> 0) r"
  by (simp add: c_text_def nonzero_def)

lemma scan_lf_dec: "scan_lf (dec n @ 0x20 # t) = Some (Lf False n 0)"
proof -
  have d: "\<forall>c\<in>set (dec n). is_digit c" by (rule dec_digits)
  obtain c s where cs: "dec n = c # s" by (cases "dec n") simp_all
  have c: "is_digit c" using d cs by simp
  have "\<not> c_isspace c"
    using digit_bounds [OF c] order.trans [of "0x30" c "13"] by (auto simp: c_isspace_def)
  then have a: "dropWhile c_isspace (dec n @ 0x20 # t) = dec n @ 0x20 # t" by (simp add: cs)
  have "c \<noteq> 0x2d" "c \<noteq> 0x2b" using digit_bounds [OF c] by auto
  then have b: "scan_sign (dec n @ 0x20 # t) = (False, dec n @ 0x20 # t)"
    by (simp add: scan_sign_def cs)
  have n20: "\<not> is_digit 0x20" by (simp add: is_digit_def)
  have e: "takeWhile is_digit (dec n @ 0x20 # t) = dec n" "dropWhile is_digit (dec n @ 0x20 # t) = 0x20 # t"
    using d n20 by simp_all
  show ?thesis
    unfolding scan_lf_def a b prod.case Let_def e
    by (simp add: scan_exponent_def dec_value_dec)
qed

lemma dec_to_uint32_dec:
  "iso_util_dec_to_uint32 stale (sprintf_u v @ 0x20 # t) = Some v"
proof -
  have "\<not> 4294967295 < unat v"
    using unsigned_less [of v, where ?'a = nat] by simp
  then show ?thesis
    by (simp add: iso_util_dec_to_uint32_def sprintf_u_def scan_lf_dec lf_to_u32_def)
qed

lemma scan_field_text:
  assumes "nonzero s" "nonzero pat"
    and "\<And>t. strstr (s @ pat @ t) pat = Some (length s)"
    and "data = a @ s @ pat @ sprintf_u v @ 0x20 # r" "cpt = length a"
  shows "scan_field stale data cpt pat = Some (cpt + length s, v)"
proof -
  have t: "c_text data cpt = s @ pat @ sprintf_u v @ 0x20 # takeWhile (\<lambda>c. c \<noteq> 0) r"
    using c_text_at [of "s @ pat @ sprintf_u v @ [0x20]" a r] assms by (simp add: sprintf_u_def)
  have "c_text data (cpt + length s + length pat) = sprintf_u v @ 0x20 # takeWhile (\<lambda>c. c \<noteq> 0) r"
    using c_text_at [of "sprintf_u v @ [0x20]" "a @ s @ pat" r] assms by (simp add: sprintf_u_def add.assoc)
  then show ?thesis
    unfolding scan_field_def t by (simp add: assms(3) dec_to_uint32_dec Let_def)
qed

lemma scan_hex16_text:
  assumes "nonzero s" "nonzero pat" "\<And>t. strstr (s @ pat @ t) pat = Some (length s)"
    and "data = a @ s @ pat @ hex_text md5 @ r" "cpt = length a" "length md5 = 16"
  shows "scan_hex16 junk data cpt pat = Some (cpt + length s, md5)"
proof -
  have t: "c_text data cpt = s @ pat @ hex_text md5 @ takeWhile (\<lambda>c. c \<noteq> 0) r"
    using c_text_at [of "s @ pat @ hex_text md5" a r] assms by simp
  have "drop (cpt + length s + length pat) data = hex_text md5 @ r" using assms by simp
  moreover have "md5 \<noteq> []" using assms(6) by auto
  ultimately show ?thesis
    unfolding scan_hex16_def t using iso_util_hex_to_bin_text [of md5 _ r] assms(6)
    by (simp add: assms(3) Let_def)
qed

lemma strstr_pos: "strstr ((sprintf_u p @ str '' '') @ str ''range_start='' @ t) (str ''range_start='')
    = Some (length (sprintf_u p @ str '' ''))"
  using strstr_skip [of "sprintf_u p @ [0x20]" "0x72"] dec_not [of "0x72"]
  by (simp add: sprintf_u_def)

lemma strstr_start: "strstr ((str ''range_start='' @ sprintf_u p @ str '' '') @ str ''range_size='' @ t) (str ''range_size='')
    = Some (length (str ''range_start='' @ sprintf_u p @ str '' ''))"
  using strstr_skip [of "sprintf_u p @ [0x20]" "0x72"] dec_not [of "0x72"]
  by (simp add: sprintf_u_def)

lemma strstr_size:
  "strstr ((str ''range_size='' @ sprintf_u p @ str '' '') @ str ''next='' @ t) (str ''next='')
    = Some (length (str ''range_size='' @ sprintf_u p @ str '' ''))"
  "strstr ((str ''range_size='' @ sprintf_u p @ str '' '') @ str ''session_start='' @ t) (str ''session_start='')
    = Some (length (str ''range_size='' @ sprintf_u p @ str '' ''))"
  using strstr_skip [of "sprintf_u p @ [0x20]" "0x6e"] dec_not [of "0x6e"]
    strstr_skip [of "sprintf_u p @ [0x20]" "0x73"] dec_not [of "0x73"]
  by (simp_all add: sprintf_u_def)

lemma strstr_md5:
  "strstr ((str ''range_size='' @ sprintf_u p @ str '' '') @ str ''md5='' @ t) (str ''md5='')
    = Some (length (str ''range_size='' @ sprintf_u p @ str '' ''))"
  "strstr ((str ''next='' @ sprintf_u p @ str '' '') @ str ''md5='' @ t) (str ''md5='')
    = Some (length (str ''next='' @ sprintf_u p @ str '' ''))"
  "strstr ((str ''session_start='' @ sprintf_u p @ str '' '') @ str ''md5='' @ t) (str ''md5='')
    = Some (length (str ''session_start='' @ sprintf_u p @ str '' ''))"
  using strstr_skip [of "sprintf_u p @ [0x20]" "0x6d"] dec_not [of "0x6d"]
  by (simp_all add: sprintf_u_def)

lemma strstr_self: "strstr (str '' '' @ str ''self='' @ t) (str ''self='') = Some (length (str '' ''))"
  by simp

lemma md5_of_spec: "length data < 2 ^ 31 \<Longrightarrow> md5_of True data = Inr (md5_spec data)"
proof -
  assume l: "length data < 2 ^ 31"
  obtain c where c: "iso_md5_start True None = Inr (Some c)" "ctx_for [] c"
    using iso_md5_start_ctx by blast
  obtain c' where c': "iso_md5_compute (Some c) data = Inr (Some c')" "ctx_for ([] @ data) c'"
    using iso_md5_compute_ctx [OF c(2) l] by blast
  then show ?thesis using c iso_md5_end_ctx [OF c'(2)] by (simp add: md5_of_def)
qed

lemma md5_so_far_spec: "ctx_for msg ctx \<Longrightarrow> md5_so_far True ctx = Inr (md5_spec msg)"
  using iso_md5_end_ctx by (simp add: md5_so_far_def iso_md5_clone_def libisofs_md5_def)

lemma length_md5_spec [simp]: "length (md5_spec msg) = 16"
  by (simp add: md5_spec_def md5__encode_def Let_def split: prod.split)

definition next_value :: "tag_image \<Rightarrow> nat \<Rightarrow> u32" where
  "next_value t mode =
     (if mode = 2 then checksum_tree_tag_pos t else if mode = 3 then checksum_tag_pos t
      else if mode = 4 then ms_block t else 0)"

definition fields_of :: "tag_image \<Rightarrow> nat \<Rightarrow> byte list \<Rightarrow> tag_fields" where
  "fields_of t mode md5 =
     (case tag_range t mode of (pos, start, rsize) \<Rightarrow>
        \<lparr>tf_type = mode, tf_pos = pos, tf_start = start, tf_size = rsize,
         tf_next = next_value t mode, tf_md5 = md5\<rparr>)"

definition magic_of :: "nat \<Rightarrow> cstring" where
  "magic_of mode = (case iso_util_tag_magic (int mode) of (_, m, _) \<Rightarrow> case m of Some s \<Rightarrow> s | None \<Rightarrow> [])"

lemma mode_cases: "1 \<le> mode \<Longrightarrow> mode \<le> 4 \<Longrightarrow> mode = 1 \<or> mode = 2 \<or> mode = 3 \<or> mode = (4 :: nat)"
  by auto

lemma magic_props:
  assumes "1 \<le> mode" "mode \<le> 4"
  shows "nonzero (magic_of mode)" "magic_length mode = length (magic_of mode)" "length (magic_of mode) \<le> 31"
    "find_magic (magic_of mode @ t) 1 4 = Some mode"
proof -
  have u: "[1..<4 + 1] = [1, 2, 3, 4 :: nat]" by (simp add: upt_rec)
  note defs = magic_of_def magic_length_def iso_util_tag_magic_def
  consider "mode = 1" | "mode = 2" | "mode = 3" | "mode = 4" using mode_cases [OF assms] by blast
  note m = this
  show "nonzero (magic_of mode)" "magic_length mode = length (magic_of mode)" "length (magic_of mode) \<le> 31"
    by (cases rule: m; simp add: defs)+
  show "find_magic (magic_of mode @ t) 1 4 = Some mode"
    unfolding find_magic_def u
    by (cases rule: m; simp add: defs c_text_def strncmp_eq_def)
qed

lemma scan_next_text:
  assumes "1 \<le> mode" "mode \<le> 4" "length md5 = 16" "cpt = length a"
    and data: "data = a @ str ''range_size='' @ sprintf_u z @ tag_next t mode @ str '' md5='' @ hex_text md5 @ r"
  shows "\<exists>cpt'. scan_next stale data cpt mode = Some (cpt', next_value t mode) \<and>
     scan_hex16 junk data cpt' (str ''md5='')
       = Some (length (a @ str ''range_size='' @ sprintf_u z @ tag_next t mode @ str '' ''), md5)"
proof -
  let ?R = "str ''range_size='' @ sprintf_u z @ str '' ''"
  have nz: "nonzero ?R" "nonzero (str ''next='' @ sprintf_u v @ str '' '')"
      "nonzero (str ''session_start='' @ sprintf_u v @ str '' '')" for v
    by (simp_all add: sprintf_u_def)
  have nzp: "nonzero (str ''next='')" "nonzero (str ''session_start='')" "nonzero (str ''md5='')"
    by simp_all
  consider "mode = 1" | "mode = 2 \<or> mode = 3" | "mode = 4" using mode_cases [OF assms(1,2)] by blast
  then show ?thesis
  proof cases
    case 1
    have "scan_hex16 junk data cpt (str ''md5='') = Some (cpt + length ?R, md5)"
      by (rule scan_hex16_text [OF nz(1) nzp(3) strstr_md5(1), where r = r])
        (use assms 1 in \<open>simp_all add: tag_next_def\<close>)
    then show ?thesis using 1 assms by (simp add: scan_next_def next_value_def tag_next_def)
  next
    case 2
    let ?v = "next_value t mode" and ?b = "a @ ?R"
    have n: "tag_next t mode = str '' next='' @ sprintf_u ?v"
      using 2 by (auto simp: tag_next_def next_value_def)
    have "scan_field stale data cpt (str ''next='') = Some (cpt + length ?R, ?v)"
      by (rule scan_field_text [OF nz(1) nzp(1) strstr_size(1), where r = "str ''md5='' @ hex_text md5 @ r"])
        (use assms n in simp_all)
    moreover have "scan_hex16 junk data (cpt + length ?R) (str ''md5='')
        = Some (cpt + length ?R + length (str ''next='' @ sprintf_u ?v @ str '' ''), md5)"
      by (rule scan_hex16_text [OF nz(2) nzp(3) strstr_md5(2), where a = ?b and r = r])
        (use assms n in simp_all)
    ultimately show ?thesis using 2 assms n by (auto simp: scan_next_def)
  next
    case 3
    let ?v = "next_value t mode" and ?b = "a @ ?R"
    have n: "tag_next t mode = str '' session_start='' @ sprintf_u ?v"
      using 3 by (auto simp: tag_next_def next_value_def)
    have "scan_field stale data cpt (str ''session_start='') = Some (cpt + length ?R, ?v)"
      by (rule scan_field_text [OF nz(1) nzp(2) strstr_size(2), where r = "str ''md5='' @ hex_text md5 @ r"])
        (use assms n in simp_all)
    moreover have "scan_hex16 junk data (cpt + length ?R) (str ''md5='')
        = Some (cpt + length ?R + length (str ''session_start='' @ sprintf_u ?v @ str '' ''), md5)"
      by (rule scan_hex16_text [OF nz(3) nzp(3) strstr_md5(3), where a = ?b and r = r])
        (use assms n in simp_all)
    ultimately show ?thesis using 3 assms n by (auto simp: scan_next_def)
  qed
qed

lemma tag_text_eq:
  "tag_range t mode = (p, s, z) \<Longrightarrow>
     tag_text t mode md5 = magic_of mode @ str '' pos='' @ sprintf_u p @ str '' range_start='' @ sprintf_u s @
        str '' range_size='' @ sprintf_u z @ tag_next t mode @ str '' md5='' @ hex_text md5"
  by (simp add: tag_text_def magic_of_def)

lemma length_sprintf_u: "length (sprintf_u v) \<le> 10"
proof -
  have "unat v < 10 ^ 10" using unsigned_less [of v, where ?'a = nat] by simp
  then show ?thesis unfolding sprintf_u_def by (rule length_dec) simp
qed

lemma length_tag_text:
  assumes "1 \<le> mode" "mode \<le> 4" "length md5 = 16"
  shows "length (tag_text t mode md5) \<le> 180"
proof -
  obtain p s z where r: "tag_range t mode = (p, s, z)" by (cases "tag_range t mode")
  have "length (tag_next t mode) \<le> 25"
    using length_sprintf_u [of "checksum_tree_tag_pos t"] length_sprintf_u [of "checksum_tag_pos t"]
      length_sprintf_u [of "ms_block t"] by (simp add: tag_next_def)
  then show ?thesis
    using length_sprintf_u [of p] length_sprintf_u [of s] length_sprintf_u [of z]
      magic_props(3) [OF assms(1,2)] assms(3) by (simp add: tag_text_eq [OF r])
qed

lemma decode_tag_text:
  assumes mode: "1 \<le> mode" "mode \<le> 4" and md5: "length md5 = 16"
    and data: "data = tag_block_text True (tag_text t mode md5) @ rest"
  shows "iso_util_decode_md5_tag stale junk True data out 0 = (Inr 1, fields_of t mode md5)"
proof -
  obtain p s z where r: "tag_range t mode = (p, s, z)" by (cases "tag_range t mode")
  define body where "body = tag_text t mode md5"
  define self where "self = md5_spec body"
  define M where "M = magic_of mode"
  note M = magic_props [OF mode, folded M_def]
  have lt: "length body < 2 ^ 31"
    using length_tag_text [OF mode md5, of t] by (simp add: body_def)
  have d: "data = body @ str '' self='' @ hex_text self @ 0x0a # rest"
    using data md5_of_spec [OF lt] by (simp add: tag_block_text_def body_def self_def)
  have body: "body = M @ str '' pos='' @ sprintf_u p @ str '' range_start='' @ sprintf_u s @
      str '' range_size='' @ sprintf_u z @ tag_next t mode @ str '' md5='' @ hex_text md5"
    unfolding body_def M_def by (rule tag_text_eq [OF r])
  define a1 where "a1 = M @ str '' pos=''"
  define a2 where "a2 = a1 @ sprintf_u p @ str '' ''"
  define a3 where "a3 = a2 @ str ''range_start='' @ sprintf_u s @ str '' ''"
  define tail where "tail = str '' self='' @ hex_text self @ 0x0a # rest"
  define end3 where "end3 = str ''range_size='' @ sprintf_u z @ tag_next t mode @ str '' md5='' @ hex_text md5"
  have d3: "data = a3 @ end3 @ tail" by (simp add: d body a1_def a2_def a3_def end3_def tail_def)
  have fm: "find_magic data 1 4 = Some mode" using M(4) by (simp add: d body)
  have pos: "strncmp_eq (c_text data (magic_length mode + 1)) (str ''pos='') 4"
    using c_text_at [of "str ''pos=''" "M @ str '' ''"] by (simp add: d body M strncmp_eq_def)
  have l1: "magic_length mode + 1 + 4 = length a1" by (simp add: M a1_def)
  have p: "iso_util_dec_to_uint32 (stale (length a1)) (c_text data (length a1)) = Some p"
    using c_text_at [of "sprintf_u p @ [0x20]" a1] dec_to_uint32_dec
    by (simp add: d body a1_def sprintf_u_def)
  have f1: "scan_field stale data (length a1) (str ''range_start='') = Some (length a2, s)"
    by (subst scan_field_text [OF _ _ strstr_pos, where v = s and a = a1])
      (simp_all add: d body a1_def a2_def sprintf_u_def)
  have f2: "scan_field stale data (length a2) (str ''range_size='') = Some (length a3, z)"
  proof (subst scan_field_text [OF _ _ strstr_start, where v = z and a = a2])
    show "data = a2 @ (str ''range_start='' @ sprintf_u s @ str '' '') @ str ''range_size='' @
        sprintf_u z @ 0x20 # tl (tag_next t mode @ str '' md5='' @ hex_text md5 @ tail)"
      by (simp add: d body a1_def a2_def tail_def tag_next_def)
  qed (simp_all add: a3_def sprintf_u_def)
  obtain cpt' where n: "scan_next stale data (length a3) mode = Some (cpt', next_value t mode)"
      "scan_hex16 junk data cpt' (str ''md5='')
         = Some (length (a3 @ str ''range_size='' @ sprintf_u z @ tag_next t mode @ str '' ''), md5)"
    using scan_next_text [OF mode md5 refl, of data a3 z t tail] d3
    by (auto simp: end3_def)
  have cpt: "length (a3 @ str ''range_size='' @ sprintf_u z @ tag_next t mode @ str '' '') + 4 + 32 = length body"
    using md5 by (simp add: body a1_def a2_def a3_def)
  have "scan_hex16 junk data (length body) (str ''self='') = Some (length body + 1, self)"
    by (subst scan_hex16_text [OF _ _ strstr_self, where a = body and r = "0x0a # rest"])
      (simp_all add: d self_def)
  moreover have "data ! (length body + 1 + 5 + 32) = 0x0a"
    by (simp add: d nth_append self_def)
  ultimately have self: "check_self junk True data (length body) = Inr 1"
    using md5_of_spec [OF lt] iso_md5_match_eq [of self self]
    by (simp add: check_self_def d self_def [symmetric] Let_def) (simp add: self_def)
  show ?thesis
    unfolding iso_util_decode_md5_tag_def Let_def
    by (simp only: mod_0 not_less_zero less_irrefl fm pos l1 p f1 f2 n cpt self prod.case option.case
        simp_thms if_True if_False) (simp add: fields_of_def r)
qed

section \<open>The position text of the scdbackup tag\<close>

lemma dec_padded:
  "0 < q \<Longrightarrow> r < 10 ^ Suc k \<Longrightarrow>
     dec (q * 10 ^ Suc k + r) = dec q @ replicate (Suc k - length (dec r)) 0x30 @ dec r"
proof (induction k arbitrary: r)
  case 0
  then show ?case by (simp add: dec.simps [of "q * 10 + r"] dec.simps [of r])
next
  case (Suc k)
  have e: "q * 10 ^ Suc (Suc k) + r = r + (q * 10 ^ Suc k) * 10" by simp
  have d: "(q * 10 ^ Suc (Suc k) + r) div 10 = q * 10 ^ Suc k + r div 10"
      "(q * 10 ^ Suc (Suc k) + r) mod 10 = r mod 10"
    unfolding e by (simp_all only: div_mult_self1 mod_mult_self1 zero_neq_numeral not_False_eq_True)
  have "\<not> q * 10 ^ Suc (Suc k) + r < 10"
  proof -
    have "1 \<le> q * 10 ^ Suc k" using Suc.prems(1) by (simp add: Suc_le_eq)
    then show ?thesis unfolding e by linarith
  qed
  then have "dec (q * 10 ^ Suc (Suc k) + r) = dec (q * 10 ^ Suc k + r div 10) @ [dec_digit (r mod 10)]"
    using dec.simps [of "q * 10 ^ Suc (Suc k) + r"] unfolding d by simp
  also have "dec (q * 10 ^ Suc k + r div 10)
      = dec q @ replicate (Suc k - length (dec (r div 10))) 0x30 @ dec (r div 10)"
    using Suc.prems by (intro Suc.IH) (auto simp: less_mult_imp_div_less)
  finally have E: "dec (q * 10 ^ Suc (Suc k) + r)
      = (dec q @ replicate (Suc k - length (dec (r div 10))) 0x30 @ dec (r div 10)) @ [dec_digit (r mod 10)]" .
  show ?case
  proof (cases "r < 10")
    case True
    moreover have "dec 0 = [0x30]" by (simp add: dec.simps [of 0] dec_digit_def)
    ultimately show ?thesis unfolding E
      by (simp add: dec.simps [of r] replicate_append_same [symmetric])
  next
    case False
    then show ?thesis unfolding E by (simp add: dec.simps [of r])
  qed
qed

lemma scdbackup_postext_dec:
  assumes "pos < 2 ^ 32 * 1000000000"
  shows "scdbackup_postext pos = dec pos"
proof (cases "pos \<ge> 1000000000")
  case True
  have "pos div 1000000000 < 2 ^ 32" using assms by (simp add: less_mult_imp_div_less)
  moreover have "dec (pos div 1000000000 * 10 ^ Suc 8 + pos mod 1000000000)
      = dec (pos div 1000000000) @
        replicate (Suc 8 - length (dec (pos mod 1000000000))) 0x30 @ dec (pos mod 1000000000)"
    using True by (intro dec_padded) (simp_all add: div_greater_zero_iff)
  ultimately show ?thesis using True by (simp add: scdbackup_postext_def Let_def)
qed (simp add: scdbackup_postext_def)

section \<open>Written tags get accepted\<close>

lemma scdbackup_tag_appends:
  assumes "ctx_for msg (checksum_ctx t)" "length tag_block < 2048" "length (scdbackup_tag_parm t) < 100"
  shows "\<exists>line t'. iso_md5_write_scdbackup_tag (\<lambda>_. True) t tag_block = (Inr (tag_block @ line), t') \<and>
     written t' = written t \<and> bytes_written t' = bytes_written t \<and> total_size t' = total_size t"
proof -
  obtain c where c: "iso_md5_compute (Some (checksum_ctx t)) tag_block = Inr (Some c)"
      "ctx_for (msg @ tag_block) c"
    using iso_md5_compute_ctx [OF assms(1), of tag_block] assms(2) by auto
  define pos where "pos = unat (checksum_tag_pos t) * 2048 + length tag_block"
  define rec where "rec = scdbackup_tag_parm t @ str '' '' @ scdbackup_postext pos @ str '' '' @
      hex_text (md5_spec (msg @ tag_block))"
  have "pos < 10 ^ 13"
    using unsigned_less [of "checksum_tag_pos t", where ?'a = nat] assms(2) by (simp add: pos_def)
  then have "length (scdbackup_postext pos) \<le> 13"
    using length_dec [of pos 13] scdbackup_postext_dec [of pos] by simp
  then have "length rec < 2 ^ 31" using assms(3) by (simp add: rec_def)
  note md5 = md5_of_spec [OF this] md5_so_far_spec [OF c(2)]
  define t1 where "t1 = t\<lparr>checksum_ctx := c\<rparr>"
  have t1: "scdbackup_tag_parm t1 = scdbackup_tag_parm t" "checksum_tag_pos t1 = checksum_tag_pos t"
      "checksum_ctx t1 = c" "written t1 = written t" "bytes_written t1 = bytes_written t"
      "total_size t1 = total_size t" "written (t1\<lparr>scdbackup_tag_written := w\<rparr>) = written t1"
      "bytes_written (t1\<lparr>scdbackup_tag_written := w\<rparr>) = bytes_written t1"
      "total_size (t1\<lparr>scdbackup_tag_written := w\<rparr>) = total_size t1" for w
    by (simp_all add: t1_def)
  show ?thesis
    unfolding iso_md5_write_scdbackup_tag_def Let_def c sum.case option.case t1_def [symmetric] t1
      md5(2) pos_def [symmetric] rec_def [symmetric] md5(1) prod.inject sum.inject
    using t1 by auto
qed

lemma length_tag_block_text:
  assumes "1 \<le> mode" "mode \<le> 4" "length md5 = 16"
  shows "length (tag_block_text True (tag_text t mode md5)) < 2048"
  using length_tag_text [OF assms, of t] md5_of_spec [of "tag_text t mode md5"]
  by (simp add: tag_block_text_def)

lemma length_block_of [simp]: "length (block_of s) = 2048"
  by (simp add: block_of_def)

lemma block_of_append: "length s \<le> 2048 \<Longrightarrow> \<exists>r. block_of (s @ line) = s @ r"
  by (auto simp: block_of_def take_append)

lemma iso_write_ok:
  assumes "bytes_written t + length buf \<le> total_size t"
  shows "\<exists>t'. iso_write (Inr True) None t buf = (Inr (), t') \<and> written t' = written t @ buf"
  using assms by (simp add: iso_write_def Let_def)

lemma write_tag_block:
  assumes "1 \<le> mode" "mode \<le> 3" "ctx_for msg (checksum_ctx t)"
    and "bytes_written t + 2048 \<le> total_size t" "length (scdbackup_tag_parm t) < 100"
  shows "\<exists>t' rest. iso_md5_write_tag (\<lambda>_. True) (Inr True) None t mode = (Inr (), t') \<and>
     (let block = tag_block_text True (tag_text t mode (md5_spec msg)) @ rest
      in length block = 2048 \<and> written t' = written t @ block)"
proof -
  define tb where "tb = tag_block_text True (tag_text t mode (md5_spec msg))"
  have ltb: "length tb < 2048"
    unfolding tb_def using assms(1,2) by (intro length_tag_block_text) simp_all
  have "\<exists>line t1. (if mode = 1 \<and> scdbackup_tag_parm t \<noteq> [] \<and> \<not> (ms_block t > 0)
      then iso_md5_write_scdbackup_tag (\<lambda>i. True) t tb else (Inr tb, t)) = (Inr (tb @ line), t1) \<and>
      written t1 = written t \<and> bytes_written t1 = bytes_written t \<and> total_size t1 = total_size t"
    using scdbackup_tag_appends [OF assms(3) ltb assms(5)] by auto
  then obtain line t1 where l: "(if mode = 1 \<and> scdbackup_tag_parm t \<noteq> [] \<and> \<not> (ms_block t > 0)
      then iso_md5_write_scdbackup_tag (\<lambda>i. True) t tb else (Inr tb, t)) = (Inr (tb @ line), t1)"
      "written t1 = written t" "bytes_written t1 = bytes_written t" "total_size t1 = total_size t"
    by blast
  obtain r where r: "block_of (tb @ line) = tb @ r"
    using block_of_append [of tb line] ltb by auto
  obtain t' where t': "iso_write (Inr True) None t1 (block_of (tb @ line)) = (Inr (), t')"
      "written t' = written t1 @ block_of (tb @ line)"
    using iso_write_ok [of t1 "block_of (tb @ line)"] l assms(4) by auto
  have m: "mode mod 256 = mode" "\<not> (mode < 1 \<or> mode > 4)" "mode \<noteq> 4" using assms(1,2) by auto
  have "iso_md5_write_tag (\<lambda>_. True) (Inr True) None t mode = (Inr (), t')"
    unfolding iso_md5_write_tag_def Let_def
    by (simp only: m md5_so_far_spec [OF assms(3)] tb_def [symmetric] l t' sum.case prod.case
        if_True if_False not_True_eq_False)
  moreover have "length (tb @ r) = 2048" by (simp flip: r)
  ultimately show ?thesis using t' r l by (auto simp: Let_def tb_def)
qed

lemma eval_decoded:
  assumes "iso_util_decode_md5_tag stale junk True block (out\<lparr>tf_type := 0\<rparr>) 0 = (Inr 1, fields_of t mode md5)"
    and "mode \<le> 4" "bit desired mode"
  shows "iso_util_eval_md5_tag stale junk out (\<lambda>_. True) block desired lba ctx start
     = (eval_fresh True (fields_of t mode md5) lba ctx start, mode, next_value t mode)"
proof -
  obtain p s z where r: "tag_range t mode = (p, s, z)" by (cases "tag_range t mode")
  show ?thesis
    using assms unfolding iso_util_eval_md5_tag_def assms(1) prod.case by (simp add: fields_of_def r)
qed

text \<open>
  C12: a session, superblock or tree tag that \<open>iso_md5_write_tag\<close> puts into the image, with or
  without a scdbackup tag behind it, is one block of 2048 bytes which \<open>iso_util_eval_md5_tag\<close>
  recognises whatever its uninitialised variables hold: at its own address the result is 1
  exactly if the bytes read so far have the digest of the bytes written so far, and
  \<open>ISO_MD5_TAG_MISMATCH\<close> otherwise; at any other address the result is
  \<open>ISO_MD5_TAG_MISPLACED\<close>, or \<open>ISO_MD5_TAG_COPIED\<close> for a superblock tag whose range moved with
  it to an address below 32.  The type and the address of the next tag are handed out.\<close>
theorem tag_accepted:
  assumes "1 \<le> mode" "mode \<le> 3" "ctx_for msg (checksum_ctx t)"
    and "bytes_written t + 2048 \<le> total_size t" "length (scdbackup_tag_parm t) < 100"
    and "tag_range t mode = (pos, start, rsize)" "bit desired mode"
  shows "\<exists>t' block.
      iso_md5_write_tag (\<lambda>_. True) (Inr True) None t mode = (Inr (), t') \<and>
      written t' = written t @ block \<and> length block = 2048 \<and>
      (\<forall>stale junk out lba read ctx ctx_start. ctx_for read ctx \<longrightarrow>
         iso_util_eval_md5_tag stale junk out (\<lambda>_. True) block desired lba ctx ctx_start =
           (if lba = pos then (if md5_spec read = md5_spec msg then Inr 1 else Inl ISO_MD5_TAG_MISMATCH)
            else if mode = 2 \<and> lba < 32 \<and> start - (pos - lba) = ctx_start then Inl ISO_MD5_TAG_COPIED
            else Inl ISO_MD5_TAG_MISPLACED,
            mode, next_value t mode))"
proof -
  obtain t' rest where w: "iso_md5_write_tag (\<lambda>_. True) (Inr True) None t mode = (Inr (), t')"
      "length (tag_block_text True (tag_text t mode (md5_spec msg)) @ rest) = 2048"
      "written t' = written t @ tag_block_text True (tag_text t mode (md5_spec msg)) @ rest"
    using write_tag_block [OF assms(1-5)] by (auto simp: Let_def)
  have m4: "mode \<le> 4" using assms(2) by simp
  note e = eval_decoded [OF decode_tag_text [OF assms(1) m4 length_md5_spec refl] m4 assms(7)]
  show ?thesis
  proof (intro exI conjI allI impI)
    fix stale junk out lba read ctx ctx_start
    assume "ctx_for read ctx"
    then show "iso_util_eval_md5_tag stale junk out (\<lambda>_. True)
        (tag_block_text True (tag_text t mode (md5_spec msg)) @ rest) desired lba ctx ctx_start =
           (if lba = pos then (if md5_spec read = md5_spec msg then Inr 1 else Inl ISO_MD5_TAG_MISMATCH)
            else if mode = 2 \<and> lba < 32 \<and> start - (pos - lba) = ctx_start then Inl ISO_MD5_TAG_COPIED
            else Inl ISO_MD5_TAG_MISPLACED,
            mode, next_value t mode)"
      unfolding e by (simp add: eval_fresh_def fields_of_def assms(6) md5_so_far_spec iso_md5_match_eq)
  qed (use w in simp_all)
qed

definition example_image :: tag_image where
  "example_image = \<lparr>checksum_range_start = 0, checksum_range_size = 200, checksum_tag_pos = 200,
     checksum_sb_tag_pos = 18, checksum_tree_tag_pos = 40, checksum_rlsb_tag_pos = 0, ms_block = 0,
     checksum_ctx = md5_init zero_ctx, checksum_counter = 0, bytes_written = 0, total_size = 409600,
     opts_overwrite = None, scdbackup_tag_parm = str ''x'', scdbackup_tag_written = None, written = []\<rparr>"

lemma tag_accepted_witness:
  "\<exists>t' block.
      iso_md5_write_tag (\<lambda>_. True) (Inr True) None example_image 2 = (Inr (), t') \<and>
      written t' = written example_image @ block \<and> length block = 2048 \<and>
      (\<forall>stale junk out lba read ctx ctx_start. ctx_for read ctx \<longrightarrow>
         iso_util_eval_md5_tag stale junk out (\<lambda>_. True) block 4 lba ctx ctx_start =
           (if lba = 18 then (if md5_spec read = md5_spec [] then Inr 1 else Inl ISO_MD5_TAG_MISMATCH)
            else if 2 = (2 :: nat) \<and> lba < 32 \<and> 0 - (18 - lba) = ctx_start then Inl ISO_MD5_TAG_COPIED
            else Inl ISO_MD5_TAG_MISPLACED, 2, next_value example_image 2))"
proof (rule tag_accepted)
  show "ctx_for [] (checksum_ctx example_image)" by (simp add: example_image_def ctx_for_init)
  show "tag_range example_image 2 = (18, 0, 18)"
      "bytes_written example_image + 2048 \<le> total_size example_image"
      "length (scdbackup_tag_parm example_image) < 100"
    by (simp_all add: tag_range_def example_image_def)
  show "bit (4 :: nat) 2" by (simp add: bit_iff_odd)
qed simp_all

lemma md5_of_Inr:
  "md5_of mem data = Inr md5 \<Longrightarrow> length data < 2 ^ 31 \<Longrightarrow> mem \<and> md5 = md5_spec data"
  using md5_of_spec [of data]
  by (cases mem) (simp_all add: md5_of_def iso_md5_start_def libisofs_md5_def)

lemma md5_so_far_Inr:
  "md5_so_far mem ctx = Inr md5 \<Longrightarrow> ctx_for msg ctx \<Longrightarrow> mem \<and> md5 = md5_spec msg"
  using md5_so_far_spec [of msg ctx]
  by (cases mem) (simp_all add: md5_so_far_def iso_md5_clone_def libisofs_md5_def)

lemma scan_hex16_length: "scan_hex16 junk data cpt pat = Some (i, md5) \<Longrightarrow> length md5 = 16"
  by (auto simp: scan_hex16_def Let_def split: option.splits prod.splits if_splits)

lemma check_self_1:
  assumes "check_self junk mem data cpt = Inr 1" "length data < 2 ^ 31"
  shows "mem \<and> (\<exists>i self. scan_hex16 junk data cpt (str ''self='') = Some (i, self) \<and>
      self = md5_spec (take cpt data) \<and> data ! (i + 37) = 0x0a)"
proof -
  obtain tag where tag: "md5_of mem (take cpt data) = Inr tag"
    using assms(1) by (auto simp: check_self_def split: sum.splits)
  then have m: "mem" "tag = md5_spec (take cpt data)" using md5_of_Inr [OF tag] assms(2) by auto
  obtain i self where s: "scan_hex16 junk data cpt (str ''self='') = Some (i, self)"
      "iso_md5_match self tag" "data ! (i + 5 + 32) = 0x0a"
    using assms(1) unfolding check_self_def tag sum.case
    by (auto split: option.splits if_splits)
  have "self = tag" using s(2) scan_hex16_length [OF s(1)] m by (simp add: iso_md5_match_eq)
  then show ?thesis using m s by (auto simp: add.assoc)
qed

lemma decode_1:
  assumes "iso_util_decode_md5_tag stale junk mem data out 0 = (Inr 1, f)" "length data < 2 ^ 31"
  shows "mem \<and> tf_type f \<in> {1..4} \<and>
    (\<exists>cpt i self. scan_hex16 junk data cpt (str ''self='') = Some (i, self) \<and>
      self = md5_spec (take cpt data) \<and> data ! (i + 37) = 0x0a)"
proof -
  obtain mode where m: "find_magic data 1 4 = Some mode"
    using assms(1) unfolding iso_util_decode_md5_tag_def Let_def
    by (auto split: option.splits)
  then have "mode \<in> {1..4}" by (auto simp: find_magic_def find_Some_iff)
  moreover obtain cpt where "check_self junk mem data cpt = Inr 1" "tf_type f = mode"
    using assms(1) m unfolding iso_util_decode_md5_tag_def Let_def
    by (auto split: option.splits if_splits prod.splits)
  ultimately show ?thesis using check_self_1 [OF _ assms(2)] by blast
qed

text \<open>
  C19: if \<open>iso_util_eval_md5_tag\<close> returns 1 for a block of any contents, then the block decodes
  to a tag of a desired type for this address, the digest of the tag text stands behind
  \<open>self=\<close>, and the digest in the tag is the one of the bytes read so far.\<close>
theorem tag_evidence:
  assumes "fst (iso_util_eval_md5_tag stale junk out mem block desired lba ctx ctx_start) = Inr 1"
    and "ctx_for read ctx" "length block = 2048"
  shows "\<exists>f cpt self i.
      iso_util_decode_md5_tag stale junk True block (out\<lparr>tf_type := 0\<rparr>) 0 = (Inr 1, f) \<and>
      tf_type f \<in> {1..4} \<and> bit desired (tf_type f) \<and> tf_pos f = lba \<and>
      iso_md5_match (md5_spec read) (tf_md5 f) \<and>
      scan_hex16 junk block cpt (str ''self='') = Some (i, self) \<and>
      self = md5_spec (take cpt block) \<and> block ! (i + 37) = 0x0a"
proof -
  obtain r f where d: "iso_util_decode_md5_tag stale junk (mem 0) block (out\<lparr>tf_type := 0\<rparr>) 0 = (r, f)"
    by fastforce
  have e: "r = Inr 1" "bit desired (tf_type f)" "eval_fresh (mem 1) f lba ctx ctx_start = Inr 1"
    using assms(1) unfolding iso_util_eval_md5_tag_def d prod.case by (auto split: if_splits)
  have l: "length block < 2 ^ 31" using assms(3) by simp
  obtain cpt i self where c: "mem 0" "tf_type f \<in> {1..4}"
      "scan_hex16 junk block cpt (str ''self='') = Some (i, self)"
      "self = md5_spec (take cpt block)" "block ! (i + 37) = 0x0a"
    using decode_1 [OF d [unfolded e(1)] l] by blast
  obtain md5 where m: "md5_so_far (mem 1) ctx = Inr md5" "tf_pos f = lba" "iso_md5_match md5 (tf_md5 f)"
    using e(3) by (auto simp: eval_fresh_def split: if_splits sum.splits)
  then have "iso_md5_match (md5_spec read) (tf_md5 f)"
    using md5_so_far_Inr [OF m(1) assms(2)] by simp
  then show ?thesis using c d e m by auto
qed

lemma tag_evidence_witness:
  "\<exists>block f cpt self i. length block = 2048 \<and>
      iso_util_decode_md5_tag (\<lambda>_. Lf False 0 0) (\<lambda>_. 0) True block (fields_of example_image 1 []\<lparr>tf_type := 0\<rparr>) 0 = (Inr 1, f) \<and>
      tf_type f \<in> {1..4} \<and> bit (4 :: nat) (tf_type f) \<and> tf_pos f = 18 \<and>
      iso_md5_match (md5_spec []) (tf_md5 f) \<and>
      scan_hex16 (\<lambda>_. 0) block cpt (str ''self='') = Some (i, self) \<and>
      self = md5_spec (take cpt block) \<and> block ! (i + 37) = 0x0a"
proof -
  have c: "ctx_for [] (checksum_ctx example_image)" "bytes_written example_image + 2048 \<le> total_size example_image"
      "length (scdbackup_tag_parm example_image) < 100" "tag_range example_image 2 = (18, 0, 18)"
    by (simp_all add: example_image_def ctx_for_init tag_range_def)
  obtain rest where l: "length (tag_block_text True (tag_text example_image 2 (md5_spec [])) @ rest) = 2048"
    using write_tag_block [of 2 "[]" example_image] c by (auto simp: Let_def)
  define block where "block = tag_block_text True (tag_text example_image 2 (md5_spec [])) @ rest"
  have "bit (4 :: nat) 2" by (simp add: bit_iff_odd)
  then have "iso_util_eval_md5_tag (\<lambda>_. Lf False 0 0) (\<lambda>_. 0) (fields_of example_image 1 []) (\<lambda>_. True) block 4 18
      (checksum_ctx example_image) 0
    = (eval_fresh True (fields_of example_image 2 (md5_spec [])) 18 (checksum_ctx example_image) 0, 2,
       next_value example_image 2)"
    by (intro eval_decoded decode_tag_text [OF _ _ _ block_def]) simp_all
  then have "fst (iso_util_eval_md5_tag (\<lambda>_. Lf False 0 0) (\<lambda>_. 0) (fields_of example_image 1 []) (\<lambda>_. True) block 4 18
      (checksum_ctx example_image) 0) = Inr 1"
    using c by (simp add: eval_fresh_def fields_of_def md5_so_far_spec iso_md5_match_eq)
  from tag_evidence [OF this c(1)] l show ?thesis unfolding block_def by blast
qed

end
