(* ===== verification/Node_Tree.thy ===== *)
theory Node_Tree
  imports Prelude "HOL-Library.Monad_Syntax"
begin

text \<open>
  The node tree of \<open>libisofs/node.c\<close>: reference counts, the sorted child lists of
  directories, adding, taking, removing and renaming of nodes.  This theory has the heap, the reference counts,
  names and searching in directories, the invariant of the tree, and the proof that releasing
  a reference ends and keeps it; the theories \<open>Node_Add\<close> and \<open>Node_Iter\<close> have the rest.

  Nodes live in a heap that maps pointers to records, as the code shares and changes them
  through pointers.  The list of children is the chain of the \<open>next\<close> pointers, and an
  \<open>IsoNode **\<close> is a \<open>link\<close>: the place where the pointer is stored.  Every operation is in
  the option monad: \<open>None\<close> stands for the access to a NULL pointer or to freed memory, and for
  loops that use up their fuel \<open>k\<close>.  The theorems show that neither happens.
\<close>

section \<open>Nodes and the heap\<close>

type_synonym ptr = nat

datatype node_type = LIBISO_DIR | LIBISO_FILE | LIBISO_SYMLINK | LIBISO_SPECIAL | LIBISO_BOOT

datatype iso_replace_mode =
  ISO_REPLACE_NEVER | ISO_REPLACE_ALWAYS | ISO_REPLACE_IF_SAME_TYPE
  | ISO_REPLACE_IF_SAME_TYPE_AND_NEWER | ISO_REPLACE_IF_NEWER

text \<open>
  The members of \<open>struct Iso_Node\<close> and of \<open>struct Iso_Dir\<close> that the operations use; \<open>fmt\<close> is
  \<open>mode & S_IFMT\<close>.  The name of the root is NULL, here empty.
\<close>

record iso_node =
  refcount :: int
  ntype :: node_type
  nname :: cstring
  fmt :: u32
  mtime :: int
  parent :: "ptr option"
  next_node :: "ptr option"
  children :: "ptr option"
  nchildren :: int

type_synonym heap = "ptr \<Rightarrow> iso_node option"

datatype link = Children ptr | Next ptr

definition read_link :: "heap \<Rightarrow> link \<Rightarrow> ptr option option" where
  "read_link h l =
     (case l of Children d \<Rightarrow> map_option children (h d) | Next p \<Rightarrow> map_option next_node (h p))"

definition write_link :: "heap \<Rightarrow> link \<Rightarrow> ptr option \<Rightarrow> heap option" where
  "write_link h l v =
     (case l of
        Children d \<Rightarrow> (case h d of None \<Rightarrow> None | Some n \<Rightarrow> Some (h(d \<mapsto> n\<lparr>children := v\<rparr>)))
      | Next p \<Rightarrow> (case h p of None \<Rightarrow> None | Some n \<Rightarrow> Some (h(p \<mapsto> n\<lparr>next_node := v\<rparr>))))"

definition upd :: "heap \<Rightarrow> ptr \<Rightarrow> (iso_node \<Rightarrow> iso_node) \<Rightarrow> heap option" where
  "upd h p f = (case h p of None \<Rightarrow> None | Some n \<Rightarrow> Some (h(p \<mapsto> f n)))"

section \<open>Reference counts\<close>

definition iso_node_ref :: "heap \<Rightarrow> ptr \<Rightarrow> heap option" where
  "iso_node_ref h p = upd h p (\<lambda>n. n\<lparr>refcount := refcount n + 1\<rparr>)"

text \<open>
  The recursion of \<open>iso_node_unref\<close> and its loop over the children of a directory that gets
  freed.  The streams, link targets and extended information of nodes are not in the model.
\<close>

fun iso_node_unref :: "nat \<Rightarrow> heap \<Rightarrow> ptr \<Rightarrow> heap option"
  and unref_children :: "nat \<Rightarrow> heap \<Rightarrow> ptr option \<Rightarrow> heap option" where
  "iso_node_unref 0 h p = None"
| "iso_node_unref (Suc k) h p =
     do {
       h \<leftarrow> upd h p (\<lambda>n. n\<lparr>refcount := refcount n - 1\<rparr>);
       n \<leftarrow> h p;
       (if refcount n = 0 then
          do {
            h \<leftarrow> (if ntype n = LIBISO_DIR then unref_children k h (children n) else Some h);
            Some (h(p := None))
          }
        else Some h)
     }"
| "unref_children 0 h child = None"
| "unref_children (Suc k) h child =
     (case child of
        None \<Rightarrow> Some h
      | Some c \<Rightarrow>
          do {
            n \<leftarrow> h c;
            h \<leftarrow> upd h c (\<lambda>n. n\<lparr>parent := None\<rparr>);
            h \<leftarrow> iso_node_unref k h c;
            unref_children k h (next_node n)
          })"

section \<open>Names\<close>

definition LIBISOFS_NODE_NAME_MAX :: nat where "LIBISOFS_NODE_NAME_MAX = 255"
definition LIBISOFS_NODE_PATH_MAX :: nat where "LIBISOFS_NODE_PATH_MAX = 1024"

definition iso_node_is_valid_name :: "cstring option \<Rightarrow> unit res" where
  "iso_node_is_valid_name nm =
     (case nm of None \<Rightarrow> Inl ISO_NULL_POINTER
      | Some name \<Rightarrow>
          if name = [] then Inl ISO_RR_NAME_RESERVED
          else if length name > LIBISOFS_NODE_NAME_MAX then Inl ISO_RR_NAME_TOO_LONG
          else if strcmp name (str ''.'') = 0 \<or> strcmp name (str ''..'') = 0 then Inl ISO_RR_NAME_RESERVED
          else if strchr name (asc CHR ''/'') \<noteq> None then Inl ISO_RR_NAME_RESERVED
          else Inr ())"

text \<open>\<open>strtok_r (s, "/", ...)\<close>: the next token and the rest, \<open>None\<close> if only delimiters are left.\<close>

definition strtok_slash :: "cstring \<Rightarrow> (cstring \<times> cstring) option" where
  "strtok_slash s =
     (let s' = dropWhile (\<lambda>c. c = asc CHR ''/'') s
      in if s' = [] then None
         else Some (takeWhile (\<lambda>c. c \<noteq> asc CHR ''/'') s', drop 1 (dropWhile (\<lambda>c. c \<noteq> asc CHR ''/'') s')))"

lemma strtok_slash_shorter:
  assumes "strtok_slash s = Some (t, r)"
  shows "length r < length s"
proof -
  define s' where "s' = dropWhile (\<lambda>c. c = asc CHR ''/'') s"
  define u where "u = dropWhile (\<lambda>c. c \<noteq> asc CHR ''/'') s'"
  have "s' \<noteq> []" "r = drop 1 u"
    using assms unfolding strtok_slash_def Let_def s'_def u_def by (auto split: if_splits)
  moreover have "length s' \<le> length s" "length u \<le> length s'"
    by (simp_all add: s'_def u_def length_dropWhile_le)
  ultimately show ?thesis by (cases s') auto
qed

text \<open>The loop over the components, which stops at the first bad one.\<close>

function link_components_ok :: "cstring \<Rightarrow> unit res" where
  "link_components_ok s =
     (case strtok_slash s of None \<Rightarrow> Inr ()
      | Some (component, r) \<Rightarrow>
          if strcmp component (str ''.'') \<noteq> 0 \<and> strcmp component (str ''..'') \<noteq> 0 then
            (case iso_node_is_valid_name (Some component) of Inl e \<Rightarrow> Inl e | Inr _ \<Rightarrow> link_components_ok r)
          else link_components_ok r)"
  by auto

termination by (relation "measure length") (auto simp: strtok_slash_shorter)

declare link_components_ok.simps [simp del]

definition iso_node_is_valid_link_dest :: "bool \<Rightarrow> cstring option \<Rightarrow> unit res" where
  "iso_node_is_valid_link_dest mem dst =
     (case dst of None \<Rightarrow> Inl ISO_NULL_POINTER
      | Some dest \<Rightarrow>
          if dest = [] then Inl ISO_RR_NAME_RESERVED
          else if length dest > LIBISOFS_NODE_PATH_MAX then Inl ISO_RR_PATH_TOO_LONG
          else if strcmp dest (str ''/'') = 0 then Inr ()
          else if \<not> mem then Inl ISO_OUT_OF_MEM
          else link_components_ok dest)"

section \<open>The children of a directory\<close>

fun find_from :: "nat \<Rightarrow> heap \<Rightarrow> cstring \<Rightarrow> link \<Rightarrow> link option" where
  "find_from 0 h name pos = None"
| "find_from (Suc k) h name pos =
     do {
       p \<leftarrow> read_link h pos;
       (case p of None \<Rightarrow> Some pos
        | Some x \<Rightarrow>
            do { n \<leftarrow> h x; (if strcmp (nname n) name < 0 then find_from k h name (Next x) else Some pos) })
     }"

definition iso_dir_find :: "nat \<Rightarrow> heap \<Rightarrow> ptr \<Rightarrow> cstring \<Rightarrow> link option" where
  "iso_dir_find k h dir name = find_from k h name (Children dir)"

definition iso_dir_exists :: "nat \<Rightarrow> heap \<Rightarrow> ptr \<Rightarrow> cstring \<Rightarrow> (bool \<times> link) option" where
  "iso_dir_exists k h dir name =
     do {
       pos \<leftarrow> iso_dir_find k h dir name;
       p \<leftarrow> read_link h pos;
       (case p of None \<Rightarrow> Some (False, pos)
        | Some x \<Rightarrow> do { n \<leftarrow> h x; Some (strcmp (nname n) name = 0, pos) })
     }"

text \<open>\<open>Inr None\<close> is the return value 0, \<open>Inr (Some p)\<close> is 1 with \<open>*node = p\<close>.\<close>

definition iso_dir_get_node :: "nat \<Rightarrow> heap \<Rightarrow> ptr option \<Rightarrow> cstring option \<Rightarrow> (ptr option) res option" where
  "iso_dir_get_node k h dir name =
     (case (dir, name) of
        (Some d, Some s) \<Rightarrow>
          do {
            (found, pos) \<leftarrow> iso_dir_exists k h d s;
            (if \<not> found then Some (Inr None)
             else do { p \<leftarrow> read_link h pos; Some (Inr p) })
          }
      | _ \<Rightarrow> Some (Inl ISO_NULL_POINTER))"

definition iso_dir_get_children_count :: "heap \<Rightarrow> ptr option \<Rightarrow> int res option" where
  "iso_dir_get_children_count h dir =
     (case dir of None \<Rightarrow> Some (Inl ISO_NULL_POINTER)
      | Some d \<Rightarrow> do { n \<leftarrow> h d; Some (Inr (nchildren n)) })"

fun find_node_from :: "nat \<Rightarrow> heap \<Rightarrow> ptr \<Rightarrow> link \<Rightarrow> link option" where
  "find_node_from 0 h node pos = None"
| "find_node_from (Suc k) h node pos =
     do {
       p \<leftarrow> read_link h pos;
       (case p of None \<Rightarrow> Some pos
        | Some x \<Rightarrow> if x \<noteq> node then find_node_from k h node (Next x) else Some pos)
     }"

definition iso_dir_find_node :: "nat \<Rightarrow> heap \<Rightarrow> ptr \<Rightarrow> ptr \<Rightarrow> link option" where
  "iso_dir_find_node k h dir node = find_node_from k h node (Children dir)"

section \<open>The invariant of the tree\<close>

text \<open>\<open>chain h p xs\<close>: following \<open>next\<close> from \<open>p\<close> visits exactly the nodes \<open>xs\<close>.\<close>

fun chain :: "heap \<Rightarrow> ptr option \<Rightarrow> ptr list \<Rightarrow> bool" where
  "chain h p [] \<longleftrightarrow> p = None"
| "chain h p (x # xs) \<longleftrightarrow> p = Some x \<and> (\<exists>n. h x = Some n \<and> chain h (next_node n) xs)"

definition name_at :: "heap \<Rightarrow> ptr \<Rightarrow> cstring" where
  "name_at h p = (case h p of None \<Rightarrow> [] | Some n \<Rightarrow> nname n)"

definition dir_ok :: "heap \<Rightarrow> ptr \<Rightarrow> ptr list \<Rightarrow> bool" where
  "dir_ok h d cs \<longleftrightarrow>
     (\<exists>n. h d = Some n \<and> chain h (children n) cs \<and> nchildren n = int (length cs)) \<and>
     distinct cs \<and> d \<notin> set cs \<and> (\<forall>c\<in>set cs. \<exists>m. h c = Some m \<and> parent m = Some d) \<and>
     sorted_wrt (\<lambda>a b. name_at h a < name_at h b) cs"

text \<open>1 if a parent directory holds a reference of the node, else 0; the root is its own parent.\<close>

definition own :: "heap \<Rightarrow> ptr \<Rightarrow> int" where
  "own h p = (case h p of None \<Rightarrow> 0 | Some n \<Rightarrow>
      (case parent n of None \<Rightarrow> 0 | Some q \<Rightarrow> if q = p then 0 else 1))"

text \<open>
  The invariant: \<open>C d\<close> are the children of directory \<open>d\<close>, \<open>R p\<close> is the number of references
  of node \<open>p\<close> that callers and iterators hold, \<open>dead\<close> are nodes that are just being freed, and
  \<open>B\<close> are directories whose list is just being changed.
\<close>

definition tree_inv :: "heap \<Rightarrow> ptr set \<Rightarrow> (ptr \<Rightarrow> ptr list) \<Rightarrow> (ptr \<Rightarrow> nat) \<Rightarrow> ptr set \<Rightarrow> bool" where
  "tree_inv h B C R dead \<longleftrightarrow>
     finite (dom h) \<and> dead \<subseteq> dom h \<and>
     (\<forall>d n. h d = Some n \<longrightarrow> d \<notin> dead \<longrightarrow> d \<notin> B \<longrightarrow> ntype n = LIBISO_DIR \<longrightarrow> dir_ok h d (C d)) \<and>
     (\<forall>c n q. h c = Some n \<longrightarrow> parent n = Some q \<longrightarrow> q \<noteq> c \<longrightarrow> q \<notin> dead \<longrightarrow>
        (\<exists>m. h q = Some m \<and> ntype m = LIBISO_DIR) \<and> c \<in> set (C q)) \<and>
     (\<forall>x n. x \<in> dead \<longrightarrow> h x = Some n \<longrightarrow> parent n = None \<or> parent n = Some x) \<and>
     (\<forall>p n. h p = Some n \<longrightarrow> p \<notin> dead \<longrightarrow> refcount n = int (R p) + own h p \<and> 0 < refcount n) \<and>
     (\<forall>p. h p = None \<or> p \<in> dead \<longrightarrow> R p = 0)"

lemma tree_invD:
  assumes "tree_inv h B C R dead"
  shows "finite (dom h)" "dead \<subseteq> dom h"
    "\<And>d n. h d = Some n \<Longrightarrow> d \<notin> dead \<Longrightarrow> d \<notin> B \<Longrightarrow> ntype n = LIBISO_DIR \<Longrightarrow> dir_ok h d (C d)"
    "\<And>c n q. h c = Some n \<Longrightarrow> parent n = Some q \<Longrightarrow> q \<noteq> c \<Longrightarrow> q \<notin> dead \<Longrightarrow>
        (\<exists>m. h q = Some m \<and> ntype m = LIBISO_DIR) \<and> c \<in> set (C q)"
    "\<And>x n. x \<in> dead \<Longrightarrow> h x = Some n \<Longrightarrow> parent n = None \<or> parent n = Some x"
    "\<And>p n. h p = Some n \<Longrightarrow> p \<notin> dead \<Longrightarrow> refcount n = int (R p) + own h p"
    "\<And>p n. h p = Some n \<Longrightarrow> p \<notin> dead \<Longrightarrow> 0 < refcount n"
    "\<And>p. h p = None \<Longrightarrow> R p = 0" "\<And>p. p \<in> dead \<Longrightarrow> R p = 0"
  using assms unfolding tree_inv_def by blast+

lemma chain_cong:
  "chain h p xs \<Longrightarrow> (\<And>x. x \<in> set xs \<Longrightarrow> map_option next_node (h' x) = map_option next_node (h x)) \<Longrightarrow>
     chain h' p xs"
proof (induction xs arbitrary: p)
  case (Cons x xs)
  then obtain n where n: "p = Some x" "h x = Some n" "chain h (next_node n) xs" by auto
  then obtain n' where "h' x = Some n'" "next_node n' = next_node n"
    using Cons.prems(2) [of x] by (auto simp: map_option_eq_Some)
  moreover have "chain h' (next_node n) xs" using Cons.IH [OF n(3)] Cons.prems(2) by simp
  ultimately show ?case using n(1) by simp
qed simp

text \<open>Nodes that differ at most in their reference counts and parents; \<open>like\<close> in the counts only.\<close>

definition cut :: "iso_node \<Rightarrow> iso_node \<Rightarrow> bool" where
  "cut n m \<longleftrightarrow> ntype m = ntype n \<and> nname m = nname n \<and> fmt m = fmt n \<and> mtime m = mtime n \<and>
     next_node m = next_node n \<and> children m = children n \<and> nchildren m = nchildren n"

definition like :: "iso_node \<Rightarrow> iso_node \<Rightarrow> bool" where
  "like n m \<longleftrightarrow> cut n m \<and> parent m = parent n"

lemma likeD:
  "like n m \<Longrightarrow> ntype m = ntype n \<and> nname m = nname n \<and> fmt m = fmt n \<and> mtime m = mtime n \<and>
     parent m = parent n \<and> next_node m = next_node n \<and> children m = children n \<and> nchildren m = nchildren n"
  by (simp add: like_def cut_def)

lemma cut_refl [simp]: "cut n n" by (simp add: cut_def)

lemma like_refl [simp]: "like n n" by (simp add: like_def cut_def)

lemma dir_ok_cong:
  assumes ok: "dir_ok h d cs" and d: "\<exists>n n'. h d = Some n \<and> h' d = Some n' \<and> cut n n'"
    and cs: "\<And>x. x \<in> set cs \<Longrightarrow> \<exists>n n'. h x = Some n \<and> h' x = Some n' \<and> like n n'"
  shows "dir_ok h' d cs"
proof -
  obtain n where n: "h d = Some n" "chain h (children n) cs" "nchildren n = int (length cs)"
    using ok by (auto simp: dir_ok_def)
  obtain n' where n': "h' d = Some n'" "children n' = children n" "nchildren n' = nchildren n"
    using d n(1) by (auto simp: cut_def)
  have m: "\<exists>n n'. h x = Some n \<and> h' x = Some n' \<and> next_node n' = next_node n \<and> parent n' = parent n \<and>
      nname n' = nname n" if "x \<in> set cs" for x
    using cs [OF that] likeD by blast
  have "chain h' (children n') cs"
    unfolding n'(2) by (rule chain_cong [OF n(2)]) (use m in fastforce)
  moreover have "name_at h' x = name_at h x" if "x \<in> set cs" for x
    using m [OF that] by (auto simp: name_at_def)
  then have "sorted_wrt (\<lambda>a b. name_at h' a < name_at h' b) cs"
    using ok by (auto simp: dir_ok_def sorted_wrt_iff_nth_less)
  ultimately show ?thesis
    using ok n n' m unfolding dir_ok_def by (metis option.inject)
qed

definition upclosed :: "heap \<Rightarrow> ptr set \<Rightarrow> bool" where
  "upclosed h S \<longleftrightarrow> (\<forall>q\<in>S. \<forall>n r. h q = Some n \<longrightarrow> parent n = Some r \<longrightarrow> r \<in> S)"

text \<open>What releasing references may do to the nodes: free them, or cut them off.\<close>

definition shrinks :: "heap \<Rightarrow> heap \<Rightarrow> bool" where
  "shrinks h h' \<longleftrightarrow> (\<forall>x n'. h' x = Some n' \<longrightarrow>
     (\<exists>n. h x = Some n \<and> cut n n' \<and>
          (parent n' = parent n \<or> parent n' = None)))"

lemma shrinks_refl [simp]: "shrinks h h"
  by (auto simp: shrinks_def cut_def)

lemma shrinks_trans: "shrinks h h1 \<Longrightarrow> shrinks h1 h2 \<Longrightarrow> shrinks h h2"
  by (fastforce simp: shrinks_def cut_def)

lemma shrinks_dom: "shrinks h h' \<Longrightarrow> dom h' \<subseteq> dom h"
  by (auto simp: shrinks_def)

lemma shrinks_parent: "shrinks h h' \<Longrightarrow> h' x = Some n' \<Longrightarrow> parent n' = Some q \<Longrightarrow> \<exists>n. h x = Some n \<and> parent n = Some q"
  unfolding shrinks_def by (metis option.distinct(1))

lemma shrinks_upd:
  "h p = Some n \<Longrightarrow> shrinks h (h(p \<mapsto> n\<lparr>refcount := r\<rparr>))" "h p = Some n \<Longrightarrow> shrinks h (h(p \<mapsto> n\<lparr>parent := None\<rparr>))"
  "shrinks h (h(p := None))"
  by (auto simp: shrinks_def cut_def)

lemma own_simps:
  "h p = Some n \<Longrightarrow> own h p = (case parent n of None \<Rightarrow> 0 | Some q \<Rightarrow> if q = p then 0 else 1)"
  by (simp add: own_def)

lemma own_range: "own h p = 0 \<or> own h p = 1"
  by (simp add: own_def split: option.split)

lemma tree_inv_like:
  assumes inv: "tree_inv h B C R dead" and like: "\<And>x. rel_option like (h x) (h' x)"
    and cnt: "\<And>p n. h' p = Some n \<Longrightarrow> p \<notin> dead \<Longrightarrow> refcount n = int (R' p) + own h p \<and> 0 < refcount n"
    and none: "\<And>p. h p = None \<or> p \<in> dead \<Longrightarrow> R' p = 0"
  shows "tree_inv h' B C R' dead"
proof -
  note D = tree_invD [OF inv]
  have some: "\<exists>n. h x = Some n \<and> like n n'" if "h' x = Some n'" for x n'
    using like [of x] that by (auto simp: option_rel_Some2)
  have some': "\<exists>n'. h' x = Some n' \<and> like n n'" if "h x = Some n" for x n
    using like [of x] that by (auto simp: option_rel_Some1)
  have dom: "dom h' = dom h" using some some' by (auto simp: dom_def) metis+
  have own: "own h' x = own h x" for x
    using some some' likeD by (cases "h x"; cases "h' x") (fastforce simp: own_def)+
  have dir: "dir_ok h' d (C d)" if a: "h' d = Some n'" "d \<notin> dead" "d \<notin> B" "ntype n' = LIBISO_DIR" for d n'
  proof -
    obtain n where n: "h d = Some n" "like n n'" using some [OF a(1)] by blast
    then have ok: "dir_ok h d (C d)" using D(3) [of d n] a likeD by metis
    show ?thesis
    proof (rule dir_ok_cong [OF ok])
      show "\<exists>n n'. h d = Some n \<and> h' d = Some n' \<and> cut n n'" using n a by (auto simp: like_def)
    next
      fix x assume "x \<in> set (C d)"
      then obtain m where "h x = Some m" using ok by (auto simp: dir_ok_def)
      then show "\<exists>n n'. h x = Some n \<and> h' x = Some n' \<and> like n n'" using some' by blast
    qed
  qed
  have par: "(\<exists>m. h' q = Some m \<and> ntype m = LIBISO_DIR) \<and> c \<in> set (C q)"
    if a: "h' c = Some n'" "parent n' = Some q" "q \<noteq> c" "q \<notin> dead" for c n' q
  proof -
    obtain n where n: "h c = Some n" "parent n = Some q" using some [OF a(1)] a(2) likeD by metis
    obtain m where m: "h q = Some m" "ntype m = LIBISO_DIR" "c \<in> set (C q)"
      using D(4) [OF n a(3,4)] by blast
    then show ?thesis using some' [OF m(1)] likeD by metis
  qed
  have dead: "parent n' = None \<or> parent n' = Some x" if "x \<in> dead" "h' x = Some n'" for x n'
    using some [OF that(2)] D(5) [OF that(1)] likeD by metis
  have nn: "R' p = 0" if "h' p = None \<or> p \<in> dead" for p
    using none [of p] that dom by auto
  show ?thesis
    unfolding tree_inv_def dom own
  proof (intro conjI allI impI)
    fix p n assume "h' p = Some n" "p \<notin> dead"
    then show "refcount n = int (R' p) + own h p" "0 < refcount n" using cnt by blast+
  next
    fix c n q assume "h' c = Some n" "parent n = Some q" "q \<noteq> c" "q \<notin> dead"
    then show "\<exists>m. h' q = Some m \<and> ntype m = LIBISO_DIR" "c \<in> set (C q)" using par by blast+
  qed (use D(1,2) dir dead nn in blast)+
qed

lemma like_upd: "h p = Some n \<Longrightarrow> like n m \<Longrightarrow> rel_option like (h x) ((h(p \<mapsto> m)) x)"
  by (cases "h x") auto

lemma like_refcount [simp]: "like n (n\<lparr>refcount := r\<rparr>)"
  by (simp add: like_def cut_def)

lemma tree_inv_refcount:
  assumes inv: "tree_inv h B C (R(p := R p + 1)) dead" and p: "p \<notin> dead" "h p = Some n" "refcount n \<noteq> 1"
  shows "tree_inv (h(p \<mapsto> n\<lparr>refcount := refcount n - 1\<rparr>)) B C R dead"
proof (rule tree_inv_like [OF inv])
  note D = tree_invD [OF inv]
  show "rel_option like (h x) ((h(p \<mapsto> n\<lparr>refcount := refcount n - 1\<rparr>)) x)" for x
    using p(2) by (intro like_upd) (simp_all add: like_def cut_def)
  show "refcount m = int (R q) + own h q \<and> 0 < refcount m"
    if "(h(p \<mapsto> n\<lparr>refcount := refcount n - 1\<rparr>)) q = Some m" "q \<notin> dead" for q m
  proof (cases "q = p")
    case True
    then show ?thesis using that D(6,7) [OF p(2,1)] p(3) by auto
  next
    case False
    then show ?thesis using that D(6,7) [of q m] by auto
  qed
  show "R q = 0" if "h q = None \<or> q \<in> dead" for q
    using that D(8,9) [of q] p by (auto split: if_splits)
qed

lemma tree_inv_incref:
  assumes inv: "tree_inv h B C R dead" and p: "p \<notin> dead" "h p = Some n"
  shows "tree_inv (h(p \<mapsto> n\<lparr>refcount := refcount n + 1\<rparr>)) B C (R(p := R p + 1)) dead"
proof (rule tree_inv_like [OF inv])
  note D = tree_invD [OF inv]
  show "rel_option like (h x) ((h(p \<mapsto> n\<lparr>refcount := refcount n + 1\<rparr>)) x)" for x
    using p(2) by (intro like_upd) (simp_all add: like_def cut_def)
  show "refcount m = int ((R(p := R p + 1)) q) + own h q \<and> 0 < refcount m"
    if "(h(p \<mapsto> n\<lparr>refcount := refcount n + 1\<rparr>)) q = Some m" "q \<notin> dead" for q m
    using that D(6,7) [OF p(2,1)] D(6,7) [of q m] by (cases "q = p") auto
  show "(R(p := R p + 1)) q = 0" if "h q = None \<or> q \<in> dead" for q
    using that D(8,9) [of q] p by auto
qed

lemma tree_inv_dying:
  assumes inv: "tree_inv h B C (R(p := R p + 1)) dead" and p: "p \<notin> dead" "h p = Some n" "refcount n = 1"
  shows "tree_inv (h(p \<mapsto> n\<lparr>refcount := 0\<rparr>)) B C R (insert p dead)" "R p = 0" "own h p = 0"
proof -
  note D = tree_invD [OF inv]
  show R: "R p = 0" and o: "own h p = 0"
    using D(6) [OF p(2,1)] p(3) own_range [of h p] by auto
  then have par: "parent n = None \<or> parent n = Some p"
    by (auto simp: own_simps [of h p n] p(2) split: option.splits if_splits)
  let ?h = "h(p \<mapsto> n\<lparr>refcount := 0\<rparr>)"
  have like: "rel_option like (h x) (?h x)" for x
    using p(2) by (intro like_upd) (simp_all add: like_def cut_def)
  have own: "own ?h x = own h x" for x
    by (auto simp: own_def p(2))
  have dir: "dir_ok ?h d (C d)" if "?h d = Some m" "d \<notin> insert p dead" "d \<notin> B" "ntype m = LIBISO_DIR" for d m
  proof -
    have ok: "dir_ok h d (C d)" using D(3) that by simp
    show ?thesis
      by (rule dir_ok_cong [OF ok]) (use ok that p(2) in \<open>auto simp: dir_ok_def\<close>)
  qed
  show "tree_inv ?h B C R (insert p dead)"
    unfolding tree_inv_def
  proof (intro conjI allI impI)
    show "finite (dom ?h)" "insert p dead \<subseteq> dom ?h" using D(1,2) by auto
  next
    fix c m q assume "?h c = Some m" "parent m = Some q" "q \<noteq> c" "q \<notin> insert p dead"
    then show "\<exists>m. ?h q = Some m \<and> ntype m = LIBISO_DIR" "c \<in> set (C q)"
      using D(4) [of c _ q] p(2) by (auto split: if_splits)
  next
    fix q m assume "?h q = Some m" "q \<notin> insert p dead"
    then show "refcount m = int (R q) + own ?h q" "0 < refcount m"
      using D(6,7) [of q m] unfolding own by auto
  next
    fix q assume "?h q = None \<or> q \<in> insert p dead"
    then show "R q = 0" using D(8,9) [of q] R by (auto split: if_splits)
  qed (use par dir D(5) in \<open>auto split: if_splits\<close>)
qed

lemma tree_inv_freed:
  assumes inv: "tree_inv h B C R (insert p dead)" and p: "p \<notin> dead"
    and nopar: "\<And>x n. h x = Some n \<Longrightarrow> parent n = Some p \<Longrightarrow> x = p"
  shows "tree_inv (h(p := None)) B C R dead"
proof -
  note D = tree_invD [OF inv]
  have own: "own (h(p := None)) x = own h x" if "x \<noteq> p" for x
    using that by (simp add: own_def)
  have dir: "dir_ok (h(p := None)) d (C d)" if "(h(p := None)) d = Some n" "d \<notin> dead" "d \<notin> B" "ntype n = LIBISO_DIR" for d n
  proof -
    have d: "d \<noteq> p" "h d = Some n" using that by (auto split: if_splits)
    then have ok: "dir_ok h d (C d)" using D(3) that by simp
    have "p \<notin> set (C d)"
      using ok D(5) [of p] d by (fastforce simp: dir_ok_def)
    then show ?thesis
      by (intro dir_ok_cong [OF ok]) (use ok d in \<open>auto simp: dir_ok_def\<close>)
  qed
  show ?thesis
    unfolding tree_inv_def
  proof (intro conjI allI impI)
    fix c m q assume "(h(p := None)) c = Some m" "parent m = Some q" "q \<noteq> c" "q \<notin> dead"
    then show "\<exists>m. (h(p := None)) q = Some m \<and> ntype m = LIBISO_DIR" "c \<in> set (C q)"
      using D(4) [of c m q] nopar [of c m] by (auto split: if_splits)
  next
    fix q m assume "(h(p := None)) q = Some m" "q \<notin> dead"
    then show "refcount m = int (R q) + own (h(p := None)) q" "0 < refcount m"
      using D(6,7) [of q m] own [of q] by (auto split: if_splits)
  next
    fix q assume "(h(p := None)) q = None \<or> q \<in> dead"
    then show "R q = 0" using D(8,9) [of q] by (auto split: if_splits)
  qed (use p dir D(1,2,5) in \<open>auto split: if_splits\<close>)
qed

lemma tree_inv_detach:
  assumes inv: "tree_inv h B C R dead" and d: "d \<in> dead" and c: "h c = Some n" "parent n = Some d" "c \<noteq> d"
  shows "tree_inv (h(c \<mapsto> n\<lparr>parent := None\<rparr>)) B C (R(c := R c + 1)) dead" "c \<notin> dead"
proof -
  note D = tree_invD [OF inv]
  let ?h = "h(c \<mapsto> n\<lparr>parent := None\<rparr>)"
  show cd: "c \<notin> dead" using D(5) [of c n] c by auto
  have own: "own ?h x = (if x = c then 0 else own h x)" for x by (simp add: own_def)
  have oc: "own h c = 1" using c by (simp add: own_def)
  have dir: "dir_ok ?h e (C e)" if "?h e = Some m" "e \<notin> dead" "e \<notin> B" "ntype m = LIBISO_DIR" for e m
  proof -
    have ok: "dir_ok h e (C e)" using D(3) [of e] that c by (auto split: if_splits)
    have "c \<notin> set (C e)" using ok c that(2) d by (auto simp: dir_ok_def)
    then show ?thesis
      using ok that(1) c by (intro dir_ok_cong [OF ok]; cases "e = c") (auto simp: dir_ok_def cut_def)
  qed
  show "tree_inv ?h B C (R(c := R c + 1)) dead"
    unfolding tree_inv_def
  proof (intro conjI allI impI)
    fix x m q assume "?h x = Some m" "parent m = Some q" "q \<noteq> x" "q \<notin> dead"
    then show "\<exists>m. ?h q = Some m \<and> ntype m = LIBISO_DIR" "x \<in> set (C q)"
      using D(4) [of x m q] c by (auto split: if_splits)
  next
    fix q m assume "?h q = Some m" "q \<notin> dead"
    then show "refcount m = int ((R(c := R c + 1)) q) + own ?h q" "0 < refcount m"
      using D(6,7) [of q m] D(6,7) [OF c(1) cd] oc unfolding own by (auto split: if_splits)
  next
    fix q assume "?h q = None \<or> q \<in> dead"
    then show "(R(c := R c + 1)) q = 0" using D(8,9) [of q] cd by (auto split: if_splits)
  qed (use c dir D(1,2,5) in \<open>auto split: if_splits\<close>)
qed

section \<open>Releasing a reference\<close>

text \<open>
  What \<open>iso_node_unref\<close> achieves: the invariant without the released reference, and nodes
  that are not the released one and are not below it stay as they are.
\<close>

definition keeps_above :: "ptr set \<Rightarrow> heap \<Rightarrow> heap \<Rightarrow> bool" where
  "keeps_above P h h' \<longleftrightarrow> (\<forall>S. P \<inter> S = {} \<longrightarrow> upclosed h S \<longrightarrow> (\<forall>q\<in>S. h' q = h q))"

lemma keeps_aboveD: "keeps_above P h h' \<Longrightarrow> P \<inter> S = {} \<Longrightarrow> upclosed h S \<Longrightarrow> q \<in> S \<Longrightarrow> h' q = h q"
  by (auto simp: keeps_above_def)

lemma upclosed_cong: "(\<And>q. q \<in> S \<Longrightarrow> h' q = h q) \<Longrightarrow> upclosed h' S \<longleftrightarrow> upclosed h S"
  by (auto simp: upclosed_def)

lemma keeps_above_trans:
  "keeps_above P h h1 \<Longrightarrow> keeps_above P h1 h2 \<Longrightarrow> keeps_above P h h2"
  unfolding keeps_above_def by (metis upclosed_cong)

lemma keeps_above_mono: "keeps_above P h h' \<Longrightarrow> P \<subseteq> Q \<Longrightarrow> keeps_above Q h h'"
  unfolding keeps_above_def by (metis inf.absorb_iff2 inf_assoc inf_bot_right inf_commute)

lemma keeps_above_upd: "keeps_above {p} h (h(p := n))"
  by (auto simp: keeps_above_def)

lemma upclosed_dead:
  assumes "tree_inv h B C R dead" "d \<in> dead" "\<And>c. c \<in> X \<Longrightarrow> \<exists>n. h c = Some n \<and> parent n = Some d"
  shows "upclosed h (X \<union> dead)"
  unfolding upclosed_def
proof (intro ballI allI impI)
  fix q n r assume q: "q \<in> X \<union> dead" "h q = Some n" "parent n = Some r"
  then show "r \<in> X \<union> dead"
    using assms(2) assms(3) [of q] tree_invD(5) [OF assms(1), of q n] by auto
qed

lemma card_alive_mono:
  "tree_inv h B C R dead \<Longrightarrow> dom h' \<subseteq> dom h \<Longrightarrow> card (dom h' - dead) \<le> card (dom h - dead)"
  by (rule card_mono) (auto dest: tree_invD(1))

lemma unref_children_ok:
  assumes IH: "\<And>h R p. tree_inv h B C (R(p := R p + 1)) dead \<Longrightarrow> p \<notin> dead \<Longrightarrow> p \<in> dom h \<Longrightarrow>
      (\<exists>S. upclosed h S \<and> B \<subseteq> S \<and> p \<notin> S) \<Longrightarrow> card (dom h - dead) \<le> M \<Longrightarrow>
      \<exists>K h'. (\<forall>k\<ge>K. iso_node_unref k h p = Some h') \<and> tree_inv h' B C R dead \<and> shrinks h h' \<and> keeps_above {p} h h'"
    and d: "d \<in> dead"
  shows "tree_inv h B C R dead \<Longrightarrow> chain h q cs \<Longrightarrow> distinct cs \<Longrightarrow> d \<notin> set cs \<Longrightarrow>
      (\<forall>c\<in>set cs. \<exists>n. h c = Some n \<and> parent n = Some d) \<Longrightarrow> card (dom h - dead) \<le> M \<Longrightarrow>
      (\<exists>S. upclosed h S \<and> B \<subseteq> S \<and> d \<notin> S) \<Longrightarrow>
      \<exists>K h'. (\<forall>k\<ge>K. unref_children k h q = Some h') \<and> tree_inv h' B C R dead \<and> shrinks h h' \<and>
        keeps_above (set cs) h h' \<and> (\<forall>c\<in>set cs. \<forall>n. h' c = Some n \<longrightarrow> parent n \<noteq> Some d)"
proof (induction cs arbitrary: h q)
  case Nil
  have "unref_children k h q = Some h" if "1 \<le> k" for k
    using that Nil.prems(2) by (cases k) auto
  then show ?case using Nil.prems(1) by (intro exI [of _ 1] exI [of _ h]) (auto simp: keeps_above_def)
next
  case (Cons c cs)
  obtain n where n: "q = Some c" "h c = Some n" "parent n = Some d" "chain h (next_node n) cs"
    using Cons.prems(2,5) by auto
  define h1 where "h1 = h(c \<mapsto> n\<lparr>parent := None\<rparr>)"
  have cd: "c \<noteq> d" "c \<notin> set cs" using Cons.prems(3,4) by auto
  have inv1: "tree_inv h1 B C (R(c := R c + 1)) dead" and c: "c \<notin> dead"
    unfolding h1_def by (rule tree_inv_detach [OF Cons.prems(1) d n(2,3) cd(1)])+
  obtain S where S: "upclosed h S" "B \<subseteq> S" "d \<notin> S" using Cons.prems(7) by blast
  have cS: "c \<notin> S" using S n by (auto simp: upclosed_def)
  have S1: "upclosed h1 S" unfolding h1_def using S(1) cS by (subst upclosed_cong [of S _ h]) auto
  have "dom h1 = dom h" using n(2) by (auto simp: h1_def)
  then obtain K1 h2 where K1: "\<And>k. K1 \<le> k \<Longrightarrow> iso_node_unref k h1 c = Some h2"
    and h2: "tree_inv h2 B C R dead" "shrinks h1 h2" "keeps_above {c} h1 h2"
    using IH [OF inv1 c] n(2) Cons.prems(6) S1 S(2) cS by fastforce
  have S2: "upclosed h2 S"
    using S1 keeps_aboveD [OF h2(3) _ S1] cS by (subst upclosed_cong [of S _ h1]) auto
  have same: "h2 x = h x" if "x \<in> set cs \<union> dead" for x
  proof -
    have x: "x \<noteq> c" using that cd c by auto
    have "upclosed h1 (set cs \<union> dead)"
      by (rule upclosed_dead [OF inv1 d]) (use Cons.prems(5) cd in \<open>auto simp: h1_def\<close>)
    then have "h2 x = h1 x" using keeps_aboveD [OF h2(3)] that c cd by blast
    then show ?thesis using x by (simp add: h1_def)
  qed
  have ch: "chain h2 (next_node n) cs" by (rule chain_cong [OF n(4)]) (simp add: same)
  have sh: "shrinks h h2" using shrinks_trans [OF shrinks_upd(2) [of h c n] h2(2) [unfolded h1_def]] n(2) by simp
  have crd: "card (dom h2 - dead) \<le> M"
    using card_alive_mono [OF Cons.prems(1) shrinks_dom [OF sh]] Cons.prems(6) by simp
  have par: "\<forall>x\<in>set cs. \<exists>n. h2 x = Some n \<and> parent n = Some d"
    using Cons.prems(5) same by auto
  have dist: "distinct cs" "d \<notin> set cs" using Cons.prems(3,4) by auto
  obtain K2 h3 where K2: "\<And>k. K2 \<le> k \<Longrightarrow> unref_children k h2 (next_node n) = Some h3"
    and h3: "tree_inv h3 B C R dead" "shrinks h2 h3" "keeps_above (set cs) h2 h3"
      "\<forall>c\<in>set cs. \<forall>n. h3 c = Some n \<longrightarrow> parent n \<noteq> Some d"
    using Cons.IH [OF h2(1) ch dist par crd] S2 S(2,3) by blast
  have "unref_children k h q = Some h3" if "Suc (max K1 K2) \<le> k" for k
    using that K1 [of "k - 1"] K2 [of "k - 1"] n by (cases k) (auto simp: upd_def h1_def)
  moreover have "keeps_above (set (c # cs)) h h3"
  proof (rule keeps_above_trans)
    show "keeps_above (set (c # cs)) h h2"
      using keeps_above_trans [OF keeps_above_upd h2(3) [unfolded h1_def]] by (rule keeps_above_mono) simp
    show "keeps_above (set (c # cs)) h2 h3" using h3(3) by (rule keeps_above_mono) auto
  qed
  moreover have "parent m \<noteq> Some d" if m: "h3 c = Some m" for m
  proof
    assume "parent m = Some d"
    then obtain m2 where "h2 c = Some m2" "parent m2 = Some d"
      using shrinks_parent [OF h3(2) m] by blast
    then show False using shrinks_parent [OF h2(2), of c m2 d] by (auto simp: h1_def)
  qed
  ultimately show ?case
    using h3 shrinks_trans [OF sh h3(2)] by (intro exI [of _ "Suc (max K1 K2)"] exI [of _ h3]) auto
qed

lemma unref_ok:
  assumes "tree_inv h B C (R(p := R p + 1)) dead" "p \<notin> dead" "p \<in> dom h"
    and "\<exists>S. upclosed h S \<and> B \<subseteq> S \<and> p \<notin> S"
  shows "\<exists>K h'. (\<forall>k\<ge>K. iso_node_unref k h p = Some h') \<and> tree_inv h' B C R dead \<and> shrinks h h' \<and> keeps_above {p} h h'"
  using assms
proof (induction "card (dom h - dead)" arbitrary: h R p dead rule: less_induct)
  case less
  obtain n where n: "h p = Some n" using less.prems(3) by blast
  define h1 where "h1 = h(p \<mapsto> n\<lparr>refcount := refcount n - 1\<rparr>)"
  have sh1: "shrinks h h1" unfolding h1_def by (rule shrinks_upd(1)) (rule n)
  have ka1: "keeps_above {p} h h1" unfolding h1_def by (rule keeps_above_upd)
  have up: "upd h p (\<lambda>n. n\<lparr>refcount := refcount n - 1\<rparr>) = Some h1" "h1 p = Some (n\<lparr>refcount := refcount n - 1\<rparr>)"
    by (simp_all add: upd_def n h1_def)
  show ?case
  proof (cases "refcount n = 1")
    case False
    then have "tree_inv h1 B C R dead"
      unfolding h1_def using less.prems n by (intro tree_inv_refcount)
    moreover have "iso_node_unref k h p = Some h1" if "1 \<le> k" for k
      using that up False by (cases k) auto
    ultimately show ?thesis using sh1 ka1 by blast
  next
    case True
    have h1: "h1 = h(p \<mapsto> n\<lparr>refcount := 0\<rparr>)" using True by (simp add: h1_def)
    have inv1: "tree_inv h1 B C R (insert p dead)" and Rp: "R p = 0" "own h p = 0"
      unfolding h1 by (rule tree_inv_dying [OF less.prems(1,2) n True])+
    have dom1: "dom h1 = dom h" using n by (auto simp: h1_def)
    have card: "card (dom h1 - insert p dead) < card (dom h - dead)"
      unfolding dom1 using less.prems tree_invD(1) [OF less.prems(1)] by (intro psubset_card_mono) auto
    have "\<exists>K h2. (\<forall>k\<ge>K. (if ntype n = LIBISO_DIR then unref_children k h1 (children n) else Some h1) = Some h2) \<and>
        tree_inv h2 B C R (insert p dead) \<and> shrinks h1 h2 \<and> keeps_above {p} h h2 \<and>
        (\<forall>x m. h2 x = Some m \<longrightarrow> parent m = Some p \<longrightarrow> x = p)"
    proof (cases "ntype n = LIBISO_DIR")
      case True
      obtain S where S: "upclosed h S" "B \<subseteq> S" "p \<notin> S" using less.prems(4) by blast
      have S1: "upclosed h1 S" using S by (auto simp: upclosed_def h1_def)
      have ok: "dir_ok h p (C p)" using tree_invD(3) [OF less.prems(1) n less.prems(2) _ True] S by blast
      have ok1: "chain h1 (children n) (C p)" "distinct (C p)" "p \<notin> set (C p)"
          "\<forall>c\<in>set (C p). \<exists>m. h1 c = Some m \<and> parent m = Some p"
        using ok n by (auto simp: dir_ok_def h1_def elim!: chain_cong)
      obtain K h2 where h2: "\<forall>k\<ge>K. unref_children k h1 (children n) = Some h2" "tree_inv h2 B C R (insert p dead)"
          "shrinks h1 h2" "keeps_above (set (C p)) h1 h2"
          "\<forall>c\<in>set (C p). \<forall>n. h2 c = Some n \<longrightarrow> parent n \<noteq> Some p"
        using unref_children_ok [of B C "insert p dead" "card (dom h1 - insert p dead)" p h1 R "children n" "C p"]
          less.hyps [OF order.strict_trans1 [OF _ card]] inv1 ok1 S1 S(2,3) by blast
      have "x = p" if m: "h2 x = Some m" "parent m = Some p" for x m
      proof (rule ccontr)
        assume x: "x \<noteq> p"
        obtain m1 where "h1 x = Some m1" "parent m1 = Some p" using shrinks_parent [OF h2(3) m] by blast
        then have "x \<in> set (C p)"
          using tree_invD(4) [OF less.prems(1), of x m1 p] x less.prems(2) by (auto simp: h1_def)
        then show False using h2(5) m by blast
      qed
      moreover have "keeps_above {p} h h2"
        unfolding keeps_above_def
      proof (intro allI impI ballI)
        fix S q assume S: "{p} \<inter> S = {}" "upclosed h S" "q \<in> S"
        have "upclosed h1 S" using S by (auto simp: upclosed_def h1_def)
        moreover have "set (C p) \<inter> S = {}"
          using S ok by (fastforce simp: upclosed_def dir_ok_def)
        ultimately have "h2 q = h1 q" using keeps_aboveD [OF h2(4)] S(3) by blast
        then show "h2 q = h q" using S by (auto simp: h1_def)
      qed
      ultimately show ?thesis using h2 True by auto
    next
      case False
      have "x = p" if "h1 x = Some m" "parent m = Some p" for x m
        using tree_invD(4) [OF less.prems(1), of x m p] that less.prems(2) False n by (auto simp: h1_def split: if_splits)
      then show ?thesis using False inv1 ka1 by (intro exI [of _ 0] exI [of _ h1]) auto
    qed
    then obtain K h2 where K: "\<And>k. K \<le> k \<Longrightarrow> (if ntype n = LIBISO_DIR then unref_children k h1 (children n) else Some h1) = Some h2"
      and h2: "tree_inv h2 B C R (insert p dead)" "shrinks h1 h2" "keeps_above {p} h h2"
        "\<And>x m. h2 x = Some m \<Longrightarrow> parent m = Some p \<Longrightarrow> x = p"
      by blast
    have "tree_inv (h2(p := None)) B C R dead" by (rule tree_inv_freed [OF h2(1) less.prems(2) h2(4)])
    moreover have "iso_node_unref k h p = Some (h2(p := None))" if "Suc K \<le> k" for k
      using that K [of "k - 1"] up True by (cases k) (auto split: if_splits)
    moreover have "shrinks h (h2(p := None))"
      by (rule shrinks_trans [OF shrinks_trans [OF sh1 h2(2)] shrinks_upd(3)])
    moreover have "keeps_above {p} h (h2(p := None))"
      by (rule keeps_above_trans [OF h2(3) keeps_above_upd])
    ultimately show ?thesis by blast
  qed
qed

section \<open>Positions in a list of children\<close>

text \<open>The link that leads to element \<open>i\<close> of the list \<open>xs\<close> that starts at link \<open>l\<close>.\<close>

definition link_at :: "link \<Rightarrow> ptr list \<Rightarrow> nat \<Rightarrow> link" where
  "link_at l xs i = (if i = 0 then l else Next (xs ! (i - 1)))"

lemma link_at_Cons [simp]: "link_at l (x # xs) (Suc i) = link_at (Next x) xs i"
  by (cases i) (simp_all add: link_at_def)

lemma link_at_0 [simp]: "link_at l xs 0 = l"
  by (simp add: link_at_def)

lemma read_link_at:
  "chain h p xs \<Longrightarrow> read_link h l = Some p \<Longrightarrow> i \<le> length xs \<Longrightarrow>
     \<exists>q. read_link h (link_at l xs i) = Some q \<and> chain h q (drop i xs)"
proof (induction xs arbitrary: p l i)
  case (Cons x xs)
  then obtain n where n: "p = Some x" "h x = Some n" "chain h (next_node n) xs" by auto
  show ?case
  proof (cases i)
    case 0
    then show ?thesis using Cons.prems by auto
  next
    case (Suc j)
    have "read_link h (Next x) = Some (next_node n)" using n by (simp add: read_link_def)
    then show ?thesis using Cons.IH [OF n(3), of "Next x" j] Cons.prems(3) Suc by auto
  qed
qed simp

lemma read_link_nth:
  "chain h p xs \<Longrightarrow> read_link h l = Some p \<Longrightarrow> i < length xs \<Longrightarrow> read_link h (link_at l xs i) = Some (Some (xs ! i))"
  using read_link_at [of h p xs l i] by (auto simp: Cons_nth_drop_Suc [symmetric])

lemma find_from_chain:
  "chain h p xs \<Longrightarrow> read_link h l = Some p \<Longrightarrow> length xs < k \<Longrightarrow>
     find_from k h name l = Some (link_at l xs (length (takeWhile (\<lambda>x. name_at h x < name) xs)))"
proof (induction xs arbitrary: p l k)
  case Nil
  then show ?case by (cases k) auto
next
  case (Cons x xs)
  then obtain n where n: "p = Some x" "h x = Some n" "chain h (next_node n) xs" by auto
  then have "read_link h (Next x) = Some (next_node n)" by (simp add: read_link_def)
  moreover obtain k' where "k = Suc k'" "length xs < k'" using Cons.prems(3) by (cases k) auto
  ultimately show ?case using Cons.IH [OF n(3), of "Next x" k'] Cons.prems(2) n
    by (simp add: strcmp_neg name_at_def)
qed

lemma find_node_from_chain:
  "chain h p xs \<Longrightarrow> read_link h l = Some p \<Longrightarrow> length xs < k \<Longrightarrow>
     find_node_from k h c l = Some (link_at l xs (length (takeWhile (\<lambda>x. x \<noteq> c) xs)))"
proof (induction xs arbitrary: p l k)
  case Nil
  then show ?case by (cases k) auto
next
  case (Cons x xs)
  then obtain n where n: "p = Some x" "h x = Some n" "chain h (next_node n) xs" by auto
  then have "read_link h (Next x) = Some (next_node n)" by (simp add: read_link_def)
  moreover obtain k' where "k = Suc k'" "length xs < k'" using Cons.prems(3) by (cases k) auto
  ultimately show ?case using Cons.IH [OF n(3), of "Next x" k'] Cons.prems(2) n by simp
qed

text \<open>Writing to the link of element \<open>i\<close> replaces the rest of the list.\<close>

definition place :: "link \<Rightarrow> ptr" where
  "place l = (case l of Children d \<Rightarrow> d | Next p \<Rightarrow> p)"

lemma write_link_Some:
  "place l \<in> dom h \<Longrightarrow> \<exists>n n'. h (place l) = Some n \<and> write_link h l v = Some (h(place l \<mapsto> n')) \<and>
     n' = (case l of Children _ \<Rightarrow> n\<lparr>children := v\<rparr> | Next _ \<Rightarrow> n\<lparr>next_node := v\<rparr>)"
  by (auto simp: write_link_def place_def split: link.split)

lemma place_link_at: "i \<le> length xs \<Longrightarrow> place (link_at l xs i) \<in> insert (place l) (set xs)"
  by (cases i) (auto simp: link_at_def place_def intro!: nth_mem)

lemma write_read_link: "write_link h l v = Some h' \<Longrightarrow> read_link h' l = Some v"
  by (auto simp: write_link_def read_link_def split: link.splits option.splits)

lemma write_read_other: "write_link h l v = Some h' \<Longrightarrow> l' \<noteq> l \<Longrightarrow> read_link h' l' = read_link h l'"
  by (auto simp: write_link_def read_link_def split: link.splits option.splits if_splits)

lemma splice:
  assumes "write_link h (link_at l xs i) v = Some h'" "chain h' v ys"
  shows "chain h p xs \<Longrightarrow> read_link h l = Some p \<Longrightarrow> distinct xs \<Longrightarrow> (\<And>x. x \<in> set xs \<Longrightarrow> l \<noteq> Next x) \<Longrightarrow>
     i \<le> length xs \<Longrightarrow> \<exists>p'. read_link h' l = Some p' \<and> chain h' p' (take i xs @ ys)"
  using assms
proof (induction xs arbitrary: p l i)
  case Nil
  then show ?case using write_read_link by fastforce
next
  case (Cons x xs)
  show ?case
  proof (cases i)
    case 0
    then show ?thesis using Cons.prems write_read_link by fastforce
  next
    case (Suc j)
    obtain n where n: "p = Some x" "h x = Some n" "chain h (next_node n) xs" using Cons.prems(1) by auto
    then have rx: "read_link h (Next x) = Some (next_node n)" by (simp add: read_link_def)
    have w: "write_link h (link_at (Next x) xs j) v = Some h'" using Cons.prems(6) Suc by simp
    obtain p' where p': "read_link h' (Next x) = Some p'" "chain h' p' (take j xs @ ys)"
      using Cons.IH [OF n(3) rx _ _ _ w Cons.prems(7)] Cons.prems(3,5) Suc by auto
    have "l \<noteq> link_at (Next x) xs j"
      using Cons.prems(4,5) Suc by (cases j) (auto simp: link_at_def)
    then have "read_link h' l = Some (Some x)"
      using write_read_other [OF w] Cons.prems(2) n(1) by simp
    moreover obtain n' where "h' x = Some n'" "next_node n' = p'"
      using p'(1) by (auto simp: read_link_def)
    ultimately show ?thesis using p'(2) Suc by auto
  qed
qed

lemma takeWhile_sorted:
  assumes "sorted_wrt (\<lambda>a b. f a < f b) xs" "i = length (takeWhile (\<lambda>x. f x < (v :: 'b :: linorder)) xs)"
  shows "\<forall>x\<in>set (take i xs). f x < v" "\<forall>x\<in>set (drop i xs). v \<le> f x"
    "i < length xs \<Longrightarrow> f (xs ! i) \<noteq> v \<Longrightarrow> \<forall>x\<in>set (drop i xs). v < f x"
proof -
  have t: "take i xs = takeWhile (\<lambda>x. f x < v) xs" "drop i xs = dropWhile (\<lambda>x. f x < v) xs"
    unfolding assms(2) by (rule takeWhile_eq_take [symmetric], rule dropWhile_eq_drop [symmetric])
  show "\<forall>x\<in>set (take i xs). f x < v" unfolding t by (auto dest: set_takeWhileD)
  have "v \<le> f (hd (drop i xs)) \<and> (\<forall>x\<in>set (tl (drop i xs)). f (hd (drop i xs)) < f x)" if "drop i xs \<noteq> []"
  proof -
    have "sorted_wrt (\<lambda>a b. f a < f b) (drop i xs)" by (rule sorted_wrt_drop) (rule assms(1))
    then have "\<forall>x\<in>set (tl (drop i xs)). f (hd (drop i xs)) < f x" using that by (cases "drop i xs") auto
    moreover have "\<not> f (hd (drop i xs)) < v" using that hd_dropWhile [of "\<lambda>x. f x < v" xs] unfolding t by simp
    ultimately show ?thesis by simp
  qed
  note s = this
  show "\<forall>x\<in>set (drop i xs). v \<le> f x"
    using s by (cases "drop i xs") (auto intro: less_imp_le order.strict_trans1)
  show "\<forall>x\<in>set (drop i xs). v < f x" if "i < length xs" "f (xs ! i) \<noteq> v"
  proof -
    have "drop i xs = xs ! i # drop (Suc i) xs" using that(1) by (simp add: Cons_nth_drop_Suc)
    then show ?thesis using s that(2) by (auto intro: order.strict_trans)
  qed
qed

end
