(* ===== verification/Node_Add.thy ===== *)
theory Node_Add
  imports Node_Tree
begin

text \<open>
  Adding nodes to directories: \<open>iso_dir_insert\<close> and \<open>iso_dir_add_node\<close> of \<open>libisofs/node.c\<close>
  with the replace modes.  The result is that a well-formed tree stays one, and that a
  directory is a map from names to nodes.
\<close>

section \<open>The operations\<close>

text \<open>Whether \<open>iso_dir_insert\<close> refuses to replace \<open>old\<close> by \<open>node\<close>.\<close>

definition keeps_old :: "iso_replace_mode \<Rightarrow> iso_node \<Rightarrow> iso_node \<Rightarrow> bool" where
  "keeps_old mode old node =
     (case mode of
        ISO_REPLACE_NEVER \<Rightarrow> True
      | ISO_REPLACE_IF_NEWER \<Rightarrow> mtime old \<ge> mtime node
      | ISO_REPLACE_IF_SAME_TYPE_AND_NEWER \<Rightarrow> mtime old \<ge> mtime node \<or> fmt node \<noteq> fmt old
      | ISO_REPLACE_IF_SAME_TYPE \<Rightarrow> fmt node \<noteq> fmt old
      | ISO_REPLACE_ALWAYS \<Rightarrow> False)"

definition iso_dir_insert ::
  "nat \<Rightarrow> heap \<Rightarrow> ptr \<Rightarrow> ptr \<Rightarrow> link \<Rightarrow> iso_replace_mode \<Rightarrow> (int res \<times> heap) option" where
  "iso_dir_insert k h dir node pos mode =
     do {
       p \<leftarrow> read_link h pos;
       new \<leftarrow> h node;
       same \<leftarrow> (case p of None \<Rightarrow> Some None
                | Some x \<Rightarrow> do { old \<leftarrow> h x; Some (if strcmp (nname old) (nname new) = 0 then Some (x, old) else None) });
       (case same of
          Some (x, old) \<Rightarrow>
            if keeps_old mode old new then Some (Inl ISO_NODE_NAME_NOT_UNIQUE, h)
            else
              do {
                h \<leftarrow> upd h node (\<lambda>n. n\<lparr>next_node := next_node old\<rparr>);
                h \<leftarrow> upd h x (\<lambda>n. n\<lparr>parent := None, next_node := None\<rparr>);
                h \<leftarrow> iso_node_unref k h x;
                h \<leftarrow> write_link h pos (Some node);
                h \<leftarrow> upd h node (\<lambda>n. n\<lparr>parent := Some dir\<rparr>);
                d \<leftarrow> h dir;
                Some (Inr (nchildren d), h)
              }
        | None \<Rightarrow>
            do {
              h \<leftarrow> upd h node (\<lambda>n. n\<lparr>next_node := p\<rparr>);
              h \<leftarrow> write_link h pos (Some node);
              h \<leftarrow> upd h node (\<lambda>n. n\<lparr>parent := Some dir\<rparr>);
              h \<leftarrow> upd h dir (\<lambda>n. n\<lparr>nchildren := nchildren n + 1\<rparr>);
              d \<leftarrow> h dir;
              Some (Inr (nchildren d), h)
            })
     }"

definition iso_dir_add_node ::
  "nat \<Rightarrow> heap \<Rightarrow> ptr option \<Rightarrow> ptr option \<Rightarrow> iso_replace_mode \<Rightarrow> (int res \<times> heap) option" where
  "iso_dir_add_node k h dir child replace =
     (case (dir, child) of
        (Some d, Some c) \<Rightarrow>
          if d = c then Some (Inl ISO_WRONG_ARG_VALUE, h)
          else
            do {
              n \<leftarrow> h c;
              (if parent n \<noteq> None then Some (Inl ISO_NODE_ALREADY_ADDED, h)
               else do { pos \<leftarrow> iso_dir_find k h d (nname n); iso_dir_insert k h d c pos replace })
            }
      | _ \<Rightarrow> Some (Inl ISO_NULL_POINTER, h))"

section \<open>Changing a list of children\<close>

text \<open>What the list of the parent directory and the own list of a directory depend on.\<close>

definition as_child :: "iso_node \<Rightarrow> cstring \<times> ptr option \<times> ptr option" where
  "as_child n = (nname n, parent n, next_node n)"

definition as_dir :: "iso_node \<Rightarrow> ptr option \<times> int" where
  "as_dir n = (children n, nchildren n)"

lemma dir_ok_views:
  assumes ok: "dir_ok h d cs" and d: "map_option as_dir (h' d) = map_option as_dir (h d)"
    and cs: "\<And>x. x \<in> set cs \<Longrightarrow> map_option as_child (h' x) = map_option as_child (h x)"
  shows "dir_ok h' d cs"
proof -
  obtain n where n: "h d = Some n" "chain h (children n) cs" "nchildren n = int (length cs)"
    using ok by (auto simp: dir_ok_def)
  obtain n' where n': "h' d = Some n'" "children n' = children n" "nchildren n' = nchildren n"
    using d n(1) by (auto simp: as_dir_def map_option_eq_Some)
  have m: "\<exists>n n'. h x = Some n \<and> h' x = Some n' \<and> next_node n' = next_node n \<and> parent n' = parent n \<and>
      nname n' = nname n" if x: "x \<in> set cs" for x
  proof -
    obtain k where "h x = Some k" using ok x by (auto simp: dir_ok_def)
    then show ?thesis using cs [OF x] by (auto simp: as_child_def map_option_eq_Some)
  qed
  have "chain h' (children n') cs"
    unfolding n'(2) by (rule chain_cong [OF n(2)]) (use m in fastforce)
  moreover have "name_at h' x = name_at h x" if "x \<in> set cs" for x
    using m [OF that] by (auto simp: name_at_def)
  then have "sorted_wrt (\<lambda>a b. name_at h' a < name_at h' b) cs"
    using ok by (auto simp: dir_ok_def sorted_wrt_iff_nth_less)
  ultimately show ?thesis
    using ok n n' m unfolding dir_ok_def by (metis option.inject)
qed

lemma tree_inv_relink:
  assumes inv: "tree_inv h B C R {}" and B: "B \<subseteq> {d}" "B' \<subseteq> {d}"
    and d: "h d = Some dn" "ntype dn = LIBISO_DIR" "d \<notin> B' \<Longrightarrow> dir_ok h' d cs'"
    and keep: "\<And>x. map_option (\<lambda>n. (ntype n, refcount n)) (h' x) = map_option (\<lambda>n. (ntype n, refcount n)) (h x)"
    and dirs: "\<And>e. e \<noteq> d \<Longrightarrow> map_option as_dir (h' e) = map_option as_dir (h e)"
    and X: "\<And>x. x \<notin> X \<Longrightarrow> map_option as_child (h' x) = map_option as_child (h x)"
      "\<And>x n. x \<in> X \<Longrightarrow> h x = Some n \<Longrightarrow> parent n = None \<or> parent n = Some d"
      "\<And>x n. x \<in> X \<Longrightarrow> h' x = Some n \<Longrightarrow> parent n = None \<or> parent n = Some d"
    and par: "\<And>x n. h' x = Some n \<Longrightarrow> parent n = Some d \<Longrightarrow> x \<noteq> d \<Longrightarrow> x \<in> set cs'"
    and cnt: "\<And>x. int (R' x) + own h' x = int (R x) + own h x"
    and R0: "\<And>x. h x = None \<Longrightarrow> R' x = 0"
  shows "tree_inv h' B' (C(d := cs')) R' {}"
proof -
  note D = tree_invD [OF inv]
  have none: "h' x = None \<longleftrightarrow> h x = None" for x
    using keep [of x] by (metis map_option_is_None)
  then have dom: "dom h' = dom h" by (auto simp: dom_def)
  have k: "\<exists>m. h x = Some m \<and> ntype m = ntype n \<and> refcount m = refcount n" if n: "h' x = Some n" for x n
    using keep [of x] n by (cases "h x") auto
  have k': "\<exists>m. h' x = Some m \<and> ntype m = ntype n" if n: "h x = Some n" for x n
    using keep [of x] n by (cases "h' x") auto
  have dir: "dir_ok h' e ((C(d := cs')) e)" if e: "h' e = Some n" "e \<notin> B'" "ntype n = LIBISO_DIR" for e n
  proof (cases "e = d")
    case True
    then show ?thesis using d e by simp
  next
    case False
    obtain m where "h e = Some m" "ntype m = LIBISO_DIR" using k [OF e(1)] e(3) by auto
    then have ok: "dir_ok h e (C e)" using D(3) B False by blast
    have "x \<notin> X" if x: "x \<in> set (C e)" for x
      using ok x X(2) False by (fastforce simp: dir_ok_def)
    then have "dir_ok h' e (C e)"
      by (intro dir_ok_views [OF ok] dirs X(1) False)
    then show ?thesis using False by simp
  qed
  have par': "(\<exists>m. h' q = Some m \<and> ntype m = LIBISO_DIR) \<and> x \<in> set ((C(d := cs')) q)"
    if x: "h' x = Some n" "parent n = Some q" "q \<noteq> x" for x n q
  proof (cases "q = d")
    case True
    obtain m where "h' d = Some m" "ntype m = ntype dn" using k' [OF d(1)] by blast
    then show ?thesis using True x par [OF x(1)] d(2) by simp
  next
    case False
    then have "x \<notin> X" using X(3) [of x n] x by auto
    then obtain m where m: "h x = Some m" "parent m = Some q"
      using X(1) [of x] x by (cases "h x") (auto simp: as_child_def)
    then obtain j where "h q = Some j" "ntype j = LIBISO_DIR" "x \<in> set (C q)"
      using D(4) [OF m x(3)] by blast
    then show ?thesis using k' [of q j] False by auto
  qed
  show ?thesis
    unfolding tree_inv_def
  proof (intro conjI allI impI)
    fix c n q assume "h' c = Some n" "parent n = Some q" "q \<noteq> c"
    then show "\<exists>m. h' q = Some m \<and> ntype m = LIBISO_DIR" "c \<in> set ((C(d := cs')) q)" using par' by blast+
  next
    fix p n assume "h' p = Some n"
    then obtain m where "h p = Some m" "refcount m = refcount n" using k by blast
    then show "refcount n = int (R' p) + own h' p" "0 < refcount n"
      using D(6,7) [of p m] cnt [of p] by auto
  next
    fix p assume "h' p = None \<or> p \<in> {}"
    then show "R' p = 0" using R0 none by auto
  qed (use D(1) dom dir in auto)
qed

lemma sorted_insert:
  assumes "sorted_wrt (\<lambda>a b. f a < f b) (xs @ ys)" "\<forall>x\<in>set xs. f x < (f c :: 'b :: linorder)" "\<forall>y\<in>set ys. f c < f y"
  shows "sorted_wrt (\<lambda>a b. f a < f b) (xs @ c # ys)"
  using assms by (auto simp: sorted_wrt_append)

text \<open>The list of \<open>d\<close> after node \<open>c\<close> has replaced the \<open>w\<close> elements at position \<open>i\<close>.\<close>

lemma dir_ok_spliced:
  assumes ok: "dir_ok h d cs" and c: "h c = Some cn" "c \<noteq> d" "c \<notin> set cs" and i: "i + w \<le> length cs"
    and q: "chain h (next_node cn) (drop (i + w) cs)"
    and w: "write_link h (link_at (Children d) cs i) (Some c) = Some h1"
    and h': "\<And>x. x \<in> set (take i cs @ drop (i + w) cs) \<Longrightarrow> map_option as_child (h' x) = map_option as_child (h1 x)"
      "h' c = Some cn'" "nname cn' = nname cn" "next_node cn' = next_node cn" "parent cn' = Some d"
      "map_option children (h' d) = map_option children (h1 d)"
      "map_option nchildren (h' d) = Some (int (Suc (length cs) - w))"
    and lo: "\<forall>x\<in>set (take i cs). name_at h x < nname cn" and hi: "\<forall>x\<in>set (drop (i + w) cs). nname cn < name_at h x"
  shows "dir_ok h' d (take i cs @ c # drop (i + w) cs)"
proof -
  let ?cs = "take i cs @ c # drop (i + w) cs" and ?l = "link_at (Children d) cs i"
  obtain dn where dn: "h d = Some dn" "chain h (children dn) cs" using ok by (auto simp: dir_ok_def)
  have dist: "distinct cs" "d \<notin> set cs" using ok by (auto simp: dir_ok_def)
  have sub: "set (take i cs) \<subseteq> set cs" "set (drop (i + w) cs) \<subseteq> set cs"
    by (rule set_take_subset, rule set_drop_subset)
  have disj: "set (take i cs) \<inter> set (drop (i + w) cs) = {}"
    using set_take_disj_set_drop_if_distinct [OF dist(1)] by simp
  have pl: "place ?l \<in> insert d (set (take i cs))"
    using place_link_at [of i cs "Children d"] i
    by (cases i) (auto simp: link_at_def place_def take_Suc_conv_app_nth in_set_conv_nth)
  have h1: "h1 x = h x" if "x \<noteq> place ?l" for x
    using w that by (auto simp: write_link_def place_def split: link.splits option.splits)
  have v1: "map_option (\<lambda>n. (nname n, parent n)) (h1 x) = map_option (\<lambda>n. (nname n, parent n)) (h x)" for x
    using w by (auto simp: write_link_def split: link.splits option.splits)
  have c1: "h1 c = Some cn" using h1 [of c] pl c sub by auto
  have sp: "chain h1 (Some c) (c # drop (i + w) cs)"
  proof -
    have "h1 x = h x" if "x \<in> set (drop (i + w) cs)" for x
      using that pl disj dist(2) sub by (intro h1) auto
    then have "chain h1 (next_node cn) (drop (i + w) cs)" by (intro chain_cong [OF q]) simp
    then show ?thesis using c1 by simp
  qed
  have "\<exists>p'. read_link h1 (Children d) = Some p' \<and> chain h1 p' ?cs"
    by (rule splice [OF w sp dn(2) _ dist(1)]) (use dn i in \<open>simp_all add: read_link_def\<close>)
  then obtain p' where p': "read_link h1 (Children d) = Some p'" "chain h1 p' ?cs" by blast
  have next_eq: "map_option next_node (h' x) = map_option next_node (h1 x)" if "x \<in> set ?cs" for x
  proof (cases "x = c")
    case False
    then have "map_option as_child (h' x) = map_option as_child (h1 x)" using that h'(1) by auto
    then show ?thesis by (cases "h' x"; cases "h1 x") (auto simp: as_child_def)
  qed (use c1 h' in auto)
  have "chain h' p' ?cs" by (rule chain_cong [OF p'(2) next_eq])
  moreover have "map_option children (h' d) = Some p'" using p'(1) h'(6) by (simp add: read_link_def)
  moreover have "distinct ?cs" using dist(1) disj c(3) sub by auto
  moreover have "d \<notin> set ?cs" using dist(2) c(2) sub by auto
  moreover have old: "\<exists>m m'. h' x = Some m' \<and> h x = Some m \<and> parent m' = parent m \<and> nname m' = nname m"
    if x: "x \<in> set (take i cs @ drop (i + w) cs)" for x
  proof -
    have "x \<in> set cs" using x sub by auto
    then obtain m where "h x = Some m" using ok by (auto simp: dir_ok_def)
    then show ?thesis using h'(1) [OF x] v1 [of x] by (cases "h1 x"; cases "h' x") (auto simp: as_child_def)
  qed
  have "\<exists>m. h' x = Some m \<and> parent m = Some d" if "x \<in> set ?cs" for x
  proof (cases "x = c")
    case False
    then have x: "x \<in> set (take i cs @ drop (i + w) cs)" "x \<in> set cs" using that sub by auto
    then show ?thesis using old [OF x(1)] ok by (fastforce simp: dir_ok_def)
  qed (use h' in auto)
  moreover have "sorted_wrt (\<lambda>a b. name_at h' a < name_at h' b) ?cs"
  proof (rule sorted_insert)
    have nm: "name_at h' x = name_at h x" if "x \<in> set (take i cs @ drop (i + w) cs)" for x
      using old [OF that] by (auto simp: name_at_def)
    have nc: "name_at h' c = nname cn" using h' by (simp add: name_at_def)
    show "\<forall>x\<in>set (take i cs). name_at h' x < name_at h' c" "\<forall>x\<in>set (drop (i + w) cs). name_at h' c < name_at h' x"
      using lo hi nm nc by auto
    have "sorted_wrt (\<lambda>a b. name_at h a < name_at h b) (take i cs @ drop (i + w) cs)"
    proof -
      have "sorted_wrt (\<lambda>a b. name_at h a < name_at h b) (take i cs)" "sorted_wrt (\<lambda>a b. name_at h a < name_at h b) (drop (i + w) cs)"
        using ok by (auto simp: dir_ok_def intro: sorted_wrt_take sorted_wrt_drop)
      then show ?thesis using lo hi by (auto simp: sorted_wrt_append intro: order.strict_trans)
    qed
    then show "sorted_wrt (\<lambda>a b. name_at h' a < name_at h' b) (take i cs @ drop (i + w) cs)"
      by (rule sorted_wrt_mono_rel [rotated]) (simp add: nm)
  qed
  moreover have "int (Suc (length cs) - w) = int (length ?cs)" using i by simp
  ultimately show ?thesis
    using h'(7) unfolding dir_ok_def by (auto simp: map_option_eq_Some)
qed

section \<open>Adding a node\<close>

lemma read_link_children: "h d = Some n \<Longrightarrow> read_link h (Children d) = Some (children n)"
  by (simp add: read_link_def)

text \<open>The position where \<open>iso_dir_find\<close> stops: before it are the smaller names.\<close>

definition name_pos :: "heap \<Rightarrow> ptr list \<Rightarrow> cstring \<Rightarrow> nat" where
  "name_pos h cs name = length (takeWhile (\<lambda>x. name_at h x < name) cs)"

lemma name_pos_le: "name_pos h cs name \<le> length cs"
  by (simp add: name_pos_def length_takeWhile_le)

lemma iso_dir_find_pos:
  "dir_ok h d cs \<Longrightarrow> length cs < k \<Longrightarrow> iso_dir_find k h d name = Some (link_at (Children d) cs (name_pos h cs name))"
  by (auto simp: dir_ok_def iso_dir_find_def name_pos_def find_from_chain read_link_children)

lemma upd_Some [simp]: "h p = Some n \<Longrightarrow> upd h p f = Some (h(p \<mapsto> f n))"
  by (simp add: upd_def)

lemma add_new:
  assumes inv: "tree_inv h {} C R {}" and d: "h d = Some dn" "ntype dn = LIBISO_DIR"
    and c: "h c = Some cn" "parent cn = None" "c \<noteq> d"
    and new: "\<forall>x\<in>set (C d). name_at h x \<noteq> nname cn"
    and i: "i = name_pos h (C d) (nname cn)"
  shows "\<exists>h'. (\<forall>k>length (C d). iso_dir_add_node k h (Some d) (Some c) mode = Some (Inr (int (Suc (length (C d)))), h')) \<and>
     tree_inv h' {} (C(d := take i (C d) @ c # drop i (C d))) (R(c := R c - 1)) {} \<and>
     (\<forall>y. name_at h' y = name_at h y)"
proof -
  note D = tree_invD [OF inv]
  define cs where "cs = C d"
  have ok: "dir_ok h d cs" unfolding cs_def using D(3) d by simp
  then have dn: "chain h (children dn) cs" "nchildren dn = int (length cs)" "distinct cs" "d \<notin> set cs"
    using d by (auto simp: dir_ok_def)
  have i': "i \<le> length cs" using name_pos_le i cs_def by simp
  have cc: "c \<notin> set cs" using ok c by (auto simp: dir_ok_def)
  let ?l = "link_at (Children d) cs i"
  obtain q where q: "read_link h ?l = Some q" "chain h q (drop i cs)"
    using read_link_at [OF dn(1) read_link_children [of h d dn] i'] d by auto
  define h1 where "h1 = h(c \<mapsto> cn\<lparr>next_node := q\<rparr>)"
  have pl: "place ?l \<in> insert d (set cs)" using place_link_at [OF i', of "Children d"] by (simp add: place_def)
  have pc: "place ?l \<noteq> c" using pl cc c by auto
  have "place ?l \<in> dom h1" using pl d ok by (auto simp: h1_def dir_ok_def)
  then obtain m m' where m: "h1 (place ?l) = Some m" "write_link h1 ?l (Some c) = Some (h1(place ?l \<mapsto> m'))"
      "m' = (case ?l of Children _ \<Rightarrow> m\<lparr>children := Some c\<rparr> | Next _ \<Rightarrow> m\<lparr>next_node := Some c\<rparr>)"
    using write_link_Some [of ?l h1 "Some c"] by blast
  have lm: "m' = m\<lparr>children := Some c\<rparr> \<and> place ?l = d \<or> m' = m\<lparr>next_node := Some c\<rparr> \<and> place ?l \<in> set (take i cs)"
  proof (cases i)
    case 0
    then show ?thesis using m(3) by (simp add: place_def)
  next
    case (Suc j)
    then show ?thesis using m(3) i' by (auto simp: link_at_def place_def take_Suc_conv_app_nth)
  qed
  define h2 where "h2 = h1(place ?l \<mapsto> m')"
  define c2 where "c2 = cn\<lparr>next_node := q\<rparr>"
  have h2c: "h2 c = Some c2" using pc by (simp add: h2_def h1_def c2_def)
  define h3 where "h3 = h2(c \<mapsto> c2\<lparr>parent := Some d\<rparr>)"
  have "h1 d = Some dn" using c d by (simp add: h1_def)
  then have "\<exists>d3. h2 d = Some d3 \<and> nchildren d3 = nchildren dn"
    using lm m(1) by (cases "place ?l = d") (auto simp: h2_def)
  then obtain d3 where d3: "h3 d = Some d3" "nchildren d3 = nchildren dn" "h2 d = Some d3"
    using c(3) by (auto simp: h3_def)
  define h4 where "h4 = h3(d \<mapsto> d3\<lparr>nchildren := nchildren d3 + 1\<rparr>)"
  have same: "h1 x = h x" if "x \<noteq> c" for x using that by (simp add: h1_def)
  have srt: "sorted_wrt (\<lambda>a b. name_at h a < name_at h b) cs" using ok by (simp add: dir_ok_def)
  have ie: "i = length (takeWhile (\<lambda>x. name_at h x < nname cn) cs)" by (simp add: i name_pos_def cs_def)
  have lohi: "\<forall>x\<in>set (take i cs). name_at h x < nname cn" "\<forall>x\<in>set (drop i cs). nname cn < name_at h x"
  proof -
    show "\<forall>x\<in>set (take i cs). name_at h x < nname cn" by (rule takeWhile_sorted(1) [OF srt ie])
    show "\<forall>x\<in>set (drop i cs). nname cn < name_at h x"
      using takeWhile_sorted(2) [OF srt ie] new unfolding cs_def by (metis in_set_dropD order_le_neq_trans)
  qed
  have ok1: "dir_ok h1 d cs"
    by (rule dir_ok_views [OF ok]) (use cc c in \<open>auto simp: h1_def\<close>)
  have lohi1: "\<forall>x\<in>set (take i cs). name_at h1 x < nname c2" "\<forall>x\<in>set (drop i cs). nname c2 < name_at h1 x"
    using lohi cc by (auto simp: name_at_def h1_def c2_def dest: in_set_takeD in_set_dropD split: option.splits)
  have ch1: "chain h1 (next_node c2) (drop i cs)"
    using q(2) by (simp add: c2_def) (rule chain_cong, assumption, use cc in \<open>auto simp: h1_def dest: in_set_dropD\<close>)
  have other: "h4 x = h1 x" if "x \<noteq> c" "x \<noteq> d" "x \<noteq> place ?l" for x
    using that by (simp add: h4_def h3_def h2_def)
  have ok4: "dir_ok h4 d (take i cs @ c # drop (i + 0) cs)"
  proof (rule dir_ok_spliced [OF ok1 _ c(3) cc _ _ m(2)])
    show "h1 c = Some c2" by (simp add: h1_def c2_def)
    show "i + 0 \<le> length cs" using i' by simp
    show "chain h1 (next_node c2) (drop (i + 0) cs)" using ch1 by simp
    show "map_option as_child (h4 x) = map_option as_child ((h1(place ?l \<mapsto> m')) x)"
      if "x \<in> set (take i cs @ drop (i + 0) cs)" for x
      using that cc dn(4) by (auto simp: h4_def h3_def h2_def dest: in_set_takeD in_set_dropD)
    show "h4 c = Some (c2\<lparr>parent := Some d\<rparr>)" using c by (simp add: h4_def h3_def)
    show "map_option children (h4 d) = map_option children ((h1(place ?l \<mapsto> m')) d)"
      using d3 by (simp add: h4_def flip: h2_def)
    show "map_option nchildren (h4 d) = Some (int (Suc (length cs) - 0))"
      using d3 dn by (simp add: h4_def)
  qed (use lohi1 in simp_all)
  have eq: "iso_dir_add_node k h (Some d) (Some c) mode = Some (Inr (int (Suc (length cs))), h4)" if k: "length cs < k" for k
  proof -
    have "(case q of None \<Rightarrow> Some None | Some x \<Rightarrow>
        do { old \<leftarrow> h x; Some (if strcmp (nname old) (nname cn) = 0 then Some (x, old) else None) }) = Some None"
    proof (cases "drop i cs")
      case Nil
      then show ?thesis using q(2) by simp
    next
      case (Cons x xs)
      then have x: "q = Some x" "x \<in> set cs" using q(2) in_set_dropD [of x i cs] by auto
      then obtain j where "h x = Some j" using ok by (auto simp: dir_ok_def)
      then show ?thesis using x new by (auto simp: name_at_def cs_def)
    qed
    moreover have "write_link (h(c \<mapsto> c2)) ?l (Some c) = Some h2"
      using m(2) by (simp add: h1_def c2_def h2_def)
    ultimately show ?thesis
      using c d k d3 h2c dn(2)
      by (simp add: iso_dir_add_node_def iso_dir_find_pos [OF ok k] i [folded cs_def, symmetric] iso_dir_insert_def q(1)
          c2_def [symmetric] h3_def [symmetric] h4_def [symmetric])
        (simp add: h4_def)
  qed
  have "tree_inv h4 {} (C(d := take i cs @ c # drop i cs)) (R(c := R c - 1)) {}"
  proof (rule tree_inv_relink [OF inv _ _ d])
    show "dir_ok h4 d (take i cs @ c # drop i cs)" using ok4 by simp
    show "map_option (\<lambda>n. (ntype n, refcount n)) (h4 x) = map_option (\<lambda>n. (ntype n, refcount n)) (h x)" for x
      using c d d3 lm m pc by (auto simp: h4_def h3_def h2_def h1_def c2_def)
    show "map_option as_dir (h4 e) = map_option as_dir (h e)" if "e \<noteq> d" for e
      using that c lm m pc by (auto simp: h4_def h3_def h2_def h1_def c2_def as_dir_def)
    show "map_option as_child (h4 x) = map_option as_child (h x)" if "x \<notin> insert c (set cs)" for x
      using that c d d3 lm m pc by (auto simp: h4_def h3_def h2_def h1_def c2_def as_child_def dest: in_set_takeD)
    show "parent n = None \<or> parent n = Some d" if "x \<in> insert c (set cs)" "h x = Some n" for x n
      using that c ok by (auto simp: dir_ok_def)
    have p4: "map_option parent (h4 x) = (if x = c then Some (Some d) else map_option parent (h x))" for x
      using c d d3 lm m pc by (auto simp: h4_def h3_def h2_def h1_def c2_def)
    show "parent n = None \<or> parent n = Some d" if "x \<in> insert c (set cs)" "h4 x = Some n" for x n
      using that p4 [of x] ok by (auto simp: dir_ok_def split: if_splits)
    show "x \<in> set (take i cs @ c # drop i cs)" if xn: "h4 x = Some n" "parent n = Some d" "x \<noteq> d" for x n
    proof (cases "x = c")
      case False
      then obtain j where "h x = Some j" "parent j = Some d" using xn p4 [of x] by (cases "h x") auto
      then have "x \<in> set cs" using D(4) [of x j d] xn(3) by (simp add: cs_def)
      then show ?thesis by (metis (no_types, lifting) Un_iff append_take_drop_id list.set_intros(2) set_append)
    qed simp
    have "own h c = 0" using c by (simp add: own_def)
    moreover have "1 \<le> R c" using D(6,7) [OF c(1)] calculation by simp
    moreover have "own h4 x = (if x = c then 1 else own h x)" for x
      using p4 [of x] c(3) by (cases "h4 x"; cases "h x") (auto simp: own_def)
    ultimately show "int ((R(c := R c - 1)) x) + own h4 x = int (R x) + own h x" for x by auto
    show "(R(c := R c - 1)) x = 0" if "h x = None" for x using D(8) that c by auto
  qed simp_all
  moreover have "name_at h4 y = name_at h y" for y
    using c d d3 lm m pc by (auto simp: name_at_def h4_def h3_def h2_def h1_def c2_def)
  ultimately show ?thesis using eq by (auto simp: cs_def)
qed

lemma write_link_eq:
  assumes "write_link h l v = Some hw" "h (place l) = g (place l)"
  shows "write_link g l v = Some (g(place l := hw (place l)))" "y \<noteq> place l \<Longrightarrow> hw y = h y"
    "map_option (\<lambda>n. (ntype n, refcount n, parent n, nname n, nchildren n)) (hw y)
      = map_option (\<lambda>n. (ntype n, refcount n, parent n, nname n, nchildren n)) (h y)"
    "y \<noteq> place l \<or> l \<noteq> Next y \<Longrightarrow> map_option as_child (hw y) = map_option as_child (h y)"
    "l \<noteq> Children y \<Longrightarrow> map_option as_dir (hw y) = map_option as_dir (h y)"
  using assms
  by (auto simp: write_link_def place_def as_child_def as_dir_def split: link.splits option.splits)

lemma add_replace:
  assumes inv: "tree_inv h {} C R {}" and d: "h d = Some dn" "ntype dn = LIBISO_DIR"
    and c: "h c = Some cn" "parent cn = None" "c \<noteq> d"
    and x: "x \<in> set (C d)" "h x = Some xn" "nname xn = nname cn" and mode: "\<not> keeps_old mode xn cn"
    and i: "i = name_pos h (C d) (nname cn)"
    and S: "upclosed h S" "d \<in> S" "x \<notin> S"
  shows "\<exists>K h'. (\<forall>k\<ge>K. iso_dir_add_node k h (Some d) (Some c) mode = Some (Inr (int (length (C d))), h')) \<and>
     tree_inv h' {} (C(d := (C d)[i := c])) (R(c := R c - 1)) {} \<and>
     (R x = 0 \<longrightarrow> h' x = None) \<and> (\<forall>y\<in>set ((C d)[i := c]). name_at h' y = name_at h y)"
proof -
  note D = tree_invD [OF inv]
  define cs where "cs = C d"
  have ok: "dir_ok h d cs" unfolding cs_def using D(3) d by simp
  then have dn: "chain h (children dn) cs" "nchildren dn = int (length cs)" "distinct cs" "d \<notin> set cs"
    and srt: "sorted_wrt (\<lambda>a b. name_at h a < name_at h b) cs"
    using d by (auto simp: dir_ok_def)
  have cc: "c \<notin> set cs" using ok c by (auto simp: dir_ok_def)
  have xcs: "x \<in> set cs" "x \<noteq> c" "x \<noteq> d" "parent xn = Some d"
    using x(1) cc dn(4) ok x(2) by (auto simp: cs_def dir_ok_def)
  have ie: "i = length (takeWhile (\<lambda>y. name_at h y < nname cn) cs)" by (simp add: i name_pos_def cs_def)
  note tw = takeWhile_sorted [OF srt ie]
  have nx: "name_at h x = nname cn" using x by (simp add: name_at_def)
  have xi: "i < length cs" "cs ! i = x"
  proof -
    have "x \<in> set (drop i cs)"
      using tw(1) nx xcs(1) by (metis append_take_drop_id in_set_conv_decomp_first less_irrefl Un_iff set_append)
    then have l: "i < length cs" by (metis drop_eq_Nil2 empty_iff leI list.set(1))
    then have dr: "drop i cs = cs ! i # drop (Suc i) cs" by (simp add: Cons_nth_drop_Suc)
    have "sorted_wrt (\<lambda>a b. name_at h a < name_at h b) (drop i cs)" by (rule sorted_wrt_drop [OF srt])
    then have "y = cs ! i \<or> name_at h (cs ! i) < name_at h y" if "y \<in> set (drop i cs)" for y
      using that unfolding dr by auto
    moreover have "nname cn \<le> name_at h (cs ! i)" using tw(2) unfolding dr by simp
    ultimately have "cs ! i = x" using \<open>x \<in> set (drop i cs)\<close> nx by fastforce
    then show "i < length cs" "cs ! i = x" using l by auto
  qed
  have dri: "drop i cs = x # drop (Suc i) cs" using xi by (simp add: Cons_nth_drop_Suc [symmetric])
  have csi: "cs = take i cs @ x # drop (Suc i) cs" using append_take_drop_id [of i cs] dri by simp
  have tdx: "x \<notin> set (take i cs)" "x \<notin> set (drop (Suc i) cs)"
    using dn(3) csi by (metis distinct.simps(2) distinct_append not_distinct_conv_prefix Un_iff disjoint_iff list.set_intros(1) set_append)+
  have sub: "set (take i cs) \<subseteq> set cs" "set (drop (Suc i) cs) \<subseteq> set cs"
    by (rule set_take_subset, rule set_drop_subset)
  have rest: "set (take i cs) \<union> set (drop (Suc i) cs) = set cs - {x}"
    using tdx arg_cong [OF csi, of set] by auto
  let ?l = "link_at (Children d) cs i"
  have rl: "read_link h ?l = Some (Some x)"
    using read_link_nth [OF dn(1) read_link_children [of h d dn] xi(1)] d xi(2) by simp
  have pl: "place ?l \<in> insert d (set (take i cs))"
    using xi(1) by (cases i) (auto simp: link_at_def place_def take_Suc_conv_app_nth)
  have chx: "chain h (next_node xn) (drop (Suc i) cs)"
    using read_link_at [OF dn(1) read_link_children [of h d dn], of i] d xi(1) x(2) by (auto simp: dri)
  define c1 where "c1 = cn\<lparr>next_node := next_node xn\<rparr>"
  define h1 where "h1 = h(c \<mapsto> c1)"
  define h2 where "h2 = h1(x \<mapsto> xn\<lparr>parent := None, next_node := None\<rparr>)"
  have inv2: "tree_inv h2 {d} (C(d := cs)) (R(x := R x + 1)) {}"
  proof (rule tree_inv_relink [OF inv _ _ d])
    show "map_option (\<lambda>n. (ntype n, refcount n)) (h2 y) = map_option (\<lambda>n. (ntype n, refcount n)) (h y)" for y
      using c x by (auto simp: h2_def h1_def c1_def)
    show "map_option as_dir (h2 e) = map_option as_dir (h e)" for e
      using c x by (auto simp: h2_def h1_def c1_def as_dir_def)
    show "map_option as_child (h2 y) = map_option as_child (h y)" if "y \<notin> {c, x}" for y
      using that by (auto simp: h2_def h1_def)
    show "parent n = None \<or> parent n = Some d" if "y \<in> {c, x}" "h y = Some n" for y n
      using that c x xcs by auto
    show "parent n = None \<or> parent n = Some d" if "y \<in> {c, x}" "h2 y = Some n" for y n
      using that c x xcs by (auto simp: h2_def h1_def c1_def split: if_splits)
    show "y \<in> set cs" if "h2 y = Some n" "parent n = Some d" "y \<noteq> d" for y n
      using that D(4) [of y n d] c x by (auto simp: h2_def h1_def c1_def cs_def split: if_splits)
    show "int ((R(x := R x + 1)) y) + own h2 y = int (R y) + own h y" for y
      using c x xcs by (auto simp: own_def h2_def h1_def c1_def)
    show "(R(x := R x + 1)) y = 0" if "h y = None" for y using D(8) that x by auto
  qed simp_all
  have inv2': "tree_inv h2 {d} C (R(x := R x + 1)) {}" using inv2 by (simp add: cs_def)
  have S2: "upclosed h2 S" using S(1,3) c by (auto simp: upclosed_def h2_def h1_def c1_def)
  have "x \<in> dom h2" by (simp add: h2_def)
  then obtain K h3 where K: "\<And>k. K \<le> k \<Longrightarrow> iso_node_unref k h2 x = Some h3"
    and h3: "tree_inv h3 {d} C R {}" "shrinks h2 h3" "keeps_above {x} h2 h3"
    using unref_ok [OF inv2'] S2 S(2,3) by blast
  define T where "T = S \<union> (set cs - {x}) \<union> {c}"
  have "upclosed h2 T"
    unfolding upclosed_def
  proof (intro ballI allI impI)
    fix q n r assume q: "q \<in> T" "h2 q = Some n" "parent n = Some r"
    show "r \<in> T"
    proof (cases "q \<in> S")
      case True
      then show ?thesis using S2 q by (auto simp: upclosed_def T_def)
    next
      case False
      then have "q \<in> set cs - {x} \<or> q = c" using q by (auto simp: T_def)
      then show ?thesis using q ok S(2) c xcs by (auto simp: dir_ok_def h2_def h1_def c1_def T_def split: if_splits)
    qed
  qed
  moreover have "{x} \<inter> T = {}" using S(3) xcs(2) by (simp add: T_def)
  ultimately have same: "h3 y = h2 y" if "y \<in> T" for y
    using keeps_aboveD [OF h3(3)] that by blast
  have h21: "h2 y = h1 y" if "y \<noteq> x" for y using that by (simp add: h2_def)
  have plT: "place ?l \<in> T" "place ?l \<noteq> x" "place ?l \<noteq> c"
    using pl S(2) tdx sub cc c xcs by (auto simp: T_def)
  have h31: "h3 (place ?l) = h1 (place ?l)" using same plT h21 by simp
  have "place ?l \<in> dom h1" using pl d ok sub by (auto simp: h1_def dir_ok_def)
  then obtain hw where hw: "write_link h1 ?l (Some c) = Some hw"
    using write_link_Some by blast
  note W = write_link_eq [OF hw, where g = h1, OF refl]
  define h4 where "h4 = h3(place ?l := hw (place ?l))"
  have w3: "write_link h3 ?l (Some c) = Some h4"
    unfolding h4_def by (rule write_link_eq(1) [OF hw]) (rule h31 [symmetric])
  note W3 = write_link_eq [OF w3, where g = h3, OF refl]
  have h4c: "h4 c = Some c1" using same [of c] h21 [of c] plT xcs by (simp add: h4_def T_def h1_def)
  define h5 where "h5 = h4(c \<mapsto> c1\<lparr>parent := Some d\<rparr>)"
  have h4w: "h4 y = hw y" if "y \<in> T" for y
    using that same [of y] h21 [of y] W(2) [of y] S(3) xcs by (auto simp: h4_def T_def)
  have ok1: "dir_ok h1 d cs"
    by (rule dir_ok_views [OF ok]) (use cc c in \<open>auto simp: h1_def\<close>)
  have n1: "name_at h1 y = name_at h y" for y using c by (simp add: name_at_def h1_def c1_def)
  have ok5: "dir_ok h5 d (take i cs @ c # drop (i + 1) cs)"
  proof (rule dir_ok_spliced [OF ok1 _ c(3) cc _ _ hw])
    show "h1 c = Some c1" by (simp add: h1_def)
    show "i + 1 \<le> length cs" using xi by simp
    show "chain h1 (next_node c1) (drop (i + 1) cs)"
    proof -
      have "chain h1 (next_node xn) (drop (Suc i) cs)"
      proof (rule chain_cong [OF chx])
        fix y assume "y \<in> set (drop (Suc i) cs)"
        then have "y \<noteq> c" using cc sub by auto
        then show "map_option next_node (h1 y) = map_option next_node (h y)" by (simp add: h1_def)
      qed
      then show ?thesis by (simp add: c1_def)
    qed
    show "map_option as_child (h5 y) = map_option as_child (hw y)" if "y \<in> set (take i cs @ drop (i + 1) cs)" for y
    proof -
      have "y \<in> T" "y \<noteq> c" using that rest cc by (auto simp: T_def)
      then show ?thesis using h4w by (simp add: h5_def)
    qed
    show "h5 c = Some (c1\<lparr>parent := Some d\<rparr>)" by (simp add: h5_def)
    have "h5 d = hw d" using h4w [of d] S(2) c(3) by (simp add: h5_def T_def)
    moreover have "map_option nchildren (hw d) = map_option nchildren (h d)"
      using W(3) [of d] c d by (cases "hw d") (auto simp: h1_def)
    ultimately show "map_option children (h5 d) = map_option children (hw d)"
      "map_option nchildren (h5 d) = Some (int (Suc (length cs) - 1))"
      using d dn(2) by simp_all
    show "\<forall>y\<in>set (take i cs). name_at h1 y < nname c1" using tw(1) by (simp add: n1 c1_def)
    have "sorted_wrt (\<lambda>a b. name_at h a < name_at h b) (x # drop (Suc i) cs)"
      using sorted_wrt_drop [OF srt, of i] unfolding dri .
    then show "\<forall>y\<in>set (drop (i + 1) cs). nname c1 < name_at h1 y" using nx by (simp add: n1 c1_def)
  qed (simp_all add: c1_def)
  have upd: "(C d)[i := c] = take i cs @ c # drop (Suc i) cs"
    using xi by (simp add: upd_conv_take_nth_drop cs_def)
  have p5: "map_option parent (h5 y) = (if y = c then Some (Some d) else map_option parent (h3 y))" for y
    using W3(3) [of y] by (cases "h4 y"; cases "h3 y") (auto simp: h5_def)
  have h3c: "h3 c = Some c1" using same [of c] h21 [of c] xcs by (simp add: T_def h1_def)
  have nl: "y \<in> set (take i cs)" if "?l = Next y" for y
    using that xi(1) by (cases i) (auto simp: link_at_def take_Suc_conv_app_nth)
  have d3: "\<exists>n. h3 d = Some n \<and> ntype n = LIBISO_DIR"
    using same [of d] h21 [of d] S(2) d c xcs by (auto simp: T_def h1_def)
  note D3 = tree_invD [OF h3(1)]
  obtain n3 where n3: "h3 d = Some n3" "ntype n3 = LIBISO_DIR" using d3 by blast
  have "tree_inv h5 {} (C(d := take i cs @ c # drop (Suc i) cs)) (R(c := R c - 1)) {}"
  proof (rule tree_inv_relink [OF h3(1) _ _ n3])
    show "dir_ok h5 d (take i cs @ c # drop (Suc i) cs)" using ok5 by simp
    show "map_option (\<lambda>n. (ntype n, refcount n)) (h5 y) = map_option (\<lambda>n. (ntype n, refcount n)) (h3 y)" for y
      using W3(3) [of y] h4c h3c by (cases "h4 y"; cases "h3 y") (auto simp: h5_def)
    show "map_option as_dir (h5 e) = map_option as_dir (h3 e)" if "e \<noteq> d" for e
    proof (cases "e = c")
      case False
      have "?l \<noteq> Children e" using that by (cases i) (simp_all add: link_at_def)
      then show ?thesis using W3(5) [of e] False by (simp add: h5_def)
    qed (simp add: h5_def h3c as_dir_def)
    show "map_option as_child (h5 y) = map_option as_child (h3 y)" if "y \<notin> insert c (set cs - {x})" for y
    proof -
      have "?l \<noteq> Next y" using nl that rest by auto
      then show ?thesis using W3(4) [of y] that by (simp add: h5_def)
    qed
    show p3: "parent n = None \<or> parent n = Some d" if "y \<in> insert c (set cs - {x})" "h3 y = Some n" for y n
    proof (cases "y = c")
      case True
      then have "parent n = parent c1" using that(2) h3c by simp
      then show ?thesis using c(2) by (simp add: c1_def)
    next
      case False
      then have "y \<in> set cs" "h3 y = h y" using that same [of y] h21 [of y] by (auto simp: T_def h1_def)
      then show ?thesis using that(2) ok by (auto simp: dir_ok_def)
    qed
    show "parent n = None \<or> parent n = Some d" if "y \<in> insert c (set cs - {x})" "h5 y = Some n" for y n
      using that p5 [of y] p3 [of y] by (cases "h3 y") (auto split: if_splits)
    show "y \<in> set (take i cs @ c # drop (Suc i) cs)" if yn: "h5 y = Some n" "parent n = Some d" "y \<noteq> d" for y n
    proof (cases "y = c")
      case False
      then obtain j where j: "h3 y = Some j" "parent j = Some d" using yn p5 [of y] by (cases "h3 y") auto
      then have "y \<in> set cs" using D3(4) [of y j d] yn(3) by (simp add: cs_def)
      moreover have "y \<noteq> x" using shrinks_parent [OF h3(2) j] by (auto simp: h2_def)
      ultimately show ?thesis using rest by auto
    qed simp
    have "own h3 c = 0" using h3c c by (simp add: own_def c1_def)
    moreover have "1 \<le> R c" using D3(6,7) [OF h3c] calculation by simp
    moreover have "own h5 y = (if y = c then 1 else own h3 y)" for y
      using p5 [of y] c(3) by (cases "h5 y"; cases "h3 y") (auto simp: own_def)
    ultimately show "int ((R(c := R c - 1)) y) + own h5 y = int (R y) + own h3 y" for y by auto
    show "(R(c := R c - 1)) y = 0" if "h3 y = None" for y using D3(8) that h3c by auto
  qed simp_all
  moreover have "iso_dir_add_node k h (Some d) (Some c) mode = Some (Inr (int (length (C d))), h5)"
    if k: "max K (Suc (length cs)) \<le> k" for k
  proof -
    have k1: "length cs < k" using k by simp
    have "h5 d = hw d" using h4w [of d] S(2) c(3) by (simp add: h5_def T_def)
    moreover have "map_option nchildren (hw d) = map_option nchildren (h d)"
      using W(3) [of d] c d by (cases "hw d") (auto simp: h1_def)
    ultimately obtain n5 where n5: "h5 d = Some n5" "nchildren n5 = int (length cs)" using d dn(2) by (cases "h5 d") auto
    have u: "iso_node_unref k h2 x = Some h3" using K k by simp
    have ux: "h1 x = Some xn" using x xcs by (simp add: h1_def)
    show ?thesis
      unfolding cs_def [symmetric]
      using c d x mode n5 h4c xcs(2)
      by (simp add: iso_dir_add_node_def iso_dir_find_pos [OF ok k1] i [folded cs_def, symmetric] iso_dir_insert_def rl
          c1_def [symmetric] h1_def [symmetric] ux h2_def [symmetric] u w3 h5_def [symmetric])
  qed
  moreover have "R x = 0 \<longrightarrow> h5 x = None"
  proof
    assume R: "R x = 0"
    show "h5 x = None"
    proof (rule ccontr)
      assume "h5 x \<noteq> None"
      then obtain m where m: "h3 x = Some m" using plT xcs by (auto simp: h5_def h4_def)
      then have "own h3 x = 0"
        using shrinks_parent [OF h3(2), of x m] by (cases "parent m") (auto simp: own_def h2_def)
      then show False using D3(6,7) [OF m] R by simp
    qed
  qed
  moreover have "name_at h5 y = name_at h y" if "y \<in> set ((C d)[i := c])" for y
  proof (cases "y = c")
    case True
    then show ?thesis using c by (simp add: name_at_def h5_def c1_def)
  next
    case False
    then have "y \<in> T" "y \<noteq> x" using that rest unfolding upd by (auto simp: T_def)
    then have "h3 y = h y" using same [of y] h21 [of y] False by (simp add: h1_def)
    moreover have "map_option nname (h4 y) = map_option nname (h3 y)"
      using W3(3) [of y] by (cases "h4 y"; cases "h3 y") auto
    ultimately show ?thesis using False by (cases "h4 y"; cases "h y") (auto simp: name_at_def h5_def)
  qed
  ultimately show ?thesis unfolding upd by (metis max.bounded_iff)
qed

section \<open>Directories as maps\<close>

text \<open>The abstract view of a directory: names to nodes.\<close>

definition dir_map :: "heap \<Rightarrow> ptr list \<Rightarrow> cstring \<Rightarrow> ptr option" where
  "dir_map h cs = map_of (map (\<lambda>x. (name_at h x, x)) cs)"

lemma dir_map_cong: "(\<And>x. x \<in> set cs \<Longrightarrow> name_at h' x = name_at h x) \<Longrightarrow> dir_map h' cs = dir_map h cs"
  unfolding dir_map_def by (rule arg_cong [where f = map_of]) simp

lemma dir_map_None: "dir_map h cs nm = None \<longleftrightarrow> (\<forall>x\<in>set cs. name_at h x \<noteq> nm)"
  by (force simp: dir_map_def map_of_eq_None_iff)

lemma dir_map_mid:
  assumes "\<forall>x\<in>set xs. name_at h x \<noteq> name_at h c"
  shows "dir_map h (xs @ c # ys) = (dir_map h (xs @ ys))(name_at h c \<mapsto> c)"
    "dir_map h (xs @ c # ys) (name_at h c) = Some c"
    "name_at h x = name_at h c \<Longrightarrow> dir_map h (xs @ c # ys) = (dir_map h (xs @ x # ys))(name_at h c \<mapsto> c)"
proof -
  have "name_at h c \<notin> dom (dir_map h xs)" using assms by (auto simp: domIff dir_map_None)
  then show "dir_map h (xs @ c # ys) = (dir_map h (xs @ ys))(name_at h c \<mapsto> c)"
    by (auto simp: dir_map_def map_add_def fun_eq_iff domIff split: option.split)
  show "dir_map h (xs @ c # ys) (name_at h c) = Some c"
    using \<open>name_at h c \<notin> _\<close> by (auto simp: dir_map_def map_add_def domIff split: option.split)
  show "dir_map h (xs @ c # ys) = (dir_map h (xs @ x # ys))(name_at h c \<mapsto> c)" if "name_at h x = name_at h c"
    using \<open>name_at h c \<notin> _\<close> that by (auto simp: dir_map_def map_add_def fun_eq_iff domIff split: option.split)
qed

lemma dir_map_pos:
  assumes ok: "dir_ok h d cs" and i: "i = name_pos h cs nm"
  shows "dir_map h cs nm = (if i < length cs \<and> name_at h (cs ! i) = nm then Some (cs ! i) else None)"
proof -
  have srt: "sorted_wrt (\<lambda>a b. name_at h a < name_at h b) cs" using ok by (simp add: dir_ok_def)
  have ie: "i = length (takeWhile (\<lambda>x. name_at h x < nm) cs)" using i by (simp add: name_pos_def)
  note tw = takeWhile_sorted [OF srt ie]
  show ?thesis
  proof (cases "i < length cs \<and> name_at h (cs ! i) = nm")
    case True
    then have "cs = take i cs @ cs ! i # drop (Suc i) cs" by (simp add: id_take_nth_drop)
    moreover have "\<forall>x\<in>set (take i cs). name_at h x \<noteq> name_at h (cs ! i)" using tw(1) True by auto
    ultimately have "dir_map h cs (name_at h (cs ! i)) = Some (cs ! i)" by (metis dir_map_mid(2))
    then show ?thesis using True by simp
  next
    case False
    have "name_at h x \<noteq> nm" if "x \<in> set cs" for x
    proof -
      have "x \<in> set (take i cs) \<or> x \<in> set (drop i cs)"
        using that by (metis Un_iff append_take_drop_id set_append)
      moreover have "x \<in> set (drop i cs) \<Longrightarrow> i < length cs" by (cases "i < length cs") auto
      ultimately show ?thesis using tw(1,3) False by fastforce
    qed
    then have "dir_map h cs nm = None" by (simp add: dir_map_None)
    then show ?thesis using False by simp
  qed
qed

lemma get_node_map:
  assumes inv: "tree_inv h {} C R {}" and d: "h d = Some dn" "ntype dn = LIBISO_DIR" and k: "length (C d) < k"
  shows "iso_dir_get_node k h (Some d) (Some nm) = Some (Inr (dir_map h (C d) nm))"
proof -
  have ok: "dir_ok h d (C d)" using tree_invD(3) [OF inv d(1)] d(2) by simp
  then have ch: "chain h (children dn) (C d)" using d by (auto simp: dir_ok_def)
  define i where "i = name_pos h (C d) nm"
  have rl: "read_link h (link_at (Children d) (C d) i) = Some (if i < length (C d) then Some (C d ! i) else None)"
    using read_link_at [OF ch read_link_children [of h d dn], of i] d name_pos_le [of h "C d" nm]
    by (auto simp: i_def Cons_nth_drop_Suc [symmetric] split: if_splits)
  have ex: "\<exists>m. h (C d ! i) = Some m" if "i < length (C d)"
    using ok nth_mem [OF that] by (auto simp: dir_ok_def)
  show ?thesis
    using ex unfolding dir_map_pos [OF ok i_def]
    by (auto simp: iso_dir_get_node_def iso_dir_exists_def iso_dir_find_pos [OF ok k] rl i_def [symmetric] name_at_def)
qed

definition new_node :: "node_type \<Rightarrow> cstring \<Rightarrow> ptr option \<Rightarrow> ptr option \<Rightarrow> ptr option \<Rightarrow> int \<Rightarrow> iso_node" where
  "new_node ty nm par nxt chd cnt = \<lparr>refcount = 1, ntype = ty, nname = nm, fmt = 0, mtime = 0,
     parent = par, next_node = nxt, children = chd, nchildren = cnt\<rparr>"

text \<open>A root with a directory \<open>b\<close> and a file \<open>c\<close> that has not been added yet.\<close>

definition example_heap :: heap where
  "example_heap = [0 \<mapsto> new_node LIBISO_DIR [] (Some 0) None (Some 1) 1,
     1 \<mapsto> new_node LIBISO_DIR (str ''b'') (Some 0) None None 0,
     2 \<mapsto> new_node LIBISO_FILE (str ''a'') None None None 0]"

definition example_C :: "ptr \<Rightarrow> ptr list" where "example_C = (\<lambda>_. [])(0 := [1])"
definition example_R :: "ptr \<Rightarrow> nat" where "example_R = (\<lambda>_. 0)(0 := 1, 2 := 1)"

lemma example_inv: "tree_inv example_heap {} example_C example_R {}"
  unfolding tree_inv_def
proof (intro conjI allI impI)
  show "finite (dom example_heap)" by (simp add: example_heap_def)
  show "dir_ok example_heap d (example_C d)" if "example_heap d = Some n" "ntype n = LIBISO_DIR" for d n
    using that by (auto simp: example_heap_def example_C_def dir_ok_def new_node_def split: if_splits)
qed (auto simp: example_heap_def example_C_def example_R_def own_def new_node_def split: if_splits)

text \<open>
  C9: \<open>iso_dir_add_node\<close> is total and safe on a well-formed tree: it touches no freed memory, ends,
  and leaves a well-formed tree (sorted lists without duplicate names, matching parents and
  counts, every reference count exact).  Seen as a map from names to nodes the directory gets
  the new entry; the reference of the caller moves to the directory.  If the name is taken
  then the replace mode decides: either \<open>ISO_NODE_NAME_NOT_UNIQUE\<close> and nothing changes, or
  the old node gives way, and is freed if nobody else holds it.\<close>
theorem add_node_correct:
  assumes inv: "tree_inv h {} C R {}" and d: "h d = Some dn" "ntype dn = LIBISO_DIR"
    and c: "h c = Some cn" "parent cn = None" "c \<noteq> d"
    and above: "\<And>x. dir_map h (C d) (nname cn) = Some x \<Longrightarrow> \<exists>S. upclosed h S \<and> d \<in> S \<and> x \<notin> S"
  shows "\<exists>K r h' cs. (\<forall>k\<ge>K. iso_dir_add_node k h (Some d) (Some c) mode = Some (r, h')) \<and>
     (case dir_map h (C d) (nname cn) of
        None \<Rightarrow> r = Inr (int (length (C d)) + 1) \<and> tree_inv h' {} (C(d := cs)) (R(c := R c - 1)) {} \<and>
          dir_map h' cs = (dir_map h (C d))(nname cn \<mapsto> c)
      | Some x \<Rightarrow>
          if keeps_old mode (the (h x)) cn then r = Inl ISO_NODE_NAME_NOT_UNIQUE \<and> h' = h
          else r = Inr (int (length (C d))) \<and> tree_inv h' {} (C(d := cs)) (R(c := R c - 1)) {} \<and>
            dir_map h' cs = (dir_map h (C d))(nname cn \<mapsto> c) \<and> (R x = 0 \<longrightarrow> h' x = None))"
proof -
  define i where "i = name_pos h (C d) (nname cn)"
  have ok: "dir_ok h d (C d)" using tree_invD(3) [OF inv d(1)] d(2) by simp
  then have srt: "sorted_wrt (\<lambda>a b. name_at h a < name_at h b) (C d)" by (simp add: dir_ok_def)
  have nc: "name_at h c = nname cn" using c by (simp add: name_at_def)
  have ie: "i = length (takeWhile (\<lambda>x. name_at h x < nname cn) (C d))" by (simp add: i_def name_pos_def)
  have lo: "\<forall>x\<in>set (take i (C d)). name_at h x \<noteq> name_at h c"
    using takeWhile_sorted(1) [OF srt ie] unfolding nc by auto
  show ?thesis
  proof (cases "dir_map h (C d) (nname cn)")
    case None
    then obtain h' where h': "\<forall>k>length (C d). iso_dir_add_node k h (Some d) (Some c) mode = Some (Inr (int (Suc (length (C d)))), h')"
        "tree_inv h' {} (C(d := take i (C d) @ c # drop i (C d))) (R(c := R c - 1)) {}"
        "\<forall>y. name_at h' y = name_at h y"
      using add_new [OF inv d c _ i_def, of mode] unfolding dir_map_None by blast
    have "dir_map h' (take i (C d) @ c # drop i (C d)) = (dir_map h (C d))(nname cn \<mapsto> c)"
      using dir_map_mid(1) [OF lo, of "drop i (C d)"] dir_map_cong [of _ h' h] h'(3) nc by simp
    moreover have "\<forall>k\<ge>Suc (length (C d)). iso_dir_add_node k h (Some d) (Some c) mode = Some (Inr (int (length (C d)) + 1), h')"
      using h'(1) by (simp add: Suc_le_eq add.commute)
    ultimately show ?thesis using h'(2) unfolding None option.case by blast
  next
    case (Some x)
    then have xi: "i < length (C d)" "x = C d ! i" "name_at h x = nname cn"
      using dir_map_pos [OF ok i_def] by (auto split: if_splits)
    then have x: "x \<in> set (C d)" by simp
    then obtain xn where xn: "h x = Some xn" "nname xn = nname cn"
      using ok xi(3) by (auto simp: dir_ok_def name_at_def)
    show ?thesis
    proof (cases "keeps_old mode xn cn")
      case True
      have "chain h (children dn) (C d)" using ok d by (auto simp: dir_ok_def)
      then have rl: "read_link h (link_at (Children d) (C d) i) = Some (Some x)"
        using read_link_nth read_link_children d(1) xi by blast
      have "iso_dir_add_node k h (Some d) (Some c) mode = Some (Inl ISO_NODE_NAME_NOT_UNIQUE, h)"
        if "Suc (length (C d)) \<le> k" for k
      proof -
        have f: "iso_dir_find k h d (nname cn) = Some (link_at (Children d) (C d) i)"
          using iso_dir_find_pos [OF ok, of k] that unfolding i_def by simp
        have "iso_dir_insert k h d c (link_at (Children d) (C d) i) mode = Some (Inl ISO_NODE_NAME_NOT_UNIQUE, h)"
          using c(1) True xn rl by (simp add: iso_dir_insert_def)
        then show ?thesis using c f by (simp add: iso_dir_add_node_def)
      qed
      then show ?thesis unfolding Some option.case xn(1) option.sel if_P [OF True] by blast
    next
      case False
      obtain S where S: "upclosed h S" "d \<in> S" "x \<notin> S" using above [OF Some] by blast
      obtain K h' where "(\<forall>k\<ge>K. iso_dir_add_node k h (Some d) (Some c) mode = Some (Inr (int (length (C d))), h')) \<and>
          tree_inv h' {} (C(d := (C d)[i := c])) (R(c := R c - 1)) {} \<and>
          (R x = 0 \<longrightarrow> h' x = None) \<and> (\<forall>y\<in>set ((C d)[i := c]). name_at h' y = name_at h y)"
        using add_replace [OF inv d c x xn False i_def S] by (elim exE) (rule that)
      note h' = this [THEN conjunct1] this [THEN conjunct2, THEN conjunct1]
        this [THEN conjunct2, THEN conjunct2, THEN conjunct1] this [THEN conjunct2, THEN conjunct2, THEN conjunct2]
      have upd: "(C d)[i := c] = take i (C d) @ c # drop (Suc i) (C d)" using xi by (simp add: upd_conv_take_nth_drop)
      have "C d = take i (C d) @ x # drop (Suc i) (C d)" using xi by (simp add: id_take_nth_drop)
      then have "dir_map h ((C d)[i := c]) = (dir_map h (C d))(nname cn \<mapsto> c)"
        using dir_map_mid(3) [OF lo, of x "drop (Suc i) (C d)"] xi(3) nc unfolding upd by simp
      then have dm: "dir_map h' ((C d)[i := c]) = (dir_map h (C d))(nname cn \<mapsto> c)"
        using dir_map_cong h'(4) by metis
      show ?thesis unfolding Some option.case xn(1) option.sel if_not_P [OF False]
        by (intro exI conjI) (rule h'(1) refl h'(2) dm h'(3))+
    qed
  qed
qed

lemma add_node_correct_witness:
  "\<exists>K r h' cs. (\<forall>k\<ge>K. iso_dir_add_node k example_heap (Some 0) (Some 2) ISO_REPLACE_NEVER = Some (r, h')) \<and>
     r = Inr 2 \<and> tree_inv h' {} (example_C(0 := cs)) (example_R(2 := 0)) {} \<and>
     dir_map h' cs = [str ''b'' \<mapsto> 1, str ''a'' \<mapsto> 2]"
proof -
  have m: "dir_map example_heap (example_C 0) = [str ''b'' \<mapsto> 1]"
    by (simp add: dir_map_def example_heap_def example_C_def name_at_def new_node_def)
  have "dir_map example_heap (example_C 0) (str ''a'') = None" unfolding m by simp
  then show ?thesis
    using add_node_correct [OF example_inv, of 0 _ 2 "new_node LIBISO_FILE (str ''a'') None None None 0" ISO_REPLACE_NEVER] m
    by (simp add: example_heap_def new_node_def) (simp add: example_C_def example_R_def)
qed

end
