(* ===== verification/Node_Iter.thy ===== *)
theory Node_Iter
  imports Node_Add
begin

text \<open>
  Taking and removing nodes, and the directory iterators of \<open>libisofs/node.c\<close>, which hold
  references of their directory and of the node they point to and get told when that node
  is taken away.
\<close>

section \<open>Directory iterators\<close>

text \<open>An iterator with its \<open>dir_iter_data\<close>; \<open>it_next_called\<close> is bit 0 of the flag.\<close>

record dir_iter =
  it_dir :: ptr
  it_pos :: "ptr option"
  it_next_called :: bool

record tree_state =
  nodes :: heap
  iters :: "nat \<Rightarrow> dir_iter option"
  iter_reg :: "nat list"

text \<open>The search for the predecessor: \<open>Some (Some pre)\<close> if \<open>node\<close> was found.\<close>

fun find_pre :: "nat \<Rightarrow> heap \<Rightarrow> ptr \<Rightarrow> ptr option \<Rightarrow> ptr option \<Rightarrow> (ptr option) option option" where
  "find_pre 0 h node pos pre = None"
| "find_pre (Suc k) h node pos pre =
     (case pos of None \<Rightarrow> Some None
      | Some x \<Rightarrow> if x = node then Some (Some pre)
                  else do { n \<leftarrow> h x; find_pre k h node (next_node n) (Some x) })"

definition iter_notify_child_taken :: "nat \<Rightarrow> tree_state \<Rightarrow> nat \<Rightarrow> ptr \<Rightarrow> tree_state option" where
  "iter_notify_child_taken k s i node =
     do {
       it \<leftarrow> iters s i;
       (if it_pos it \<noteq> Some node then Some s
        else
          do {
            d \<leftarrow> nodes s (it_dir it);
            found \<leftarrow> find_pre k (nodes s) node (children d) None;
            (case found of
               None \<Rightarrow> Some s
             | Some pre \<Rightarrow>
                 do {
                   h \<leftarrow> iso_node_unref k (nodes s) node;
                   n \<leftarrow> h node;
                   (case pre of
                      None \<Rightarrow>
                        do {
                          h \<leftarrow> upd h (it_dir it) (\<lambda>d. d\<lparr>children := next_node n\<rparr>);
                          Some (s\<lparr>nodes := h, iters := (iters s)(i \<mapsto> it\<lparr>it_pos := None\<rparr>)\<rparr>)
                        }
                    | Some p \<Rightarrow>
                        do {
                          h \<leftarrow> upd h p (\<lambda>m. m\<lparr>next_node := next_node n\<rparr>);
                          h \<leftarrow> iso_node_ref h p;
                          Some (s\<lparr>nodes := h, iters := (iters s)(i \<mapsto> it\<lparr>it_pos := Some p\<rparr>)\<rparr>)
                        })
                 })
          })
     }"

text \<open>The loop of \<open>iso_notify_dir_iters\<close> over the rest of the registry.\<close>

fun notify_all :: "nat \<Rightarrow> tree_state \<Rightarrow> nat list \<Rightarrow> ptr \<Rightarrow> tree_state option" where
  "notify_all k s [] node = Some s"
| "notify_all k s (i # is) node =
     do {
       it \<leftarrow> iters s i;
       n \<leftarrow> nodes s node;
       s \<leftarrow> (if Some (it_dir it) = parent n then iter_notify_child_taken k s i node else Some s);
       notify_all k s is node
     }"

definition iso_notify_dir_iters :: "nat \<Rightarrow> tree_state \<Rightarrow> ptr \<Rightarrow> tree_state option" where
  "iso_notify_dir_iters k s node = notify_all k s (iter_reg s) node"

definition iso_node_take :: "nat \<Rightarrow> tree_state \<Rightarrow> ptr option \<Rightarrow> (unit res \<times> tree_state) option" where
  "iso_node_take k s node =
     (case node of None \<Rightarrow> Some (Inl ISO_NULL_POINTER, s)
      | Some c \<Rightarrow>
          do {
            n \<leftarrow> nodes s c;
            (case parent n of None \<Rightarrow> Some (Inl ISO_NODE_NOT_ADDED_TO_DIR, s)
             | Some dir \<Rightarrow>
                 do {
                   pos \<leftarrow> iso_dir_find_node k (nodes s) dir c;
                   s \<leftarrow> iso_notify_dir_iters k s c;
                   n \<leftarrow> nodes s c;
                   h \<leftarrow> write_link (nodes s) pos (next_node n);
                   h \<leftarrow> upd h c (\<lambda>n. n\<lparr>parent := None\<rparr>);
                   h \<leftarrow> upd h c (\<lambda>n. n\<lparr>next_node := None\<rparr>);
                   h \<leftarrow> upd h dir (\<lambda>d. d\<lparr>nchildren := nchildren d - 1\<rparr>);
                   Some (Inr (), s\<lparr>nodes := h\<rparr>)
                 })
          })"

definition iso_node_remove :: "nat \<Rightarrow> tree_state \<Rightarrow> ptr option \<Rightarrow> (unit res \<times> tree_state) option" where
  "iso_node_remove k s node =
     do {
       (ret, s) \<leftarrow> iso_node_take k s node;
       (case (ret, node) of
          (Inr _, Some c) \<Rightarrow> do { h \<leftarrow> iso_node_unref k (nodes s) c; Some (ret, s\<lparr>nodes := h\<rparr>) }
        | _ \<Rightarrow> Some (ret, s))
     }"

text \<open>
  \<open>iter_next\<close> in two parts: finding the next position, where the reference of the old one is
  released, and taking a reference of the new one.  The result \<open>Inr None\<close> is the return value
  0, \<open>Inr (Some p)\<close> is 1 with \<open>*node = p\<close>.
\<close>

definition iter_advance :: "nat \<Rightarrow> heap \<Rightarrow> dir_iter \<Rightarrow> (ptr option \<times> heap) res option" where
  "iter_advance k h it =
     (case it_pos it of
        None \<Rightarrow> do { d \<leftarrow> h (it_dir it); Some (Inr (children d, h)) }
      | Some p \<Rightarrow>
          do {
            n \<leftarrow> h p;
            (if parent n \<noteq> Some (it_dir it) then Some (Inl ISO_ERROR)
             else case next_node n of
               None \<Rightarrow> Some (Inr (None, h))
             | Some x \<Rightarrow> do { h \<leftarrow> iso_node_unref k h p; n \<leftarrow> h p; Some (Inr (next_node n, h)) })
          })"

definition iter_next :: "nat \<Rightarrow> tree_state \<Rightarrow> nat \<Rightarrow> ((ptr option) res \<times> tree_state) option" where
  "iter_next k s i =
     do {
       it \<leftarrow> iters s i;
       let s0 = s\<lparr>iters := (iters s)(i \<mapsto> it\<lparr>it_next_called := False\<rparr>)\<rparr>;
       adv \<leftarrow> iter_advance k (nodes s) it;
       (case adv of
          Inl e \<Rightarrow> Some (Inl e, s0)
        | Inr (None, h) \<Rightarrow> Some (Inr None, s0)
        | Inr (Some x, h) \<Rightarrow>
            do {
              h \<leftarrow> iso_node_ref h x;
              Some (Inr (Some x),
                s\<lparr>nodes := h, iters := (iters s)(i \<mapsto> it\<lparr>it_pos := Some x, it_next_called := True\<rparr>)\<rparr>)
            })
     }"

definition iter_has_next :: "tree_state \<Rightarrow> nat \<Rightarrow> bool option" where
  "iter_has_next s i =
     do {
       it \<leftarrow> iters s i;
       (case it_pos it of
          None \<Rightarrow> do { d \<leftarrow> nodes s (it_dir it); Some (children d \<noteq> None) }
        | Some p \<Rightarrow> do { n \<leftarrow> nodes s p; Some (next_node n \<noteq> None) })
     }"

definition iter_take :: "nat \<Rightarrow> tree_state \<Rightarrow> nat \<Rightarrow> (unit res \<times> tree_state) option" where
  "iter_take k s i =
     do {
       it \<leftarrow> iters s i;
       (if \<not> it_next_called it then Some (Inl ISO_ERROR, s)
        else if it_pos it = None then Some (Inl ISO_ASSERT_FAILURE, s)
        else iso_node_take k (s\<lparr>iters := (iters s)(i \<mapsto> it\<lparr>it_next_called := False\<rparr>)\<rparr>) (it_pos it))
     }"

definition iter_remove :: "nat \<Rightarrow> tree_state \<Rightarrow> nat \<Rightarrow> (unit res \<times> tree_state) option" where
  "iter_remove k s i =
     do {
       it \<leftarrow> iters s i;
       let pos = it_pos it;
       (ret, s) \<leftarrow> iter_take k s i;
       (case (ret, pos) of
          (Inr _, Some p) \<Rightarrow> do { h \<leftarrow> iso_node_unref k (nodes s) p; Some (ret, s\<lparr>nodes := h\<rparr>) }
        | _ \<Rightarrow> Some (ret, s))
     }"

definition iso_dir_iter_register :: "bool \<Rightarrow> tree_state \<Rightarrow> nat \<Rightarrow> unit res \<times> tree_state" where
  "iso_dir_iter_register mem s i =
     (if \<not> mem then (Inl ISO_OUT_OF_MEM, s) else (Inr (), s\<lparr>iter_reg := i # iter_reg s\<rparr>))"

definition iso_dir_iter_unregister :: "tree_state \<Rightarrow> nat \<Rightarrow> tree_state" where
  "iso_dir_iter_unregister s i = s\<lparr>iter_reg := remove1 i (iter_reg s)\<rparr>"

text \<open>\<open>i\<close> is the address of the new iterator, \<open>mem\<close> tells which allocations succeed.\<close>

definition iso_dir_get_children ::
  "(nat \<Rightarrow> bool) \<Rightarrow> tree_state \<Rightarrow> nat \<Rightarrow> ptr option \<Rightarrow> (unit res \<times> tree_state) option" where
  "iso_dir_get_children mem s i dir =
     (case dir of None \<Rightarrow> Some (Inl ISO_NULL_POINTER, s)
      | Some d \<Rightarrow>
          if \<not> mem 0 \<or> \<not> mem 1 then Some (Inl ISO_OUT_OF_MEM, s)
          else
            let it = \<lparr>it_dir = d, it_pos = None, it_next_called = False\<rparr>
            in case iso_dir_iter_register (mem 2) s i of
                 (Inl e, s) \<Rightarrow> Some (Inl e, s)
               | (Inr _, s) \<Rightarrow>
                   do {
                     h \<leftarrow> iso_node_ref (nodes s) d;
                     Some (Inr (), s\<lparr>nodes := h, iters := (iters s)(i \<mapsto> it)\<rparr>)
                   })"

definition iso_dir_iter_free :: "nat \<Rightarrow> tree_state \<Rightarrow> nat \<Rightarrow> tree_state option" where
  "iso_dir_iter_free k s i =
     do {
       it \<leftarrow> iters s i;
       let s = iso_dir_iter_unregister s i;
       h \<leftarrow> (case it_pos it of None \<Rightarrow> Some (nodes s) | Some p \<Rightarrow> iso_node_unref k (nodes s) p);
       h \<leftarrow> iso_node_unref k h (it_dir it);
       Some (s\<lparr>nodes := h, iters := (iters s)(i := None)\<rparr>)
     }"

text \<open>
  \<open>iso_node_remove_tree\<close> on a directory.  The loop over the children stands under the test
  \<open>type != LIBISO_DIR\<close> and so is not executed for directories; for other nodes the code reads
  the members of a directory that they do not have, which is \<open>None\<close> here.
\<close>

definition iso_node_remove_tree :: "nat \<Rightarrow> tree_state \<Rightarrow> ptr \<Rightarrow> nat option \<Rightarrow> (unit res \<times> tree_state) option" where
  "iso_node_remove_tree k s node boss_iter =
     do {
       n \<leftarrow> nodes s node;
       (if ntype n \<noteq> LIBISO_DIR then None
        else case boss_iter of
          Some i \<Rightarrow> iter_remove k s i
        | None \<Rightarrow> iso_node_remove k s (Some node))
     }"

text \<open>\<open>iso_node_set_name\<close>: the node gets taken and added again to stay in order.\<close>

definition iso_node_set_name :: "bool \<Rightarrow> nat \<Rightarrow> tree_state \<Rightarrow> ptr \<Rightarrow> cstring \<Rightarrow> (unit res \<times> tree_state) option" where
  "iso_node_set_name mem k s node name =
     do {
       n \<leftarrow> nodes s node;
       (if parent n = Some node then Some (Inl ISO_WRONG_ARG_VALUE, s)
        else case iso_node_is_valid_name (Some name) of
          Inl e \<Rightarrow> Some (Inl e, s)
        | Inr _ \<Rightarrow>
            do {
              found \<leftarrow> (case parent n of None \<Rightarrow> Some (Inr None)
                        | Some d \<Rightarrow> iso_dir_get_node k (nodes s) (Some d) (Some name));
              (if \<exists>x. found = Inr (Some x) then Some (Inl ISO_NODE_NAME_NOT_UNIQUE, s)
               else if \<not> mem then Some (Inl ISO_OUT_OF_MEM, s)
               else
                 do {
                   h \<leftarrow> upd (nodes s) node (\<lambda>n. n\<lparr>nname := name\<rparr>);
                   let s = s\<lparr>nodes := h\<rparr>;
                   (case parent n of None \<Rightarrow> Some (Inr (), s)
                    | Some d \<Rightarrow>
                        do {
                          (_, s) \<leftarrow> iso_node_take k s (Some node);
                          (r, h) \<leftarrow> iso_dir_add_node k (nodes s) (Some d) (Some node) ISO_REPLACE_NEVER;
                          Some (case r of Inl e \<Rightarrow> Inl e | Inr _ \<Rightarrow> Inr (), s\<lparr>nodes := h\<rparr>)
                        })
                 })
            })
     }"

section \<open>The invariant with iterators\<close>

text \<open>The references that registered iterators hold of a node.\<close>

definition it_refs1 :: "(nat \<Rightarrow> dir_iter option) \<Rightarrow> ptr \<Rightarrow> nat \<Rightarrow> nat" where
  "it_refs1 its p i = (case its i of None \<Rightarrow> 0 | Some it \<Rightarrow>
      (if it_dir it = p then 1 else 0) + (if it_pos it = Some p then 1 else 0))"

definition it_refs :: "(nat \<Rightarrow> dir_iter option) \<Rightarrow> nat list \<Rightarrow> ptr \<Rightarrow> nat" where
  "it_refs its reg p = sum_list (map (it_refs1 its p) reg)"

definition tree_ok :: "tree_state \<Rightarrow> (ptr \<Rightarrow> ptr list) \<Rightarrow> (ptr \<Rightarrow> nat) \<Rightarrow> bool" where
  "tree_ok s C E \<longleftrightarrow>
     tree_inv (nodes s) {} C (\<lambda>p. E p + it_refs (iters s) (iter_reg s) p) {} \<and>
     distinct (iter_reg s) \<and>
     (\<forall>i\<in>set (iter_reg s). \<exists>it n. iters s i = Some it \<and> nodes s (it_dir it) = Some n \<and> ntype n = LIBISO_DIR)"

lemma tree_okD:
  assumes "tree_ok s C E"
  shows "tree_inv (nodes s) {} C (\<lambda>p. E p + it_refs (iters s) (iter_reg s) p) {}" "distinct (iter_reg s)"
    "\<And>i. i \<in> set (iter_reg s) \<Longrightarrow> \<exists>it n. iters s i = Some it \<and> nodes s (it_dir it) = Some n \<and> ntype n = LIBISO_DIR"
  using assms by (auto simp: tree_ok_def)

lemma it_refs_upd:
  "distinct reg \<Longrightarrow> i \<in> set reg \<Longrightarrow> its i = Some it \<Longrightarrow>
     int (it_refs (its(i \<mapsto> it')) reg p) =
       int (it_refs its reg p) - int (it_refs1 its p i) + int (it_refs1 (its(i \<mapsto> it')) p i)"
proof -
  have "sum_list (map (it_refs1 (its(i \<mapsto> it')) p) xs) = sum_list (map (it_refs1 its p) xs)" if "i \<notin> set xs" for xs
    using that by (auto simp: it_refs1_def intro!: arg_cong [where f = sum_list])
  moreover assume "distinct reg" "i \<in> set reg"
  then obtain a b where r: "reg = a @ i # b" "i \<notin> set a" "i \<notin> set b" by (auto simp: in_set_conv_decomp)
  ultimately show ?thesis unfolding it_refs_def r(1) by simp
qed

lemma it_refs_member: "i \<in> set reg \<Longrightarrow> it_refs1 its p i \<le> it_refs its reg p"
  unfolding it_refs_def by (induction reg) auto

section \<open>Taking a node\<close>

text \<open>The predecessor of \<open>c\<close> in a list of children.\<close>

definition before :: "ptr list \<Rightarrow> ptr \<Rightarrow> ptr option" where
  "before cs c = (let j = length (takeWhile (\<lambda>x. x \<noteq> c) cs) in if j = 0 then None else Some (cs ! (j - 1)))"

lemma find_pre_chain:
  "chain h p xs \<Longrightarrow> length xs < k \<Longrightarrow>
     find_pre k h c p pre = Some (if c \<in> set xs then Some (case before xs c of None \<Rightarrow> pre | Some y \<Rightarrow> Some y) else None)"
proof (induction xs arbitrary: p pre k)
  case Nil
  then show ?case by (cases k) auto
next
  case (Cons x xs)
  then obtain n where n: "p = Some x" "h x = Some n" "chain h (next_node n) xs" by auto
  obtain k' where k: "k = Suc k'" "length xs < k'" using Cons.prems(2) by (cases k) auto
  show ?case
  proof (cases "x = c")
    case True
    then show ?thesis using n k by (simp add: before_def)
  next
    case False
    have "(case before xs c of None \<Rightarrow> Some x | Some y \<Rightarrow> Some y) = Some ((x # xs) ! length (takeWhile (\<lambda>x. x \<noteq> c) xs))"
      by (auto simp: before_def Let_def)
    then show ?thesis using Cons.IH [OF n(3) k(2), of "Some x"] n k False by (auto simp: before_def Let_def)
  qed
qed

text \<open>An iterator of directory \<open>d\<close> that points to \<open>c\<close>.\<close>

definition watches :: "tree_state \<Rightarrow> ptr \<Rightarrow> ptr \<Rightarrow> nat \<Rightarrow> bool" where
  "watches s d c i \<longleftrightarrow> (\<exists>it. iters s i = Some it \<and> it_dir it = d \<and> it_pos it = Some c)"

lemma notify_others:
  "(\<And>i. i \<in> set is \<Longrightarrow> iters s i \<noteq> None) \<Longrightarrow> nodes s c = Some cn \<Longrightarrow> parent cn = Some d \<Longrightarrow>
     (\<And>i. i \<in> set is \<Longrightarrow> \<not> watches s d c i) \<Longrightarrow> notify_all k s is c = Some s"
proof (induction "is")
  case (Cons i xs)
  obtain it where it: "iters s i = Some it" using Cons.prems(1) [of i] by auto
  have "it_dir it = d \<longrightarrow> it_pos it \<noteq> Some c" using Cons.prems(4) [of i] it by (auto simp: watches_def)
  then have "(if Some (it_dir it) = parent cn then iter_notify_child_taken k s i c else Some s) = Some s"
    using Cons.prems(3) it by (simp add: iter_notify_child_taken_def)
  then show ?case using Cons it by simp
qed simp

lemma notify_gone:
  "(\<And>i. i \<in> set is \<Longrightarrow> iters s i \<noteq> None) \<Longrightarrow> nodes s c = Some cn \<Longrightarrow> parent cn = Some d \<Longrightarrow>
     nodes s d = Some dn \<Longrightarrow> chain (nodes s) (children dn) cs \<Longrightarrow> c \<notin> set cs \<Longrightarrow> length cs < k \<Longrightarrow>
     notify_all k s is c = Some s"
proof (induction "is")
  case (Cons i xs)
  obtain it where it: "iters s i = Some it" using Cons.prems(1) [of i] by auto
  have "(if Some (it_dir it) = parent cn then iter_notify_child_taken k s i c else Some s) = Some s"
    using Cons.prems it find_pre_chain [of "nodes s" "children dn" cs k c None]
    by (simp add: iter_notify_child_taken_def)
  then show ?case using Cons it by simp
qed simp

lemma notify_append: "notify_all k s (xs @ ys) c = (case notify_all k s xs c of None \<Rightarrow> None | Some s' \<Rightarrow> notify_all k s' ys c)"
  by (induction xs arbitrary: s) (auto split: bind_splits option.split)

lemma remove1_mid: "distinct cs \<Longrightarrow> cs = xs @ c # ys \<Longrightarrow> remove1 c cs = xs @ ys"
  by (simp add: remove1_append)

lemma first_pos: "c \<in> set cs \<Longrightarrow> length (takeWhile (\<lambda>x. x \<noteq> c) cs) < length cs \<and> cs ! length (takeWhile (\<lambda>x. x \<noteq> c) cs) = c"
  by (induction cs) auto

text \<open>The heap after unlinking \<open>c\<close> from the list of \<open>d\<close>.\<close>

lemma unlink_inv:
  assumes inv: "tree_inv h {} C R {}" and c: "h c = Some cn" "parent cn = Some d" "d \<noteq> c"
    and j: "j = length (takeWhile (\<lambda>x. x \<noteq> c) (C d))"
    and w: "write_link h (link_at (Children d) (C d) j) (next_node cn) = Some h1"
    and d1: "h1 d = Some d1"
    and hf: "hf = h1(c \<mapsto> cn\<lparr>parent := None, next_node := None\<rparr>, d \<mapsto> d1\<lparr>nchildren := nchildren d1 - 1\<rparr>)"
  shows "tree_inv hf {} (C(d := remove1 c (C d))) (R(c := R c + 1)) {}"
    "\<exists>p. read_link h1 (Children d) = Some p \<and> chain h1 p (remove1 c (C d))" "h1 c = Some cn"
proof -
  note D = tree_invD [OF inv]
  define cs where "cs = C d"
  obtain dn where dn: "h d = Some dn" "ntype dn = LIBISO_DIR" "c \<in> set cs" using D(4) [OF c] by (auto simp: cs_def)
  have ok: "dir_ok h d cs" unfolding cs_def using D(3) dn by simp
  then have ch: "chain h (children dn) cs" "nchildren dn = int (length cs)" "distinct cs" "d \<notin> set cs"
    and srt: "sorted_wrt (\<lambda>a b. name_at h a < name_at h b) cs"
    using dn by (auto simp: dir_ok_def)
  have ji: "j < length cs" "cs ! j = c"
    using first_pos [OF dn(3)] by (auto simp: j cs_def)
  have dr: "drop j cs = c # drop (Suc j) cs" using ji by (simp add: Cons_nth_drop_Suc [symmetric])
  have csj: "cs = take j cs @ c # drop (Suc j) cs" using append_take_drop_id [of j cs] dr by simp
  have rm: "remove1 c cs = take j cs @ drop (Suc j) cs" by (rule remove1_mid [OF ch(3) csj])
  have dist: "c \<notin> set (take j cs)" "c \<notin> set (drop (Suc j) cs)" "set (take j cs) \<inter> set (drop (Suc j) cs) = {}"
    using ch(3) csj by (metis distinct.simps(2) distinct_append Int_iff list.set_intros(1) empty_iff,
      metis distinct.simps(2) distinct_append, metis set_take_disj_set_drop_if_distinct le_SucI order_refl ch(3))
  have sub: "set (take j cs) \<subseteq> set cs" "set (drop (Suc j) cs) \<subseteq> set cs"
    by (rule set_take_subset, rule set_drop_subset)
  let ?l = "link_at (Children d) cs j"
  have pl: "place ?l \<in> insert d (set (take j cs))"
    using ji(1) by (cases j) (auto simp: link_at_def place_def take_Suc_conv_app_nth)
  have w: "write_link h ?l (next_node cn) = Some h1" using w by (simp add: cs_def)
  note W = write_link_eq [OF w, where g = h, OF refl]
  have h1: "h1 x = h x" if "x \<notin> insert d (set (take j cs))" for x using W(2) that pl by metis
  show h1c: "h1 c = Some cn" using h1 [of c] dist(1) c by simp
  have chx: "chain h (next_node cn) (drop (Suc j) cs)"
    using read_link_at [OF ch(1) read_link_children [of h d dn], of j] dn(1) ji(1) c(1) by (auto simp: dr)
  have "chain h1 (next_node cn) (drop (Suc j) cs)"
  proof (rule chain_cong [OF chx])
    fix x assume "x \<in> set (drop (Suc j) cs)"
    then have "x \<notin> insert d (set (take j cs))" using dist(3) sub ch(4) by blast
    from h1 [OF this] show "map_option next_node (h1 x) = map_option next_node (h x)" by (rule arg_cong)
  qed
  moreover have rl: "read_link h (Children d) = Some (children dn)" using dn(1) by (simp add: read_link_def)
  ultimately have sp: "\<exists>p. read_link h1 (Children d) = Some p \<and> chain h1 p (take j cs @ drop (Suc j) cs)"
    using ji(1) by (intro splice [OF w _ ch(1) rl ch(3)]) simp_all
  then show "\<exists>p. read_link h1 (Children d) = Some p \<and> chain h1 p (remove1 c (C d))"
    using ji(1) by (simp add: cs_def [symmetric] rm)
  then obtain p where p: "read_link h1 (Children d) = Some p" "chain h1 p (remove1 c cs)" by (auto simp: cs_def)
  have hfx: "hf x = h1 x" if "x \<noteq> c" "x \<noteq> d" for x using that by (simp add: hf)
  have v: "map_option (\<lambda>n. (ntype n, refcount n, nname n)) (hf x) = map_option (\<lambda>n. (ntype n, refcount n, nname n)) (h x)"
    "map_option parent (hf x) = (if x = c then Some None else map_option parent (h x))" for x
    using W(3) [of x] d1 c by (cases "h1 x"; cases "h x"; auto simp: hf)+
  have nm: "name_at hf x = name_at h x" for x using v(1) [of x] by (cases "hf x"; cases "h x") (auto simp: name_at_def)
  have rest: "set (remove1 c cs) = set cs - {c}" using ch(3) by simp
  have nd: "nchildren d1 = int (length cs)" using W(3) [of d] dn(1) d1 ch(2) by auto
  have dir: "dir_ok hf d (remove1 c cs)"
    unfolding dir_ok_def
  proof (intro conjI)
    have "chain hf p (remove1 c cs)"
    proof (rule chain_cong [OF p(2)])
      fix x assume "x \<in> set (remove1 c cs)"
      then have "x \<noteq> c" "x \<noteq> d" using rest ch(4) by auto
      then show "map_option next_node (hf x) = map_option next_node (h1 x)" by (simp add: hfx)
    qed
    moreover have "children d1 = p" using p(1) d1 by (simp add: read_link_def)
    ultimately show "\<exists>n. hf d = Some n \<and> chain hf (children n) (remove1 c cs) \<and> nchildren n = int (length (remove1 c cs))"
      using nd dn(3) c(3) length_pos_if_in_set [OF dn(3)] by (simp add: hf length_remove1 of_nat_diff Suc_le_eq)
    show "\<forall>x\<in>set (remove1 c cs). \<exists>m. hf x = Some m \<and> parent m = Some d"
    proof
      fix x assume "x \<in> set (remove1 c cs)"
      then have "x \<noteq> c" "map_option parent (h x) = Some (Some d)" using rest ok by (auto simp: dir_ok_def)
      then show "\<exists>m. hf x = Some m \<and> parent m = Some d" using v(2) [of x] by (cases "hf x") auto
    qed
    have "sorted_wrt (\<lambda>a b. name_at h a < name_at h b) (take j cs @ c # drop (Suc j) cs)"
      using srt csj by simp
    then have "sorted_wrt (\<lambda>a b. name_at h a < name_at h b) (remove1 c cs)"
      unfolding rm by (simp add: sorted_wrt_append)
    then show "sorted_wrt (\<lambda>a b. name_at hf a < name_at hf b) (remove1 c cs)" by (simp add: nm)
  qed (use ch rest in auto)
  show "tree_inv hf {} (C(d := remove1 c (C d))) (R(c := R c + 1)) {}"
    unfolding cs_def [symmetric]
  proof (rule tree_inv_relink [OF inv _ _ dn(1,2)])
    show "dir_ok hf d (remove1 c cs)" by (rule dir)
    show "map_option (\<lambda>n. (ntype n, refcount n)) (hf x) = map_option (\<lambda>n. (ntype n, refcount n)) (h x)" for x
      using v(1) [of x] by (cases "hf x"; cases "h x") auto
    show "map_option as_dir (hf e) = map_option as_dir (h e)" if "e \<noteq> d" for e
    proof (cases "e = c")
      case True
      then show ?thesis using c that by (simp add: hf as_dir_def)
    next
      case False
      have "?l \<noteq> Children e" using that by (cases j) (simp_all add: link_at_def)
      then show ?thesis using W(5) [of e] False that by (simp add: hf)
    qed
    show "map_option as_child (hf x) = map_option as_child (h x)" if "x \<notin> set cs" for x
    proof -
      have "?l \<noteq> Next x" using pl that sub ch(4) ji(1) by (cases j) (auto simp: link_at_def place_def)
      then have "map_option as_child (h1 x) = map_option as_child (h x)" using W(4) [of x] by blast
      moreover have "x \<noteq> c" using that dn(3) by auto
      ultimately show ?thesis using d1 by (auto simp: hf as_child_def)
    qed
    show "parent n = None \<or> parent n = Some d" if "x \<in> set cs" "h x = Some n" for x n
      using that ok by (auto simp: dir_ok_def)
    then show "parent n = None \<or> parent n = Some d" if "x \<in> set cs" "hf x = Some n" for x n
      using that v(2) [of x] by (cases "h x") (auto split: if_splits)
    show "x \<in> set (remove1 c cs)" if "hf x = Some n" "parent n = Some d" "x \<noteq> d" for x n
    proof -
      have "x \<noteq> c" using that v(2) [of x] by auto
      moreover from this have "map_option parent (h x) = Some (Some d)" using that v(2) [of x] by auto
      ultimately show ?thesis using D(4) [of x _ d] that(3) rest by (auto simp: cs_def map_option_eq_Some)
    qed
    have "own h c = 1" using c by (simp add: own_def)
    moreover have "own hf x = (if x = c then 0 else own h x)" for x
      using v(2) [of x] c by (cases "hf x"; cases "h x") (auto simp: own_def split: if_splits)
    ultimately show "int ((R(c := R c + 1)) x) + own hf x = int (R x) + own h x" for x by auto
    show "(R(c := R c + 1)) x = 0" if "h x = None" for x using D(8) that c by auto
  qed simp_all
qed

text \<open>What happens to the iterators: the first one that points to the node steps back.\<close>

definition stepped :: "tree_state \<Rightarrow> ptr \<Rightarrow> ptr \<Rightarrow> ptr option \<Rightarrow> nat \<Rightarrow> dir_iter option" where
  "stepped s d c pre =
     (case List.find (watches s d c) (iter_reg s) of
        None \<Rightarrow> iters s
      | Some i \<Rightarrow> (iters s)(i \<mapsto> (the (iters s i))\<lparr>it_pos := pre\<rparr>))"

lemma find_split:
  "List.find P xs = Some x \<Longrightarrow> \<exists>a b. xs = a @ x # b \<and> P x \<and> (\<forall>y\<in>set a. \<not> P y)"
  by (induction xs) (auto split: if_splits, (metis append_Nil empty_iff list.set(1)), (metis append_Cons set_ConsD))

lemma node_upd_swap:
  "iso_node_ref h p = (case h p of None \<Rightarrow> None | Some n \<Rightarrow> Some (h(p \<mapsto> n\<lparr>refcount := refcount n + 1\<rparr>)))"
  by (simp add: iso_node_ref_def upd_def)

lemma unref_shared:
  "h p = Some n \<Longrightarrow> refcount n \<noteq> 1 \<Longrightarrow> iso_node_unref (Suc k) h p = Some (h(p \<mapsto> n\<lparr>refcount := refcount n - 1\<rparr>))"
  by simp

text \<open>
  The heap after the notification of the first watching iterator: the node is unlinked, its
  count is lower by one, and the predecessor has one reference more.
\<close>

definition notified :: "heap \<Rightarrow> ptr \<Rightarrow> iso_node \<Rightarrow> ptr option \<Rightarrow> heap" where
  "notified h1 c cn pre =
     (let h2 = h1(c \<mapsto> cn\<lparr>refcount := refcount cn - 1\<rparr>)
      in case pre of None \<Rightarrow> h2
         | Some p \<Rightarrow> h2(p := map_option (\<lambda>n. n\<lparr>refcount := refcount n + 1\<rparr>) (h2 p)))"

lemma link_before: "c \<in> set cs \<Longrightarrow> link_at (Children d) cs (length (takeWhile (\<lambda>x. x \<noteq> c) cs)) =
    (case before cs c of None \<Rightarrow> Children d | Some p \<Rightarrow> Next p)"
  by (simp add: before_def link_at_def Let_def)

lemma before_props:
  assumes "before cs c = Some p" "c \<in> set cs"
  shows "p \<in> set cs" "p \<noteq> c"
proof -
  define j where "j = length (takeWhile (\<lambda>x. x \<noteq> c) cs)"
  have j: "j < length cs" "0 < j" "p = cs ! (j - 1)"
    using assms first_pos [OF assms(2)] by (auto simp: before_def Let_def j_def split: if_splits)
  then show "p \<in> set cs" by simp
  have "takeWhile (\<lambda>x. x \<noteq> c) cs ! (j - 1) = p"
    using j by (simp add: takeWhile_nth j_def)
  then have "p \<in> set (takeWhile (\<lambda>x. x \<noteq> c) cs)" using j by (metis j_def nth_mem diff_less less_numeral_extra(1))
  then show "p \<noteq> c" by (auto dest: set_takeWhileD)
qed

lemma notify_first:
  assumes it: "iters s i = Some it" "it_dir it = d" "it_pos it = Some c"
    and c: "nodes s c = Some cn" "refcount cn \<noteq> 1" "c \<noteq> d"
    and d: "nodes s d = Some dn" "chain (nodes s) (children dn) cs" "c \<in> set cs" "d \<notin> set cs"
    and w: "write_link (nodes s) (link_at (Children d) cs (length (takeWhile (\<lambda>x. x \<noteq> c) cs))) (next_node cn) = Some h1"
    and k: "length cs < k"
  shows "iter_notify_child_taken k s i c =
      Some (s\<lparr>nodes := notified h1 c cn (before cs c), iters := (iters s)(i \<mapsto> it\<lparr>it_pos := before cs c\<rparr>)\<rparr>)"
proof -
  obtain k' where k': "k = Suc k'" using k by (cases k) auto
  have fp: "find_pre k (nodes s) c (children dn) None = Some (Some (before cs c))"
    using find_pre_chain [OF d(2) k, of c None] d(3) by (auto split: option.splits)
  have u: "iso_node_unref k (nodes s) c = Some ((nodes s)(c \<mapsto> cn\<lparr>refcount := refcount cn - 1\<rparr>))"
    unfolding k' using c(1,2) by (rule unref_shared)
  show ?thesis
  proof (cases "before cs c")
    case None
    then have "h1 = (nodes s)(d \<mapsto> dn\<lparr>children := next_node cn\<rparr>)"
      using w d(1) unfolding link_before [OF d(3)] by (simp add: write_link_def)
    then show ?thesis
      using it d(1) fp u None c by (simp add: iter_notify_child_taken_def notified_def fun_upd_twist)
  next
    case (Some p)
    have p: "p \<in> set cs" "p \<noteq> c" using before_props [OF Some d(3)] by auto
    obtain pn where pn: "nodes s p = Some pn"
      using w unfolding link_before [OF d(3)] Some by (auto simp: write_link_def split: option.splits)
    have "h1 = (nodes s)(p \<mapsto> pn\<lparr>next_node := next_node cn\<rparr>)"
      using w pn unfolding link_before [OF d(3)] Some by (simp add: write_link_def)
    then show ?thesis
      using it d(1) fp u Some p c pn
      by (simp add: iter_notify_child_taken_def notified_def node_upd_swap fun_upd_twist Let_def)
  qed
qed

lemma write_read_same: "read_link g l = Some v \<Longrightarrow> write_link g l v = Some g"
  by (auto simp: read_link_def write_link_def fun_upd_idem split: link.splits)

lemma iters_ok_mono:
  assumes "\<And>i. i \<in> set reg \<Longrightarrow> \<exists>it n. its i = Some it \<and> h (it_dir it) = Some n \<and> ntype n = LIBISO_DIR"
    and "\<And>x. map_option ntype (h' x) = map_option ntype (h x)" and "i \<in> set reg"
  shows "\<exists>it n. its i = Some it \<and> h' (it_dir it) = Some n \<and> ntype n = LIBISO_DIR"
proof -
  obtain it n where n: "its i = Some it" "h (it_dir it) = Some n" "ntype n = LIBISO_DIR" using assms(1,3) by blast
  then show ?thesis using assms(2) [of "it_dir it"] by (cases "h' (it_dir it)") auto
qed

lemma take_ok:
  assumes ok: "tree_ok s C E" and c: "nodes s c = Some cn" "parent cn = Some d" "d \<noteq> c"
  shows "\<exists>s'. (\<forall>k>length (C d). iso_node_take k s (Some c) = Some (Inr (), s')) \<and>
     tree_ok s' (C(d := remove1 c (C d))) (E(c := E c + 1)) \<and>
     iter_reg s' = iter_reg s \<and> iters s' = stepped s d c (before (C d) c) \<and>
     (\<exists>n. nodes s' c = Some n \<and> parent n = None)"
proof -
  note T = tree_okD [OF ok]
  define R where "R = (\<lambda>p. E p + it_refs (iters s) (iter_reg s) p)"
  have inv: "tree_inv (nodes s) {} C R {}" using T(1) by (simp add: R_def)
  note D = tree_invD [OF inv]
  define cs where "cs = C d"
  obtain dn where dn: "nodes s d = Some dn" "ntype dn = LIBISO_DIR" "c \<in> set cs" using D(4) [OF c] by (auto simp: cs_def)
  have dok: "dir_ok (nodes s) d cs" unfolding cs_def using D(3) dn by simp
  then have ch: "chain (nodes s) (children dn) cs" "distinct cs" "d \<notin> set cs" using dn by (auto simp: dir_ok_def)
  define j where "j = length (takeWhile (\<lambda>x. x \<noteq> c) cs)"
  let ?l = "link_at (Children d) cs j"
  have l: "?l = (case before cs c of None \<Rightarrow> Children d | Some p \<Rightarrow> Next p)"
    unfolding j_def by (rule link_before [OF dn(3)])
  have "place ?l \<in> dom (nodes s)"
  proof (cases "before cs c")
    case None
    then show ?thesis using dn(1) unfolding l by (auto simp: place_def)
  next
    case (Some p)
    then have "p \<in> set cs" using before_props(1) dn(3) by blast
    then show ?thesis using dok Some unfolding l by (auto simp: place_def dir_ok_def)
  qed
  then obtain h1 where w: "write_link (nodes s) ?l (next_node cn) = Some h1" using write_link_Some by blast
  note W = write_link_eq [OF w, where g = "nodes s", OF refl]
  obtain d1 where d1: "h1 d = Some d1" "ntype d1 = LIBISO_DIR" using W(3) [of d] dn by auto
  define hf where "hf = h1(c \<mapsto> cn\<lparr>parent := None, next_node := None\<rparr>, d \<mapsto> d1\<lparr>nchildren := nchildren d1 - 1\<rparr>)"
  note U = unlink_inv [OF inv c j_def [unfolded cs_def] w [unfolded cs_def] d1(1) hf_def, folded cs_def]
  have pos: "iso_dir_find_node k (nodes s) d c = Some ?l" if "length cs < k" for k
    unfolding iso_dir_find_node_def j_def
    using ch(1) read_link_children [of "nodes s" d dn] dn(1) that by (intro find_node_from_chain)
  have ty1: "map_option ntype (h1 x) = map_option ntype (nodes s x)" for x
    using W(3) [of x] by (cases "h1 x"; cases "nodes s x") simp_all
  have ty: "map_option ntype (hf x) = map_option ntype (nodes s x)" for x
    using ty1 [of x] ty1 [of c] ty1 [of d] U(3) d1(1) by (simp add: hf_def)
  show ?thesis
  proof (cases "List.find (watches s d c) (iter_reg s)")
    case None
    then have nw: "\<not> watches s d c i" if "i \<in> set (iter_reg s)" for i using that by (auto simp: find_None_iff)
    have "iters s i \<noteq> None" if "i \<in> set (iter_reg s)" for i using T(3) [OF that] by auto
    then have n: "iso_notify_dir_iters k s c = Some s" for k
      unfolding iso_notify_dir_iters_def using c nw by (intro notify_others)
    have "iso_node_take k s (Some c) = Some (Inr (), s\<lparr>nodes := hf\<rparr>)" if "length cs < k" for k
      using c pos [OF that] n w U(3) d1(1) by (simp add: iso_node_take_def hf_def)
    moreover have "(\<lambda>p. (E(c := E c + 1)) p + it_refs (iters s) (iter_reg s) p) = R(c := R c + 1)"
      by (auto simp: R_def)
    then have "tree_ok (s\<lparr>nodes := hf\<rparr>) (C(d := remove1 c cs)) (E(c := E c + 1))"
      unfolding tree_ok_def using U(1) T(2) iters_ok_mono [OF T(3) ty] by (intro conjI ballI) simp_all
    moreover have "iters (s\<lparr>nodes := hf\<rparr>) = stepped s d c (before (C d) c)" using None by (simp add: stepped_def)
    moreover have "iter_reg (s\<lparr>nodes := hf\<rparr>) = iter_reg s" by simp
    moreover have "\<exists>n. nodes (s\<lparr>nodes := hf\<rparr>) c = Some n \<and> parent n = None" using c(3) by (simp add: hf_def)
    ultimately show ?thesis unfolding cs_def by blast
  next
    case (Some i)
    obtain a b where reg: "iter_reg s = a @ i # b" "watches s d c i" "\<forall>y\<in>set a. \<not> watches s d c y"
      using find_split [OF Some] by blast
    obtain it where it: "iters s i = Some it" "it_dir it = d" "it_pos it = Some c" using reg(2) by (auto simp: watches_def)
    have some: "iters s y \<noteq> None" if "y \<in> set (iter_reg s)" for y using T(3) [OF that] by auto
    have "it_refs1 (iters s) c i \<le> it_refs (iters s) (iter_reg s) c" by (rule it_refs_member) (simp add: reg(1))
    then have Rc: "1 \<le> R c" using it c(3) by (simp add: R_def it_refs1_def)
    have "own (nodes s) c = 1" using c by (simp add: own_def)
    then have rc: "refcount cn \<noteq> 1" using D(6) [OF c(1)] Rc by simp
    define pre where "pre = before cs c"
    define g where "g = notified h1 c cn pre"
    define s1 where "s1 = s\<lparr>nodes := g, iters := (iters s)(i \<mapsto> it\<lparr>it_pos := pre\<rparr>)\<rparr>"
    have prep: "p \<in> set cs" "p \<noteq> c" "p \<noteq> d" if "pre = Some p" for p
      using before_props [OF that [unfolded pre_def] dn(3)] ch(3) by auto
    have gc: "g c = Some (cn\<lparr>refcount := refcount cn - 1\<rparr>)"
      using prep by (auto simp: g_def notified_def Let_def split: option.split)
    have gd: "g d = Some d1" using prep d1 c(3) by (auto simp: g_def notified_def Let_def split: option.split)
    have gn: "map_option next_node (g x) = map_option next_node (h1 x)" for x
      using prep U(3) by (auto simp: g_def notified_def Let_def option.map_comp o_def split: option.split)
    have gr: "read_link g ?l = Some (next_node cn)"
      using write_read_link [OF w] gn gd d1(1) unfolding l by (auto simp: read_link_def split: option.split)
    obtain p' where p': "read_link h1 (Children d) = Some p'" "chain h1 p' (remove1 c cs)" using U(2) by blast
    have chg: "chain g (children d1) (remove1 c cs)"
      using chain_cong [OF p'(2), of g] gn p'(1) d1(1) by (simp add: read_link_def)
    have n: "iso_notify_dir_iters k s c = Some s1" if k: "length cs < k" for k
    proof -
      have "notify_all k s a c = Some s"
        using some reg c by (intro notify_others) auto
      moreover have "iter_notify_child_taken k s i c = Some s1"
        unfolding s1_def g_def pre_def
        by (rule notify_first [OF it c(1) rc _ dn(1) ch(1) dn(3) ch(3) w [unfolded j_def] k]) (use c in simp)
      moreover have "notify_all k s1 b c = Some s1"
      proof (rule notify_gone)
        show "iters s1 y \<noteq> None" if "y \<in> set b" for y using some [of y] that reg(1) by (auto simp: s1_def)
        show "nodes s1 c = Some (cn\<lparr>refcount := refcount cn - 1\<rparr>)" using gc by (simp add: s1_def)
        show "parent (cn\<lparr>refcount := refcount cn - 1\<rparr>) = Some d" using c by simp
        show "nodes s1 d = Some d1" using gd by (simp add: s1_def)
        show "chain (nodes s1) (children d1) (remove1 c cs)" using chg by (simp add: s1_def)
        show "c \<notin> set (remove1 c cs)" using ch(2) by simp
        show "length (remove1 c cs) < k" using k by (auto simp: length_remove1)
      qed
      ultimately show ?thesis using it c by (simp add: iso_notify_dir_iters_def reg(1) notify_append)
    qed
    define ha where "ha = hf(c \<mapsto> (cn\<lparr>parent := None, next_node := None\<rparr>)\<lparr>refcount := refcount cn - 1\<rparr>)"
    have hfc: "hf c = Some (cn\<lparr>parent := None, next_node := None\<rparr>)" using c(3) by (simp add: hf_def)
    have inva: "tree_inv ha {} (C(d := remove1 c cs)) R {}"
      unfolding ha_def using tree_inv_refcount [OF U(1) _ hfc] rc by simp
    define gf where "gf = g(c \<mapsto> cn\<lparr>refcount := refcount cn - 1, parent := None, next_node := None\<rparr>,
        d \<mapsto> d1\<lparr>nchildren := nchildren d1 - 1\<rparr>)"
    have take: "iso_node_take k s (Some c) = Some (Inr (), s1\<lparr>nodes := gf\<rparr>)" if "length cs < k" for k
      using c pos [OF that] n [OF that] gc gd write_read_same [OF gr] by (simp add: iso_node_take_def s1_def gf_def)
    have refs: "int ((E(c := E c + 1)) q + it_refs (iters s1) (iter_reg s) q)
        = int (R q) + (if pre = Some q then 1 else 0)" for q
      using it_refs_upd [of "iter_reg s" i "iters s" it "it\<lparr>it_pos := pre\<rparr>" q] T(2) reg(1) it
        it_refs_member [of i "iter_reg s" "iters s" q]
      by (auto simp: R_def s1_def it_refs1_def)
    have invf: "tree_inv gf {} (C(d := remove1 c cs)) (\<lambda>q. (E(c := E c + 1)) q + it_refs (iters s1) (iter_reg s) q) {}"
    proof (cases pre)
      case None
      then have "gf = ha" using c(3) by (auto simp: gf_def ha_def hf_def g_def notified_def fun_eq_iff)
      moreover have "(E(c := E c + 1)) q + it_refs (iters s1) (iter_reg s) q = R q" for q
        using refs [of q] unfolding None by (simp only: option.distinct if_False add_0_right of_nat_eq_iff)
      ultimately show ?thesis using inva by simp
    next
      case (Some p)
      note pp = prep [OF Some]
      obtain pn where pn: "ha p = Some pn"
        using ty [of p] pp dok by (cases "hf p") (auto simp: ha_def dir_ok_def)
      have gf: "gf = ha(p \<mapsto> pn\<lparr>refcount := refcount pn + 1\<rparr>)"
        using pn pp c(3) Some by (auto simp: gf_def ha_def hf_def g_def notified_def fun_eq_iff)
      have eq: "(\<lambda>q. (E(c := E c + 1)) q + it_refs (iters s1) (iter_reg s) q) = R(p := R p + 1)"
      proof
        fix q
        show "(E(c := E c + 1)) q + it_refs (iters s1) (iter_reg s) q = (R(p := R p + 1)) q"
          using refs [of q] Some by (auto split: if_splits)
      qed
      show ?thesis unfolding gf eq by (rule tree_inv_incref [OF inva _ pn]) simp
    qed
    have ty': "map_option ntype (gf x) = map_option ntype (nodes s x)" for x
    proof -
      have "map_option ntype (gf x) = map_option ntype (g x)" using gc gd by (simp add: gf_def)
      also have "\<dots> = map_option ntype (h1 x)"
        using prep U(3) by (auto simp: g_def notified_def Let_def option.map_comp o_def split: option.split)
      also have "\<dots> = map_option ntype (nodes s x)"
        by (rule ty1)
      finally show ?thesis .
    qed
    have "tree_ok (s1\<lparr>nodes := gf\<rparr>) (C(d := remove1 c cs)) (E(c := E c + 1))"
      unfolding tree_ok_def
    proof (intro conjI ballI)
      fix y assume "y \<in> set (iter_reg (s1\<lparr>nodes := gf\<rparr>))"
      then obtain ity n where y: "iters s y = Some ity" "nodes s (it_dir ity) = Some n" "ntype n = LIBISO_DIR"
        using T(3) [of y] by (auto simp: s1_def)
      obtain ity' where "iters s1 y = Some ity'" "it_dir ity' = it_dir ity"
        using y it by (cases "y = i") (auto simp: s1_def)
      then show "\<exists>it n. iters (s1\<lparr>nodes := gf\<rparr>) y = Some it \<and> nodes (s1\<lparr>nodes := gf\<rparr>) (it_dir it) = Some n \<and> ntype n = LIBISO_DIR"
        using y ty' [of "it_dir ity"] by (cases "gf (it_dir ity)") auto
    qed (use invf T(2) in \<open>simp_all add: s1_def\<close>)
    moreover have "iters (s1\<lparr>nodes := gf\<rparr>) = stepped s d c (before (C d) c)"
      using Some it by (simp add: s1_def stepped_def pre_def cs_def)
    moreover have "iter_reg (s1\<lparr>nodes := gf\<rparr>) = iter_reg s" by (simp add: s1_def)
    moreover have "\<exists>n. nodes (s1\<lparr>nodes := gf\<rparr>) c = Some n \<and> parent n = None" using c(3) by (simp add: gf_def)
    ultimately show ?thesis using take unfolding cs_def by blast
  qed
qed

section \<open>Iterating\<close>

lemma tree_ok_reposition:
  assumes ok: "tree_ok s C E" and i: "i \<in> set (iter_reg s)" "iters s i = Some it"
    and inv: "tree_inv h {} C R' {}"
    and R': "\<And>q. int (R' q) = int (E q + it_refs (iters s) (iter_reg s) q)
        - (if it_pos it = Some q then 1 else 0) + (if pos = Some q then 1 else 0)"
    and ty: "\<And>x. map_option ntype (h x) = map_option ntype (nodes s x)"
  shows "tree_ok (s\<lparr>nodes := h, iters := (iters s)(i \<mapsto> it\<lparr>it_pos := pos, it_next_called := b\<rparr>)\<rparr>) C E"
proof -
  note T = tree_okD [OF ok]
  let ?it = "it\<lparr>it_pos := pos, it_next_called := b\<rparr>"
  have "int (E q + it_refs ((iters s)(i \<mapsto> ?it)) (iter_reg s) q) = int (R' q)" for q
    using it_refs_upd [of "iter_reg s" i "iters s" it ?it q] T(2) R' [of q] i by (auto simp: it_refs1_def)
  then have "(\<lambda>q. E q + it_refs ((iters s)(i \<mapsto> ?it)) (iter_reg s) q) = R'" by (intro ext) (simp only: of_nat_eq_iff)
  moreover have "\<exists>it n. ((iters s)(i \<mapsto> ?it)) y = Some it \<and> h (it_dir it) = Some n \<and> ntype n = LIBISO_DIR"
    if y: "y \<in> set (iter_reg s)" for y
  proof -
    obtain ity n where n: "iters s y = Some ity" "nodes s (it_dir ity) = Some n" "ntype n = LIBISO_DIR" using T(3) [OF y] by blast
    moreover from n obtain n' where "h (it_dir ity) = Some n'" "ntype n' = LIBISO_DIR"
      using ty [of "it_dir ity"] by (cases "h (it_dir ity)") auto
    ultimately show ?thesis using i(2) by (cases "y = i") auto
  qed
  ultimately show ?thesis using inv T(2) by (simp add: tree_ok_def)
qed

text \<open>What the next call returns, for an iterator on the list \<open>cs\<close> at a position.\<close>

definition after :: "ptr list \<Rightarrow> ptr option \<Rightarrow> ptr option" where
  "after cs pos =
     (case (case pos of None \<Rightarrow> cs | Some p \<Rightarrow> drop 1 (dropWhile (\<lambda>x. x \<noteq> p) cs)) of [] \<Rightarrow> None | x # _ \<Rightarrow> Some x)"

lemma after_mid: "distinct (xs @ p # ys) \<Longrightarrow> after (xs @ p # ys) (Some p) = (case ys of [] \<Rightarrow> None | x # _ \<Rightarrow> Some x)"
  by (simp add: after_def dropWhile_append)

lemma after_in: "after cs pos = Some x \<Longrightarrow> x \<in> set cs"
proof -
  have "x \<in> set (dropWhile P cs)" if "drop 1 (dropWhile P cs) = x # r" for P r
    using that by (metis in_set_dropD list.set_intros(1))
  then show "after cs pos = Some x \<Longrightarrow> x \<in> set cs"
    by (auto simp: after_def split: list.splits option.splits dest: set_dropWhileD)
qed

lemma chain_suffix: "chain h q (xs @ p # ys) \<Longrightarrow> h p = Some n \<Longrightarrow> chain h (next_node n) ys"
  by (induction xs arbitrary: q) auto

lemma chain_after:
  assumes ch: "chain h (children dn) cs" and p: "h p = Some n" "p \<in> set cs" and dist: "distinct cs"
  shows "next_node n = after cs (Some p)"
proof -
  obtain xs ys where cs: "cs = xs @ p # ys" using p(2) by (auto simp: in_set_conv_decomp)
  have "chain h (next_node n) ys" using ch p(1) unfolding cs by (rule chain_suffix)
  then have "next_node n = (case ys of [] \<Rightarrow> None | x # _ \<Rightarrow> Some x)" by (cases ys) auto
  then show ?thesis using after_mid dist cs by simp
qed

text \<open>The state after an iterator moved to \<open>x\<close>.\<close>

lemma iter_next_ok:
  assumes ok: "tree_ok s C E" and i: "i \<in> set (iter_reg s)" "iters s i = Some it"
    and pos: "\<And>p. it_pos it = Some p \<Longrightarrow> p \<in> set (C (it_dir it))"
  shows "\<exists>s'. (\<forall>k\<ge>1. iter_next k s i = Some (Inr (after (C (it_dir it)) (it_pos it)), s')) \<and> tree_ok s' C E \<and>
     iter_reg s' = iter_reg s \<and>
     (\<exists>b. iters s' i = Some (it\<lparr>it_pos := (case after (C (it_dir it)) (it_pos it) of None \<Rightarrow> it_pos it | x \<Rightarrow> x), it_next_called := b\<rparr>))"
proof -
  note T = tree_okD [OF ok]
  define R where "R = (\<lambda>p. E p + it_refs (iters s) (iter_reg s) p)"
  have inv: "tree_inv (nodes s) {} C R {}" using T(1) by (simp add: R_def)
  note D = tree_invD [OF inv]
  define d where "d = it_dir it"
  define cs where "cs = C d"
  obtain dn where dn: "nodes s d = Some dn" "ntype dn = LIBISO_DIR" using T(3) [OF i(1)] i(2) by (auto simp: d_def)
  have dok: "dir_ok (nodes s) d cs" unfolding cs_def using D(3) dn by simp
  then have ch: "chain (nodes s) (children dn) cs" "distinct cs" "d \<notin> set cs" using dn by (auto simp: dir_ok_def)
  have cn: "\<exists>n. nodes s x = Some n \<and> parent n = Some d" if "x \<in> set cs" for x using dok that by (auto simp: dir_ok_def)
  have mem: "it_pos it = Some p \<Longrightarrow> p \<in> set cs" for p using pos by (simp add: cs_def d_def)
  have Rp: "1 \<le> R p" if "it_pos it = Some p" for p
  proof -
    have "it_refs1 (iters s) p i \<le> it_refs (iters s) (iter_reg s) p" by (rule it_refs_member [OF i(1)])
    then show ?thesis using i(2) that by (simp add: R_def it_refs1_def)
  qed
  define s0 where "s0 = s\<lparr>iters := (iters s)(i \<mapsto> it\<lparr>it_next_called := False\<rparr>)\<rparr>"
  have adv: "\<exists>h. (\<forall>k\<ge>1. iter_advance k (nodes s) it = Some (Inr (after cs (it_pos it), h))) \<and>
      (after cs (it_pos it) \<noteq> None \<longrightarrow>
         tree_inv h {} C (\<lambda>q. R q - (if it_pos it = Some q then 1 else 0)) {} \<and>
         (\<forall>x. rel_option like (nodes s x) (h x)))"
  proof (cases "it_pos it")
    case None
    have "children dn = after cs None" using ch(1) by (cases cs) (auto simp: after_def)
    then show ?thesis using None inv dn(1) by (intro exI [of _ "nodes s"]) (auto intro: option.rel_refl simp: iter_advance_def d_def)
  next
    case (Some p)
    obtain n where n: "nodes s p = Some n" "parent n = Some d" using cn mem [OF Some] by blast
    have nx: "next_node n = after cs (Some p)" by (rule chain_after [OF ch(1) n(1) mem [OF Some] ch(2)])
    have "own (nodes s) p = 1" using n ch(3) mem [OF Some] by (auto simp: own_def)
    then have rc: "refcount n \<noteq> 1" using D(6) [OF n(1)] Rp [OF Some] by simp
    let ?h = "(nodes s)(p \<mapsto> n\<lparr>refcount := refcount n - 1\<rparr>)"
    have u: "iso_node_unref k (nodes s) p = Some ?h" if "1 \<le> k" for k
      using that rc n(1) by (cases k) simp_all
    show ?thesis
    proof (cases "after cs (Some p)")
      case None
      then show ?thesis using Some n nx by (intro exI [of _ "nodes s"]) (simp add: iter_advance_def d_def)
    next
      case (Some y)
      have "(\<lambda>q. R q - (if Some p = Some q then 1 else 0))(p := R p - 1 + 1) = R"
        using Rp [OF \<open>it_pos it = Some p\<close>] by auto
      then have "tree_inv ?h {} C (\<lambda>q. R q - (if it_pos it = Some q then 1 else 0)) {}"
        using inv rc n(1) \<open>it_pos it = Some p\<close> by (intro tree_inv_refcount) (auto simp: fun_upd_def)
      moreover have "rel_option like (nodes s x) (?h x)" for x using n(1) by (intro like_upd) (simp_all add: like_def cut_def)
      ultimately show ?thesis using \<open>it_pos it = Some p\<close> Some n nx u by (intro exI [of _ ?h]) (simp add: iter_advance_def d_def)
    qed
  qed
  then obtain h where h: "\<And>k. 1 \<le> k \<Longrightarrow> iter_advance k (nodes s) it = Some (Inr (after cs (it_pos it), h))"
      "after cs (it_pos it) \<noteq> None \<Longrightarrow> tree_inv h {} C (\<lambda>q. R q - (if it_pos it = Some q then 1 else 0)) {}"
      "after cs (it_pos it) \<noteq> None \<Longrightarrow> rel_option like (nodes s x) (h x)" for x
    by blast
  have nx: "iter_next k s i = (case after cs (it_pos it) of None \<Rightarrow> Some (Inr None, s0)
      | Some x \<Rightarrow> do { h \<leftarrow> iso_node_ref h x;
           Some (Inr (Some x), s\<lparr>nodes := h, iters := (iters s)(i \<mapsto> it\<lparr>it_pos := Some x, it_next_called := True\<rparr>)\<rparr>) })"
    if "1 \<le> k" for k
    using i(2) by (simp add: iter_next_def h(1) [OF that] Let_def s0_def split: option.split)
  show ?thesis
  proof (cases "after cs (it_pos it)")
    case None
    have "tree_ok (s\<lparr>nodes := nodes s, iters := (iters s)(i \<mapsto> it\<lparr>it_pos := it_pos it, it_next_called := False\<rparr>)\<rparr>) C E"
    proof (rule tree_ok_reposition [OF ok i inv])
      show "int (R q) = int (E q + it_refs (iters s) (iter_reg s) q)
          - (if it_pos it = Some q then 1 else 0) + (if it_pos it = Some q then 1 else 0)" for q
        unfolding R_def by simp
    qed simp
    then have "tree_ok s0 C E" by (simp add: s0_def)
    then show ?thesis using nx None unfolding d_def [symmetric] cs_def [symmetric]
      by (intro exI [of _ s0]) (auto simp: s0_def intro!: exI [of _ False])
  next
    case (Some x)
    have xcs: "x \<in> set cs" by (rule after_in [OF Some])
    obtain xn where xn: "nodes s x = Some xn" using cn [OF xcs] by blast
    then obtain xn' where xn': "h x = Some xn'" using h(3) [of x] Some by (cases "h x") auto
    define h2 where "h2 = h(x \<mapsto> xn'\<lparr>refcount := refcount xn' + 1\<rparr>)"
    have inv2: "tree_inv h2 {} C ((\<lambda>q. R q - (if it_pos it = Some q then 1 else 0))
        (x := R x - (if it_pos it = Some x then 1 else 0) + 1)) {}"
      unfolding h2_def by (rule tree_inv_incref [OF h(2) _ xn']) (simp_all add: Some)
    have "tree_ok (s\<lparr>nodes := h2, iters := (iters s)(i \<mapsto> it\<lparr>it_pos := Some x, it_next_called := True\<rparr>)\<rparr>) C E"
    proof (rule tree_ok_reposition [OF ok i inv2])
      fix q
      show "int (((\<lambda>q. R q - (if it_pos it = Some q then 1 else 0))(x := R x - (if it_pos it = Some x then 1 else 0) + 1)) q) =
         int (E q + it_refs (iters s) (iter_reg s) q) - (if it_pos it = Some q then 1 else 0) + (if Some x = Some q then 1 else 0)"
        using Rp [of q] by (auto simp: R_def)
      show "map_option ntype (h2 q) = map_option ntype (nodes s q)"
        using h(3) [of q] h(3) [of x] Some xn xn' likeD by (cases "h q"; cases "nodes s q") (auto simp: h2_def)
    qed
    then show ?thesis using nx Some xn' unfolding d_def [symmetric] cs_def [symmetric]
      by (intro exI [of _ "s\<lparr>nodes := h2, iters := (iters s)(i \<mapsto> it\<lparr>it_pos := Some x, it_next_called := True\<rparr>)\<rparr>"])
        (auto simp: s0_def iso_node_ref_def h2_def intro!: exI [of _ True])
  qed
qed

section \<open>Removing a node\<close>

lemma ntype_shrinks: "shrinks h h' \<Longrightarrow> h' x = Some n' \<Longrightarrow> \<exists>n. h x = Some n \<and> ntype n' = ntype n"
  by (fastforce simp: shrinks_def cut_def)

text \<open>Releasing a reference that a caller or an iterator holds.\<close>

lemma tree_ok_unref:
  assumes inv: "tree_inv h {} C R {}" and R: "R = (\<lambda>q. E q + it_refs its reg q + (if q = p then 1 else 0))"
    and its: "distinct reg" "\<And>i. i \<in> set reg \<Longrightarrow> \<exists>it n. its i = Some it \<and> h (it_dir it) = Some n \<and> ntype n = LIBISO_DIR"
  shows "\<exists>K h'. (\<forall>k\<ge>K. iso_node_unref k h p = Some h') \<and>
     tree_inv h' {} C (\<lambda>q. E q + it_refs its reg q) {} \<and> shrinks h h' \<and>
     (\<forall>i\<in>set reg. \<exists>it n. its i = Some it \<and> h' (it_dir it) = Some n \<and> ntype n = LIBISO_DIR) \<and>
     (\<forall>q n. h q = Some n \<longrightarrow> 0 < E q \<longrightarrow> ntype n = LIBISO_DIR \<longrightarrow> (\<exists>n'. h' q = Some n' \<and> ntype n' = LIBISO_DIR))"
proof -
  let ?R = "\<lambda>q. E q + it_refs its reg q"
  have Rp: "R = ?R(p := ?R p + 1)" by (auto simp: R)
  have "p \<in> dom h"
  proof (rule ccontr)
    assume "p \<notin> dom h"
    then have "h p = None" by (simp add: domIff)
    then have "R p = 0" by (rule tree_invD(8) [OF inv])
    then show False by (simp add: R)
  qed
  then obtain K h' where h': "\<forall>k\<ge>K. iso_node_unref k h p = Some h'" "tree_inv h' {} C ?R {}" "shrinks h h'"
    using unref_ok [OF inv [unfolded Rp]] by (auto simp: upclosed_def)
  have keep: "\<exists>n'. h' q = Some n' \<and> ntype n' = ntype n" if q: "h q = Some n" "0 < ?R q" for q n
  proof -
    obtain n' where "h' q = Some n'" using tree_invD(8) [OF h'(2), of q] q(2) by (cases "h' q") auto
    then show ?thesis using ntype_shrinks [OF h'(3)] q(1) by fastforce
  qed
  have "\<exists>it n. its i = Some it \<and> h' (it_dir it) = Some n \<and> ntype n = LIBISO_DIR" if i: "i \<in> set reg" for i
  proof -
    obtain it n where n: "its i = Some it" "h (it_dir it) = Some n" "ntype n = LIBISO_DIR" using its(2) [OF i] by blast
    have "it_refs1 its (it_dir it) i \<le> it_refs its reg (it_dir it)" by (rule it_refs_member [OF i])
    then have "0 < ?R (it_dir it)" using n(1) by (simp add: it_refs1_def)
    then show ?thesis using keep [OF n(2)] n by auto
  qed
  moreover have "\<exists>n'. h' q = Some n' \<and> ntype n' = LIBISO_DIR" if "h q = Some n" "0 < E q" "ntype n = LIBISO_DIR" for q n
    using keep [OF that(1)] that by auto
  ultimately show ?thesis using h' by blast
qed

text \<open>
  C10: \<open>iso_node_remove\<close> on a node of a well-formed tree: without a parent directory it fails and
  changes nothing; else it ends without touching freed memory, unlinks the node and releases
  the reference of the directory, so that all reference counts stay exact; the node is freed
  exactly if no caller and no iterator holds it any more.\<close>
theorem node_remove_correct:
  assumes ok: "tree_ok s C E" and c: "nodes s c = Some cn" "parent cn \<noteq> Some c"
  shows "case parent cn of
      None \<Rightarrow> \<forall>k. iso_node_remove k s (Some c) = Some (Inl ISO_NODE_NOT_ADDED_TO_DIR, s)
    | Some d \<Rightarrow> \<exists>K s'. (\<forall>k\<ge>K. iso_node_remove k s (Some c) = Some (Inr (), s')) \<and>
        tree_ok s' (C(d := remove1 c (C d))) E \<and>
        (nodes s' c = None \<longleftrightarrow> E c + it_refs (iters s') (iter_reg s') c = 0)"
proof (cases "parent cn")
  case None
  then show ?thesis using c by (simp add: iso_node_remove_def iso_node_take_def)
next
  case (Some d)
  let ?C = "C(d := remove1 c (C d))"
  obtain s1 where s1: "\<And>k. length (C d) < k \<Longrightarrow> iso_node_take k s (Some c) = Some (Inr (), s1)"
      "tree_ok s1 ?C (E(c := E c + 1))" "\<exists>n. nodes s1 c = Some n \<and> parent n = None"
    using take_ok [OF ok c(1) Some] c(2) Some by blast
  note T = tree_okD [OF s1(2)]
  have "(\<lambda>q. (E(c := E c + 1)) q + it_refs (iters s1) (iter_reg s1) q)
      = (\<lambda>q. E q + it_refs (iters s1) (iter_reg s1) q + (if q = c then 1 else 0))" by auto
  from tree_ok_unref [OF T(1) this T(2,3)]
  obtain K h' where h': "\<forall>k\<ge>K. iso_node_unref k (nodes s1) c = Some h'"
      "tree_inv h' {} ?C (\<lambda>q. E q + it_refs (iters s1) (iter_reg s1) q) {}" "shrinks (nodes s1) h'"
      "\<forall>i\<in>set (iter_reg s1). \<exists>it n. iters s1 i = Some it \<and> h' (it_dir it) = Some n \<and> ntype n = LIBISO_DIR"
    by blast
  define s' where "s' = s1\<lparr>nodes := h'\<rparr>"
  have ok': "tree_ok s' ?C E" using h' T(2) by (simp add: tree_ok_def s'_def)
  have "own h' c = 0"
  proof (cases "h' c")
    case (Some n)
    have "parent n = None"
    proof (cases "parent n")
      case (Some q)
      then show ?thesis using shrinks_parent [OF h'(3) \<open>h' c = Some n\<close> Some] s1(3) by auto
    qed
    then show ?thesis using Some by (simp add: own_def)
  qed (simp add: own_def)
  then have "nodes s' c = None \<longleftrightarrow> E c + it_refs (iters s') (iter_reg s') c = 0"
    using tree_invD(6,7,8) [OF h'(2), of c] by (cases "h' c") (auto simp: s'_def)
  moreover have "\<forall>k\<ge>max K (Suc (length (C d))). iso_node_remove k s (Some c) = Some (Inr (), s')"
    using s1(1) h'(1) by (simp add: iso_node_remove_def s'_def)
  ultimately show ?thesis using ok' unfolding Some option.case by (intro exI conjI)
qed

section \<open>Complete iterations\<close>

text \<open>A loop over \<open>iso_dir_iter_next\<close> as the callers write it.\<close>

fun iterate :: "nat \<Rightarrow> tree_state \<Rightarrow> nat \<Rightarrow> (ptr list \<times> tree_state) option" where
  "iterate 0 s i = None"
| "iterate (Suc k) s i =
     do {
       (r, s) \<leftarrow> iter_next (Suc k) s i;
       (case r of
          Inr (Some x) \<Rightarrow> do { (xs, s) \<leftarrow> iterate k s i; Some (x # xs, s) }
        | _ \<Rightarrow> Some ([], s))
     }"

lemma iterate_rest:
  assumes "C d = xs @ ys" "distinct (C d)" "tree_ok s C E" "i \<in> set (iter_reg s)" "iters s i = Some it" "it_dir it = d"
    and "it_pos it = (if xs = [] then None else Some (last xs))" "length ys < k"
  shows "\<exists>s'. (\<forall>k>length ys. iterate k s i = Some (ys, s')) \<and> tree_ok s' C E \<and> iter_reg s' = iter_reg s \<and>
     (\<exists>it'. iters s' i = Some it' \<and> it_dir it' = d)"
  using assms
proof (induction ys arbitrary: xs s it k)
  case Nil
  have a: "after (C (it_dir it)) (it_pos it) = None"
    using Nil.prems by (cases xs rule: rev_cases) (auto simp: after_def dropWhile_append)
  obtain s' where s': "\<forall>k\<ge>1. iter_next k s i = Some (Inr None, s')" "tree_ok s' C E" "iter_reg s' = iter_reg s"
      "\<exists>b. iters s' i = Some (it\<lparr>it_pos := it_pos it, it_next_called := b\<rparr>)"
    using iter_next_ok [OF Nil.prems(3-5)] Nil.prems(1,6,7) unfolding a by (auto split: if_splits)
  then have "iterate k s i = Some ([], s')" if "0 < k" for k using that by (cases k) simp_all
  then show ?case using s' Nil.prems(6) by auto
next
  case (Cons y ys)
  have a: "after (C (it_dir it)) (it_pos it) = Some y"
  proof (cases xs rule: rev_cases)
    case Nil
    then show ?thesis using Cons.prems by (simp add: after_def)
  next
    case (snoc zs z)
    then show ?thesis using Cons.prems after_mid [of zs z "y # ys"] by simp
  qed
  have mem: "it_pos it = Some p \<Longrightarrow> p \<in> set (C (it_dir it))" for p
    using Cons.prems(1,6,7) by (auto split: if_splits)
  obtain s1 b where s1: "\<forall>k\<ge>1. iter_next k s i = Some (Inr (Some y), s1)" "tree_ok s1 C E" "iter_reg s1 = iter_reg s"
      "iters s1 i = Some (it\<lparr>it_pos := Some y, it_next_called := b\<rparr>)"
    using iter_next_ok [OF Cons.prems(3-5) mem] unfolding a by auto
  obtain s' where s': "\<forall>k>length ys. iterate k s1 i = Some (ys, s')" "tree_ok s' C E" "iter_reg s' = iter_reg s1"
      "\<exists>it'. iters s' i = Some it' \<and> it_dir it' = d"
    using Cons.IH [of "xs @ [y]" s1 "it\<lparr>it_pos := Some y, it_next_called := b\<rparr>" "Suc (length ys)"] Cons.prems s1 by auto
  have "iterate k s i = Some (y # ys, s')" if "length (y # ys) < k" for k
    using that s1(1) s'(1) by (cases k) auto
  then show ?case using s' s1(3) by auto
qed

lemma get_children_ok:
  assumes ok: "tree_ok s C E" and d: "nodes s d = Some dn" "ntype dn = LIBISO_DIR" and i: "i \<notin> set (iter_reg s)"
  shows "\<exists>s'. iso_dir_get_children (\<lambda>_. True) s i (Some d) = Some (Inr (), s') \<and> tree_ok s' C E \<and>
     iter_reg s' = i # iter_reg s \<and> iters s' i = Some \<lparr>it_dir = d, it_pos = None, it_next_called = False\<rparr>"
proof -
  note T = tree_okD [OF ok]
  let ?it = "\<lparr>it_dir = d, it_pos = None, it_next_called = False\<rparr>"
  define h where "h = (nodes s)(d \<mapsto> dn\<lparr>refcount := refcount dn + 1\<rparr>)"
  define s' where "s' = s\<lparr>iter_reg := i # iter_reg s, nodes := h, iters := (iters s)(i \<mapsto> ?it)\<rparr>"
  have "it_refs ((iters s)(i \<mapsto> ?it)) xs q = it_refs (iters s) xs q" if "i \<notin> set xs" for xs q
    using that unfolding it_refs_def by (auto simp: it_refs1_def intro!: arg_cong [where f = sum_list])
  then have "(\<lambda>q. E q + it_refs (iters s') (iter_reg s') q)
      = (\<lambda>q. E q + it_refs (iters s) (iter_reg s) q)(d := E d + it_refs (iters s) (iter_reg s) d + 1)"
    using i by (auto simp: s'_def it_refs_def it_refs1_def)
  then have "tree_inv (nodes s') {} C (\<lambda>q. E q + it_refs (iters s') (iter_reg s') q) {}"
    using tree_inv_incref [OF T(1) _ d(1)] by (simp add: s'_def h_def)
  moreover have ty: "map_option ntype (h x) = map_option ntype (nodes s x)" for x using d by (simp add: h_def)
  have "\<exists>it n. iters s' y = Some it \<and> nodes s' (it_dir it) = Some n \<and> ntype n = LIBISO_DIR" if y: "y \<in> set (iter_reg s')" for y
  proof (cases "y = i")
    case True
    then show ?thesis using d by (simp add: s'_def h_def)
  next
    case False
    then show ?thesis using iters_ok_mono [where i = y, OF T(3) ty] y by (simp add: s'_def)
  qed
  ultimately have "tree_ok s' C E" using T(2) i by (simp add: tree_ok_def) (simp add: s'_def)
  moreover have "iso_dir_get_children (\<lambda>_. True) s i (Some d) = Some (Inr (), s')"
    using d(1) by (simp add: iso_dir_get_children_def iso_dir_iter_register_def iso_node_ref_def s'_def h_def)
  ultimately show ?thesis by (simp add: s'_def)
qed

lemma it_refs_remove:
  assumes "distinct reg" "i \<in> set reg" "its i = Some it"
  shows "it_refs its reg q = it_refs (its(i := None)) (remove1 i reg) q
     + (if it_dir it = q then 1 else 0) + (if it_pos it = Some q then 1 else 0)"
proof -
  obtain a b where r: "reg = a @ i # b" "i \<notin> set a" "i \<notin> set b" using assms(1,2) by (auto simp: in_set_conv_decomp)
  have "sum_list (map (it_refs1 (its(i := None)) q) xs) = sum_list (map (it_refs1 its q) xs)" if "i \<notin> set xs" for xs
    using that by (intro arg_cong [where f = sum_list]) (auto simp: it_refs1_def)
  from this [OF r(2)] this [OF r(3)] show ?thesis
    using r assms(3) by (simp add: it_refs_def remove1_append) (simp add: it_refs1_def)
qed

lemma iter_free_ok:
  assumes ok: "tree_ok s C E" and i: "i \<in> set (iter_reg s)" "iters s i = Some it"
  shows "\<exists>K s'. (\<forall>k\<ge>K. iso_dir_iter_free k s i = Some s') \<and> tree_ok s' C E \<and> iter_reg s' = remove1 i (iter_reg s)"
proof -
  note T = tree_okD [OF ok]
  define reg where "reg = remove1 i (iter_reg s)"
  define its where "its = (iters s)(i := None)"
  let ?R = "\<lambda>q. E q + it_refs its reg q"
  let ?D = "\<lambda>h. \<forall>y\<in>set reg. \<exists>it n. its y = Some it \<and> h (it_dir it) = Some n \<and> ntype n = LIBISO_DIR"
  have dist: "distinct reg" using T(2) by (simp add: reg_def)
  have D0: "?D (nodes s)" using T(2,3) by (auto simp: reg_def its_def)
  have inv0: "tree_inv (nodes s) {} C (\<lambda>q. ?R q + (if it_dir it = q then 1 else 0) + (if it_pos it = Some q then 1 else 0)) {}"
    using T(1) it_refs_remove [of "iter_reg s" i "iters s" it] T(2) i by (simp add: reg_def its_def add.assoc)
  have "\<exists>K h. (\<forall>k\<ge>K. (case it_pos it of None \<Rightarrow> Some (nodes s) | Some p \<Rightarrow> iso_node_unref k (nodes s) p) = Some h) \<and>
      tree_inv h {} C (\<lambda>q. ?R q + (if it_dir it = q then 1 else 0)) {} \<and> ?D h"
  proof (cases "it_pos it")
    case None
    then show ?thesis using inv0 D0 by auto
  next
    case (Some p)
    define E' where "E' = (\<lambda>q. E q + (if it_dir it = q then 1 else 0))"
    have "(\<lambda>q. ?R q + (if it_dir it = q then 1 else 0) + (if it_pos it = Some q then 1 else 0))
        = (\<lambda>q. E' q + it_refs its reg q + (if q = p then 1 else 0))"
      by (auto simp: E'_def Some)
    from tree_ok_unref [OF inv0 this dist] D0
    obtain K h where "\<forall>k\<ge>K. iso_node_unref k (nodes s) p = Some h" "tree_inv h {} C (\<lambda>q. E' q + it_refs its reg q) {}" "?D h"
      by blast
    moreover have "(\<lambda>q. E' q + it_refs its reg q) = (\<lambda>q. ?R q + (if it_dir it = q then 1 else 0))"
      by (auto simp: E'_def)
    ultimately show ?thesis using Some by auto
  qed
  then obtain K1 h1 where h1: "\<forall>k\<ge>K1. (case it_pos it of None \<Rightarrow> Some (nodes s) | Some p \<Rightarrow> iso_node_unref k (nodes s) p) = Some h1"
      "tree_inv h1 {} C (\<lambda>q. ?R q + (if it_dir it = q then 1 else 0)) {}" "?D h1" by blast
  have "(\<lambda>q. ?R q + (if it_dir it = q then 1 else 0)) = (\<lambda>q. E q + it_refs its reg q + (if q = it_dir it then 1 else 0))"
    by auto
  from tree_ok_unref [OF h1(2) this dist] h1(3)
  obtain K2 h2 where h2: "\<forall>k\<ge>K2. iso_node_unref k h1 (it_dir it) = Some h2" "tree_inv h2 {} C ?R {}" "?D h2" by blast
  define s' where "s' = s\<lparr>iter_reg := reg, nodes := h2, iters := its\<rparr>"
  have "tree_ok s' C E" using h2 dist by (simp add: tree_ok_def s'_def)
  moreover have "iso_dir_iter_free k s i = Some s'" if k: "max K1 K2 \<le> k" for k
  proof -
    have u: "(case it_pos it of None \<Rightarrow> Some (nodes s) | Some p \<Rightarrow> iso_node_unref k (nodes s) p) = Some h1"
        "iso_node_unref k h1 (it_dir it) = Some h2"
      using h1(1) h2(1) k by simp_all
    show ?thesis
    proof (cases "it_pos it")
      case None
      then show ?thesis using u i(2)
        by (simp add: iso_dir_iter_free_def iso_dir_iter_unregister_def s'_def reg_def its_def Let_def)
    next
      case (Some p)
      then show ?thesis using u i(2)
        by (simp add: iso_dir_iter_free_def iso_dir_iter_unregister_def s'_def reg_def its_def Let_def)
    qed
  qed
  moreover have "iter_reg s' = remove1 i (iter_reg s)" by (simp add: s'_def reg_def)
  ultimately show ?thesis by blast
qed

text \<open>
  C29: a loop over the children of a directory (\<open>iso_dir_get_children\<close>, \<open>iso_dir_iter_next\<close> until it
  returns 0, \<open>iso_dir_iter_free\<close>) delivers each child exactly once and in the order of the
  names, ends, touches no freed memory, and leaves all reference counts as they were.\<close>
theorem iteration_complete:
  assumes "tree_ok s C E" "nodes s d = Some dn" "ntype dn = LIBISO_DIR" "i \<notin> set (iter_reg s)"
  shows "\<exists>s1 s2 s3 K.
     iso_dir_get_children (\<lambda>_. True) s i (Some d) = Some (Inr (), s1) \<and>
     (\<forall>k>length (C d). iterate k s1 i = Some (C d, s2)) \<and>
     (\<forall>k\<ge>K. iso_dir_iter_free k s2 i = Some s3) \<and>
     tree_ok s3 C E \<and> iter_reg s3 = iter_reg s"
proof -
  obtain s1 where s1: "iso_dir_get_children (\<lambda>_. True) s i (Some d) = Some (Inr (), s1)" "tree_ok s1 C E"
      "iter_reg s1 = i # iter_reg s" "iters s1 i = Some \<lparr>it_dir = d, it_pos = None, it_next_called = False\<rparr>"
    using get_children_ok [OF assms] by blast
  have "dir_ok (nodes s) d (C d)" using tree_invD(3) [OF tree_okD(1) [OF assms(1)] assms(2)] assms(3) by simp
  then have "distinct (C d)" by (simp add: dir_ok_def)
  then obtain s2 where s2: "\<forall>k>length (C d). iterate k s1 i = Some (C d, s2)" "tree_ok s2 C E" "iter_reg s2 = iter_reg s1"
      "\<exists>it'. iters s2 i = Some it' \<and> it_dir it' = d"
    using iterate_rest [of C d "[]" "C d" s1 E i "\<lparr>it_dir = d, it_pos = None, it_next_called = False\<rparr>" "Suc (length (C d))"] s1
    by auto
  then obtain it' where it': "iters s2 i = Some it'" by blast
  obtain K s3 where s3: "\<forall>k\<ge>K. iso_dir_iter_free k s2 i = Some s3" "tree_ok s3 C E" "iter_reg s3 = remove1 i (iter_reg s2)"
    using iter_free_ok [OF s2(2) _ it'] s2(3) s1(3) by auto
  have "iter_reg s3 = iter_reg s" using s3(3) s2(3) s1(3) by simp
  then show ?thesis using s1(1) s2(1) s3(1,2) by blast
qed

section \<open>Taking nodes while iterating\<close>

lemma after_before:
  assumes "distinct cs" "c \<in> set cs"
  shows "after (remove1 c cs) (before cs c) = after cs (Some c)"
proof -
  obtain xs ys where cs: "cs = xs @ c # ys" "c \<notin> set xs" using split_list_first [OF assms(2)] by blast
  have t: "takeWhile (\<lambda>x. x \<noteq> c) cs = xs" using cs by (simp add: takeWhile_append)
  have r: "remove1 c cs = xs @ ys" using cs by (simp add: remove1_append)
  have a: "after cs (Some c) = (case ys of [] \<Rightarrow> None | x # _ \<Rightarrow> Some x)" using after_mid assms(1) cs by simp
  show ?thesis
  proof (cases xs rule: rev_cases)
    case Nil
    then show ?thesis using a by (simp add: r before_def t after_def)
  next
    case (snoc zs p)
    have "before cs c = Some p" unfolding before_def t Let_def using snoc cs by (simp add: nth_append)
    then show ?thesis using snoc after_mid [of zs p ys] assms(1) cs a r by simp
  qed
qed

text \<open>
  C30: when a child gets taken while iterators of its directory point to it, then the iterator that
  was registered last continues with the successor of the taken node, so that it neither skips
  nor repeats a child; but each other iterator that points to the node stays there, and its
  next call fails with \<open>ISO_ERROR\<close>.\<close>
theorem take_while_iterating:
  assumes ok: "tree_ok s C E" and c: "nodes s c = Some cn" "parent cn = Some d" "d \<noteq> c"
    and reg: "iter_reg s = a @ i # b" "\<forall>y\<in>set a. \<not> watches s d c y" "watches s d c i"
    and j: "j \<in> set b" "watches s d c j"
  shows "\<exists>s'. (\<forall>k>length (C d). iso_node_take k s (Some c) = Some (Inr (), s')) \<and>
     (\<forall>k\<ge>1. \<exists>s''. iter_next k s' i = Some (Inr (after (C d) (Some c)), s'')) \<and>
     (\<forall>k. \<exists>s''. iter_next k s' j = Some (Inl ISO_ERROR, s''))"
proof -
  let ?C = "C(d := remove1 c (C d))"
  obtain s' where s': "\<forall>k>length (C d). iso_node_take k s (Some c) = Some (Inr (), s')"
      "tree_ok s' ?C (E(c := E c + 1))" "iter_reg s' = iter_reg s" "iters s' = stepped s d c (before (C d) c)"
      "\<exists>n. nodes s' c = Some n \<and> parent n = None"
    using take_ok [OF ok c] by blast
  have inv: "tree_inv (nodes s) {} C (\<lambda>p. E p + it_refs (iters s) (iter_reg s) p) {}" by (rule tree_okD(1) [OF ok])
  have mem: "c \<in> set (C d)" "\<exists>m. nodes s d = Some m \<and> ntype m = LIBISO_DIR"
    using tree_invD(4) [OF inv c] by simp_all
  then have "dir_ok (nodes s) d (C d)" using tree_invD(3) [OF inv] by auto
  then have dist: "distinct (C d)" by (simp add: dir_ok_def)
  have ij: "i \<noteq> j" "i \<in> set (iter_reg s)" using tree_okD(2) [OF ok] reg(1) j(1) by auto
  have find: "List.find (watches s d c) (iter_reg s) = Some i"
    using reg unfolding reg(1) by (induction a) simp_all
  obtain it where it: "iters s i = Some it" "it_dir it = d" using reg(3) by (auto simp: watches_def)
  have i': "iters s' i = Some (it\<lparr>it_pos := before (C d) c\<rparr>)" using it by (simp add: s'(4) stepped_def find)
  have "p \<in> set (?C d)" if "before (C d) c = Some p" for p
    using before_props [OF that mem(1)] dist by simp
  then have "\<exists>s''. \<forall>k\<ge>1. iter_next k s' i = Some (Inr (after (?C d) (before (C d) c)), s'')"
    using iter_next_ok [OF s'(2) _ i'] ij(2) it(2) s'(3) by fastforce
  then have 1: "\<forall>k\<ge>1. \<exists>s''. iter_next k s' i = Some (Inr (after (C d) (Some c)), s'')"
    using after_before [OF dist mem(1)] by auto
  obtain jt where jt: "iters s j = Some jt" "it_dir jt = d" "it_pos jt = Some c" using j(2) by (auto simp: watches_def)
  then have "iters s' j = Some jt" using ij(1) by (simp add: s'(4) stepped_def find)
  then have "\<forall>k. \<exists>s''. iter_next k s' j = Some (Inl ISO_ERROR, s'')"
    using jt s'(5) by (auto simp: iter_next_def iter_advance_def Let_def)
  then show ?thesis using s'(1) 1 by blast
qed

section \<open>Examples\<close>

definition example_it :: dir_iter where
  "example_it = \<lparr>it_dir = 0, it_pos = Some 1, it_next_called = True\<rparr>"

text \<open>The root with its child, on which two iterators stand.\<close>

definition example_state :: tree_state where
  "example_state = \<lparr>nodes = [0 \<mapsto> (new_node LIBISO_DIR [] (Some 0) None (Some 1) 1)\<lparr>refcount := 3\<rparr>,
       1 \<mapsto> (new_node LIBISO_DIR (str ''b'') (Some 0) None None 0)\<lparr>refcount := 3\<rparr>],
     iters = [7 \<mapsto> example_it, 8 \<mapsto> example_it], iter_reg = [8, 7]\<rparr>"

definition example_E :: "ptr \<Rightarrow> nat" where "example_E = (\<lambda>_. 0)(0 := 1)"

lemma example_refs: "it_refs (iters example_state) (iter_reg example_state) = (\<lambda>_. 0)(0 := 2, 1 := 2)"
  by (auto simp: example_state_def it_refs_def it_refs1_def example_it_def fun_eq_iff)

lemma example_ok: "tree_ok example_state example_C example_E"
proof -
  have "(\<lambda>p. example_E p + it_refs (iters example_state) (iter_reg example_state) p) = (\<lambda>_. 0)(0 := 3, 1 := 2)"
    by (auto simp: example_refs example_E_def)
  moreover have "tree_inv (nodes example_state) {} example_C ((\<lambda>_. 0)(0 := 3, 1 := 2)) {}"
    unfolding tree_inv_def
  proof (intro conjI allI impI)
    show "finite (dom (nodes example_state))" by (simp add: example_state_def)
    show "dir_ok (nodes example_state) d (example_C d)" if "nodes example_state d = Some n" "ntype n = LIBISO_DIR" for d n
      using that by (auto simp: example_state_def example_C_def dir_ok_def new_node_def split: if_splits)
  qed (auto simp: example_state_def example_C_def own_def new_node_def split: if_splits)
  ultimately show ?thesis
    by (simp add: tree_ok_def) (simp add: example_state_def example_it_def new_node_def)
qed

lemma iteration_complete_witness:
  "\<exists>s1 s2 s3 K.
     iso_dir_get_children (\<lambda>_. True) example_state 9 (Some 0) = Some (Inr (), s1) \<and>
     (\<forall>k>1. iterate k s1 9 = Some ([1], s2)) \<and>
     (\<forall>k\<ge>K. iso_dir_iter_free k s2 9 = Some s3) \<and>
     tree_ok s3 example_C example_E \<and> iter_reg s3 = [8, 7]"
  using iteration_complete [OF example_ok, of 0 _ 9]
  by (simp add: example_state_def new_node_def example_C_def)

lemma node_remove_correct_witness:
  "\<exists>K s'. (\<forall>k\<ge>K. iso_node_remove k example_state (Some 1) = Some (Inr (), s')) \<and>
     tree_ok s' (example_C(0 := [])) example_E \<and>
     (nodes s' 1 = None \<longleftrightarrow> it_refs (iters s') (iter_reg s') 1 = 0)"
proof -
  have "nodes example_state 1 = Some ((new_node LIBISO_DIR (str ''b'') (Some 0) None None 0)\<lparr>refcount := 3\<rparr>)"
    by (simp add: example_state_def)
  from node_remove_correct [OF example_ok this] show ?thesis
    by (simp add: new_node_def example_C_def example_E_def)
qed

lemma take_while_iterating_witness:
  "\<exists>s'. (\<forall>k>1. iso_node_take k example_state (Some 1) = Some (Inr (), s')) \<and>
     (\<forall>k\<ge>1. \<exists>s''. iter_next k s' 8 = Some (Inr None, s'')) \<and>
     (\<forall>k. \<exists>s''. iter_next k s' 7 = Some (Inl ISO_ERROR, s''))"
proof -
  have c: "nodes example_state 1 = Some ((new_node LIBISO_DIR (str ''b'') (Some 0) None None 0)\<lparr>refcount := 3\<rparr>)"
    by (simp add: example_state_def)
  have "after (example_C 0) (Some 1) = None" "length (example_C 0) = 1" by (simp_all add: after_def example_C_def)
  then show ?thesis
    using take_while_iterating [OF example_ok c, of 0 "[]" 8 "[7]" 7]
    by (simp add: new_node_def watches_def) (simp add: example_state_def example_it_def)
qed

end
