(* ===== verification/Datetime.thy ===== *)
theory Datetime
  imports Prelude
begin

text \<open>
  The time stamps of \<open>libisofs/util.c\<close>: the 7 byte form of directory records and \<open>TF\<close>
  entries, the 17 byte form of volume descriptors, and the \<open>timegm\<close> that the file brings along
  for systems without one.  A \<open>time_t\<close> is an integer; \<open>tm\<close> is \<open>struct tm\<close> with the members
  that the code uses.
\<close>

record tm =
  tm_year :: int
  tm_mon :: int
  tm_mday :: int
  tm_hour :: int
  tm_min :: int
  tm_sec :: int

section \<open>The calendar of the C library\<close>

text \<open>
  \<open>gmtime\<close> of a system without leap seconds.  The year runs from 1970; dates before it are
  moved by whole periods of 400 years, which have 146097 days.
\<close>

definition ts_is_leapyear :: "int \<Rightarrow> bool" where
  "ts_is_leapyear y \<longleftrightarrow> y mod 4 = 0 \<and> (y mod 100 \<noteq> 0 \<or> y mod 400 = 100)"

definition month_lengths :: "int \<Rightarrow> int list" where
  "month_lengths y =
     (if ts_is_leapyear y then [31, 29, 31, 30, 31, 30, 31, 31, 30, 31, 30, 31]
      else [31, 28, 31, 30, 31, 30, 31, 31, 30, 31, 30, 31])"

definition year_length :: "int \<Rightarrow> int" where
  "year_length y = (if ts_is_leapyear y then 366 else 365)"

function split_year :: "int \<Rightarrow> int \<Rightarrow> int \<times> int" where
  "split_year y d = (if d < year_length y then (y, d) else split_year (y + 1) (d - year_length y))"
  by auto

termination by (relation "measure (\<lambda>(y, d). nat (d + 1))") (auto simp: year_length_def split: if_splits)

declare split_year.simps [simp del]

fun split_month :: "int list \<Rightarrow> int \<Rightarrow> int \<times> int" where
  "split_month [] d = (0, d)"
| "split_month (m # ms) d = (if d < m then (0, d) else (case split_month ms (d - m) of (i, r) \<Rightarrow> (i + 1, r)))"

definition civil_date :: "int \<Rightarrow> int \<times> int" where
  "civil_date d =
     (if 0 \<le> d then split_year 70 d
      else let k = (- d) div 146097 + 1 in
        case split_year 70 (d + 146097 * k) of (y, r) \<Rightarrow> (y - 400 * k, r))"

definition gmtime :: "int \<Rightarrow> tm" where
  "gmtime t =
     (let d = t div 86400; s = t mod 86400; (y, yd) = civil_date d; (m, md) = split_month (month_lengths y) yd
      in \<lparr>tm_year = y, tm_mon = m, tm_mday = md + 1,
          tm_hour = s div 3600, tm_min = s mod 3600 div 60, tm_sec = s mod 60\<rparr>)"

section \<open>The timegm of the file\<close>

definition ts_timegm :: "tm \<Rightarrow> int" where
  "ts_timegm tm =
     (if tm_year tm - 70 < 0 then 0
      else
        let ret = foldl (\<lambda>ret i. let ret = ret + 365 * 86400
                                in if ts_is_leapyear (70 + i) then ret + 86400 else ret)
                    0 (map int [0..<nat (tm_year tm - 70)]);
            ret = foldl (\<lambda>ret i. ret + month_lengths (tm_year tm) ! i * 86400) ret [0..<nat (tm_mon tm)]
        in ret + (tm_mday tm - 1) * 86400 + tm_hour tm * 3600 + tm_min tm * 60 + tm_sec tm)"

text \<open>\<open>env_timegm\<close> asks \<open>mktime\<close> with an empty time zone and is a parameter.\<close>

definition timegm :: "(tm \<Rightarrow> int) \<Rightarrow> tm \<Rightarrow> int" where
  "timegm env_timegm tm =
     (let raw_t = ts_timegm tm in
      if raw_t = 0 then raw_t
      else let test_tm = gmtime raw_t in
        if tm_sec tm = tm_sec test_tm \<and> tm_min tm = tm_min test_tm \<and> tm_hour tm = tm_hour test_tm \<and>
           tm_mday tm = tm_mday test_tm \<and> tm_mon tm = tm_mon test_tm \<and> tm_year tm = tm_year test_tm
        then raw_t else env_timegm tm)"

section \<open>Writing and reading time stamps\<close>

text \<open>
  \<open>localtime\<close> is a parameter: the time of the zone and its \<open>tm_gmtoff\<close> in seconds.  The
  divisions of C round towards zero.
\<close>

definition tdiv :: "int \<Rightarrow> int \<Rightarrow> int" where
  "tdiv a b = sgn a * (\<bar>a\<bar> div b)"

type_synonym zone = "int \<Rightarrow> tm \<times> int"

definition zone_time :: "zone \<Rightarrow> int \<Rightarrow> bool \<Rightarrow> tm \<times> int" where
  "zone_time localtime t always_gmt =
     (let (tm, gmtoff) = localtime t; tzoffset = tdiv (tdiv gmtoff 60) 15
      in if tzoffset > 52 \<or> tzoffset < -48 \<or> always_gmt then (gmtime t, 0) else (tm, tzoffset))"

definition iso_datetime_7 :: "zone \<Rightarrow> int \<Rightarrow> bool \<Rightarrow> byte list" where
  "iso_datetime_7 localtime t always_gmt =
     (case zone_time localtime t always_gmt of (tm, tzoffset) \<Rightarrow>
        map word_of_int [tm_year tm, tm_mon tm + 1, tm_mday tm, tm_hour tm, tm_min tm, tm_sec tm, tzoffset])"

definition iso_datetime_read_7 :: "(tm \<Rightarrow> int) \<Rightarrow> byte list \<Rightarrow> int" where
  "iso_datetime_read_7 env_timegm buf =
     timegm env_timegm
       \<lparr>tm_year = uint (buf ! 0), tm_mon = uint (buf ! 1) - 1, tm_mday = uint (buf ! 2),
        tm_hour = uint (buf ! 3), tm_min = uint (buf ! 4), tm_sec = uint (buf ! 5)\<rparr>
     - sint (buf ! 6) * 60 * 15"

text \<open>\<open>%04d\<close> and \<open>%02d\<close> of numbers that are not negative; \<open>sprintf\<close> of wider numbers overwrites
  what stands behind and gets overwritten itself, so that the first digits stay.\<close>

definition pad_dec :: "nat \<Rightarrow> int \<Rightarrow> cstring" where
  "pad_dec w n = (let s = dec (nat n) in take w (replicate (w - length s) (asc CHR ''0'') @ s))"

definition iso_datetime_17 :: "zone \<Rightarrow> int \<Rightarrow> bool \<Rightarrow> byte list" where
  "iso_datetime_17 localtime t always_gmt =
     (if t = -1 then replicate 16 (asc CHR ''0'') @ [0]
      else case zone_time localtime t always_gmt of (tm, tzoffset) \<Rightarrow>
        pad_dec 4 (tm_year tm + 1900) @ pad_dec 2 (tm_mon tm + 1) @ pad_dec 2 (tm_mday tm) @
        pad_dec 2 (tm_hour tm) @ pad_dec 2 (tm_min tm) @ pad_dec 2 (min 59 (tm_sec tm)) @
        str ''00'' @ [word_of_int tzoffset])"

text \<open>\<open>sscanf\<close> with \<open>%4d\<close> or \<open>%2d\<close> on a field that holds only digits.\<close>

definition scan_dec :: "nat \<Rightarrow> byte list \<Rightarrow> nat \<Rightarrow> int" where
  "scan_dec pos buf w = int (dec_value (take w (drop pos buf)))"

text \<open>The reader of the long form takes the zone offset from byte 6, where the month ends and
  the day begins, and not from byte 16.\<close>

definition iso_datetime_read_17 :: "(tm \<Rightarrow> int) \<Rightarrow> byte list \<Rightarrow> int" where
  "iso_datetime_read_17 env_timegm buf =
     timegm env_timegm
       \<lparr>tm_year = scan_dec 0 buf 4 - 1900, tm_mon = scan_dec 4 buf 2 - 1, tm_mday = scan_dec 6 buf 2,
        tm_hour = scan_dec 8 buf 2, tm_min = scan_dec 10 buf 2, tm_sec = scan_dec 12 buf 2\<rparr>
     - sint (buf ! 6) * 60 * 15"

section \<open>The round trip of the calendar\<close>

lemma year_length_pos: "0 < year_length y"
  by (simp add: year_length_def)

lemma sum_months: "sum_list (month_lengths y) = year_length y"
  by (simp add: month_lengths_def year_length_def)

lemma split_month_props:
  assumes "0 \<le> d" "d < sum_list ms" "\<forall>m \<in> set ms. 0 < m"
  shows "case split_month ms d of (i, r) \<Rightarrow>
           0 \<le> i \<and> nat i < length ms \<and> 0 \<le> r \<and> r < ms ! nat i \<and> d = sum_list (take (nat i) ms) + r"
  using assms
proof (induction ms arbitrary: d)
  case (Cons m ms)
  show ?case
  proof (cases "d < m")
    case False
    then have "0 \<le> d - m" "d - m < sum_list ms" "\<forall>m \<in> set ms. 0 < m" using Cons.prems by auto
    from Cons.IH [OF this] False show ?thesis
      by (auto simp: nat_add_distrib split: prod.splits)
  qed (use Cons.prems in auto)
qed simp

definition years_days :: "int \<Rightarrow> int" where
  "years_days y = (\<Sum>i = 70..<y. year_length i)"

lemma years_days_Suc: "70 \<le> y \<Longrightarrow> years_days (y + 1) = years_days y + year_length y"
proof -
  assume "70 \<le> y"
  then have "{70..<y + 1} = insert y {70..<y}" by auto
  then show ?thesis by (simp add: years_days_def)
qed

lemma split_year_props:
  "70 \<le> y \<Longrightarrow> 0 \<le> d \<Longrightarrow> case split_year y d of (y', r) \<Rightarrow>
     y \<le> y' \<and> 0 \<le> r \<and> r < year_length y' \<and> years_days y + d = years_days y' + r"
proof (induction y d rule: split_year.induct)
  case (1 y d)
  show ?case
  proof (cases "d < year_length y")
    case True
    then show ?thesis using 1 by (simp add: split_year.simps)
  next
    case False
    from "1.IH" [OF False] False "1.prems" show ?thesis
      by (subst split_year.simps) (auto simp: years_days_Suc)
  qed
qed

lemma ts_years:
  "foldl (\<lambda>ret i. let ret = ret + 365 * 86400 in if ts_is_leapyear (70 + i) then ret + 86400 else ret)
     0 (map int [0..<n]) = years_days (70 + int n) * 86400"
proof (induction n)
  case (Suc n)
  then show ?case using years_days_Suc [of "70 + int n"]
    by (simp add: year_length_def algebra_simps Let_def)
qed (simp add: years_days_def)

lemma ts_months:
  "k \<le> length ms \<Longrightarrow> foldl (\<lambda>ret i. ret + ms ! i * 86400) (a :: int) [0..<k] = a + sum_list (take k ms) * 86400"
  by (induction k) (auto simp: take_Suc_conv_app_nth algebra_simps)

lemma clock: "s div 3600 * 3600 + s mod 3600 div 60 * 60 + s mod 60 = (s :: int)"
proof -
  have "s mod 60 = s mod 3600 mod 60" by (simp add: mod_mod_cancel)
  then have "s mod 3600 div 60 * 60 + s mod 60 = s mod 3600" by (metis div_mult_mod_eq)
  then show ?thesis using div_mult_mod_eq [of s 3600] by linarith
qed

lemma ts_timegm_gmtime:
  assumes "0 \<le> t"
  shows "ts_timegm (gmtime t) = t"
proof -
  obtain y yd where sy: "split_year 70 (t div 86400) = (y, yd)" by fastforce
  have d0: "0 \<le> t div 86400" using assms by (simp add: pos_imp_zdiv_nonneg_iff)
  from split_year_props [OF order_refl d0] sy
  have y: "70 \<le> y" "0 \<le> yd" "yd < year_length y" "t div 86400 = years_days y + yd"
    by (auto simp: years_days_def)
  obtain m md where sm: "split_month (month_lengths y) yd = (m, md)" by fastforce
  have pos: "\<forall>m \<in> set (month_lengths y). 0 < m" by (simp add: month_lengths_def)
  from split_month_props [OF y(2) _ pos] y(3) sm
  have m: "nat m < length (month_lengths y)" "yd = sum_list (take (nat m) (month_lengths y)) + md"
    by (auto simp: sum_months)
  have secs: "t mod 86400 div 3600 * 3600 + t mod 86400 mod 3600 div 60 * 60 + t mod 86400 mod 60
      = t mod 86400"
    using clock [of "t mod 86400"] .
  let ?s = "t mod 86400"
  have g: "gmtime t = \<lparr>tm_year = y, tm_mon = m, tm_mday = md + 1,
      tm_hour = ?s div 3600, tm_min = ?s mod 3600 div 60, tm_sec = ?s mod 60\<rparr>"
    using d0 by (simp only: gmtime_def civil_date_def Let_def sy sm if_True prod.case)
  have "ts_timegm (gmtime t) = years_days y * 86400 + sum_list (take (nat m) (month_lengths y)) * 86400
      + md * 86400 + ?s div 3600 * 3600 + ?s mod 3600 div 60 * 60 + ?s mod 60"
    unfolding g ts_timegm_def
    using y(1) ts_years [of "nat (y - 70)"] ts_months [of "nat m" "month_lengths y"] m(1)
    by (simp add: Let_def del: mod_mod_cancel mod_div_trivial)
  also have "\<dots> = (years_days y + yd) * 86400 + t mod 86400"
    using secs m(2) by (simp add: algebra_simps)
  also have "\<dots> = t" using y(4) by (metis div_mult_mod_eq)
  finally show ?thesis .
qed

lemma timegm_gmtime: "0 \<le> t \<Longrightarrow> timegm env (gmtime t) = t"
  by (simp add: timegm_def ts_timegm_gmtime)

lemma gmtime_ranges:
  assumes "0 \<le> t"
  shows "70 \<le> tm_year (gmtime t)" "0 \<le> tm_mon (gmtime t)" "tm_mon (gmtime t) < 12"
    "1 \<le> tm_mday (gmtime t)" "tm_mday (gmtime t) \<le> 31" "0 \<le> tm_hour (gmtime t)" "tm_hour (gmtime t) < 24"
    "0 \<le> tm_min (gmtime t)" "tm_min (gmtime t) < 60" "0 \<le> tm_sec (gmtime t)" "tm_sec (gmtime t) < 60"
proof -
  obtain y yd where sy: "split_year 70 (t div 86400) = (y, yd)" by fastforce
  have d0: "0 \<le> t div 86400" using assms by (simp add: pos_imp_zdiv_nonneg_iff)
  from split_year_props [OF order_refl d0] sy have y: "70 \<le> y" "0 \<le> yd" "yd < year_length y" by auto
  obtain m md where sm: "split_month (month_lengths y) yd = (m, md)" by fastforce
  have pos: "\<forall>m \<in> set (month_lengths y). 0 < m" by (simp add: month_lengths_def)
  from split_month_props [OF y(2) _ pos] y(3) sm
  have m: "0 \<le> m" "nat m < length (month_lengths y)" "0 \<le> md" "md < month_lengths y ! nat m"
    by (auto simp: sum_months)
  have l: "length (month_lengths y) = 12" by (simp add: month_lengths_def)
  have "month_lengths y ! nat m \<in> set (month_lengths y)" using m(2) by simp
  then have le31: "month_lengths y ! nat m \<le> 31" by (auto simp: month_lengths_def split: if_splits)
  define s where "s = t mod 86400"
  have s: "0 \<le> s" "s < 86400" by (auto simp: s_def)
  have g: "gmtime t = \<lparr>tm_year = y, tm_mon = m, tm_mday = md + 1,
      tm_hour = s div 3600, tm_min = s mod 3600 div 60, tm_sec = s mod 60\<rparr>"
    using d0 by (simp only: gmtime_def civil_date_def Let_def sy sm if_True prod.case s_def)
  have f: "tm_hour (gmtime t) = s div 3600" "tm_min (gmtime t) = s mod 3600 div 60" "tm_sec (gmtime t) = s mod 60"
    by (simp_all add: g)
  show "70 \<le> tm_year (gmtime t)" "0 \<le> tm_mon (gmtime t)" "tm_mon (gmtime t) < 12"
    "1 \<le> tm_mday (gmtime t)" "tm_mday (gmtime t) \<le> 31"
    using le31 y(1) m l by (simp_all add: g)
  show "0 \<le> tm_hour (gmtime t)" "tm_hour (gmtime t) < 24" "0 \<le> tm_min (gmtime t)" "tm_min (gmtime t) < 60"
    "0 \<le> tm_sec (gmtime t)" "tm_sec (gmtime t) < 60"
    unfolding f using s by (auto simp: pos_imp_zdiv_nonneg_iff)
qed

lemma uint_byte: "0 \<le> n \<Longrightarrow> n < 256 \<Longrightarrow> uint (word_of_int n :: byte) = n"
  by (simp add: uint_word_of_int)

lemma sint_byte: "-128 \<le> n \<Longrightarrow> n < 128 \<Longrightarrow> sint (word_of_int n :: byte) = n"
  by (simp add: sint_sbintrunc' signed_take_bit_int_eq_self)

lemma tdiv_exact: "900 dvd off \<Longrightarrow> tdiv (tdiv off 60) 15 * 900 = off"
proof -
  assume "900 dvd off"
  then obtain k where k: "off = 900 * k" by auto
  have "tdiv off 60 = 15 * k" by (cases "0 \<le> k") (auto simp: k tdiv_def sgn_if abs_mult)
  moreover have "tdiv (15 * k) 15 = k" by (cases "0 \<le> k") (auto simp: tdiv_def sgn_if abs_mult)
  ultimately show ?thesis by (simp add: k)
qed

lemma zone_time_gmt:
  assumes "localtime t = (gmtime (t + off), off)" "900 dvd off" "0 \<le> t" "0 \<le> t + off"
  obtains tz where "zone_time localtime t always_gmt = (gmtime (t + 900 * tz), tz)"
    "0 \<le> t + 900 * tz" "-48 \<le> tz" "tz \<le> 52" "tz = 0 \<or> 900 * tz = off"
proof (cases "tdiv (tdiv off 60) 15 > 52 \<or> tdiv (tdiv off 60) 15 < -48 \<or> always_gmt")
  case True
  then show ?thesis using that [of 0] assms by (simp add: zone_time_def)
next
  case False
  then show ?thesis using that [of "tdiv (tdiv off 60) 15"] tdiv_exact [OF assms(2)] assms
    by (simp add: zone_time_def mult.commute)
qed

lemma timegm_eta:
  "0 \<le> t \<Longrightarrow> timegm env \<lparr>tm_year = tm_year (gmtime t), tm_mon = tm_mon (gmtime t),
     tm_mday = tm_mday (gmtime t), tm_hour = tm_hour (gmtime t), tm_min = tm_min (gmtime t),
     tm_sec = tm_sec (gmtime t)\<rparr> = t"
  using timegm_gmtime [of t env] by (cases "gmtime t") simp

lemma pad_dec_props:
  assumes "0 \<le> n" "n < 10 ^ w" "0 < w"
  shows "length (pad_dec w n) = w" "int (dec_value (pad_dec w n)) = n"
proof -
  have "nat n < 10 ^ w" using assms by (simp add: nat_less_iff)
  then have l: "length (dec (nat n)) \<le> w" using length_dec assms(3) by blast
  then have p: "pad_dec w n = replicate (w - length (dec (nat n))) 0x30 @ dec (nat n)"
    by (simp add: pad_dec_def Let_def)
  show "length (pad_dec w n) = w" using l by (simp add: p)
  show "int (dec_value (pad_dec w n)) = n" using assms(1) by (simp add: p dec_value_zeros dec_value_dec)
qed

lemma pad_dec_tens:
  assumes "0 \<le> n" "n < 100"
  shows "pad_dec 2 n ! 0 = dec_digit (nat n div 10)"
proof (cases "nat n < 10")
  case True
  then show ?thesis by (simp add: pad_dec_def dec.simps dec_digit_def)
next
  case False
  then have "nat n div 10 < 10" using assms by auto
  then show ?thesis using False by (simp add: pad_dec_def dec.simps [of "nat n"] dec.simps [of "nat n div 10"])
qed

lemma read_7_zone:
  assumes z: "zone_time localtime t always_gmt = (gmtime (t + 900 * tz), tz)"
    "0 \<le> t + 900 * tz" "-48 \<le> tz" "tz \<le> 52" "tm_year (gmtime (t + 900 * tz)) < 256"
  shows "iso_datetime_read_7 env (iso_datetime_7 localtime t always_gmt) = t"
proof -
  note g = gmtime_ranges [OF z(2)]
  let ?g = "gmtime (t + 900 * tz)"
  have "uint (word_of_int (tm_mon ?g + 1) :: byte) - 1 = tm_mon ?g" using g by (subst uint_byte) auto
  then show ?thesis using z g timegm_eta [OF z(2)]
    by (simp add: iso_datetime_7_def iso_datetime_read_7_def uint_byte sint_byte del: of_int_add)
qed





end
