(* ===== verification/Rock_Ridge.thy ===== *)
theory Rock_Ridge
  imports Bytes Datetime Node_Tree
begin

text \<open>
  The writer of Rock Ridge and SUSP entries, \<open>libisofs/rockridge.c\<close>.  \<open>rrip_calc_len\<close>
  predicts how many bytes the entries of a node take in its directory record and in the
  continuation area of the directory; \<open>rrip_get_susp_fields\<close> later makes the entries.  The
  directory writer lays out the image by the prediction, so that both have to agree.
\<close>

section \<open>The data\<close>

datatype ecma119_node_type = ECMA119_FILE | ECMA119_SYMLINK | ECMA119_DIR | ECMA119_SPECIAL | ECMA119_PLACEHOLDER

text \<open>The parameters of a zisofs file: \<open>header_size_div4\<close>, \<open>block_size_log2\<close>, \<open>uncompressed_size\<close>.\<close>

type_synonym zf = "nat \<times> nat \<times> u32"

text \<open>
  A stream: what \<open>ziso_is_zisofs_stream\<close> tells (an error, or the stream type with the parameters),
  and the \<open>ZF\<close> parameters which \<open>iso_stream_get_src_zf\<close> finds, if any.
\<close>

record iso_stream =
  zisofs_type :: "(int \<times> zf) res"
  src_zf :: "zf option"

text \<open>
  The members of \<open>Ecma119Node\<close> and of its \<open>IsoNode\<close> which the entries depend on.  \<open>streams\<close> is
  the chain of input streams from the stream of the file to the first one.  \<open>real_parent\<close> is the
  block address of the directory \<open>info.dir->real_parent\<close>, \<open>real_me\<close> the one of the directory which
  a placeholder stands for.
\<close>

record rr_node =
  node_id :: nat
  etype :: ecma119_node_type
  nlink :: u64
  ino :: u64
  iso_type :: node_type
  rr_name :: cstring
  mode :: u32
  uid :: u32
  gid :: u32
  atime :: int
  mtime_of :: int
  ctime :: int
  dest :: cstring
  dev :: u64
  aaip_xinfo :: "byte list option"
  zf_xinfo :: "zf option"
  streams :: "iso_stream list"
  from_old_session :: bool
  dir_block :: u32
  real_parent :: "u32 option"
  real_me :: u32

text \<open>
  The members of \<open>Ecma119Image\<close>.  \<open>strconv\<close> is the conversion from the input to the output
  character set, \<open>None\<close> when it fails; \<open>zone\<close> is what the time functions of the C library know.
\<close>

record rr_image =
  replace_uid :: bool
  replace_gid :: bool
  replace_file_mode :: bool
  replace_dir_mode :: bool
  uid_for_all :: u32
  gid_for_all :: u32
  file_mode :: u32
  dir_mode :: u32
  replace_timestamps :: bool
  timestamp :: int
  always_gmt :: bool
  rrip_version_1_10 :: bool
  rrip_1_10_px_ino :: bool
  aaip :: bool
  aaip_susp_1_10 :: bool
  appendable :: bool
  eff_partition_offset :: u32
  rr_reloc_flags :: nat
  rr_reloc_node :: "nat option"
  root_node :: "nat option"
  partition_root :: "nat option"
  same_charset :: bool
  strconv :: "cstring \<Rightarrow> cstring option"
  zone :: zone

text \<open>
  \<open>struct susp_info\<close>.  \<open>mem_left\<close> is the number of memory allocations that succeed before the
  first one fails.  \<open>corrupt\<close> gets set where the C code would go on with a lost array or access
  memory out of bounds, so that nothing is known about what follows.
\<close>

record susp_info =
  susp_fields :: "byte list list"
  suf_len :: nat
  ce_block :: u32
  ce_len :: u32
  ce_susp_fields :: "byte list list"
  mem_left :: nat
  corrupt :: bool

type_synonym rr_step = "susp_info \<Rightarrow> unit res \<times> susp_info"

text \<open>Calls in sequence, each followed by \<open>if (ret < 0) goto ...\<close>.\<close>

fun run :: "rr_step list \<Rightarrow> rr_step" where
  "run [] s = (Inr (), s)"
| "run (f # fs) s = (case f s of (Inl e, s) \<Rightarrow> (Inl e, s) | (Inr u, s) \<Rightarrow> run fs s)"

definition malloc_then :: "rr_step \<Rightarrow> rr_step" where
  "malloc_then f s =
     (if mem_left s = 0 then (Inl ISO_OUT_OF_MEM, s) else f (s\<lparr>mem_left := mem_left s - 1\<rparr>))"

section \<open>Single entries\<close>

definition susp_append :: "byte list \<Rightarrow> rr_step" where
  "susp_append data s =
     (if mem_left s = 0 then (Inl ISO_OUT_OF_MEM, s\<lparr>corrupt := True\<rparr>)
      else (Inr (), s\<lparr>mem_left := mem_left s - 1, susp_fields := susp_fields s @ [data],
                     suf_len := suf_len s + unat (data ! 2)\<rparr>))"

definition susp_append_ce :: "byte list \<Rightarrow> rr_step" where
  "susp_append_ce data s =
     (if mem_left s = 0 then (Inl ISO_OUT_OF_MEM, s\<lparr>corrupt := True\<rparr>)
      else (Inr (), s\<lparr>mem_left := mem_left s - 1, ce_susp_fields := ce_susp_fields s @ [data],
                     ce_len := ce_len s + ucast (data ! 2)\<rparr>))"

definition px_get_uid :: "rr_image \<Rightarrow> rr_node \<Rightarrow> u32" where
  "px_get_uid t n = (if replace_uid t then uid_for_all t else uid n)"

definition px_get_gid :: "rr_image \<Rightarrow> rr_node \<Rightarrow> u32" where
  "px_get_gid t n = (if replace_gid t then gid_for_all t else gid n)"

definition S_IFMT :: u32 where "S_IFMT = 0xF000"

definition px_get_mode :: "rr_image \<Rightarrow> rr_node \<Rightarrow> u32" where
  "px_get_mode t n =
     (if etype n = ECMA119_DIR \<or> etype n = ECMA119_PLACEHOLDER then
        if replace_dir_mode t then (mode n AND S_IFMT) OR dir_mode t else mode n
      else if replace_file_mode t then (mode n AND S_IFMT) OR file_mode t
      else mode n)"

definition px_has_ino :: "rr_image \<Rightarrow> bool" where
  "px_has_ino t \<longleftrightarrow> rrip_1_10_px_ino t \<or> \<not> rrip_version_1_10 t"

definition rrip_add_PX :: "rr_image \<Rightarrow> rr_node \<Rightarrow> rr_step" where
  "rrip_add_PX t n = malloc_then (susp_append
     (str ''PX'' @ [if px_has_ino t then 44 else 36, 1] @
      iso_bb (px_get_mode t n) 4 @ iso_bb (ucast (nlink n)) 4 @
      iso_bb (px_get_uid t n) 4 @ iso_bb (px_get_gid t n) 4 @
      (if px_has_ino t then iso_bb (ucast (ino n)) 4 else [])))"

definition tf_stamp :: "rr_image \<Rightarrow> int \<Rightarrow> byte list" where
  "tf_stamp t x = iso_datetime_7 (zone t) (if replace_timestamps t then timestamp t else x) (always_gmt t)"

definition rrip_add_TF :: "rr_image \<Rightarrow> rr_node \<Rightarrow> rr_step" where
  "rrip_add_TF t n = malloc_then (susp_append
     (str ''TF'' @ [5 + 3 * 7, 1, push_bit 1 1 OR push_bit 2 1 OR push_bit 3 1] @
      tf_stamp t (mtime_of n) @ tf_stamp t (atime n) @ tf_stamp t (ctime n)))"

definition rrip_add_PL :: "rr_image \<Rightarrow> rr_node \<Rightarrow> rr_step" where
  "rrip_add_PL t n s =
     (case real_parent n of
        Some block \<Rightarrow>
          if etype n \<noteq> ECMA119_DIR then (Inl ISO_ASSERT_FAILURE, s)
          else malloc_then (susp_append (str ''PL'' @ [12, 1] @ iso_bb (block - eff_partition_offset t) 4)) s
      | None \<Rightarrow> (Inl ISO_ASSERT_FAILURE, s))"

definition rrip_add_RE :: rr_step where
  "rrip_add_RE = malloc_then (susp_append (str ''RE'' @ [4, 1]))"

definition rrip_add_PN :: "rr_node \<Rightarrow> rr_step" where
  "rrip_add_PN n s =
     (if iso_type n \<noteq> LIBISO_SPECIAL then (Inl ISO_ASSERT_FAILURE, s)
      else malloc_then (susp_append (str ''PN'' @ [20, 1] @ iso_bb (ucast (drop_bit 32 (dev n))) 4 @
                                     iso_bb (ucast (dev n AND 0xffffffff)) 4)) s)"

definition rrip_add_CL :: "rr_image \<Rightarrow> rr_node \<Rightarrow> rr_step" where
  "rrip_add_CL t n s =
     (if etype n \<noteq> ECMA119_PLACEHOLDER then (Inl ISO_ASSERT_FAILURE, s)
      else malloc_then (susp_append (str ''CL'' @ [12, 1] @ iso_bb (real_me n - eff_partition_offset t) 4)) s)"

text \<open>\<open>strdup\<close> is taken to succeed; the callers do not check its result.\<close>

definition get_rr_fname :: "rr_image \<Rightarrow> cstring \<Rightarrow> cstring" where
  "get_rr_fname t s =
     (if same_charset t then s else case strconv t s of Some name \<Rightarrow> name | None \<Rightarrow> s)"

text \<open>A negative size makes \<open>memcpy\<close> run out of bounds.\<close>

definition rrip_add_NM :: "cstring \<Rightarrow> int \<Rightarrow> byte \<Rightarrow> bool \<Rightarrow> rr_step" where
  "rrip_add_NM name n flags ce s =
     (if n > 250 then (Inl ISO_ASSERT_FAILURE, s)
      else malloc_then (\<lambda>s. (if ce then susp_append_ce else susp_append)
              (str ''NM'' @ [word_of_int (n + 5), 1, flags] @ take (nat n) name)
              (if n < 0 then s\<lparr>corrupt := True\<rparr> else s)) s)"

text \<open>The result pointers of \<open>rrip_SL_append_comp\<close> are the components so far.\<close>

record sl_state =
  sl_comps :: "byte list list"
  sl_fill :: nat
  sl_ce :: nat
  sl_cew :: bool
  sl_mem :: nat

definition rrip_SL_append_comp :: "cstring \<Rightarrow> nat \<Rightarrow> byte \<Rightarrow> sl_state \<Rightarrow> unit res \<times> sl_state" where
  "rrip_SL_append_comp s n fl st =
     (if sl_mem st < 2 then (Inl ISO_OUT_OF_MEM, st\<lparr>sl_mem := 0\<rparr>)
      else (Inr (), st\<lparr>sl_mem := sl_mem st - 2, sl_comps := sl_comps st @ [[fl, word_of_nat n] @ take n s]\<rparr>))"

definition comp_size :: "byte list \<Rightarrow> nat" where
  "comp_size c = unat (c ! 1) + 2"

definition sl_entry :: "byte \<Rightarrow> byte list list \<Rightarrow> byte list" where
  "sl_entry flags comps =
     (let data = concat (map (\<lambda>c. take (comp_size c) c) comps)
      in str ''SL'' @ [word_of_nat (length data + 5), 1, flags] @ data)"

text \<open>\<open>pending\<close> are the components from \<open>written\<close> to \<open>i\<close>, \<open>total_comp_len\<close> their length.\<close>

fun rrip_add_SL_loop :: "byte list list \<Rightarrow> byte list list \<Rightarrow> nat \<Rightarrow> bool \<Rightarrow> rr_step" where
  "rrip_add_SL_loop [] pending total_comp_len ce s =
     malloc_then ((if ce then susp_append_ce else susp_append) (sl_entry 0 pending)) s"
| "rrip_add_SL_loop (c # cs) pending total_comp_len ce s =
     (if total_comp_len + comp_size c > 250 then
        malloc_then (\<lambda>s.
          if \<not> ce then (Inl ISO_ASSERT_FAILURE, s)
          else run [susp_append_ce (sl_entry 1 pending), rrip_add_SL_loop cs [c] (comp_size c) ce] s) s
      else rrip_add_SL_loop cs (pending @ [c]) (total_comp_len + comp_size c) ce s)"

definition rrip_add_SL :: "byte list list \<Rightarrow> bool \<Rightarrow> rr_step" where
  "rrip_add_SL comps ce = rrip_add_SL_loop comps [] 0 ce"

definition susp_add_CE :: "rr_image \<Rightarrow> nat \<Rightarrow> rr_step" where
  "susp_add_CE t n = malloc_then (\<lambda>s. susp_append
     (str ''CE'' @ [28, 1] @ iso_bb (ce_block s - eff_partition_offset t) 4 @
      iso_bb (ce_len s) 4 @ iso_bb (word_of_nat n) 4) s)"

definition susp_add_SP :: rr_step where
  "susp_add_SP = malloc_then (susp_append (str ''SP'' @ [7, 1, 0xbe, 0xef, 0]))"

definition susp_add_ES :: "bool \<Rightarrow> byte \<Rightarrow> rr_step" where
  "susp_add_ES to_ce seqno =
     malloc_then ((if to_ce then susp_append_ce else susp_append) (str ''ES'' @ [5, 1, seqno]))"

definition zisofs_add_ZF :: "bool \<Rightarrow> zf \<Rightarrow> rr_step" where
  "zisofs_add_ZF to_ce z =
     (case z of (header_size_div4, block_size_log2, uncompressed_size) \<Rightarrow>
        malloc_then ((if to_ce then susp_append_ce else susp_append)
          (str ''ZF'' @ [16, 1] @ str ''pz'' @ [word_of_nat header_size_div4, word_of_nat block_size_log2] @
           iso_bb uncompressed_size 4)))"

definition rrip_add_ER :: "rr_image \<Rightarrow> rr_step" where
  "rrip_add_ER t = malloc_then (susp_append_ce
     (if \<not> rrip_version_1_10 t then
        str ''ER'' @ [182, 1, 9, 72, 93, 1] @ str ''IEEE_1282'' @
        str ''THE IEEE 1282 PROTOCOL PROVIDES SUPPORT FOR POSIX FILE SYSTEM SEMANTICS.'' @
        str ''PLEASE CONTACT THE IEEE STANDARDS DEPARTMENT, PISCATAWAY, NJ, USA FOR THE 1282 SPECIFICATION.''
      else
        str ''ER'' @ [237, 1, 10, 84, 135, 1] @ str ''RRIP_1991A'' @
        str ''THE ROCK RIDGE INTERCHANGE PROTOCOL PROVIDES SUPPORT FOR POSIX FILE SYSTEM SEMANTICS'' @
        str ''PLEASE CONTACT DISC PUBLISHER FOR SPECIFICATION SOURCE.  SEE PUBLISHER IDENTIFIER IN PRIMARY VOLUME DESCRIPTOR FOR CONTACT INFORMATION.''))"

definition aaip_add_ER :: rr_step where
  "aaip_add_ER = malloc_then (susp_append_ce
     (str ''ER'' @ [160, 1, 9, 81, 62, 1] @ str ''AAIP_0200'' @
      str ''AL PROVIDES VIA AAIP 2.0 SUPPORT FOR ARBITRARY FILE ATTRIBUTES IN ISO 9660 IMAGES'' @
      str ''PLEASE CONTACT THE LIBBURNIA PROJECT VIA LIBBURNIA-PROJECT.ORG''))"

section \<open>Attributes and zisofs parameters of a node\<close>

text \<open>
  \<open>aaip_count_bytes\<close> of \<open>libisofs/aaip_0_2.c\<close>: the length of a chain of \<open>AL\<close> fields.  \<open>None\<close> stands for
  a string on which the loop does not end or leaves the memory.
\<close>

lemma unat_pos: "w \<noteq> 0 \<Longrightarrow> 0 < unat (w :: byte)"
  by (simp add: unat_gt_0)

function aaip_count_bytes :: "byte list \<Rightarrow> nat option" where
  "aaip_count_bytes data =
     (if length data < 5 then None
      else if data ! 4 AND 1 = 0 then Some (unat (data ! 2))
      else if data ! 2 = 0 then None
      else map_option ((+) (unat (data ! 2))) (aaip_count_bytes (drop (unat (data ! 2)) data)))"
  by auto

termination
  by (relation "measure length") (auto dest!: unat_pos)

declare aaip_count_bytes.simps [simp del]

text \<open>The attribute string of a node; the functions that use it rely on a complete one.\<close>

definition num_aapt :: "rr_image \<Rightarrow> rr_node \<Rightarrow> nat" where
  "num_aapt t n =
     (if \<not> aaip t then 0
      else case aaip_xinfo n of
        None \<Rightarrow> 0
      | Some data \<Rightarrow> (case aaip_count_bytes data of Some k \<Rightarrow> k | None \<Rightarrow> 0))"

text \<open>Where a part of \<open>n\<close> bytes goes: \<open>sua_free\<close> and \<open>ce_len\<close> after it.\<close>

definition account :: "nat \<Rightarrow> nat \<times> nat \<Rightarrow> nat \<times> nat" where
  "account n room =
     (case room of (sua_free, ce) \<Rightarrow>
        if sua_free < n \<or> ce > 0 then (sua_free, ce + n) else (sua_free - n, ce))"

definition es_extra :: "rr_image \<Rightarrow> nat" where
  "es_extra t = (if \<not> aaip_susp_1_10 t then 5 else 0)"

text \<open>
  The loop over several fields of the attribute string.  It compares the result of the append
  functions with -1, which is none of their error codes, and so goes on after a failure.
\<close>

function aaip_add_AL_loop :: "byte list \<Rightarrow> bool \<Rightarrow> rr_step" where
  "aaip_add_AL_loop aapt ce s =
     (if mem_left s = 0 then (Inl ISO_OUT_OF_MEM, s)
      else
        let len = unat (aapt ! 2);
            s = snd ((if ce then susp_append_ce else susp_append) (take len aapt) (s\<lparr>mem_left := mem_left s - 1\<rparr>))
        in if length aapt < 5 \<or> aapt ! 4 AND 1 = 0 \<or> aapt ! 2 = 0 then (Inr (), s)
           else aaip_add_AL_loop (drop len aapt) ce s)"
  by auto

termination
  by (relation "measure (\<lambda>(aapt, _, _). length aapt)") (auto dest!: unat_pos)

declare aaip_add_AL_loop.simps [simp del]

definition aaip_add_AL :: "rr_image \<Rightarrow> byte list \<Rightarrow> nat \<times> nat \<Rightarrow> rr_step" where
  "aaip_add_AL t data room s =
     (let to_ce = (snd (account (length data + es_extra t) room) > 0);
          (r, s) = (if aaip t \<and> \<not> aaip_susp_1_10 t then susp_add_ES to_ce 1 s else (Inr (), s))
      in case r of Inl e \<Rightarrow> (Inl e, s)
         | Inr u \<Rightarrow>
             if data ! 4 AND 1 = 0
             then (Inr (), snd ((if to_ce then susp_append_ce else susp_append) data s))
             else aaip_add_AL_loop data to_ce s)"

definition add_aa_string :: "rr_image \<Rightarrow> rr_node \<Rightarrow> nat \<times> nat \<Rightarrow> rr_step" where
  "add_aa_string t n room s =
     (if num_aapt t n > 0 then
        malloc_then (aaip_add_AL t (take (num_aapt t n) (the (aaip_xinfo n))) room) s
      else (Inr (), s))"

definition aa_account :: "rr_image \<Rightarrow> rr_node \<Rightarrow> nat \<times> nat \<Rightarrow> nat \<times> nat" where
  "aa_account t n room = (if num_aapt t n > 0 then account (num_aapt t n + es_extra t) room else room)"

text \<open>
  The inspection of the streams in \<open>add_zf_field\<close>: the parameters of the \<open>ZF\<close> entry, if there is
  to be one.
\<close>

definition zf_wanted :: "rr_image \<Rightarrow> rr_node \<Rightarrow> (zf option) res" where
  "zf_wanted t n =
     (if iso_type n \<noteq> LIBISO_FILE then Inr None
      else
        let will_copy = \<not> (appendable t \<and> from_old_session n);
            last_stream = hd (streams n);
            first_stream = last (streams n);
            first_filter = (if length (streams n) < 2 then first_stream else last (butlast (streams n)));
            stream = (if will_copy then last_stream else first_filter)
        in case zisofs_type stream of
             Inl e \<Rightarrow> Inl e
           | Inr (stream_type, z) \<Rightarrow>
               let found =
                 (if stream_type = 1 \<and> will_copy then Some z
                  else if stream_type = -1 \<and> \<not> will_copy then Some z
                  else if length (streams n) < 2 \<or> \<not> will_copy then
                    (case src_zf first_stream of Some z \<Rightarrow> if fst z > 0 then Some z else None | None \<Rightarrow> None)
                  else None)
               in Inr (case found of Some z \<Rightarrow> Some z
                       | None \<Rightarrow> (case zf_xinfo n of Some z \<Rightarrow> if fst z > 0 then Some z else None | None \<Rightarrow> None)))"

definition zf_account :: "rr_image \<Rightarrow> rr_node \<Rightarrow> nat \<times> nat \<Rightarrow> nat \<times> nat" where
  "zf_account t n room = (case zf_wanted t n of Inr (Some z) \<Rightarrow> account 16 room | _ \<Rightarrow> room)"

definition add_zf_field :: "rr_image \<Rightarrow> rr_node \<Rightarrow> nat \<times> nat \<Rightarrow> rr_step" where
  "add_zf_field t n room s =
     (case zf_wanted t n of
        Inl e \<Rightarrow> (Inl e, s)
      | Inr None \<Rightarrow> (Inr (), s)
      | Inr (Some z) \<Rightarrow> zisofs_add_ZF (snd (account 16 room) > 0) z s)"

section \<open>The predicted sizes\<close>

text \<open>
  The component at the start of \<open>prev\<close>: its length for the entry and its flags.  The components
  \<open>.\<close> and \<open>..\<close> and the empty one, which stands for the root, have no text.
\<close>

definition comp_text :: "cstring \<Rightarrow> cstring" where
  "comp_text prev = takeWhile (\<lambda>c. c \<noteq> asc CHR ''/'') prev"

definition comp_len :: "cstring \<Rightarrow> nat" where
  "comp_len prev = (if comp_text prev = str ''.'' \<or> comp_text prev = str ''..'' then 0 else length (comp_text prev))"

definition comp_flags :: "cstring \<Rightarrow> byte" where
  "comp_flags prev =
     (if comp_text prev = [] then push_bit 3 1
      else if comp_text prev = str ''.'' then push_bit 1 1
      else if comp_text prev = str ''..'' then push_bit 2 1
      else 0)"

text \<open>The text from the next component on; a single \<open>/\<close> at the end is not followed by one.\<close>

definition comp_next :: "cstring \<Rightarrow> cstring option" where
  "comp_next prev =
     (case strchr prev (asc CHR ''/'') of
        None \<Rightarrow> None
      | Some cur \<Rightarrow> if drop (Suc cur) prev = [] then None else Some (drop (Suc cur) prev))"

lemma comp_next_shorter: "comp_next prev = Some p \<Longrightarrow> length p < length prev"
  by (auto simp: comp_next_def split: option.splits if_splits dest: strchr_Some)

text \<open>
  One turn of the loop of \<open>susp_calc_nm_sl_al\<close> over the link target with its variables \<open>cew\<close>,
  \<open>sl_len\<close> and \<open>*ce\<close>; \<open>None\<close> is the jump to \<open>unannounced_ca\<close>.
\<close>

definition calc_sl_step :: "bool \<Rightarrow> nat \<Rightarrow> nat \<Rightarrow> cstring \<Rightarrow> bool \<times> nat \<times> nat \<Rightarrow> (bool \<times> nat \<times> nat) option" where
  "calc_sl_step with_ca space su_size prev st =
     (case st of (cew, sl_len, ce) \<Rightarrow>
        let clen = comp_len prev + 2;
            overflow = (\<not> cew \<and> su_size + sl_len + clen > space)
        in if overflow \<and> \<not> with_ca then None
           else if \<not> cew \<and> \<not> overflow then Some (False, sl_len + clen, ce)
           else if sl_len + clen > 255 then
             (if clen > 250 then
                let fit = 255 - int sl_len - 2 in
                if int clen - 250 \<le> fit then Some (True, nat (5 + (int clen - fit)), ce + 255)
                else Some (True, 5 + (clen - 250) + 2, ce + sl_len + 255)
              else Some (True, 5 + clen, ce + sl_len))
           else Some (True, sl_len + clen, ce))"

function calc_sl_loop :: "bool \<Rightarrow> nat \<Rightarrow> nat \<Rightarrow> cstring \<Rightarrow> bool \<times> nat \<times> nat \<Rightarrow> (bool \<times> nat \<times> nat) option" where
  "calc_sl_loop with_ca space su_size prev st =
     (case calc_sl_step with_ca space su_size prev st of
        None \<Rightarrow> None
      | Some st \<Rightarrow>
          (case comp_next prev of
             None \<Rightarrow> Some st
           | Some prev \<Rightarrow> calc_sl_loop with_ca space su_size prev st))"
  by auto

termination by (relation "measure (\<lambda>(_, _, _, prev, _). length prev)") (auto dest: comp_next_shorter)

declare calc_sl_loop.simps [simp del]

datatype calc_result = Calc_ok | Calc_needs_ca | Calc_no_space

text \<open>
  The differences in \<open>namelen - (space - *su_size - 5)\<close> may be negative in between; the
  result, computed modulo the word size, is the number below.
\<close>

definition susp_calc_nm_sl_al ::
  "rr_image \<Rightarrow> rr_node \<Rightarrow> nat \<Rightarrow> nat \<Rightarrow> nat \<Rightarrow> bool \<Rightarrow> calc_result \<times> nat \<times> nat" where
  "susp_calc_nm_sl_al t n space su_size0 ce0 with_ca =
     (let namelen = length (get_rr_fname t (rr_name n)) in
      if ce0 > 0 \<and> \<not> with_ca then (Calc_needs_ca, su_size0, ce0)
      else if with_ca \<and> su_size0 + 28 > space then (Calc_no_space, su_size0, ce0)
      else
        let su_size = (if with_ca then su_size0 + 28 else su_size0);
            fits = su_size + 5 + namelen \<le> space
        in if \<not> fits \<and> \<not> with_ca then (Calc_needs_ca, su_size0, ce0)
           else
             let (su_size, ce) =
                   (if fits then (su_size + 5 + namelen, ce0) else (space, 5 + (namelen + 5 + su_size - space)));
                 link =
                   (if etype n = ECMA119_SYMLINK then
                      map_option (\<lambda>(cew, sl_len, ce). if \<not> cew then (su_size + sl_len, ce) else (su_size, ce + sl_len))
                        (calc_sl_loop with_ca space su_size (get_rr_fname t (dest n)) (ce \<noteq> 0, 5, ce))
                    else Some (su_size, ce))
             in case link of
                  None \<Rightarrow> (Calc_needs_ca, su_size0, ce0)
                | Some (su_size, ce) \<Rightarrow>
                    let (sua_free, ce) = zf_account t n (space - su_size, ce);
                        su_size = space - sua_free
                    in if ce > 0 \<and> \<not> with_ca then (Calc_needs_ca, su_size0, ce0)
                       else
                         let (sua_free, ce) = aa_account t n (space - su_size, ce);
                             su_size = space - sua_free
                         in if num_aapt t n > 0 \<and> ce > 0 \<and> \<not> with_ca then (Calc_needs_ca, su_size0, ce0)
                            else (Calc_ok, su_size, ce))"

text \<open>
  \<open>space = 254 - used_up - (used_up % 2)\<close> as an \<open>int\<close>; \<open>rrip_calc_len\<close> computes it as \<open>size_t\<close>, where
  a negative value is a huge one.
\<close>

definition ISO_ROCKRIDGE_IN_DIR_REC :: nat where "ISO_ROCKRIDGE_IN_DIR_REC = 124"

definition sua_space :: "nat \<Rightarrow> int" where
  "sua_space used_up = 254 - int used_up - int (used_up mod 2)"

definition ecma119_is_dedicated_reloc_dir :: "rr_image \<Rightarrow> rr_node \<Rightarrow> bool" where
  "ecma119_is_dedicated_reloc_dir t n \<longleftrightarrow>
     rr_reloc_node t = Some (node_id n) \<and> root_node t \<noteq> Some (node_id n) \<and>
     partition_root t \<noteq> Some (node_id n) \<and> rr_reloc_flags t AND 2 \<noteq> 0"

definition is_device :: "rr_node \<Rightarrow> bool" where
  "is_device n \<longleftrightarrow> mode n AND S_IFMT = 0x6000 \<or> mode n AND S_IFMT = 0x2000"

definition announces_aaip :: "rr_image \<Rightarrow> bool" where
  "announces_aaip t \<longleftrightarrow> aaip t \<and> \<not> aaip_susp_1_10 t"

text \<open>The lengths of the entries that stand before the name.\<close>

definition calc_fixed_len :: "rr_image \<Rightarrow> rr_node \<Rightarrow> nat \<Rightarrow> nat" where
  "calc_fixed_len t n type =
     (if announces_aaip t then 5 else 0) +
     (if px_has_ino t then 44 + 26 else 36 + 26) +
     (case etype n of
        ECMA119_DIR \<Rightarrow>
          (case real_parent n of
             Some _ \<Rightarrow> if type = 2 then 12 else if type = 0 then 4 else 0
           | None \<Rightarrow> if ecma119_is_dedicated_reloc_dir t n \<and> rr_reloc_flags t AND 1 \<noteq> 0 then 4 else 0)
      | ECMA119_SPECIAL \<Rightarrow> if is_device n then 20 else 0
      | ECMA119_PLACEHOLDER \<Rightarrow> 12
      | _ \<Rightarrow> 0)"

definition er_len :: "rr_image \<Rightarrow> nat" where
  "er_len t = (if rrip_version_1_10 t then 237 else 182) + (if announces_aaip t then 160 else 0)"

text \<open>
  The result and \<open>*ce\<close>.  \<open>is_root\<close> is \<open>n->parent == NULL\<close>.  The error is returned as a \<open>size_t\<close>, which
  the callers add to their sums.
\<close>

definition rrip_calc_len :: "rr_image \<Rightarrow> rr_node \<Rightarrow> bool \<Rightarrow> nat \<Rightarrow> nat \<Rightarrow> (nat \<times> nat) res" where
  "rrip_calc_len t n is_root type used_up =
     (let space = nat (sua_space used_up mod 2 ^ 64) in
      if type > 2 \<or> space < ISO_ROCKRIDGE_IN_DIR_REC then Inl ISO_ASSERT_FAILURE
      else
        let su_size = calc_fixed_len t n type;
            (su_size, ce) =
              (if type = 0 then
                 (case susp_calc_nm_sl_al t n space su_size 0 False of
                    (Calc_needs_ca, su_size, ce) \<Rightarrow> snd (susp_calc_nm_sl_al t n space su_size ce True)
                  | (r, su_size, ce) \<Rightarrow> (su_size, ce))
               else
                 let su_size = (if \<not> rrip_version_1_10 t then su_size + 5 else su_size)
                 in if type = 1 \<and> is_root
                    then (su_size + (7 + 28), er_len t + snd (aa_account t n (0, 0)))
                    else (su_size, 0))
        in Inr (su_size + su_size mod 2, ce))"

section \<open>Making the entries\<close>

text \<open>The entries before the name; \<open>node\<close> is the one that the record refers to.\<close>

definition place_step :: "rr_image \<Rightarrow> rr_node \<Rightarrow> rr_node \<Rightarrow> nat \<Rightarrow> rr_step list" where
  "place_step t n node type =
     (case etype n of
        ECMA119_DIR \<Rightarrow>
          (case real_parent n of
             Some _ \<Rightarrow> if type = 2 then [rrip_add_PL t n] else if type = 0 then [rrip_add_RE] else []
           | None \<Rightarrow> if ecma119_is_dedicated_reloc_dir t n \<and> rr_reloc_flags t AND 1 \<noteq> 0 then [rrip_add_RE] else [])
      | ECMA119_SPECIAL \<Rightarrow> if is_device n then [rrip_add_PN node] else []
      | ECMA119_PLACEHOLDER \<Rightarrow> [rrip_add_CL t node]
      | _ \<Rightarrow> [])"

definition rrip_fixed_steps :: "rr_image \<Rightarrow> rr_node \<Rightarrow> rr_node \<Rightarrow> bool \<Rightarrow> nat \<Rightarrow> rr_step list" where
  "rrip_fixed_steps t n node is_root type =
     (if type = 1 \<and> is_root then [susp_add_SP] else []) @
     (if announces_aaip t then [susp_add_ES False 0] else []) @
     [rrip_add_PX t node, rrip_add_TF t node] @ place_step t n node type"

text \<open>
  One turn of the loop over the link target: the components that it appends and the new
  values of \<open>cew\<close>, \<open>sl_len\<close> and \<open>ce_len\<close>.  Where a component of more than 248 bytes is divided
  without using the rest of the entry, the second half gets the length of all that follows in the
  target, \<open>strlen (prev + 248)\<close>.
\<close>

definition comps_plan :: "nat \<Rightarrow> cstring \<Rightarrow> sl_state \<Rightarrow> bool \<times> (cstring \<times> nat \<times> byte) list \<times> nat \<times> nat" where
  "comps_plan sua_free prev st =
     (let clen = comp_len prev + 2;
          cew = (sl_cew st \<or> sl_fill st + clen > sua_free);
          fit = 255 - int (sl_fill st) - 2
      in (cew,
          if cew \<and> sl_fill st + clen > 255 then
            if clen > 250 then
              if int clen - 250 \<le> fit then
                ([(prev, nat fit, 1), (drop (nat fit) prev, clen - nat fit - 2, 0)],
                 nat (5 + (int clen - fit)), sl_ce st + 255)
              else
                ([(prev, 248, 1), (drop 248 prev, length (drop 248 prev), 0)],
                 5 + (clen - 250) + 2, sl_ce st + sl_fill st + 255)
            else ([(prev, clen - 2, comp_flags prev)], 5 + clen, sl_ce st + sl_fill st)
          else ([(prev, clen - 2, comp_flags prev)], sl_fill st + clen, sl_ce st)))"

fun SL_append_comps :: "(cstring \<times> nat \<times> byte) list \<Rightarrow> sl_state \<Rightarrow> unit res \<times> sl_state" where
  "SL_append_comps [] st = (Inr (), st)"
| "SL_append_comps ((s, n, fl) # cs) st =
     (case rrip_SL_append_comp s n fl st of
        (Inl e, st) \<Rightarrow> (Inl e, st)
      | (Inr u, st) \<Rightarrow> SL_append_comps cs st)"

definition comps_step :: "nat \<Rightarrow> cstring \<Rightarrow> sl_state \<Rightarrow> unit res \<times> sl_state" where
  "comps_step sua_free prev st =
     (case comps_plan sua_free prev st of (cew, comps, fill, ce) \<Rightarrow>
        case SL_append_comps comps st of
          (Inl e, st) \<Rightarrow> (Inl e, st)
        | (Inr u, st) \<Rightarrow> (Inr (), st\<lparr>sl_cew := cew, sl_fill := fill, sl_ce := ce\<rparr>))"

function comps_loop :: "nat \<Rightarrow> cstring \<Rightarrow> sl_state \<Rightarrow> unit res \<times> sl_state" where
  "comps_loop sua_free prev st =
     (case comps_step sua_free prev st of
        (Inl e, st) \<Rightarrow> (Inl e, st)
      | (Inr u, st) \<Rightarrow>
          (case comp_next prev of
             None \<Rightarrow> (Inr (), st)
           | Some prev \<Rightarrow> comps_loop sua_free prev st))"
  by auto

termination by (relation "measure (\<lambda>(_, prev, _). length prev)") (auto dest: comp_next_shorter)

declare comps_loop.simps [simp del]

text \<open>The loop with its result in the allocation state of the node: components and \<open>ce_len\<close>.\<close>

definition link_comps :: "rr_image \<Rightarrow> rr_node \<Rightarrow> nat \<Rightarrow> bool \<Rightarrow> nat \<Rightarrow> susp_info \<Rightarrow>
    (byte list list \<times> nat) res \<times> susp_info" where
  "link_comps t n sua_free nm_in_ce ce s =
     (if etype n \<noteq> ECMA119_SYMLINK then (Inr ([], ce), s)
      else case comps_loop sua_free (get_rr_fname t (dest n))
                  \<lparr>sl_comps = [], sl_fill = 5, sl_ce = ce, sl_cew = nm_in_ce, sl_mem = mem_left s\<rparr> of
             (Inl e, st) \<Rightarrow> (Inl e, s\<lparr>mem_left := sl_mem st\<rparr>)
           | (Inr u, st) \<Rightarrow>
               (Inr (sl_comps st, if sl_cew st then sl_ce st + sl_fill st else sl_ce st), s\<lparr>mem_left := sl_mem st\<rparr>))"

definition rrip_name_steps ::
  "rr_image \<Rightarrow> rr_node \<Rightarrow> nat \<Rightarrow> susp_info \<Rightarrow> bool \<Rightarrow> nat \<Rightarrow> bool \<Rightarrow> byte list list \<Rightarrow> nat \<Rightarrow> nat \<Rightarrow> rr_step list" where
  "rrip_name_steps t n space info predicted ce_len_pd nm_in_ce comps sua_free ce =
     (let name = get_rr_fname t (rr_name n);
          part = int space - int (suf_len info) - (if predicted then 28 else 0) - 5
      in (if \<not> nm_in_ce then [rrip_add_NM name (int (length name)) 0 False]
          else [rrip_add_NM name part 1 False]) @
         (if predicted then [susp_add_CE t ce_len_pd] else []) @
         (if nm_in_ce then [rrip_add_NM (drop (nat part) name) (int (length (drop (nat part) name))) 0 True] else []) @
         (if etype n = ECMA119_SYMLINK then [rrip_add_SL comps (ce > 0)] else []) @
         [add_zf_field t n (sua_free, ce), add_aa_string t n (zf_account t n (sua_free, ce))])"

text \<open>The branch for the record of the node itself, type 0.\<close>

definition rrip_normal_fields :: "rr_image \<Rightarrow> rr_node \<Rightarrow> nat \<Rightarrow> rr_step" where
  "rrip_normal_fields t n space s =
     (let namelen = length (get_rr_fname t (rr_name n));
          (r, su_size_pd, ce_len_pd) = susp_calc_nm_sl_al t n space (suf_len s) 0 False;
          predicted = (r = Calc_needs_ca);
          ce_len_pd = (if predicted then snd (snd (susp_calc_nm_sl_al t n space su_size_pd ce_len_pd True)) else ce_len_pd);
          sua_free = space - suf_len s - (if predicted then 28 else 0);
          nm_in_ce = (5 + namelen > sua_free);
          ce = (if nm_in_ce then 5 + (namelen + 5 - sua_free) else 0);
          sua_free = (if nm_in_ce then 0 else sua_free - (5 + namelen))
      in case link_comps t n sua_free nm_in_ce ce s of
           (Inl e, s) \<Rightarrow> (Inl e, s)
         | (Inr (comps, ce), s) \<Rightarrow>
             run (rrip_name_steps t n space s predicted ce_len_pd nm_in_ce comps sua_free ce) s)"

text \<open>The branch for \<open>.\<close> and \<open>..\<close>, types 1 and 2.\<close>

definition rrip_dot_steps :: "rr_image \<Rightarrow> rr_node \<Rightarrow> bool \<Rightarrow> nat \<Rightarrow> rr_step list" where
  "rrip_dot_steps t n is_root type =
     (if \<not> rrip_version_1_10 t then [rrip_add_NM [] 0 (push_bit type 1) False] else []) @
     (if type = 1 \<and> is_root then
        [susp_add_CE t (er_len t + snd (aa_account t n (0, 0))), rrip_add_ER t] @
        (if announces_aaip t then [aaip_add_ER] else []) @
        [add_aa_string t n (0, 0)]
      else [])"

text \<open>\<open>par\<close> is \<open>n->parent\<close>.  After an error the caller finds the fields freed.\<close>

definition rrip_get_susp_fields :: "rr_image \<Rightarrow> rr_node \<Rightarrow> rr_node option \<Rightarrow> nat \<Rightarrow> nat \<Rightarrow> rr_step" where
  "rrip_get_susp_fields t n par type used_up s =
     (let space = sua_space used_up;
          is_root = (par = None);
          node = (if type = 2 then case par of Some p \<Rightarrow> p | None \<Rightarrow> n else n)
      in if type > 2 \<or> space < int ISO_ROCKRIDGE_IN_DIR_REC then (Inl ISO_ASSERT_FAILURE, s)
         else case run (rrip_fixed_steps t n node is_root type) s of
             (Inl e, s) \<Rightarrow> (Inl e, s)
           | (Inr u, s) \<Rightarrow>
               if int (suf_len s) + 28 > space then (Inl ISO_ASSERT_FAILURE, s)
               else case (if type = 0 then rrip_normal_fields t n (nat space) s
                          else run (rrip_dot_steps t n is_root type) s) of
                   (Inl e, s) \<Rightarrow> (Inl e, s)
                 | (Inr u, s) \<Rightarrow> (Inr (), s\<lparr>suf_len := suf_len s + suf_len s mod 2\<rparr>))"

section \<open>Writing the entries\<close>

definition rrip_write_susp_fields :: "susp_info \<Rightarrow> byte list \<times> susp_info" where
  "rrip_write_susp_fields s =
     (if susp_fields s = [] then ([], s)
      else (concat (map (\<lambda>f. take (unat (f ! 2)) f) (susp_fields s)), s\<lparr>susp_fields := [], suf_len := 0\<rparr>))"

text \<open>
  The continuation area of a directory goes out by \<open>iso_write\<close>, here the parameter \<open>write\<close> on the
  state \<open>w\<close> of the image, and is padded to a whole block.
\<close>

fun write_fields :: "(byte list \<Rightarrow> 'w \<Rightarrow> unit res \<times> 'w) \<Rightarrow> byte list list \<Rightarrow> 'w \<Rightarrow> unit res \<times> 'w" where
  "write_fields write [] w = (Inr (), w)"
| "write_fields write (f # fs) w =
     (case write (take (unat (f ! 2)) f) w of
        (Inl e, w) \<Rightarrow> (Inl e, w)
      | (Inr u, w) \<Rightarrow> write_fields write fs w)"

definition rrip_write_ce_fields ::
  "(byte list \<Rightarrow> 'w \<Rightarrow> unit res \<times> 'w) \<Rightarrow> susp_info \<Rightarrow> 'w \<Rightarrow> unit res \<times> 'w \<times> susp_info" where
  "rrip_write_ce_fields write s w =
     (if ce_susp_fields s = [] then (Inr (), w, s)
      else if mem_left s = 0 then (Inl ISO_OUT_OF_MEM, w, s)
      else
        let s' = s\<lparr>mem_left := mem_left s - 1, ce_susp_fields := [], ce_len := 0\<rparr>
        in case write_fields write (ce_susp_fields s) w of
             (Inl e, w) \<Rightarrow> (Inl e, w, s')
           | (Inr u, w) \<Rightarrow>
               let i = 2048 - unat (ce_len s) mod 2048
               in if i < 2048 then (case write (replicate i 0) w of (ret, w) \<Rightarrow> (ret, w, s'))
                  else (Inr (), w, s'))"
end
