(* ===== verification/RR_Entries.thy ===== *)
theory RR_Entries
  imports Rock_Ridge
begin

text \<open>
  What the steps of \<open>rrip_get_susp_fields\<close> add to the directory record and to the continuation
  area: the entries before the name, the packing of link components into \<open>SL\<close> entries, the
  attribute string; and that the prediction goes through the same states over a link target.
\<close>

section \<open>What a step adds\<close>

text \<open>An entry whose length byte is its length.\<close>

definition sized :: "byte list \<Rightarrow> bool" where
  "sized f \<longleftrightarrow> 4 \<le> length f \<and> unat (f ! 2) = length f"

definition total :: "byte list list \<Rightarrow> nat" where
  "total fs = sum_list (map length fs)"

lemma total_simps [simp]:
  "total [] = 0" "total (f # fs) = length f + total fs" "total (fs @ gs) = total fs + total gs"
  by (simp_all add: total_def)

text \<open>From \<open>s\<close> to \<open>s'\<close> the entries \<open>fs\<close> were added to the record and \<open>cs\<close> to the continuation area.\<close>

definition adds :: "byte list list \<Rightarrow> byte list list \<Rightarrow> susp_info \<Rightarrow> susp_info \<Rightarrow> bool" where
  "adds fs cs s s' \<longleftrightarrow>
     susp_fields s' = susp_fields s @ fs \<and> suf_len s' = suf_len s + total fs \<and>
     ce_susp_fields s' = ce_susp_fields s @ cs \<and> ce_len s' = ce_len s + word_of_nat (total cs) \<and>
     ce_block s' = ce_block s \<and> corrupt s' = corrupt s \<and> list_all sized fs \<and> list_all sized cs"

lemma adds_trans: "adds fs cs s s' \<Longrightarrow> adds gs ds s' s'' \<Longrightarrow> adds (fs @ gs) (cs @ ds) s s''"
  by (simp add: adds_def)

lemma adds_none: "adds [] [] s s"
  by (simp add: adds_def)

lemma adds_mem: "adds fs cs (s\<lparr>mem_left := m\<rparr>) s' \<longleftrightarrow> adds fs cs s s'"
  "adds fs cs s (s'\<lparr>mem_left := m\<rparr>) \<longleftrightarrow> adds fs cs s s'"
  by (simp_all add: adds_def)

lemma adds_append: "susp_append f s = (Inr (), s') \<Longrightarrow> sized f \<Longrightarrow> adds [f] [] s s'"
  by (auto simp: susp_append_def adds_def sized_def split: if_splits)

lemma adds_append_ce: "susp_append_ce f s = (Inr (), s') \<Longrightarrow> sized f \<Longrightarrow> adds [] [f] s s'"
proof -
  assume a: "susp_append_ce f s = (Inr (), s')" "sized f"
  then have "ucast (f ! 2) = (word_of_nat (length f) :: u32)"
    by (metis sized_def unsigned_word_eqI unsigned_of_nat ucast_eq of_nat_unat)
  then show ?thesis using a by (auto simp: susp_append_ce_def adds_def split: if_splits)
qed

lemma adds_malloc:
  "malloc_then f s = (Inr (), s') \<Longrightarrow> (\<And>s1. f s1 = (Inr (), s') \<Longrightarrow> adds fs cs s1 s') \<Longrightarrow> adds fs cs s s'"
  by (auto simp: malloc_then_def adds_mem(1) [where s = s and m = "mem_left s - 1", symmetric] split: if_splits)

lemma adds_entry:
  "malloc_then ((if ce then susp_append_ce else susp_append) f) s = (Inr (), s') \<Longrightarrow> sized f \<Longrightarrow>
   adds (if ce then [] else [f]) (if ce then [f] else []) s s'"
  by (erule adds_malloc) (auto intro: adds_append adds_append_ce split: if_splits)

lemmas adds_sua = adds_entry [where ce = False, simplified]
lemmas adds_ce = adds_entry [where ce = True, simplified]

lemma run_Cons: "run (f # fs) s = (Inr (), s'') \<longleftrightarrow> (\<exists>s'. f s = (Inr (), s') \<and> run fs s' = (Inr (), s''))"
  by (auto split: prod.splits sum.splits)

lemma run_append: "run (fs @ gs) s = (Inr (), s'') \<longleftrightarrow> (\<exists>s'. run fs s = (Inr (), s') \<and> run gs s' = (Inr (), s''))"
  by (induction fs arbitrary: s) (auto simp: run_Cons simp del: run.simps(2))

section \<open>The single entries\<close>

definition px_entry :: "rr_image \<Rightarrow> rr_node \<Rightarrow> byte list" where
  "px_entry t n =
     str ''PX'' @ [if px_has_ino t then 44 else 36, 1] @
      iso_bb (px_get_mode t n) 4 @ iso_bb (ucast (nlink n)) 4 @
      iso_bb (px_get_uid t n) 4 @ iso_bb (px_get_gid t n) 4 @
      (if px_has_ino t then iso_bb (ucast (ino n)) 4 else [])"

definition tf_entry :: "rr_image \<Rightarrow> rr_node \<Rightarrow> byte list" where
  "tf_entry t n =
     str ''TF'' @ [5 + 3 * 7, 1, push_bit 1 1 OR push_bit 2 1 OR push_bit 3 1] @
      tf_stamp t (mtime_of n) @ tf_stamp t (atime n) @ tf_stamp t (ctime n)"

lemma length_tf_stamp [simp]: "length (tf_stamp t x) = 7"
  by (simp add: tf_stamp_def iso_datetime_7_def split: prod.splits)

lemma sized_px [simp]: "sized (px_entry t n)"
  by (auto simp: px_entry_def sized_def)

lemma sized_tf [simp]: "sized (tf_entry t n)"
  by (auto simp: tf_entry_def sized_def)

lemma add_PX: "rrip_add_PX t n s = (Inr (), s') \<Longrightarrow> adds [px_entry t n] [] s s'"
  unfolding rrip_add_PX_def px_entry_def [symmetric] by (erule adds_sua) simp

lemma add_TF: "rrip_add_TF t n s = (Inr (), s') \<Longrightarrow> adds [tf_entry t n] [] s s'"
  unfolding rrip_add_TF_def tf_entry_def [symmetric] by (erule adds_sua) simp

lemma add_SP: "susp_add_SP s = (Inr (), s') \<Longrightarrow> adds [str ''SP'' @ [7, 1, 0xbe, 0xef, 0]] [] s s'"
  unfolding susp_add_SP_def by (erule adds_sua) (simp add: sized_def)

lemma add_ES: "susp_add_ES ce k s = (Inr (), s') \<Longrightarrow>
  adds (if ce then [] else [str ''ES'' @ [5, 1, k]]) (if ce then [str ''ES'' @ [5, 1, k]] else []) s s'"
  unfolding susp_add_ES_def by (erule adds_entry) (simp add: sized_def)

lemma add_RE: "rrip_add_RE s = (Inr (), s') \<Longrightarrow> adds [str ''RE'' @ [4, 1]] [] s s'"
  unfolding rrip_add_RE_def by (erule adds_sua) (simp add: sized_def)

lemma add_PL: "rrip_add_PL t n s = (Inr (), s') \<Longrightarrow> \<exists>f. take 2 f = str ''PL'' \<and> length f = 12 \<and> adds [f] [] s s'"
  unfolding rrip_add_PL_def
  by (auto split: option.splits if_splits dest!: adds_sua simp: sized_def
      intro!: exI [of _ "str ''PL'' @ [12, 1] @ iso_bb (the (real_parent n) - eff_partition_offset t) 4"])

lemma add_PN: "rrip_add_PN n s = (Inr (), s') \<Longrightarrow> \<exists>f. take 2 f = str ''PN'' \<and> length f = 20 \<and> adds [f] [] s s'"
  unfolding rrip_add_PN_def
  by (auto split: if_splits dest!: adds_sua simp: sized_def
      intro!: exI [of _ "str ''PN'' @ [20, 1] @ iso_bb (ucast (drop_bit 32 (dev n))) 4 @ iso_bb (ucast (dev n AND 0xffffffff)) 4"])

lemma add_CL: "rrip_add_CL t n s = (Inr (), s') \<Longrightarrow> \<exists>f. take 2 f = str ''CL'' \<and> length f = 12 \<and> adds [f] [] s s'"
  unfolding rrip_add_CL_def
  by (auto split: if_splits dest!: adds_sua simp: sized_def
      intro!: exI [of _ "str ''CL'' @ [12, 1] @ iso_bb (real_me n - eff_partition_offset t) 4"])

definition nm_entry :: "byte \<Rightarrow> cstring \<Rightarrow> byte list" where
  "nm_entry flags name = str ''NM'' @ [word_of_nat (length name + 5), 1, flags] @ name"

lemma add_NM:
  assumes "rrip_add_NM name n flags ce s = (Inr (), s')" "0 \<le> n" "nat n \<le> length name"
  shows "length (take (nat n) name) \<le> 250 \<and>
    adds (if ce then [] else [nm_entry flags (take (nat n) name)]) (if ce then [nm_entry flags (take (nat n) name)] else []) s s'"
proof -
  have n: "n \<le> 250" using assms(1) by (auto simp: rrip_add_NM_def split: if_splits)
  then have l: "nat n \<le> 250" by simp
  have w: "word_of_int (n + 5) = (word_of_nat (nat n + 5) :: byte)" using assms(2)
    by (metis add_nonneg_nonneg int_nat_eq nat_add_distrib nat_numeral of_int_of_nat_eq zero_le_numeral)
  have e: "nm_entry flags (take (nat n) name) = str ''NM'' @ [word_of_int (n + 5), 1, flags] @ take (nat n) name"
    using assms(3) by (simp add: nm_entry_def w min_def del: of_int_add of_nat_add)
  have "sized (nm_entry flags (take (nat n) name))"
    using l assms(3) by (simp add: sized_def nm_entry_def unat_of_nat take_bit_nat_eq_self del: of_nat_add)
  then show ?thesis
    using assms n l unfolding rrip_add_NM_def e by (auto intro!: adds_sua adds_ce split: if_splits)
qed

definition ce_entry :: "u32 \<Rightarrow> u32 \<Rightarrow> u32 \<Rightarrow> byte list" where
  "ce_entry block off len = str ''CE'' @ [28, 1] @ iso_bb block 4 @ iso_bb off 4 @ iso_bb len 4"

lemma add_CE: "susp_add_CE t n s = (Inr (), s') \<Longrightarrow>
  adds [ce_entry (ce_block s - eff_partition_offset t) (ce_len s) (word_of_nat n)] [] s s'"
  unfolding susp_add_CE_def malloc_then_def
  by (auto simp: ce_entry_def sized_def adds_mem dest!: adds_append split: if_splits)

definition zf_entry :: "zf \<Rightarrow> byte list" where
  "zf_entry z = str ''ZF'' @ [16, 1] @ str ''pz'' @ [word_of_nat (fst z), word_of_nat (fst (snd z))] @ iso_bb (snd (snd z)) 4"

lemma add_ZF: "zisofs_add_ZF ce z s = (Inr (), s') \<Longrightarrow>
  adds (if ce then [] else [zf_entry z]) (if ce then [zf_entry z] else []) s s'"
proof -
  assume "zisofs_add_ZF ce z s = (Inr (), s')"
  then have "malloc_then ((if ce then susp_append_ce else susp_append) (zf_entry z)) s = (Inr (), s')"
    by (cases z) (simp add: zisofs_add_ZF_def zf_entry_def)
  moreover have "sized (zf_entry z)" by (simp add: zf_entry_def sized_def)
  ultimately show ?thesis by (rule adds_entry)
qed

lemma some_ce:
  "malloc_then (susp_append_ce f) s = (Inr (), s') \<Longrightarrow> sized f \<Longrightarrow> take 2 f = sg \<Longrightarrow> length f = n \<Longrightarrow>
   \<exists>f. take 2 f = sg \<and> length f = n \<and> adds [] [f] s s'"
  using adds_ce by blast

lemma add_ER: "rrip_add_ER t s = (Inr (), s') \<Longrightarrow>
  \<exists>f. take 2 f = str ''ER'' \<and> length f = (if rrip_version_1_10 t then 237 else 182) \<and> adds [] [f] s s'"
  unfolding rrip_add_ER_def
  by (cases "rrip_version_1_10 t") ((erule some_ce; simp add: sized_def)+)

lemma add_aaip_ER: "aaip_add_ER s = (Inr (), s') \<Longrightarrow> \<exists>f. take 2 f = str ''ER'' \<and> length f = 160 \<and> adds [] [f] s s'"
  unfolding aaip_add_ER_def by (erule some_ce; simp add: sized_def)

section \<open>Packing link components into entries\<close>

definition comp_ok :: "byte list \<Rightarrow> bool" where
  "comp_ok c \<longleftrightarrow> 2 \<le> length c \<and> comp_size c = length c \<and> length c \<le> 250"

fun sl_entries :: "byte list list \<Rightarrow> byte list list \<Rightarrow> byte list list" where
  "sl_entries [] pending = [sl_entry 0 pending]"
| "sl_entries (c # cs) pending =
     (if total pending + length c > 250 then sl_entry 1 pending # sl_entries cs [c]
      else sl_entries cs (pending @ [c]))"

text \<open>The bytes of the entries that are complete, and of the components in the last one.\<close>

definition pack :: "nat \<times> nat \<Rightarrow> byte list \<Rightarrow> nat \<times> nat" where
  "pack st c = (case st of (closed, cur) \<Rightarrow>
     if cur + length c > 250 then (closed + (cur + 5), length c) else (closed, cur + length c))"

lemma pack_simp [simp]: "pack (closed, cur) c =
    (if cur + length c > 250 then (closed + (cur + 5), length c) else (closed, cur + length c))"
  by (simp add: pack_def)

definition packed :: "byte list list \<Rightarrow> nat \<times> nat" where
  "packed = foldl pack (0, 0)"

lemma sl_entry_text: "list_all comp_ok cs \<Longrightarrow>
  sl_entry fl cs = str ''SL'' @ [word_of_nat (total cs + 5), 1, fl] @ concat cs"
proof -
  assume a: "list_all comp_ok cs"
  then have "map (\<lambda>c. take (comp_size c) c) cs = cs"
    by (induction cs) (auto simp: comp_ok_def)
  moreover have "length (concat cs) = total cs" by (simp add: total_def length_concat)
  ultimately show ?thesis by (simp add: sl_entry_def Let_def)
qed

lemma length_concat_total: "length (concat cs) = total cs"
  by (simp add: total_def length_concat)

lemma length_sl_entry: "list_all comp_ok cs \<Longrightarrow> length (sl_entry fl cs) = total cs + 5"
  by (simp add: sl_entry_text length_concat_total)

lemma sized_sl_entry: "list_all comp_ok cs \<Longrightarrow> total cs \<le> 250 \<Longrightarrow> sized (sl_entry fl cs)"
  by (simp add: sized_def sl_entry_text length_concat_total unat_of_nat take_bit_nat_eq_self
      del: of_nat_add)

lemma total_sl_entries:
  "list_all comp_ok cs \<Longrightarrow> list_all comp_ok pending \<Longrightarrow> total pending \<le> 250 \<Longrightarrow>
   list_all sized (sl_entries cs pending) \<and>
   (case foldl pack (closed, total pending) cs of (a, b) \<Rightarrow> closed + total (sl_entries cs pending) = a + b + 5)"
proof (induction cs arbitrary: pending closed)
  case Nil
  then show ?case by (simp add: sized_sl_entry length_sl_entry)
next
  case (Cons c cs)
  have c: "comp_ok c" "length c \<le> 250" using Cons.prems by (auto simp: comp_ok_def)
  show ?case
  proof (cases "total pending + length c > 250")
    case True
    have "list_all sized (sl_entries cs [c])"
      "case foldl pack (closed + (total pending + 5), length c) cs of (a, b) \<Rightarrow>
         closed + (total pending + 5) + total (sl_entries cs [c]) = a + b + 5"
      using Cons.IH [of "[c]" "closed + (total pending + 5)"] Cons.prems c by auto
    then show ?thesis using True Cons.prems
      by (auto simp: sized_sl_entry length_sl_entry split: prod.splits)
  next
    case False
    then show ?thesis using Cons.IH [of "pending @ [c]" closed] Cons.prems c by simp
  qed
qed

lemma add_SL_ce:
  "rrip_add_SL_loop cs pending (total pending) True s = (Inr (), s') \<Longrightarrow>
   list_all comp_ok cs \<Longrightarrow> list_all comp_ok pending \<Longrightarrow> total pending \<le> 250 \<Longrightarrow>
   adds [] (sl_entries cs pending) s s'"
proof (induction cs arbitrary: pending s)
  case Nil
  then show ?case by (auto intro: adds_ce sized_sl_entry)
next
  case (Cons c cs)
  have c: "comp_ok c" "comp_size c = length c" "length c \<le> 250" using Cons.prems by (auto simp: comp_ok_def)
  show ?case
  proof (cases "total pending + length c > 250")
    case True
    then obtain s1 s2 where st: "s1 = s\<lparr>mem_left := mem_left s - 1\<rparr>" "susp_append_ce (sl_entry 1 pending) s1 = (Inr (), s2)"
      "rrip_add_SL_loop cs [c] (length c) True s2 = (Inr (), s')"
      using Cons.prems(1) c by (auto simp: malloc_then_def run_Cons simp del: run.simps(2) split: if_splits)
    have "adds [] [sl_entry 1 pending] s s2"
      using adds_append_ce [OF st(2)] sized_sl_entry Cons.prems by (simp add: st(1) adds_mem)
    moreover have "adds [] (sl_entries cs [c]) s2 s'"
      using Cons.IH [of "[c]" s2] st(3) Cons.prems c by simp
    ultimately have "adds ([] @ []) ([sl_entry 1 pending] @ sl_entries cs [c]) s s'" by (rule adds_trans)
    then show ?thesis using True by simp
  next
    case False
    then show ?thesis using Cons.IH [of "pending @ [c]" s] Cons.prems c by simp
  qed
qed

lemma add_SL_sua:
  "rrip_add_SL_loop cs pending (total pending) False s = (Inr (), s') \<Longrightarrow>
   list_all comp_ok cs \<Longrightarrow> list_all comp_ok pending \<Longrightarrow> total pending \<le> 250 \<Longrightarrow>
   adds [sl_entry 0 (pending @ cs)] [] s s' \<and> foldl pack (0, total pending) cs = (0, total pending + total cs)"
proof (induction cs arbitrary: pending s)
  case Nil
  then show ?case by (auto intro: adds_sua sized_sl_entry)
next
  case (Cons c cs)
  have c: "comp_ok c" "comp_size c = length c" using Cons.prems by (auto simp: comp_ok_def)
  have "\<not> total pending + length c > 250" using Cons.prems(1) c by (auto simp: malloc_then_def split: if_splits)
  then show ?case using Cons.IH [of "pending @ [c]" s] Cons.prems c by simp
qed

section \<open>The loops over the link target\<close>

text \<open>
  A component of more than 248 bytes is only handled well at the end of the target.
\<close>

function link_ok :: "cstring \<Rightarrow> bool" where
  "link_ok prev \<longleftrightarrow>
     (length (comp_text prev) \<le> 248 \<or> comp_text prev = prev \<and> length prev \<le> 255) \<and>
     (case comp_next prev of None \<Rightarrow> True | Some p \<Rightarrow> link_ok p)"
  by auto

termination by (relation "measure length") (auto dest: comp_next_shorter)

declare link_ok.simps [simp del]

definition fill_inv :: "nat \<Rightarrow> nat \<Rightarrow> sl_state \<Rightarrow> bool" where
  "fill_inv ce0 sua_free st \<longleftrightarrow>
     list_all comp_ok (sl_comps st) \<and>
     (case packed (sl_comps st) of (closed, cur) \<Rightarrow>
        cur \<le> 250 \<and> sl_fill st = 5 + cur \<and> sl_ce st = ce0 + closed \<and>
        (\<not> sl_cew st \<longrightarrow> closed = 0 \<and> sl_fill st \<le> max 5 sua_free))"

lemma comp_len_le: "comp_len prev \<le> length (comp_text prev)"
  by (simp add: comp_len_def)

lemma packed_snoc: "packed (cs @ [c]) = pack (packed cs) c"
  by (simp add: packed_def)

lemma comp_ok_text: "n \<le> 248 \<Longrightarrow> n \<le> length s \<Longrightarrow> comp_ok ([fl, word_of_nat n] @ take n s)"
  by (simp add: comp_ok_def comp_size_def unat_of_nat take_bit_nat_eq_self)

lemma length_comp_text: "length (comp_text prev) \<le> length prev"
  by (simp add: comp_text_def length_takeWhile_le)

definition comp_of :: "cstring \<times> nat \<times> byte \<Rightarrow> byte list" where
  "comp_of x = (case x of (s, n, fl) \<Rightarrow> [fl, word_of_nat n] @ take n s)"

lemma SL_append_comps_ok:
  "SL_append_comps cs st = (Inr (), st') \<Longrightarrow>
   sl_comps st' = sl_comps st @ map comp_of cs \<and> sl_fill st' = sl_fill st \<and> sl_ce st' = sl_ce st \<and> sl_cew st' = sl_cew st"
proof (induction cs arbitrary: st)
  case (Cons x cs)
  obtain s n fl where x: "x = (s, n, fl)" by (cases x)
  obtain st1 where st1: "rrip_SL_append_comp s n fl st = (Inr (), st1)" "SL_append_comps cs st1 = (Inr (), st')"
    using Cons.prems by (auto simp: x split: prod.splits sum.splits)
  then have "sl_comps st1 = sl_comps st @ [comp_of x]" "sl_fill st1 = sl_fill st" "sl_ce st1 = sl_ce st" "sl_cew st1 = sl_cew st"
    by (auto simp: rrip_SL_append_comp_def comp_of_def x split: if_splits)
  then show ?case using Cons.IH [OF st1(2)] by simp
qed simp

lemma comps_stepD:
  assumes "comps_step sua_free prev st = (Inr (), st')" "comps_plan sua_free prev st = (cew, comps, fill, ce)"
  shows "sl_comps st' = sl_comps st @ map comp_of comps" "sl_cew st' = cew" "sl_fill st' = fill" "sl_ce st' = ce"
proof -
  obtain st1 where "SL_append_comps comps st = (Inr (), st1)" "st' = st1\<lparr>sl_cew := cew, sl_fill := fill, sl_ce := ce\<rparr>"
    using assms by (auto simp: comps_step_def split: prod.splits sum.splits)
  then show "sl_comps st' = sl_comps st @ map comp_of comps" "sl_cew st' = cew" "sl_fill st' = fill" "sl_ce st' = ce"
    using SL_append_comps_ok by auto
qed

lemma plan_short:
  assumes "comp_len prev \<le> 248"
  shows "comps_plan sua_free prev st =
    (let clen = comp_len prev + 2; cew = (sl_cew st \<or> sl_fill st + clen > sua_free)
     in (cew, [(prev, clen - 2, comp_flags prev)],
         if cew \<and> sl_fill st + clen > 255 then (5 + clen, sl_ce st + sl_fill st) else (sl_fill st + clen, sl_ce st)))"
  using assms by (simp add: comps_plan_def Let_def)

text \<open>The invariant of the loop in terms of the plan of one turn.\<close>

lemma fill_inv_step:
  assumes inv: "fill_inv ce0 sua_free st" and free: "sua_free \<le> 255"
    and ok: "length (comp_text prev) \<le> 248 \<or> comp_text prev = prev \<and> length prev \<le> 255"
    and plan: "comps_plan sua_free prev st = (cew, comps, fill, ce)"
  shows "list_all comp_ok (map comp_of comps) \<and>
    (case foldl pack (packed (sl_comps st)) (map comp_of comps) of (closed, cur) \<Rightarrow>
        cur \<le> 250 \<and> fill = 5 + cur \<and> ce = ce0 + closed \<and>
        (\<not> cew \<longrightarrow> closed = 0 \<and> fill \<le> max 5 sua_free))"
proof -
  obtain closed cur where p: "packed (sl_comps st) = (closed, cur)" by fastforce
  have i: "cur \<le> 250" "sl_fill st = 5 + cur" "sl_ce st = ce0 + closed"
    "\<not> sl_cew st \<Longrightarrow> closed = 0" using inv p by (auto simp: fill_inv_def)
  have cl: "comp_len prev \<le> length prev" using comp_len_le length_comp_text le_trans by blast
  show ?thesis
  proof (cases "comp_len prev \<le> 248")
    case True
    let ?c = "comp_of (prev, comp_len prev, comp_flags prev)"
    have c: "comp_ok ?c" "length ?c = comp_len prev + 2"
      using cl True comp_ok_text by (auto simp: comp_of_def)
    show ?thesis using plan [unfolded plan_short [OF True]] c i p free True by (auto simp: Let_def split: if_splits)
  next
    case False
    then have l: "length prev = comp_len prev" "comp_len prev \<le> 255"
      using ok comp_len_le [of prev] by (auto simp: comp_len_def split: if_splits)
    define k where "k = 248 - cur"
    have ov: "sl_fill st + (comp_len prev + 2) > 255" "comp_len prev + 2 > 250" using False i(2) by auto
    then have cew: "sl_cew st \<or> sl_fill st + (comp_len prev + 2) > sua_free" using free by auto
    show ?thesis
    proof (cases "int (comp_len prev + 2) - 250 \<le> 255 - int (sl_fill st) - 2")
      case True
      then have k: "nat (255 - int (sl_fill st) - 2) = k" "comp_len prev - 248 \<le> k" "cur + k = 248" "k \<le> 248"
        using False i(1,2) by (auto simp: k_def)
      have pl: "comps = [(prev, k, 1), (drop k prev, comp_len prev - k, 0)]" "cew"
        "fill = 5 + (comp_len prev + 2 - k)" "ce = sl_ce st + 255"
        using plan cew ov True k False by (auto simp: comps_plan_def Let_def)
      have c1: "comp_ok (comp_of (prev, k, 1))" "length (comp_of (prev, k, 1)) = k + 2"
        using k l False comp_ok_text [of k prev 1] by (auto simp: comp_of_def)
      have c2: "comp_ok (comp_of (drop k prev, comp_len prev - k, 0))"
        "length (comp_of (drop k prev, comp_len prev - k, 0)) = comp_len prev - k + 2"
        using k l False comp_ok_text [of "comp_len prev - k" "drop k prev" 0] by (auto simp: comp_of_def)
      have "k < comp_len prev" using k False by simp
      then show ?thesis using pl c1 c2 p i k(2-4) l by auto
    next
      case False
      note notfit = False
      have long: "comp_len prev > 248" using ov by simp
      then have cur: "cur > 0" using notfit i(2) l(2) by auto
      have pl: "comps = [(prev, 248, 1), (drop 248 prev, comp_len prev - 248, 0)]" "cew"
        "fill = 5 + (comp_len prev + 2 - 250) + 2" "ce = sl_ce st + sl_fill st + 255"
        using plan cew ov notfit l by (auto simp: comps_plan_def Let_def)
      have c1: "comp_ok (comp_of (prev, 248, 1))" "length (comp_of (prev, 248, 1)) = 250"
        using l long comp_ok_text [of 248 prev 1] by (auto simp: comp_of_def)
      have c2: "comp_ok (comp_of (drop 248 prev, comp_len prev - 248, 0))"
        "length (comp_of (drop 248 prev, comp_len prev - 248, 0)) = comp_len prev - 248 + 2"
        using l long comp_ok_text [of "comp_len prev - 248" "drop 248 prev" 0] by (auto simp: comp_of_def)
      show ?thesis using pl c1 c2 p i cur l long by auto
    qed
  qed
qed

lemma comps_step_inv:
  assumes "comps_step sua_free prev st = (Inr (), st')" "fill_inv ce0 sua_free st"
    and "length (comp_text prev) \<le> 248 \<or> comp_text prev = prev \<and> length prev \<le> 255" "sua_free \<le> 255"
  shows "fill_inv ce0 sua_free st'"
proof -
  obtain cew comps fill ce where plan: "comps_plan sua_free prev st = (cew, comps, fill, ce)" by (metis prod_cases4)
  from comps_stepD [OF assms(1) plan] fill_inv_step [OF assms(2,4,3) plan] assms(2)
  show ?thesis by (auto simp: fill_inv_def packed_def)
qed

lemma comps_loop_inv:
  "comps_loop sua_free prev st = (Inr (), st') \<Longrightarrow> fill_inv ce0 sua_free st \<Longrightarrow> link_ok prev \<Longrightarrow> sua_free \<le> 255 \<Longrightarrow>
   fill_inv ce0 sua_free st'"
proof (induction sua_free prev st rule: comps_loop.induct)
  case (1 sua_free prev st)
  have ok: "length (comp_text prev) \<le> 248 \<or> comp_text prev = prev \<and> length prev \<le> 255"
    using "1.prems"(3) by (subst (asm) link_ok.simps) blast
  obtain st1 where st1: "comps_step sua_free prev st = (Inr (), st1)"
    using "1.prems"(1) by (subst (asm) comps_loop.simps) (auto split: prod.splits sum.splits)
  have inv: "fill_inv ce0 sua_free st1" using comps_step_inv [OF st1 "1.prems"(2) ok "1.prems"(4)] .
  show ?case
  proof (cases "comp_next prev")
    case None
    then show ?thesis using "1.prems"(1) st1 inv by (subst (asm) comps_loop.simps) simp
  next
    case (Some p)
    then have "comps_loop sua_free p st1 = (Inr (), st')" using "1.prems"(1) st1 by (subst (asm) comps_loop.simps) simp
    moreover have "link_ok p" using "1.prems"(3) Some by (subst (asm) link_ok.simps) simp
    ultimately show ?thesis using "1.IH" [OF st1 [symmetric] refl Some _ inv] "1.prems"(4) by simp
  qed
qed

text \<open>The prediction goes through the same states.\<close>

lemma calc_sl_step_plan:
  assumes "calc_sl_step with_ca space su_size prev (sl_cew st, sl_fill st, sl_ce st) = Some (cew', fill', ce')"
    and "su_size \<le> space"
  shows "\<exists>comps. comps_plan (space - su_size) prev st = (cew', comps, fill', ce')"
  using assms by (auto simp: calc_sl_step_def comps_plan_def Let_def split: if_splits)

lemma calc_sl_loop_comps:
  "comps_loop (space - su_size) prev st = (Inr (), st') \<Longrightarrow>
   calc_sl_loop with_ca space su_size prev (sl_cew st, sl_fill st, sl_ce st) = Some (cew', fill', ce') \<Longrightarrow>
   su_size \<le> space \<Longrightarrow> sl_cew st' = cew' \<and> sl_fill st' = fill' \<and> sl_ce st' = ce'"
proof (induction "space - su_size" prev st rule: comps_loop.induct)
  case (1 prev st)
  obtain st1 where st1: "comps_step (space - su_size) prev st = (Inr (), st1)"
    using "1.prems"(1) by (subst (asm) comps_loop.simps) (auto split: prod.splits sum.splits)
  obtain c1 f1 e1 where step: "calc_sl_step with_ca space su_size prev (sl_cew st, sl_fill st, sl_ce st) = Some (c1, f1, e1)"
    using "1.prems"(2) by (subst (asm) calc_sl_loop.simps) (auto split: option.splits)
  from calc_sl_step_plan [OF step "1.prems"(3)] obtain comps where
    "comps_plan (space - su_size) prev st = (c1, comps, f1, e1)" by blast
  note s1 = comps_stepD(2-4) [OF st1 this]
  show ?case
  proof (cases "comp_next prev")
    case None
    then show ?thesis using "1.prems"(1,2) st1 step s1
      by (subst (asm) comps_loop.simps, subst (asm) calc_sl_loop.simps) simp
  next
    case (Some p)
    have "comps_loop (space - su_size) p st1 = (Inr (), st')"
      using "1.prems"(1) st1 Some by (subst (asm) comps_loop.simps) simp
    moreover have "calc_sl_loop with_ca space su_size p (sl_cew st1, sl_fill st1, sl_ce st1) = Some (cew', fill', ce')"
      using "1.prems"(2) step Some s1 by (subst (asm) calc_sl_loop.simps) simp
    ultimately show ?thesis using "1.hyps" [OF st1 [symmetric] refl Some] "1.prems"(3) by blast
  qed
qed

lemma calc_sl_loop_room:
  "calc_sl_loop with_ca space su_size prev (cew, fill, ce) = Some (cew', fill', ce') \<Longrightarrow> \<not> cew' \<Longrightarrow>
   \<not> cew \<and> ce' = ce \<and> su_size + fill' \<le> space"
proof (induction with_ca space su_size prev "(cew, fill, ce)" arbitrary: cew fill ce rule: calc_sl_loop.induct)
  case (1 with_ca space su_size prev)
  obtain c1 f1 e1 where step: "calc_sl_step with_ca space su_size prev (cew, fill, ce) = Some (c1, f1, e1)"
    using "1.prems"(1) by (subst (asm) calc_sl_loop.simps) (auto split: option.splits)
  have s: "\<not> c1 \<longrightarrow> \<not> cew \<and> e1 = ce \<and> su_size + f1 \<le> space"
    using step by (auto simp: calc_sl_step_def Let_def split: if_splits)
  show ?case
  proof (cases "comp_next prev")
    case None
    then show ?thesis using "1.prems" step s by (subst (asm) calc_sl_loop.simps) simp
  next
    case (Some p)
    have "calc_sl_loop with_ca space su_size p (c1, f1, e1) = Some (cew', fill', ce')"
      using "1.prems"(1) step Some by (subst (asm) calc_sl_loop.simps) simp
    then show ?thesis using "1.hyps" [OF step Some] "1.prems"(2) s by blast
  qed
qed

lemma calc_sl_loop_ca: "calc_sl_loop True space su_size prev st \<noteq> None"
proof (induction True space su_size prev st rule: calc_sl_loop.induct)
  case (1 space su_size prev st)
  have "calc_sl_step True space su_size prev st \<noteq> None" by (auto simp: calc_sl_step_def Let_def split: prod.splits)
  then obtain x where x: "calc_sl_step True space su_size prev st = Some x" by blast
  show ?case using "1.hyps" [OF x] by (subst calc_sl_loop.simps) (cases x, auto simp: x split: option.splits)
qed

section \<open>The attribute string\<close>

function al_fields :: "byte list \<Rightarrow> byte list list" where
  "al_fields data =
     (if length data < 5 \<or> data ! 4 AND 1 = 0 \<or> data ! 2 = 0 then [data]
      else take (unat (data ! 2)) data # al_fields (drop (unat (data ! 2)) data))"
  by auto

termination by (relation "measure length") (auto dest!: unat_pos)

declare al_fields.simps [simp del]

definition al_field_ok :: "byte list \<Rightarrow> bool" where
  "al_field_ok f \<longleftrightarrow> sized f \<and> 5 \<le> length f \<and> take 2 f = str ''AL''"

text \<open>A well-formed attribute string.\<close>

definition al_ok :: "byte list \<Rightarrow> bool" where
  "al_ok data \<longleftrightarrow> list_all al_field_ok (al_fields data)"

lemma al_ok_cases:
  assumes "al_ok data"
  obtains (last) "al_fields data = [data]" "al_field_ok data" "data ! 4 AND 1 = 0"
    | (more) "al_fields data = take (unat (data ! 2)) data # al_fields (drop (unat (data ! 2)) data)"
      "al_field_ok (take (unat (data ! 2)) data)" "al_ok (drop (unat (data ! 2)) data)"
      "\<not> length data < 5" "data ! 4 AND 1 \<noteq> 0" "data ! 2 \<noteq> 0"
proof (cases "length data < 5 \<or> data ! 4 AND 1 = 0 \<or> data ! 2 = 0")
  case True
  then have f: "al_fields data = [data]" by (simp add: al_fields.simps)
  then have "al_field_ok data" using assms by (simp add: al_ok_def)
  then have "\<not> length data < 5" "data ! 2 \<noteq> 0" by (auto simp: al_field_ok_def sized_def)
  then show ?thesis using that(1) f \<open>al_field_ok data\<close> True by blast
next
  case False
  then have f: "al_fields data = take (unat (data ! 2)) data # al_fields (drop (unat (data ! 2)) data)"
    by (subst al_fields.simps) simp
  then show ?thesis using that(2) assms False by (simp add: al_ok_def)
qed

lemma al_ok_count: "al_ok data \<Longrightarrow> aaip_count_bytes data = Some (length data) \<and> total (al_fields data) = length data"
proof (induction data rule: aaip_count_bytes.induct)
  case (1 data)
  from "1.prems" show ?case
  proof (cases rule: al_ok_cases)
    case last
    then show ?thesis by (subst aaip_count_bytes.simps) (auto simp: al_field_ok_def sized_def)
  next
    case more
    have l: "length (take (unat (data ! 2)) data) = unat (data ! 2)"
      using more(2) more(4-6) by (auto simp: al_field_ok_def sized_def)
    then have le: "unat (data ! 2) \<le> length data" by simp
    show ?thesis using "1.IH" [OF more(4-6) more(3)] more l le
      by (subst aaip_count_bytes.simps) simp
  qed
qed

lemma append_corrupt: "(if ce then susp_append_ce else susp_append) f s = (r, s') \<Longrightarrow>
  (corrupt s \<longrightarrow> corrupt s') \<and> (r = Inr () \<or> corrupt s')"
  by (auto simp: susp_append_def susp_append_ce_def split: if_splits)

lemma AL_loop_corrupt: "corrupt s \<Longrightarrow> corrupt (snd (aaip_add_AL_loop data ce s))"
proof (induction data ce s rule: aaip_add_AL_loop.induct)
  case (1 data ce s)
  obtain r s1 where s1: "(if ce then susp_append_ce else susp_append) (take (unat (data ! 2)) data)
      (s\<lparr>mem_left := mem_left s - 1\<rparr>) = (r, s1)" by fastforce
  have c: "corrupt s1" using append_corrupt [OF s1] "1.prems" by simp
  show ?case
  proof (cases "mem_left s = 0 \<or> length data < 5 \<or> data ! 4 AND 1 = 0 \<or> data ! 2 = 0")
    case True
    then show ?thesis using "1.prems" c s1 by (subst aaip_add_AL_loop.simps) (auto simp: Let_def)
  next
    case False
    then have "corrupt (snd (aaip_add_AL_loop (drop (unat (data ! 2)) data) ce s1))"
      using "1.IH" [OF _ refl, of s1] s1 c by auto
    then show ?thesis using False s1 by (subst aaip_add_AL_loop.simps) (simp add: Let_def)
  qed
qed

lemma AL_loop_adds:
  "aaip_add_AL_loop data ce s = (Inr (), s') \<Longrightarrow> \<not> corrupt s' \<Longrightarrow> al_ok data \<Longrightarrow>
   adds (if ce then [] else al_fields data) (if ce then al_fields data else []) s s'"
proof (induction data ce s rule: aaip_add_AL_loop.induct)
  case (1 data ce s)
  let ?f = "take (unat (data ! 2)) data"
  have m: "mem_left s \<noteq> 0" using "1.prems"(1) by (subst (asm) aaip_add_AL_loop.simps) (auto split: if_splits)
  obtain r s1 where s1: "(if ce then susp_append_ce else susp_append) ?f (s\<lparr>mem_left := mem_left s - 1\<rparr>) = (r, s1)"
    by fastforce
  from "1.prems"(3) show ?case
  proof (cases rule: al_ok_cases)
    case last
    then have "s1 = s'" using "1.prems"(1) m s1 by (subst (asm) aaip_add_AL_loop.simps) (simp add: Let_def)
    moreover have "?f = data" "sized data" using last(2) by (auto simp: al_field_ok_def sized_def)
    ultimately show ?thesis using append_corrupt [OF s1] s1 "1.prems"(2) last(1)
        adds_append [of data "s\<lparr>mem_left := mem_left s - 1\<rparr>" s'] adds_append_ce [of data "s\<lparr>mem_left := mem_left s - 1\<rparr>" s']
      by (auto simp: adds_mem split: if_splits)
  next
    case more
    have rest: "aaip_add_AL_loop (drop (unat (data ! 2)) data) ce s1 = (Inr (), s')"
      using "1.prems"(1) m s1 more by (subst (asm) aaip_add_AL_loop.simps) (simp add: Let_def)
    have "\<not> corrupt s1" using AL_loop_corrupt [of s1] rest "1.prems"(2) by (metis snd_conv)
    then have r: "r = Inr ()" using append_corrupt [OF s1] by blast
    have "sized ?f" using more(2) by (simp add: al_field_ok_def)
    then have a: "adds (if ce then [] else [?f]) (if ce then [?f] else []) s s1"
      using s1 r adds_append [of ?f "s\<lparr>mem_left := mem_left s - 1\<rparr>" s1] adds_append_ce [of ?f "s\<lparr>mem_left := mem_left s - 1\<rparr>" s1]
      by (auto simp: adds_mem split: if_splits)
    have b: "adds (if ce then [] else al_fields (drop (unat (data ! 2)) data)) (if ce then al_fields (drop (unat (data ! 2)) data) else []) s1 s'"
      using "1.IH" [OF _ refl, of s1] m more s1 rest "1.prems"(2) by auto
    from adds_trans [OF a b] more(1) show ?thesis by (auto split: if_splits)
  qed
qed

text \<open>The attribute string of a node is absent or well-formed.\<close>

definition attrs_ok :: "rr_node \<Rightarrow> bool" where
  "attrs_ok n \<longleftrightarrow> (case aaip_xinfo n of None \<Rightarrow> True | Some data \<Rightarrow> al_ok data)"

definition aa_entries :: "rr_image \<Rightarrow> rr_node \<Rightarrow> byte list list" where
  "aa_entries t n =
     (if num_aapt t n = 0 then []
      else (if announces_aaip t then [str ''ES'' @ [5, 1, 1]] else []) @ al_fields (the (aaip_xinfo n)))"

lemma num_aapt_ok: "attrs_ok n \<Longrightarrow> num_aapt t n > 0 \<Longrightarrow>
  aaip t \<and> al_ok (the (aaip_xinfo n)) \<and> num_aapt t n = length (the (aaip_xinfo n))"
  using al_ok_count [of "the (aaip_xinfo n)"] by (auto simp: num_aapt_def attrs_ok_def split: if_splits option.splits)

lemma total_aa_entries: "attrs_ok n \<Longrightarrow> total (aa_entries t n) = (if num_aapt t n > 0 then num_aapt t n + es_extra t else 0)"
  using num_aapt_ok [of n t] al_ok_count [of "the (aaip_xinfo n)"]
  by (auto simp: aa_entries_def es_extra_def announces_aaip_def)

lemma account_to_ce: "0 < k \<Longrightarrow> account k (free, ce) = (free', ce') \<Longrightarrow>
  (if 0 < ce' then free' = free \<and> ce' = ce + k else ce = 0 \<and> k \<le> free \<and> free' = free - k)"
  by (auto simp: account_def split: if_splits)

lemma add_AL:
  assumes "aaip_add_AL t data room s = (Inr (), s')" "\<not> corrupt s'" "al_ok data" "aaip t"
  shows "let es = (if announces_aaip t then [str ''ES'' @ [5, 1, 1]] else []) @ al_fields data;
             to_ce = 0 < snd (account (length data + es_extra t) room)
         in adds (if to_ce then [] else es) (if to_ce then es else []) s s'"
proof -
  define to_ce where "to_ce = (0 < snd (account (length data + es_extra t) room))"
  define es where "es = (if announces_aaip t then [str ''ES'' @ [5, 1, 1 :: byte]] else [])"
  obtain s1 where s1: "(if announces_aaip t then susp_add_ES to_ce 1 s else (Inr (), s)) = (Inr (), s1)"
    "(if data ! 4 AND 1 = 0 then (Inr (), snd ((if to_ce then susp_append_ce else susp_append) data s1))
      else aaip_add_AL_loop data to_ce s1) = (Inr (), s')"
    using assms(1) unfolding aaip_add_AL_def Let_def to_ce_def announces_aaip_def by (auto split: prod.splits sum.splits)
  have a: "adds (if to_ce then [] else es) (if to_ce then es else []) s s1"
    using s1(1) add_ES [of to_ce 1 s s1] by (auto simp: es_def adds_none split: if_splits)
  have "adds (if to_ce then [] else al_fields data) (if to_ce then al_fields data else []) s1 s'"
  proof (cases "data ! 4 AND 1 = 0")
    case True
    from assms(3) have d: "al_fields data = [data]" "sized data"
      using True by (cases rule: al_ok_cases, auto simp: al_field_ok_def)+
    obtain r where r: "(if to_ce then susp_append_ce else susp_append) data s1 = (r, s')"
      using s1(2) True by (metis (mono_tags, lifting) prod.collapse snd_conv prod.inject)
    then have "r = Inr ()" using append_corrupt [OF r] assms(2) by blast
    then show ?thesis using r adds_append [of data s1 s'] adds_append_ce [of data s1 s'] d by (auto split: if_splits)
  next
    case False
    then show ?thesis using AL_loop_adds [of data to_ce s1 s'] s1(2) assms(2,3) by simp
  qed
  from adds_trans [OF a this] show ?thesis
    unfolding Let_def to_ce_def [symmetric] es_def by (auto split: if_splits)
qed

lemma add_aa:
  assumes "add_aa_string t n room s = (Inr (), s')" "\<not> corrupt s'" "attrs_ok n"
  shows "let to_ce = 0 < snd (aa_account t n room)
         in adds (if to_ce then [] else aa_entries t n) (if to_ce then aa_entries t n else []) s s'"
proof (cases "num_aapt t n > 0")
  case True
  note n = num_aapt_ok [OF assms(3) True]
  have "aaip_add_AL t (the (aaip_xinfo n)) room (s\<lparr>mem_left := mem_left s - 1\<rparr>) = (Inr (), s')"
    using assms(1) True n by (auto simp: add_aa_string_def malloc_then_def split: if_splits)
  from add_AL [OF this assms(2)] n True show ?thesis
    by (auto simp: aa_account_def aa_entries_def adds_mem Let_def split: if_splits)
next
  case False
  then show ?thesis using assms(1) by (auto simp: add_aa_string_def aa_entries_def adds_none Let_def)
qed

definition zf_entries :: "rr_image \<Rightarrow> rr_node \<Rightarrow> byte list list" where
  "zf_entries t n = (case zf_wanted t n of Inr (Some z) \<Rightarrow> [zf_entry z] | _ \<Rightarrow> [])"

lemma add_zf:
  assumes "add_zf_field t n room s = (Inr (), s')"
  shows "let to_ce = 0 < snd (zf_account t n room)
         in adds (if to_ce then [] else zf_entries t n) (if to_ce then zf_entries t n else []) s s'"
proof (cases "zf_wanted t n")
  case (Inl e)
  then show ?thesis using assms by (simp add: add_zf_field_def)
next
  case (Inr w)
  show ?thesis
  proof (cases w)
    case None
    then show ?thesis using assms Inr by (simp add: add_zf_field_def zf_entries_def adds_none Let_def)
  next
    case (Some z)
    then have "zisofs_add_ZF (0 < snd (account 16 room)) z s = (Inr (), s')"
      using assms Inr by (simp add: add_zf_field_def)
    from add_ZF [OF this] show ?thesis
      using Inr Some by (auto simp: zf_entries_def zf_account_def Let_def split: if_splits)
  qed
qed

lemma total_zf_entries: "total (zf_entries t n) = (case zf_wanted t n of Inr (Some z) \<Rightarrow> 16 | _ \<Rightarrow> 0)"
  by (auto simp: zf_entries_def zf_entry_def split: sum.splits option.splits)

section \<open>The entries before the name\<close>

definition fixed_sigs :: "byte list set" where
  "fixed_sigs = {str ''SP'', str ''ES'', str ''PX'', str ''TF'', str ''PL'', str ''RE'', str ''PN'', str ''CL''}"

definition fixed_ok :: "byte list list \<Rightarrow> bool" where
  "fixed_ok fs \<longleftrightarrow> list_all (\<lambda>f. take 2 f \<in> fixed_sigs) fs"

lemma adds_one:
  "\<exists>f. take 2 f = sg \<and> length f = k \<and> adds [f] [] s s' \<Longrightarrow> sg \<in> fixed_sigs \<Longrightarrow>
   \<exists>fs. adds fs [] s s' \<and> total fs = k \<and> fixed_ok fs"
  by (force simp: fixed_ok_def)

lemma place_adds:
  assumes "run (place_step t n node type) s = (Inr (), s')"
  shows "\<exists>fs. adds fs [] s s' \<and> fixed_ok fs \<and>
     total fs + (if announces_aaip t then 5 else 0) + (if px_has_ino t then 70 else 62) = calc_fixed_len t n type"
proof -
  have one: "run [f] s = (Inr (), s') \<Longrightarrow> f s = (Inr (), s')" for f
    by (auto split: prod.splits sum.splits)
  have re: "f = rrip_add_RE \<Longrightarrow> run [f] s = (Inr (), s') \<Longrightarrow> \<exists>fs. adds fs [] s s' \<and> fixed_ok fs \<and> total fs = 4" for f
    using add_RE [of s s'] one [of f] by (force simp: fixed_ok_def fixed_sigs_def)
  have pl: "run [rrip_add_PL t n] s = (Inr (), s') \<Longrightarrow> \<exists>fs. adds fs [] s s' \<and> fixed_ok fs \<and> total fs = 12"
    using adds_one [OF add_PL] one by (force simp: fixed_sigs_def)
  have pn: "run [rrip_add_PN node] s = (Inr (), s') \<Longrightarrow> \<exists>fs. adds fs [] s s' \<and> fixed_ok fs \<and> total fs = 20"
    using adds_one [OF add_PN] one by (force simp: fixed_sigs_def)
  have cl: "run [rrip_add_CL t node] s = (Inr (), s') \<Longrightarrow> \<exists>fs. adds fs [] s s' \<and> fixed_ok fs \<and> total fs = 12"
    using adds_one [OF add_CL] one by (force simp: fixed_sigs_def)
  have none: "run [] s = (Inr (), s') \<Longrightarrow> \<exists>fs. adds fs [] s s' \<and> fixed_ok fs \<and> total fs = 0"
    using adds_none by (force simp: fixed_ok_def)
  define base where "base = (if announces_aaip t then 5 else 0) + (if px_has_ino t then 70 else 62 :: nat)"
  have "(place_step t n node type = [] \<and> calc_fixed_len t n type = base) \<or>
      (place_step t n node type = [rrip_add_RE] \<and> calc_fixed_len t n type = base + 4) \<or>
      (place_step t n node type = [rrip_add_PL t n] \<and> calc_fixed_len t n type = base + 12) \<or>
      (place_step t n node type = [rrip_add_PN node] \<and> calc_fixed_len t n type = base + 20) \<or>
      (place_step t n node type = [rrip_add_CL t node] \<and> calc_fixed_len t n type = base + 12)"
    unfolding place_step_def calc_fixed_len_def base_def
    by (cases "etype n"; cases "real_parent n") simp_all
  then have "\<exists>fs. adds fs [] s s' \<and> fixed_ok fs \<and> total fs + base = calc_fixed_len t n type"
  proof (elim disjE conjE)
    assume p: "place_step t n node type = []" "calc_fixed_len t n type = base"
    show ?thesis using none assms p by force
  next
    assume p: "place_step t n node type = [rrip_add_RE]" "calc_fixed_len t n type = base + 4"
    show ?thesis using re [OF refl assms [unfolded p(1)]] p(2) by auto
  next
    assume p: "place_step t n node type = [rrip_add_PL t n]" "calc_fixed_len t n type = base + 12"
    show ?thesis using pl [OF assms [unfolded p(1)]] p(2) by auto
  next
    assume p: "place_step t n node type = [rrip_add_PN node]" "calc_fixed_len t n type = base + 20"
    show ?thesis using pn [OF assms [unfolded p(1)]] p(2) by auto
  next
    assume p: "place_step t n node type = [rrip_add_CL t node]" "calc_fixed_len t n type = base + 12"
    show ?thesis using cl [OF assms [unfolded p(1)]] p(2) by auto
  qed
  then show ?thesis by (simp add: base_def add.assoc)
qed

lemma fixed_adds:
  assumes "run (rrip_fixed_steps t n node is_root type) s = (Inr (), s')"
  shows "\<exists>fs. adds fs [] s s' \<and> fixed_ok fs \<and>
     total fs = calc_fixed_len t n type + (if type = 1 \<and> is_root then 7 else 0)"
proof -
  obtain s1 s2 s3 s4 where s:
    "run (if type = 1 \<and> is_root then [susp_add_SP] else []) s = (Inr (), s1)"
    "run (if announces_aaip t then [susp_add_ES False 0] else []) s1 = (Inr (), s2)"
    "rrip_add_PX t node s2 = (Inr (), s3)" "rrip_add_TF t node s3 = (Inr (), s4)"
    "run (place_step t n node type) s4 = (Inr (), s')"
    using assms by (auto simp: rrip_fixed_steps_def run_append run_Cons simp del: run.simps(2))
  have 1: "\<exists>fs. adds fs [] s s1 \<and> fixed_ok fs \<and> total fs = (if type = 1 \<and> is_root then 7 else 0)"
    using s(1) add_SP [of s s1] adds_none
    by (force simp: fixed_ok_def fixed_sigs_def run_Cons simp del: run.simps(2) split: if_splits)
  have 2: "\<exists>fs. adds fs [] s1 s2 \<and> fixed_ok fs \<and> total fs = (if announces_aaip t then 5 else 0)"
    using s(2) add_ES [of False 0 s1 s2] adds_none
    by (force simp: fixed_ok_def fixed_sigs_def run_Cons simp del: run.simps(2) split: if_splits)
  have 3: "adds [px_entry t node, tf_entry t node] [] s2 s4"
    using adds_trans [OF add_PX [OF s(3)] add_TF [OF s(4)]] by simp
  have "fixed_ok [px_entry t node, tf_entry t node]"
    "total [px_entry t node, tf_entry t node] = (if px_has_ino t then 70 else 62)"
    by (auto simp: fixed_ok_def fixed_sigs_def px_entry_def tf_entry_def)
  moreover obtain f1 f2 f4 where f: "adds f1 [] s s1" "fixed_ok f1" "total f1 = (if type = 1 \<and> is_root then 7 else 0)"
    "adds f2 [] s1 s2" "fixed_ok f2" "total f2 = (if announces_aaip t then 5 else 0)"
    "adds f4 [] s4 s'" "fixed_ok f4"
    "total f4 + (if announces_aaip t then 5 else 0) + (if px_has_ino t then 70 else 62) = calc_fixed_len t n type"
    using 1 2 place_adds [OF s(5)] by blast
  moreover have "adds (f1 @ f2 @ [px_entry t node, tf_entry t node] @ f4) [] s s'"
    using adds_trans [OF f(1) adds_trans [OF f(4) adds_trans [OF 3 f(7)]]] by simp
  ultimately show ?thesis
    by (intro exI [of _ "f1 @ f2 @ [px_entry t node, tf_entry t node] @ f4"]) (auto simp: fixed_ok_def)
qed
end
