(* ===== verification/RR_Size.thy ===== *)
theory RR_Size
  imports RR_Entries
begin

text \<open>
  The prediction of \<open>rrip_calc_len\<close> is what \<open>rrip_get_susp_fields\<close> makes.
\<close>

section \<open>The name, the link and the attributes\<close>

definition ca_room :: "bool \<Rightarrow> nat" where "ca_room ca = (if ca then 28 else 0)"

text \<open>What a successful prediction says: sizes after the name, after the link and at the end.\<close>

lemma calc_ok:
  assumes "susp_calc_nm_sl_al t n space base 0 ca = (Calc_ok, su, ce)" "base + ca_room ca \<le> space"
    and "name = get_rr_fname t (rr_name n)"
  obtains su1 ce1 su2 ce2 where
    "if base + ca_room ca + 5 + length name \<le> space then su1 = base + ca_room ca + 5 + length name \<and> ce1 = 0
     else ca \<and> su1 = space \<and> ce1 = 5 + (length name + 5 + (base + ca_room ca) - space)"
    "if etype n = ECMA119_SYMLINK
     then \<exists>cew fill ce'. calc_sl_loop ca space su1 (get_rr_fname t (dest n)) (ce1 \<noteq> 0, 5, ce1) = Some (cew, fill, ce') \<and>
       (if cew then su2 = su1 \<and> ce2 = ce' + fill else su2 = su1 + fill \<and> ce2 = ce')
     else su2 = su1 \<and> ce2 = ce1"
    "su1 \<le> su2" "su2 \<le> space"
    "su + fst (aa_account t n (zf_account t n (space - su2, ce2))) = space"
    "ce = snd (aa_account t n (zf_account t n (space - su2, ce2)))"
proof -
  define X where "X = base + ca_room ca"
  define fits where "fits = (X + 5 + length name \<le> space)"
  define su1 where "su1 = (if fits then X + 5 + length name else space)"
  define ce1 where "ce1 = (if fits then 0 else 5 + (length name + 5 + X - space))"
  define link where "link = (if etype n = ECMA119_SYMLINK then
      map_option (\<lambda>(cew, sl_len, ce). if \<not> cew then (su1 + sl_len, ce) else (su1, ce + sl_len))
        (calc_sl_loop ca space su1 (get_rr_fname t (dest n)) (ce1 \<noteq> 0, 5, ce1))
      else Some (su1, ce1))"
  have X: "(if ca then base + 28 else base) = X" by (simp add: X_def ca_room_def)
  have nospace: "\<not> (ca \<and> base + 28 > space)" using assms(2) by (auto simp: ca_room_def)
  have 1: "fits \<or> ca" using assms(1) nospace unfolding susp_calc_nm_sl_al_def Let_def X assms(3) [symmetric] fits_def [symmetric]
    by (auto split: if_splits)
  have pair: "(if fits then (X + 5 + length name, 0) else (space, 5 + (length name + 5 + X - space))) = (su1, ce1)"
    by (simp add: su1_def ce1_def)
  have eq: "susp_calc_nm_sl_al t n space base 0 ca =
     (case link of None \<Rightarrow> (Calc_needs_ca, base, 0)
      | Some (su_size, ce) \<Rightarrow>
          let (sua_free, ce) = zf_account t n (space - su_size, ce); su_size = space - sua_free
          in if ce > 0 \<and> \<not> ca then (Calc_needs_ca, base, 0)
             else let (sua_free, ce) = aa_account t n (space - su_size, ce); su_size = space - sua_free
                  in if num_aapt t n > 0 \<and> ce > 0 \<and> \<not> ca then (Calc_needs_ca, base, 0)
                     else (Calc_ok, su_size, ce))"
    using 1 nospace
    unfolding susp_calc_nm_sl_al_def Let_def X assms(3) [symmetric] fits_def [symmetric]
      pair prod.case link_def [symmetric]
    by auto
  obtain su2 ce2 where l: "link = Some (su2, ce2)"
    using assms(1) unfolding eq by (cases link) auto
  have le1: "su1 \<le> space" by (simp add: su1_def fits_def)
  have link: "if etype n = ECMA119_SYMLINK
     then \<exists>cew fill ce'. calc_sl_loop ca space su1 (get_rr_fname t (dest n)) (ce1 \<noteq> 0, 5, ce1) = Some (cew, fill, ce') \<and>
       (if cew then su2 = su1 \<and> ce2 = ce' + fill else su2 = su1 + fill \<and> ce2 = ce')
     else su2 = su1 \<and> ce2 = ce1"
    using l by (auto simp: link_def split: if_splits)
  have le2: "su1 \<le> su2" "su2 \<le> space"
    using link le1 calc_sl_loop_room [of ca space su1 "get_rr_fname t (dest n)" "ce1 \<noteq> 0" 5 ce1]
    by (auto split: if_splits)
  obtain f3 ce3 where z: "zf_account t n (space - su2, ce2) = (f3, ce3)" by fastforce
  have f3: "f3 \<le> space" using z by (auto simp: zf_account_def account_def split: sum.splits option.splits if_splits)
  obtain f4 ce4 where a: "aa_account t n (f3, ce3) = (f4, ce4)" by fastforce
  have f4: "f4 \<le> space" using a f3 by (auto simp: aa_account_def account_def split: if_splits)
  have "su = space - f4" "ce = ce4"
    using assms(1) z a f3 unfolding eq l by (auto simp: Let_def split: if_splits)
  then show ?thesis
    using that [of su1 ce1 su2 ce2] link le2 z a f4 1
    by (auto simp: su1_def ce1_def fits_def X_def)
qed

lemma calc_no_ca: "susp_calc_nm_sl_al t n space base 0 False = (Calc_ok, su, ce) \<Longrightarrow> ce = 0"
  by (auto simp: susp_calc_nm_sl_al_def Let_def aa_account_def split: if_splits option.splits prod.splits)

lemma calc_needs_ca:
  "susp_calc_nm_sl_al t n space base 0 ca = (Calc_needs_ca, su, ce) \<Longrightarrow> su = base \<and> ce = 0"
  by (auto simp: susp_calc_nm_sl_al_def Let_def split: if_splits option.splits prod.splits)

lemma calc_no_space:
  "susp_calc_nm_sl_al t n space base 0 False \<noteq> (Calc_no_space, su, ce)"
  by (auto simp: susp_calc_nm_sl_al_def Let_def split: if_splits option.splits prod.splits)

lemma calc_with_ca:
  "base + 28 \<le> space \<Longrightarrow> \<exists>su ce. susp_calc_nm_sl_al t n space base 0 True = (Calc_ok, su, ce)"
  by (auto simp: susp_calc_nm_sl_al_def Let_def calc_sl_loop_ca simp del: not_None_eq
      split: if_splits option.splits prod.splits)

text \<open>The result of the prediction for the two tries together.\<close>

definition predicts :: "rr_image \<Rightarrow> rr_node \<Rightarrow> nat \<Rightarrow> nat \<Rightarrow> bool \<Rightarrow> nat \<Rightarrow> nat \<Rightarrow> bool" where
  "predicts t n space base ca su ce \<longleftrightarrow>
     (ca \<longrightarrow> susp_calc_nm_sl_al t n space base 0 False = (Calc_needs_ca, base, 0)) \<and>
     susp_calc_nm_sl_al t n space base 0 ca = (Calc_ok, su, ce)"

lemma predicts_ex:
  assumes "base + 28 \<le> space"
  shows "\<exists>ca su ce. predicts t n space base ca su ce"
proof -
  obtain r su ce where c: "susp_calc_nm_sl_al t n space base 0 False = (r, su, ce)" by (metis prod_cases3)
  show ?thesis
  proof (cases r)
    case Calc_ok
    then show ?thesis using c by (auto simp: predicts_def intro!: exI [of _ False])
  next
    case Calc_needs_ca
    then have "susp_calc_nm_sl_al t n space base 0 False = (Calc_needs_ca, base, 0)" using c calc_needs_ca by blast
    then show ?thesis using calc_with_ca [OF assms] by (auto simp: predicts_def intro!: exI [of _ True])
  qed (use c calc_no_space in blast)
qed

lemma link_comps_adds:
  assumes run: "link_comps t n (space - su1) (ce1 \<noteq> 0) ce1 s = (Inr (comps, ce2'), s1)"
    and link: "if etype n = ECMA119_SYMLINK
     then \<exists>cew fill ce'. calc_sl_loop ca space su1 (get_rr_fname t (dest n)) (ce1 \<noteq> 0, 5, ce1) = Some (cew, fill, ce') \<and>
       (if cew then su2 = su1 \<and> ce2 = ce' + fill else su2 = su1 + fill \<and> ce2 = ce')
     else su2 = su1 \<and> ce2 = ce1"
    and room: "su1 \<le> space" "space \<le> 255"
    and ok: "etype n = ECMA119_SYMLINK \<Longrightarrow> link_ok (get_rr_fname t (dest n))"
  shows "ce2' = ce2 \<and> (\<exists>m. s1 = s\<lparr>mem_left := m\<rparr>)"
    and "etype n = ECMA119_SYMLINK \<Longrightarrow> rrip_add_SL comps (ce2 > 0) a = (Inr (), a') \<Longrightarrow>
      \<exists>fs cs. adds fs cs a a' \<and> su2 = su1 + total fs \<and> ce2 = ce1 + total cs \<and> fs @ cs = sl_entries comps [] \<and> (fs = [] \<or> cs = [])"
    and "etype n \<noteq> ECMA119_SYMLINK \<Longrightarrow> su2 = su1 \<and> ce2 = ce1"
    and "etype n = ECMA119_SYMLINK \<Longrightarrow> \<exists>st. comps_loop (space - su1) (get_rr_fname t (dest n))
      \<lparr>sl_comps = [], sl_fill = 5, sl_ce = ce1, sl_cew = (ce1 \<noteq> 0), sl_mem = mem_left s\<rparr> = (Inr (), st) \<and> sl_comps st = comps"
proof -
  let ?st0 = "\<lparr>sl_comps = [], sl_fill = 5, sl_ce = ce1, sl_cew = (ce1 \<noteq> 0), sl_mem = mem_left s\<rparr>"
  show "etype n \<noteq> ECMA119_SYMLINK \<Longrightarrow> su2 = su1 \<and> ce2 = ce1" using link by simp
  have "ce2' = ce2 \<and> (\<exists>m. s1 = s\<lparr>mem_left := m\<rparr>) \<and>
    (etype n = ECMA119_SYMLINK \<longrightarrow> (\<exists>st. comps_loop (space - su1) (get_rr_fname t (dest n)) ?st0 = (Inr (), st) \<and>
       sl_comps st = comps \<and> (rrip_add_SL comps (ce2 > 0) a = (Inr (), a') \<longrightarrow> (\<exists>fs cs. adds fs cs a a' \<and> su2 = su1 + total fs \<and>
           ce2 = ce1 + total cs \<and> fs @ cs = sl_entries comps [] \<and> (fs = [] \<or> cs = [])))))"
  proof (cases "etype n = ECMA119_SYMLINK")
    case False
    then show ?thesis using run link by (auto simp: link_comps_def intro!: exI [of _ "mem_left s"])
  next
    case True
    obtain st where st: "comps_loop (space - su1) (get_rr_fname t (dest n)) ?st0 = (Inr (), st)"
      "comps = sl_comps st" "ce2' = (if sl_cew st then sl_ce st + sl_fill st else sl_ce st)"
      "s1 = s\<lparr>mem_left := sl_mem st\<rparr>"
      using run True by (auto simp: link_comps_def split: prod.splits sum.splits)
    from link True obtain cew fill ce' where c:
      "calc_sl_loop ca space su1 (get_rr_fname t (dest n)) (ce1 \<noteq> 0, 5, ce1) = Some (cew, fill, ce')"
      "if cew then su2 = su1 \<and> ce2 = ce' + fill else su2 = su1 + fill \<and> ce2 = ce'" by auto
    have eq: "sl_cew st = cew" "sl_fill st = fill" "sl_ce st = ce'"
      using calc_sl_loop_comps [OF st(1), of ca cew fill ce'] c(1) room(1) by auto
    have "fill_inv ce1 (space - su1) ?st0" by (simp add: fill_inv_def packed_def)
    from comps_loop_inv [OF st(1) this ok [OF True]] room
    have inv: "fill_inv ce1 (space - su1) st" by simp
    obtain closed cur where p: "packed comps = (closed, cur)" by fastforce
    have i: "list_all comp_ok comps" "fill = 5 + cur" "ce' = ce1 + closed" "cur \<le> 250"
      "\<not> cew \<Longrightarrow> closed = 0" using inv p eq by (auto simp: fill_inv_def st(2))
    have tot: "list_all sized (sl_entries comps [])" "total (sl_entries comps []) = closed + cur + 5"
      using total_sl_entries [of comps "[]" 0] i(1) p by (auto simp: packed_def)
    have "\<exists>fs cs. adds fs cs a a' \<and> su2 = su1 + total fs \<and> ce2 = ce1 + total cs \<and> fs @ cs = sl_entries comps [] \<and> (fs = [] \<or> cs = [])"
      if sl: "rrip_add_SL comps (ce2 > 0) a = (Inr (), a')"
    proof (cases cew)
      case True
      then have "rrip_add_SL comps True a = (Inr (), a')" using sl c(2) i(2) by simp
      then have "adds [] (sl_entries comps []) a a'"
        using add_SL_ce [of comps "[]" a a'] i(1) by (simp add: rrip_add_SL_def)
      then show ?thesis using True c(2) i tot by (intro exI [of _ "[]"] exI [of _ "sl_entries comps []"]) simp
    next
      case False
      have z: "ce1 = 0" "ce' = 0" using calc_sl_loop_room [OF c(1) False] by auto
      then have "rrip_add_SL comps False a = (Inr (), a')" using sl c(2) False by simp
      then have a: "adds [sl_entry 0 comps] [] a a'" "foldl pack (0, 0) comps = (0, total comps)"
        using add_SL_sua [of comps "[]" a a'] i(1) by (auto simp: rrip_add_SL_def)
      then have cur: "cur = total comps" "total comps \<le> 250" using p i(4) by (auto simp: packed_def)
      have "sl_entries cs pending = [sl_entry 0 (pending @ cs)]" if "total pending + total cs \<le> 250" for pending cs
        using that by (induction cs arbitrary: pending) auto
      from this [of "[]" comps] have e: "sl_entries comps [] = [sl_entry 0 comps]" using cur by simp
      show ?thesis using False c(2) z a(1) i(2) cur e length_sl_entry [OF i(1), of 0]
        by (intro exI [of _ "[sl_entry 0 comps]"] exI [of _ "[]"]) simp
    qed
    then show ?thesis using st eq c(2) by auto
  qed
  then show "ce2' = ce2 \<and> (\<exists>m. s1 = s\<lparr>mem_left := m\<rparr>)"
    and "etype n = ECMA119_SYMLINK \<Longrightarrow> rrip_add_SL comps (ce2 > 0) a = (Inr (), a') \<Longrightarrow>
      \<exists>fs cs. adds fs cs a a' \<and> su2 = su1 + total fs \<and> ce2 = ce1 + total cs \<and> fs @ cs = sl_entries comps [] \<and> (fs = [] \<or> cs = [])"
    and "etype n = ECMA119_SYMLINK \<Longrightarrow> \<exists>st. comps_loop (space - su1) (get_rr_fname t (dest n)) ?st0 = (Inr (), st) \<and> sl_comps st = comps"
    by blast+
qed

lemma account_proj: "0 < k \<Longrightarrow>
  if 0 < snd (account k room) then fst (account k room) = fst room \<and> snd (account k room) = snd room + k
  else fst (account k room) + k = fst room \<and> snd room = 0"
  by (cases room) (auto simp: account_def)

lemma attrs_adds:
  assumes zf: "add_zf_field t n (free, ce) s = (Inr (), s1)"
    and aa: "add_aa_string t n (zf_account t n (free, ce)) s1 = (Inr (), s')" "\<not> corrupt s'" "attrs_ok n"
  shows "\<exists>fs cs. adds fs cs s s' \<and> fs @ cs = zf_entries t n @ aa_entries t n \<and>
     total fs + fst (aa_account t n (zf_account t n (free, ce))) = free \<and>
     snd (aa_account t n (zf_account t n (free, ce))) = ce + total cs"
proof -
  define room1 where "room1 = zf_account t n (free, ce)"
  define zs as where "zs = zf_entries t n" and "as = aa_entries t n"
  have z: "adds (if 0 < snd room1 then [] else zs) (if 0 < snd room1 then zs else []) s s1"
    using add_zf [OF zf] unfolding Let_def room1_def zs_def .
  have a: "adds (if 0 < snd (aa_account t n room1) then [] else as) (if 0 < snd (aa_account t n room1) then as else []) s1 s'"
    using add_aa [OF aa] unfolding Let_def room1_def as_def .
  have rz: "if 0 < snd room1 then fst room1 = free \<and> snd room1 = ce + total zs else fst room1 + total zs = free \<and> ce = 0"
    using account_proj [of 16 "(free, ce)"]
    by (auto simp: room1_def zs_def zf_account_def zf_entries_def zf_entry_def split: sum.splits option.splits prod.splits if_splits)
  have ra: "if 0 < snd (aa_account t n room1) then fst (aa_account t n room1) = fst room1 \<and> snd (aa_account t n room1) = snd room1 + total as
     else fst (aa_account t n room1) + total as = fst room1 \<and> snd room1 = 0"
    using account_proj [of "num_aapt t n + es_extra t" room1] total_aa_entries [OF aa(3), of t]
    by (auto simp: as_def aa_account_def split: if_splits prod.splits)
  show ?thesis
    using adds_trans [OF z a] rz ra unfolding room1_def [symmetric] zs_def [symmetric] as_def [symmetric]
    by (auto split: if_splits intro: exI [of _ "zs @ as"] exI [of _ zs] exI [of _ "[]"])
qed

definition normal_sua :: "rr_image \<Rightarrow> susp_info \<Rightarrow> cstring \<Rightarrow> nat \<Rightarrow> bool \<Rightarrow> nat \<Rightarrow> byte list list" where
  "normal_sua t s name k ca ce =
     nm_entry (if k < length name then 1 else 0) (take k name) #
     (if ca then [ce_entry (ce_block s - eff_partition_offset t) (ce_len s) (word_of_nat ce)] else [])"

definition normal_ce :: "cstring \<Rightarrow> nat \<Rightarrow> byte list list" where
  "normal_ce name k = (if k < length name then [nm_entry 0 (drop k name)] else [])"

lemma length_nm_entry [simp]: "length (nm_entry fl x) = length x + 5"
  by (simp add: nm_entry_def)

lemma length_ce_entry [simp]: "length (ce_entry a b c) = 28"
  by (simp add: ce_entry_def)

lemma normal_adds:
  assumes run: "rrip_normal_fields t n space s = (Inr (), s')" "\<not> corrupt s'"
    and room: "suf_len s + 33 \<le> space" "space \<le> 255"
    and attrs: "attrs_ok n"
    and link: "etype n = ECMA119_SYMLINK \<Longrightarrow> zf_wanted t n = Inr None \<and> num_aapt t n = 0 \<and> link_ok (get_rr_fname t (dest n))"
    and name: "name = get_rr_fname t (rr_name n)"
  shows "\<exists>ca su ce k slS slC fs cs. predicts t n space (suf_len s) ca su ce \<and>
     adds (normal_sua t s name k ca ce @ slS @ fs) (normal_ce name k @ slC @ cs) s s' \<and>
     suf_len s + total (normal_sua t s name k ca ce @ slS @ fs) = su \<and>
     total (normal_ce name k @ slC @ cs) = ce \<and> su \<le> space \<and>
     k \<le> length name \<and> (k < length name \<longrightarrow> ca \<and> suf_len s + k + 33 = space) \<and>
     (if etype n = ECMA119_SYMLINK
      then \<exists>free ce st st'. fill_inv ce free st \<and> sl_comps st = [] \<and> free \<le> 255 \<and>
        comps_loop free (get_rr_fname t (dest n)) st = (Inr (), st') \<and> slS @ slC = sl_entries (sl_comps st') []
      else slS = [] \<and> slC = []) \<and>
     fs @ cs = zf_entries t n @ aa_entries t n"
proof -
  define F where "F = suf_len s"
  obtain ca su ce where pr: "predicts t n space F ca su ce" using predicts_ex [of F space t n] room by (auto simp: F_def)
  define X where "X = F + ca_room ca"
  have X: "X + 5 \<le> space" "X \<le> space" using room by (auto simp: X_def F_def ca_room_def)
  from pr have ok: "susp_calc_nm_sl_al t n space F 0 ca = (Calc_ok, su, ce)" by (simp add: predicts_def)
  obtain su1 ce1 su2 ce2 where c:
    "if X + 5 + length name \<le> space then su1 = X + 5 + length name \<and> ce1 = 0
     else ca \<and> su1 = space \<and> ce1 = 5 + (length name + 5 + X - space)"
    "if etype n = ECMA119_SYMLINK
     then \<exists>cew fill ce'. calc_sl_loop ca space su1 (get_rr_fname t (dest n)) (ce1 \<noteq> 0, 5, ce1) = Some (cew, fill, ce') \<and>
       (if cew then su2 = su1 \<and> ce2 = ce' + fill else su2 = su1 + fill \<and> ce2 = ce')
     else su2 = su1 \<and> ce2 = ce1"
    "su1 \<le> su2" "su2 \<le> space"
    "su + fst (aa_account t n (zf_account t n (space - su2, ce2))) = space"
    "ce = snd (aa_account t n (zf_account t n (space - su2, ce2)))"
    by (rule calc_ok [OF ok X(2) [unfolded X_def] name, folded X_def]) (rule that)
  define nm where "nm = (ce1 \<noteq> 0)"
  have nm: "nm \<longleftrightarrow> 5 + length name > space - X" "nm \<longleftrightarrow> \<not> X + 5 + length name \<le> space"
    using c(1) X by (auto simp: nm_def split: if_splits)
  define k where "k = (if nm then space - X - 5 else length name)"
  have k: "k \<le> length name" "k < length name \<longleftrightarrow> nm" "X + k + 5 = su1" using nm X c(1) by (auto simp: k_def split: if_splits)
  have ce1: "ce1 = total (normal_ce name k)" using c(1) k nm X by (auto simp: normal_ce_def k_def split: if_splits)
  have ca_nm: "nm \<Longrightarrow> ca" using c(1) nm by (auto split: if_splits)
  text \<open>The choices of the code are those of the prediction.\<close>
  define r where "r = susp_calc_nm_sl_al t n space F 0 False"
  have pred: "fst r = Calc_needs_ca \<longleftrightarrow> ca" "(if ca then snd (snd (susp_calc_nm_sl_al t n space (fst (snd r)) (snd (snd r)) True)) else snd (snd r)) = ce"
    using pr by (cases ca; simp add: predicts_def r_def)+
  have free: "space - F - (if ca then 28 else 0) = space - X" by (simp add: X_def ca_room_def)
  have nmce: "(5 + length name > space - X) = nm" using nm(1) by simp
  have ce1': "(if nm then 5 + (length name + 5 - (space - X)) else 0) = ce1" using c(1) nm X by auto
  have sua: "(if nm then 0 else space - X - (5 + length name)) = space - su1" using c(1) nm X by auto
  have norm: "rrip_normal_fields t n space s =
     (case link_comps t n (space - su1) nm ce1 s of
        (Inl e, s) \<Rightarrow> (Inl e, s)
      | (Inr (comps, ce'), s) \<Rightarrow> run (rrip_name_steps t n space s ca ce nm comps (space - su1) ce') s)"
  proof -
    obtain rr sp cp where r: "r = (rr, sp, cp)" by (metis prod_cases3)
    have p: "(rr = Calc_needs_ca) = ca"
      "(if ca then snd (snd (susp_calc_nm_sl_al t n space sp cp True)) else cp) = ce"
      using pred unfolding r fst_conv snd_conv by blast+
    show ?thesis
      by (simp only: rrip_normal_fields_def name [symmetric] F_def [symmetric] r_def [symmetric] r Let_def
          prod.case p free nmce ce1' sua)
  qed
  from run(1) [unfolded norm] obtain comps ce2' s1 where lc: "link_comps t n (space - su1) nm ce1 s = (Inr (comps, ce2'), s1)"
    "run (rrip_name_steps t n space s1 ca ce nm comps (space - su1) ce2') s1 = (Inr (), s')"
    by (auto split: prod.splits sum.splits)
  have su1: "su1 \<le> space" using c(3,4) by simp
  note L = link_comps_adds [OF lc(1) [unfolded nm_def] c(2) su1 room(2) conjunct2 [OF conjunct2 [OF link]]]
  obtain m where s1: "s1 = s\<lparr>mem_left := m\<rparr>" and ce2': "ce2' = ce2" using L(1) by blast
  have part: "int space - int (suf_len s1) - (if ca then 28 else 0) - 5 = int (space - X) - 5"
    using X by (auto simp: s1 X_def F_def ca_room_def)
  have partk: "nm \<Longrightarrow> nat (int (space - X) - 5) = k" using X by (simp add: k_def nat_diff_distrib)
  obtain a1 a2 a3 a4 a5 where st:
    "(if nm then rrip_add_NM name (int (space - X) - 5) 1 False else rrip_add_NM name (int (length name)) 0 False) s1 = (Inr (), a1)"
    "run (if ca then [susp_add_CE t ce] else []) a1 = (Inr (), a2)"
    "run (if nm then [rrip_add_NM (drop k name) (int (length (drop k name))) 0 True] else []) a2 = (Inr (), a3)"
    "run (if etype n = ECMA119_SYMLINK then [rrip_add_SL comps (ce2 > 0)] else []) a3 = (Inr (), a4)"
    "add_zf_field t n (space - su1, ce2) a4 = (Inr (), a5)"
    "add_aa_string t n (zf_account t n (space - su1, ce2)) a5 = (Inr (), s')"
    using lc(2) partk unfolding rrip_name_steps_def Let_def name [symmetric] part ce2'
    by (cases nm) (auto simp: run_append run_Cons simp del: run.simps(2))
  have r1: "run [f] x = (Inr (), y) \<Longrightarrow> f x = (Inr (), y)" for f x y by (auto simp: run_Cons simp del: run.simps(2))
  have A1: "adds [nm_entry (if k < length name then 1 else 0) (take k name)] [] s a1"
  proof (cases nm)
    case True
    then show ?thesis using st(1) add_NM [of name "int (space - X) - 5" 1 False s1 a1] partk k X
      by (simp add: s1 adds_mem)
  next
    case False
    then show ?thesis using st(1) add_NM [of name "int (length name)" 0 False s1 a1] k by (simp add: s1 adds_mem k_def)
  qed
  have cel: "ce_len a1 = ce_len s" "ce_block a1 = ce_block s" using A1 by (auto simp: adds_def)
  have A2: "adds (if ca then [ce_entry (ce_block s - eff_partition_offset t) (ce_len s) (word_of_nat ce)] else []) [] a1 a2"
    using st(2) add_CE [of t ce a1 a2] r1 [of "susp_add_CE t ce" a1 a2] cel by (auto simp: adds_none split: if_splits)
  have A3: "adds [] (normal_ce name k) a2 a3"
  proof (cases nm)
    case True
    then have "rrip_add_NM (drop k name) (int (length (drop k name))) 0 True a2 = (Inr (), a3)" using st(3) r1 by simp
    from add_NM [OF this] show ?thesis using True k by (simp add: normal_ce_def)
  next
    case False
    then show ?thesis using st(3) k by (simp add: normal_ce_def adds_none)
  qed
  have sl: "\<exists>slS slC. adds slS slC a3 a4 \<and> su2 = su1 + total slS \<and> ce2 = ce1 + total slC \<and>
    (if etype n = ECMA119_SYMLINK then slS @ slC = sl_entries comps [] else slS = [] \<and> slC = [])"
  proof (cases "etype n = ECMA119_SYMLINK")
    case True
    then have "rrip_add_SL comps (ce2 > 0) a3 = (Inr (), a4)" using st(4) r1 by simp
    from L(2) [OF True True this] obtain fs cs where
      "adds fs cs a3 a4" "su2 = su1 + total fs" "ce2 = ce1 + total cs" "fs @ cs = sl_entries comps []" by blast
    then show ?thesis using True by (intro exI [of _ fs] exI [of _ cs]) simp
  next
    case False
    then show ?thesis using st(4) L(3) [OF _ False] by (auto simp: adds_none)
  qed
  then obtain slS slC where sl: "adds slS slC a3 a4" "su2 = su1 + total slS" "ce2 = ce1 + total slC"
    "if etype n = ECMA119_SYMLINK then slS @ slC = sl_entries comps [] else slS = [] \<and> slC = []" by blast
  have same: "zf_account t n (space - su1, ce2) = (space - su1, ce2) \<and> aa_account t n (space - su1, ce2) = (space - su1, ce2)
      \<and> zf_account t n (space - su2, ce2) = (space - su2, ce2) \<and> aa_account t n (space - su2, ce2) = (space - su2, ce2)
      \<or> su1 = su2"
  proof (cases "etype n = ECMA119_SYMLINK")
    case True
    from link [OF True] show ?thesis by (simp add: zf_account_def aa_account_def)
  next
    case False
    show ?thesis using L(3) [OF _ False] by blast
  qed
  obtain fs cs where fc: "adds fs cs a4 s'" "fs @ cs = zf_entries t n @ aa_entries t n"
    "total fs + fst (aa_account t n (zf_account t n (space - su1, ce2))) = space - su1"
    "snd (aa_account t n (zf_account t n (space - su1, ce2))) = ce2 + total cs"
    using attrs_adds [OF st(5,6) run(2) attrs] by blast
  have tot: "su2 + total fs = su" "ce = ce2 + total cs"
    using same fc(3,4) c(3-6) by auto
  have adds: "adds (normal_sua t s name k ca ce @ slS @ fs) (normal_ce name k @ slC @ cs) s s'"
    using adds_trans [OF A1 adds_trans [OF A2 adds_trans [OF A3 adds_trans [OF sl(1) fc(1)]]]]
    by (simp add: normal_sua_def)
  have "F + total (normal_sua t s name k ca ce) = su1" using k(1,3) by (auto simp: normal_sua_def X_def ca_room_def)
  then have tots: "F + total (normal_sua t s name k ca ce @ slS @ fs) = su" "total (normal_ce name k @ slC @ cs) = ce"
    using sl(2,3) tot ce1 by auto
  have su: "su \<le> space" using c(5) by simp
  have kk: "k < length name \<longrightarrow> ca \<and> F + k + 33 = space"
  proof
    assume "k < length name"
    then have "nm" using k(2) by simp
    then have "ca" "k = space - X - 5" using ca_nm by (simp_all add: k_def)
    then show "ca \<and> F + k + 33 = space" using X(1) by (simp add: X_def ca_room_def)
  qed
  have sy: "etype n = ECMA119_SYMLINK \<Longrightarrow> \<exists>free ce st st'. fill_inv ce free st \<and> sl_comps st = [] \<and> free \<le> 255 \<and>
        comps_loop free (get_rr_fname t (dest n)) st = (Inr (), st') \<and> slS @ slC = sl_entries (sl_comps st') []"
  proof -
    assume y: "etype n = ECMA119_SYMLINK"
    from L(4) [OF y y] obtain st where
      "comps_loop (space - su1) (get_rr_fname t (dest n))
        \<lparr>sl_comps = [], sl_fill = 5, sl_ce = ce1, sl_cew = (ce1 \<noteq> 0), sl_mem = mem_left s\<rparr> = (Inr (), st)" "sl_comps st = comps" by blast
    then show ?thesis using sl(4) y room(2)
      by (intro exI conjI) (auto simp: fill_inv_def packed_def)
  qed
  have link_entries: "if etype n = ECMA119_SYMLINK
      then \<exists>free ce st st'. fill_inv ce free st \<and> sl_comps st = [] \<and> free \<le> 255 \<and>
        comps_loop free (get_rr_fname t (dest n)) st = (Inr (), st') \<and> slS @ slC = sl_entries (sl_comps st') []
      else slS = [] \<and> slC = []"
  proof (cases "etype n = ECMA119_SYMLINK")
    case True
    then show ?thesis using sy [OF True] by (simp only: if_True simp_thms)
  next
    case False
    then show ?thesis using sl(4) by (simp only: if_False simp_thms)
  qed
  show ?thesis
    by (rule exI [of _ ca], rule exI [of _ su], rule exI [of _ ce], rule exI [of _ k], rule exI [of _ slS],
        rule exI [of _ slC], rule exI [of _ fs], rule exI [of _ cs], intro conjI)
      (fact pr [unfolded F_def] adds tots [unfolded F_def] su k(1) kk [unfolded F_def] link_entries fc(2))+
qed

section \<open>The records of . and ..\<close>

lemma dot_adds:
  assumes run: "run (rrip_dot_steps t n is_root type) s = (Inr (), s')" "\<not> corrupt s'" and attrs: "attrs_ok n"
  shows "\<exists>fs cs. adds fs cs s s' \<and>
     total fs = (if \<not> rrip_version_1_10 t then 5 else 0) + (if type = 1 \<and> is_root then 28 else 0) \<and>
     total cs = (if type = 1 \<and> is_root then er_len t + snd (aa_account t n (0, 0)) else 0)"
proof -
  have r1: "run [f] x = (Inr (), y) \<Longrightarrow> f x = (Inr (), y)" for f x y by (auto simp: run_Cons simp del: run.simps(2))
  obtain s1 where s1: "run (if \<not> rrip_version_1_10 t then [rrip_add_NM [] 0 (push_bit type 1) False] else []) s = (Inr (), s1)"
    "run (if type = 1 \<and> is_root then
        [susp_add_CE t (er_len t + snd (aa_account t n (0, 0))), rrip_add_ER t] @
        (if announces_aaip t then [aaip_add_ER] else []) @ [add_aa_string t n (0, 0)] else []) s1 = (Inr (), s')"
    using run(1) by (auto simp: rrip_dot_steps_def run_append)
  have 1: "\<exists>fs. adds fs [] s s1 \<and> total fs = (if \<not> rrip_version_1_10 t then 5 else 0)"
  proof (cases "rrip_version_1_10 t")
    case True
    then show ?thesis using s1(1) by (auto intro: exI [of _ "[]"] simp: adds_none)
  next
    case False
    then have "rrip_add_NM [] 0 (push_bit type 1) False s = (Inr (), s1)" using s1(1) r1 by simp
    from add_NM [OF this] show ?thesis using False by force
  qed
  show ?thesis
  proof (cases "type = 1 \<and> is_root")
    case False
    have "s1 = s'" using s1(2) unfolding if_not_P [OF False] by simp
    moreover obtain fs where "adds fs [] s s1" "total fs = (if \<not> rrip_version_1_10 t then 5 else 0)" using 1 by blast
    ultimately show ?thesis using False by (intro exI [of _ fs] exI [of _ "[]"]) simp
  next
    case True
    obtain s2 s3 s4 where s: "susp_add_CE t (er_len t + snd (aa_account t n (0, 0))) s1 = (Inr (), s2)" "rrip_add_ER t s2 = (Inr (), s3)"
      "run (if announces_aaip t then [aaip_add_ER] else []) s3 = (Inr (), s4)" "add_aa_string t n (0, 0) s4 = (Inr (), s')"
      using s1(2) True by (auto simp: run_append run_Cons simp del: run.simps(2))
    have 2: "\<exists>fs. adds fs [] s1 s2 \<and> total fs = 28" using add_CE [OF s(1)] by force
    have 3: "\<exists>cs. adds [] cs s2 s3 \<and> total cs = (if rrip_version_1_10 t then 237 else 182)" using add_ER [OF s(2)] by force
    have 4: "\<exists>cs. adds [] cs s3 s4 \<and> total cs = (if announces_aaip t then 160 else 0)"
    proof (cases "announces_aaip t")
      case True
      then show ?thesis using add_aaip_ER [of s3 s4] s(3) r1 [of aaip_add_ER s3 s4] by force
    next
      case False
      then show ?thesis using s(3) by (auto intro: exI [of _ "[]"] simp: adds_none)
    qed
    have 5: "\<exists>cs. adds [] cs s4 s' \<and> total cs = snd (aa_account t n (0, 0))"
      using add_aa [OF s(4) run(2) attrs] total_aa_entries [OF attrs, of t]
      by (auto simp: aa_account_def account_def Let_def aa_entries_def split: if_splits)
    obtain f1 f2 c3 c4 c5 where f: "adds f1 [] s s1" "total f1 = (if \<not> rrip_version_1_10 t then 5 else 0)"
      "adds f2 [] s1 s2" "total f2 = 28" "adds [] c3 s2 s3" "total c3 = (if rrip_version_1_10 t then 237 else 182)"
      "adds [] c4 s3 s4" "total c4 = (if announces_aaip t then 160 else 0)"
      "adds [] c5 s4 s'" "total c5 = snd (aa_account t n (0, 0))" using 1 2 3 4 5 by blast
    have "adds (f1 @ f2) (c3 @ c4 @ c5) s s'"
      using adds_trans [OF f(1) adds_trans [OF f(3) adds_trans [OF f(5) adds_trans [OF f(7) f(9)]]]] by simp
    then show ?thesis using True f(2,4,6,8,10) by (intro exI [of _ "f1 @ f2"] exI [of _ "c3 @ c4 @ c5"]) (auto simp: er_len_def)
  qed
qed

section \<open>Prediction and result\<close>

text \<open>
  What the prediction takes for granted.  The record has room for 33 bytes beside the entries
  before the name; a link target has no long component before its end; and a symbolic link has no
  attributes.
\<close>

definition node_ok :: "rr_image \<Rightarrow> rr_node \<Rightarrow> nat \<Rightarrow> nat \<Rightarrow> bool" where
  "node_ok t n type used_up \<longleftrightarrow>
     attrs_ok n \<and>
     (type = 0 \<longrightarrow> int (calc_fixed_len t n 0) + 33 \<le> sua_space used_up) \<and>
     (type = 0 \<and> etype n = ECMA119_SYMLINK \<longrightarrow>
        zf_wanted t n = Inr None \<and> num_aapt t n = 0 \<and> link_ok (get_rr_fname t (dest n)))"

lemma even_room:
  assumes "(a :: nat) + b + b mod 2 \<le> 254"
  shows "b + (a + a mod 2) \<le> 254"
proof (cases "even a")
  case True
  then show ?thesis using assms by simp
next
  case False
  then obtain k where k: "a = 2 * k + 1" by (auto elim: oddE)
  have "even (b + b mod 2)" by simp
  then obtain u where u: "b + b mod 2 = 2 * u" by (rule evenE)
  have "2 * (k + u) \<le> 253" using assms k u by simp
  then have "k + u \<le> 126" by simp
  then show ?thesis using k u by simp
qed

text \<open>What both lemmas and the property below need of one node.\<close>

lemma rr_prediction:
  assumes run: "rrip_get_susp_fields t n par type used_up s = (Inr (), s')" "\<not> corrupt s'"
    and start: "susp_fields s = []" "suf_len s = 0"
    and ok: "node_ok t n type used_up"
  obtains su ce cs where "rrip_calc_len t n (par = None) type used_up = Inr (su, ce)"
    "suf_len s' = su" "ce_susp_fields s' = ce_susp_fields s @ cs" "total cs = ce" "list_all sized cs"
    "ce_len s' = ce_len s + word_of_nat ce" "ce_block s' = ce_block s"
    "list_all sized (susp_fields s')" "su = total (susp_fields s') + total (susp_fields s') mod 2"
    "type = 0 \<longrightarrow> used_up + su \<le> 254" "type \<noteq> 0 \<longrightarrow> su \<le> 136"
proof -
  define space where "space = sua_space used_up"
  have sp: "124 \<le> space" "space \<le> 254" "type \<le> 2"
    using run(1) by (auto simp: rrip_get_susp_fields_def space_def sua_space_def ISO_ROCKRIDGE_IN_DIR_REC_def Let_def split: if_splits)
  have mod: "nat (sua_space used_up mod 2 ^ 64) = nat space"
    using sp by (simp add: space_def [symmetric])
  let ?node = "if type = 2 then case par of Some p \<Rightarrow> p | None \<Rightarrow> n else n"
  obtain s1 s2 where s: "run (rrip_fixed_steps t n ?node (par = None) type) s = (Inr (), s1)" "int (suf_len s1) + 28 \<le> space"
    "(if type = 0 then rrip_normal_fields t n (nat space) s1 else run (rrip_dot_steps t n (par = None) type) s1) = (Inr (), s2)"
    "s' = s2\<lparr>suf_len := suf_len s2 + suf_len s2 mod 2\<rparr>"
    using run(1) unfolding rrip_get_susp_fields_def Let_def space_def [symmetric]
    by (auto split: if_splits prod.splits sum.splits)
  have nc: "\<not> corrupt s2" using run(2) s(4) by simp
  obtain fs where f: "adds fs [] s s1" "total fs = calc_fixed_len t n type + (if type = 1 \<and> par = None then 7 else 0)"
    using fixed_adds [OF s(1)] by blast
  have F: "suf_len s1 = calc_fixed_len t n type + (if type = 1 \<and> par = None then 7 else 0)" using f start by (simp add: adds_def)
  have attrs: "attrs_ok n" using ok by (simp add: node_ok_def)
  have main: "\<exists>fs2 cs su0. adds fs2 cs s1 s2 \<and> su0 = total fs + total fs2 \<and>
      rrip_calc_len t n (par = None) type used_up = Inr (su0 + su0 mod 2, total cs) \<and> (type = 0 \<longrightarrow> su0 \<le> nat space)"
  proof (cases "type = 0")
    case True
    have F0: "suf_len s1 = calc_fixed_len t n 0" "total fs = calc_fixed_len t n 0" using F f True by auto
    have room: "suf_len s1 + 33 \<le> nat space" "nat space \<le> 255" using ok True F0 sp by (auto simp: node_ok_def space_def)
    have n: "rrip_normal_fields t n (nat space) s1 = (Inr (), s2)" using s(3) True by simp
    from normal_adds [OF n nc room attrs _ refl] ok True
    obtain ca su ce fs2 cs where pr: "predicts t n (nat space) (suf_len s1) ca su ce" "adds fs2 cs s1 s2"
      "suf_len s1 + total fs2 = su" "total cs = ce" "su \<le> nat space"
      unfolding node_ok_def by blast
    have "rrip_calc_len t n (par = None) 0 used_up = Inr (su + su mod 2, ce)"
      using pr(1) sp unfolding rrip_calc_len_def mod F0 predicts_def
      by (cases ca) (auto simp: Let_def ISO_ROCKRIDGE_IN_DIR_REC_def)
    then show ?thesis using pr F0 True by auto
  next
    case False
    then have "run (rrip_dot_steps t n (par = None) type) s1 = (Inr (), s2)" using s(3) by simp
    from dot_adds [OF this nc attrs] obtain fs2 cs where d: "adds fs2 cs s1 s2"
      "total fs2 = (if \<not> rrip_version_1_10 t then 5 else 0) + (if type = 1 \<and> par = None then 28 else 0)"
      "total cs = (if type = 1 \<and> par = None then er_len t + snd (aa_account t n (0, 0)) else 0)" by blast
    then show ?thesis using False f(2) sp(1,3) unfolding rrip_calc_len_def mod
      by (intro exI [of _ fs2] exI [of _ cs] exI [of _ "total fs + total fs2"])
        (auto simp: Let_def ISO_ROCKRIDGE_IN_DIR_REC_def algebra_simps)
  qed
  then obtain fs2 cs su0 where m: "adds fs2 cs s1 s2" "su0 = total fs + total fs2"
    "rrip_calc_len t n (par = None) type used_up = Inr (su0 + su0 mod 2, total cs)" "type = 0 \<longrightarrow> su0 \<le> nat space" by blast
  have all: "adds (fs @ fs2) cs s s2" using adds_trans [OF f(1) m(1)] by simp
  have fields: "susp_fields s' = fs @ fs2" "suf_len s2 = su0" using all start m(2) s(4) by (auto simp: adds_def)
  have "type = 0 \<longrightarrow> used_up + (su0 + su0 mod 2) \<le> 254"
  proof
    assume "type = 0"
    then have "su0 + used_up + used_up mod 2 \<le> 254" using m(4) sp by (auto simp: space_def sua_space_def)
    then show "used_up + (su0 + su0 mod 2) \<le> 254" by (rule even_room)
  qed
  moreover have "type \<noteq> 0 \<longrightarrow> su0 + su0 mod 2 \<le> 136"
  proof
    assume d: "type \<noteq> 0"
    then have "run (rrip_dot_steps t n (par = None) type) s1 = (Inr (), s2)" using s(3) by simp
    from dot_adds [OF this nc attrs] obtain fs3 cs3 where "adds fs3 cs3 s1 s2" "total fs3 \<le> 5 + 28" by (auto split: if_splits)
    moreover have "fs3 = fs2" if "adds fs3 cs3 s1 s2" for fs3 cs3 using that m(1) by (auto simp: adds_def)
    ultimately have "total fs2 \<le> 33" by auto
    moreover have "total fs \<le> 102" using f(2) d by (auto simp: calc_fixed_len_def split: ecma119_node_type.splits option.splits if_splits)
    ultimately show "su0 + su0 mod 2 \<le> 136" using m(2) by presburger
  qed
  moreover have "ce_block s' = ce_block s" using all s(4) by (simp add: adds_def)
  ultimately show thesis using that all m(3) fields s(4) m(2) by (auto simp: adds_def)
qed

text \<open>
  C7: the entries that \<open>rrip_get_susp_fields\<close> makes for a node take exactly the number of bytes in
  the directory record and in the continuation area that \<open>rrip_calc_len\<close> predicted when the
  directories were laid out, every entry has its true length in its length byte, and for the record of
  a node itself they fit into the 254 bytes that a record may have.\<close>
theorem rr_prediction_exact:
  assumes run: "rrip_get_susp_fields t n par type used_up s = (Inr (), s')" "\<not> corrupt s'"
    and start: "susp_fields s = []" "suf_len s = 0"
    and ok: "node_ok t n type used_up"
  shows "\<exists>su ce. rrip_calc_len t n (par = None) type used_up = Inr (su, ce) \<and>
     suf_len s' = su \<and> ce_len s' = ce_len s + word_of_nat ce \<and>
     (\<exists>cs. ce_susp_fields s' = ce_susp_fields s @ cs \<and> total cs = ce \<and> list_all sized cs) \<and>
     list_all sized (susp_fields s') \<and> su = total (susp_fields s') + total (susp_fields s') mod 2 \<and>
     (type = 0 \<longrightarrow> used_up + su \<le> 254)"
  using rr_prediction [OF run start ok] by (metis (no_types, lifting))

section \<open>Examples\<close>

definition example_rr_image :: rr_image where
  "example_rr_image =
     \<lparr>replace_uid = False, replace_gid = False, replace_file_mode = False, replace_dir_mode = False,
      uid_for_all = 0, gid_for_all = 0, file_mode = 0, dir_mode = 0, replace_timestamps = False,
      timestamp = 0, always_gmt = True, rrip_version_1_10 = False, rrip_1_10_px_ino = False, aaip = True,
      aaip_susp_1_10 = True, appendable = False, eff_partition_offset = 0, rr_reloc_flags = 0,
      rr_reloc_node = None, root_node = Some 0, partition_root = None, same_charset = True,
      strconv = (\<lambda>s. Some s), zone = (\<lambda>t. (gmtime t, 0))\<rparr>"

definition example_link :: "cstring \<Rightarrow> cstring \<Rightarrow> byte list option \<Rightarrow> rr_node" where
  "example_link name target attrs =
     \<lparr>node_id = 1, etype = ECMA119_SYMLINK, nlink = 1, ino = 5, iso_type = LIBISO_SYMLINK, rr_name = name,
      mode = 0xa1ff, uid = 1000, gid = 100, atime = 0, mtime_of = 0, ctime = 0, dest = target, dev = 0,
      aaip_xinfo = attrs, zf_xinfo = None, streams = [], from_old_session = False, dir_block = 0,
      real_parent = None, real_me = 0\<rparr>"

definition example_info :: susp_info where
  "example_info = \<lparr>susp_fields = [], suf_len = 0, ce_block = 20, ce_len = 100, ce_susp_fields = [],
     mem_left = 100, corrupt = False\<rparr>"

definition example_long_link :: rr_node where
  "example_long_link = example_link (replicate 120 0x61) (str ''/usr/../lib'') None"

lemma rr_prediction_exact_witness:
  "\<exists>su ce. rrip_calc_len example_rr_image example_long_link False 0 50 = Inr (su, ce) \<and>
     suf_len (snd (rrip_get_susp_fields example_rr_image example_long_link (Some example_long_link) 0 50 example_info)) = su"
proof -
  obtain s' where r: "rrip_get_susp_fields example_rr_image example_long_link (Some example_long_link) 0 50 example_info = (Inr (), s')"
    "\<not> corrupt s'"
  proof -
    have "(case rrip_get_susp_fields example_rr_image example_long_link (Some example_long_link) 0 50 example_info of
       (Inr _, s) \<Rightarrow> \<not> corrupt s | _ \<Rightarrow> False)" by code_simp
    then show ?thesis using that by (auto split: prod.splits sum.splits)
  qed
  have "susp_fields example_info = []" "suf_len example_info = 0" by (simp_all add: example_info_def)
  moreover have "node_ok example_rr_image example_long_link 0 50" by code_simp
  ultimately show ?thesis using rr_prediction_exact [OF r] r(1) by auto
qed

text \<open>A device node with a name of 96 characters and attributes announced by \<open>ER\<close>.\<close>

definition example_device :: rr_node where
  "example_device = (example_link (replicate 96 0x61) [] None)\<lparr>etype := ECMA119_SPECIAL, iso_type := LIBISO_SPECIAL, mode := 0x2180\<rparr>"

lemma rr_link_attrs_overflow:
  "case rrip_calc_len example_rr_image (example_link (replicate 50 0x61) (replicate 30 0x62) (Some (str ''AL'' @ [45, 1, 0] @ replicate 40 0))) False 0 50 of
     Inr (su, ce) \<Rightarrow>
       (case rrip_get_susp_fields example_rr_image (example_link (replicate 50 0x61) (replicate 30 0x62) (Some (str ''AL'' @ [45, 1, 0] @ replicate 40 0)))
            (Some example_long_link) 0 50 example_info of
          (Inr _, s') \<Rightarrow> (su, ce, suf_len s', ce_len s' - ce_len example_info, corrupt s') = (190, 45, 236, 0, False) | _ \<Rightarrow> False)
   | _ \<Rightarrow> False"
  by code_simp

lemma rr_device_overflow:
  "corrupt (snd (rrip_get_susp_fields (example_rr_image\<lparr>aaip_susp_1_10 := False\<rparr>) example_device (Some example_long_link) 0 130 example_info))"
  by code_simp
end
