(* ===== verification/Rock_Ridge_Read.thy ===== *)
theory Rock_Ridge_Read
  imports Rock_Ridge
begin

text \<open>
  The reader of SUSP and Rock Ridge entries: \<open>libisofs/rockridge_read.c\<close>, and the loop over the
  entries of a directory record in \<open>iso_file_source_new_ifs\<close> of \<open>libisofs/fs_image.c\<close>.

  An entry is a pointer into a buffer; its model is the list of the bytes from there to the end
  of the buffer.  \<open>None\<close> as the result of a function stands for an access outside the buffers, for
  a \<open>NULL\<close> string or for a loop that does not end.  Memory allocation is taken to succeed.
\<close>

section \<open>The iterator over the entries of a record\<close>

record susp_iter =
  si_base :: "byte list"
  si_pos :: nat
  si_size :: int
  si_ce_block :: u32
  si_ce_off :: u32
  si_ce_len :: u32

text \<open>\<open>dr\<close> is the directory record: \<open>len_dr\<close> is its byte 0, \<open>len_fi\<close> byte 32, \<open>file_id\<close> begins at 33.\<close>

definition susp_iter_new :: "byte list \<Rightarrow> byte \<Rightarrow> susp_iter" where
  "susp_iter_new dr len_skp =
     (let len_fi = unat (dr ! 32); pad = (len_fi + 1) mod 2
      in \<lparr>si_base = drop (33 + len_fi + pad) dr, si_pos = unat len_skp,
          si_size = int (unat (dr ! 0)) - int len_fi - 33 - int pad,
          si_ce_block = 0, si_ce_off = 0, si_ce_len = 0\<rparr>)"

text \<open>\<open>src->read_block\<close> is a parameter: the content of a block or an error.\<close>

type_synonym block_source = "u32 \<Rightarrow> byte list res"

fun read_blocks :: "block_source \<Rightarrow> u32 \<Rightarrow> nat \<Rightarrow> byte list res" where
  "read_blocks src block 0 = Inr []"
| "read_blocks src block (Suc n) =
     (case src block of
        Inl e \<Rightarrow> Inl e
      | Inr b \<Rightarrow> (case read_blocks src (block + 1) n of Inl e \<Rightarrow> Inl e | Inr bs \<Rightarrow> Inr (b @ bs)))"

definition sig_is :: "byte list \<Rightarrow> string \<Rightarrow> bool" where
  "sig_is entry s \<longleftrightarrow> take 2 entry = str s"

text \<open>The entry at a position of the buffer, when its signature and length byte are there.\<close>

definition entry_at :: "byte list \<Rightarrow> nat \<Rightarrow> byte list option" where
  "entry_at base pos = (if pos + 3 \<le> length base then Some (drop pos base) else None)"

definition len_sue :: "byte list \<Rightarrow> nat" where "len_sue entry = unat (entry ! 2)"

text \<open>
  What one call of \<open>susp_iter_next\<close> does before it returns or calls itself again: \<open>Turn_end\<close> and
  \<open>Turn_entry\<close> are returned, after \<open>Turn_skip\<close> comes the next entry.  \<open>abort\<close> is what
  \<open>iso_msg_submit\<close> returns, if negative.
\<close>

datatype turn = Turn_error iso_error | Turn_end | Turn_entry "byte list" susp_iter | Turn_skip susp_iter

definition susp_iter_take :: "iso_error option \<Rightarrow> byte list \<Rightarrow> susp_iter \<Rightarrow> turn" where
  "susp_iter_take abort entry it =
     (if len_sue entry = 0 then Turn_error ISO_WRONG_RR
      else
        let it = it\<lparr>si_pos := si_pos it + len_sue entry\<rparr>
        in if sig_is entry ''CE'' then
             if si_ce_len it \<noteq> 0 then
               (case abort of Some e \<Rightarrow> Turn_error e | None \<Rightarrow> Turn_skip it)
             else Turn_skip (it\<lparr>si_ce_block := fst (iso_read_bb (drop 4 entry) 4),
                                si_ce_off := fst (iso_read_bb (drop 12 entry) 4),
                                si_ce_len := fst (iso_read_bb (drop 20 entry) 4)\<rparr>)
           else if sig_is entry ''PD'' then Turn_skip it
           else Turn_entry entry it)"

definition susp_iter_turn :: "block_source \<Rightarrow> iso_error option \<Rightarrow> susp_iter \<Rightarrow> turn option" where
  "susp_iter_turn src abort it =
     (let at_end = (if int (si_pos it) + 4 > si_size it then Some True
                    else map_option (\<lambda>entry. sig_is entry ''ST'') (entry_at (si_base it) (si_pos it)))
      in case at_end of
           None \<Rightarrow> None
         | Some False \<Rightarrow> map_option (\<lambda>entry. susp_iter_take abort entry it) (entry_at (si_base it) (si_pos it))
         | Some True \<Rightarrow>
             if si_ce_len it = 0 then Some Turn_end
             else
               let nblocks = unat ((si_ce_off it + si_ce_len it + 2048 - 1) div 2048)
               in case read_blocks src (si_ce_block it) nblocks of
                    Inl e \<Rightarrow> Some (Turn_error e)
                  | Inr buffer \<Rightarrow>
                      let base = drop (unat (si_ce_off it)) buffer;
                          it = it\<lparr>si_base := base, si_pos := 0, si_size := int (unat (si_ce_len it)), si_ce_len := 0\<rparr>
                      in map_option (\<lambda>entry. susp_iter_take abort entry it) (entry_at base 0))"

text \<open>
  A continuation area that only names itself makes the function call itself without end; then the
  result is \<open>None\<close>.  \<open>Inr None\<close> is the result 0, no more entries.
\<close>

partial_function (option) susp_iter_next ::
  "block_source \<Rightarrow> iso_error option \<Rightarrow> susp_iter \<Rightarrow> ((byte list \<times> susp_iter) option) res option" where
  "susp_iter_next src abort it =
     (case susp_iter_turn src abort it of
        None \<Rightarrow> None
      | Some r \<Rightarrow>
          (case r of
             Turn_error e \<Rightarrow> Some (Inl e)
           | Turn_end \<Rightarrow> Some (Inr None)
           | Turn_entry entry it \<Rightarrow> Some (Inr (Some (entry, it)))
           | Turn_skip it \<Rightarrow> susp_iter_next src abort it))"

section \<open>Reading the entries\<close>

text \<open>The members of \<open>struct stat\<close> that get set.\<close>

record rr_stat =
  st_mode :: u32
  st_nlink :: u32
  st_uid :: u32
  st_gid :: u32
  st_ino :: u32
  st_rdev :: u64
  st_mtime :: int
  st_atime :: int
  st_ctime :: int

definition bb_at :: "byte list \<Rightarrow> nat \<Rightarrow> u32" where
  "bb_at entry k = fst (iso_read_bb (drop k entry) 4)"

text \<open>The result is 2 when the entry has an inode number.\<close>

definition read_rr_PX :: "byte list \<Rightarrow> rr_stat \<Rightarrow> nat res \<times> rr_stat" where
  "read_rr_PX px st =
     (if \<not> sig_is px ''PX'' then (Inl ISO_WRONG_ARG_VALUE, st)
      else if len_sue px \<noteq> 44 \<and> len_sue px \<noteq> 36 then (Inl ISO_WRONG_RR, st)
      else
        let st = st\<lparr>st_mode := bb_at px 4, st_nlink := bb_at px 12, st_uid := bb_at px 20, st_gid := bb_at px 28,
                    st_ino := 0\<rparr>
        in if len_sue px = 44 then (Inr 2, st\<lparr>st_ino := bb_at px 36\<rparr>) else (Inr 1, st))"

text \<open>
  One of the time stamps: the flag bit, the number \<open>nts\<close> of stamps before it, the size of a stamp
  and the store into the \<open>stat\<close>.
\<close>

definition tf_read :: "(tm \<Rightarrow> int) \<Rightarrow> byte list \<Rightarrow> nat \<Rightarrow> (int \<Rightarrow> rr_stat \<Rightarrow> rr_stat) \<Rightarrow> nat \<times> rr_stat \<Rightarrow> (nat \<times> rr_stat) res" where
  "tf_read env tf flag_bit store x =
     (case x of (nts, st) \<Rightarrow>
        let s = (if bit (tf ! 4) 7 then 17 else 7) in
        if bit (tf ! 4) flag_bit then
          if len_sue tf < 5 + (nts + 1) * s then Inl ISO_WRONG_RR
          else
            let buf = drop (5 + nts * s) tf
            in Inr (nts + 1, store (if s = 7 then iso_datetime_read_7 env buf else iso_datetime_read_17 env buf) st)
        else Inr (nts, st))"

definition read_rr_TF :: "(tm \<Rightarrow> int) \<Rightarrow> byte list \<Rightarrow> rr_stat \<Rightarrow> unit res \<times> rr_stat" where
  "read_rr_TF env tf st =
     (if \<not> sig_is tf ''TF'' then (Inl ISO_WRONG_ARG_VALUE, st)
      else
        let nts = (if bit (tf ! 4) 0 then 1 else 0)
        in case tf_read env tf 1 (\<lambda>x st. st\<lparr>st_mtime := x\<rparr>) (nts, st) of
             Inl e \<Rightarrow> (Inl e, st)
           | Inr (nts, st) \<Rightarrow>
               (case tf_read env tf 2 (\<lambda>x st. st\<lparr>st_atime := x\<rparr>) (nts, st) of
                  Inl e \<Rightarrow> (Inl e, st)
                | Inr (nts, st) \<Rightarrow>
                    (case tf_read env tf 3 (\<lambda>x st. st\<lparr>st_ctime := x\<rparr>) (nts, st) of
                       Inl e \<Rightarrow> (Inl e, st)
                     | Inr (nts, st) \<Rightarrow> (Inr (), st))))"

text \<open>\<open>strncat\<close> and \<open>strncpy\<close> of at most \<open>n\<close> bytes stop at a NUL.\<close>

definition c_prefix :: "nat \<Rightarrow> byte list \<Rightarrow> cstring" where
  "c_prefix n s = takeWhile (\<lambda>c. c \<noteq> 0) (take n s)"

text \<open>\<open>name\<close> and \<open>cont\<close> are what the pointers refer to, before and after.\<close>

definition read_rr_NM :: "byte list \<Rightarrow> cstring option \<times> bool \<Rightarrow> (unit res \<times> cstring option \<times> bool) option" where
  "read_rr_NM nm x =
     (case x of (name, cont) \<Rightarrow>
        if \<not> sig_is nm ''NM'' then Some (Inl ISO_WRONG_ARG_VALUE, name, cont)
        else if len_sue nm = 5 \<and> bit (nm ! 4) 1 then
          (if name = None then Some (Inr (), name, cont) else Some (Inl ISO_WRONG_RR, name, cont))
        else if len_sue nm \<le> 5 then Some (Inl ISO_WRONG_RR, name, cont)
        else
          let part = c_prefix (len_sue nm - 5) (drop 5 nm)
          in case (if cont then map_option (\<lambda>s. s @ part) name else Some part) of
               None \<Rightarrow> None
             | Some name \<Rightarrow> Some (Inr (), Some name, bit (nm ! 4) 0))"

text \<open>
  A component of a symbolic link.  \<open>cont\<close> is 0 before the first component, 1 before a new one and 2
  when the last one goes on.  The code looks at the last byte of the target so far, which must
  not be empty.
\<close>

definition sl_component :: "byte list \<Rightarrow> nat \<Rightarrow> cstring res" where
  "sl_component sl pos =
     (let flags = sl ! (5 + pos) in
      if bit flags 1 then Inr (str ''.'')
      else if bit flags 2 then Inr (str ''..'')
      else if bit flags 3 then Inr (str ''/'')
      else if flags AND NOT 1 \<noteq> 0 then Inl ISO_UNSUPPORTED_RR
      else Inr (c_prefix (unat (sl ! (6 + pos))) (drop (7 + pos) sl)))"

definition sl_join :: "cstring \<Rightarrow> cstring option \<times> nat \<Rightarrow> cstring option" where
  "sl_join text x =
     (case x of (target, cont) \<Rightarrow>
        if cont = 0 then Some text
        else case target of
          None \<Rightarrow> None
        | Some d \<Rightarrow>
            if cont = 1 then
              if d = [] then None
              else if last d \<noteq> asc CHR ''/'' then Some (d @ str ''/'' @ text) else Some (d @ text)
            else Some (d @ text))"

function read_sl_loop :: "byte list \<Rightarrow> nat \<Rightarrow> cstring option \<times> nat \<Rightarrow> (unit res \<times> cstring option \<times> nat) option" where
  "read_sl_loop sl pos x =
     (if \<not> pos + 5 < len_sue sl then Some (Inr (), x)
      else if length sl < 7 + pos then None
      else case sl_component sl pos of
        Inl e \<Rightarrow> Some (Inl e, x)
      | Inr text \<Rightarrow>
          (case sl_join text x of
             None \<Rightarrow> None
           | Some d \<Rightarrow> read_sl_loop sl (pos + 2 + unat (sl ! (6 + pos))) (Some d, if bit (sl ! (5 + pos)) 0 then 2 else 1)))"
  by auto

termination by (relation "measure (\<lambda>(sl, pos, _). len_sue sl - pos)") auto

declare read_sl_loop.simps [simp del]

definition read_rr_SL :: "byte list \<Rightarrow> cstring option \<times> nat \<Rightarrow> (unit res \<times> cstring option \<times> nat) option" where
  "read_rr_SL sl x =
     (if \<not> sig_is sl ''SL'' then Some (Inl ISO_WRONG_ARG_VALUE, x)
      else case read_sl_loop sl 0 x of
        None \<Rightarrow> None
      | Some (Inl e, x) \<Rightarrow> Some (Inl e, x)
      | Some (Inr u, target, cont) \<Rightarrow>
          Some (Inr (), target, if cont = 2 then 2 else if bit (sl ! 4) 0 then 1 else 0))"

definition read_rr_PN :: "byte list \<Rightarrow> rr_stat \<Rightarrow> unit res \<times> rr_stat" where
  "read_rr_PN pn st =
     (if \<not> sig_is pn ''PN'' then (Inl ISO_WRONG_ARG_VALUE, st)
      else if len_sue pn \<noteq> 20 then (Inl ISO_WRONG_RR, st)
      else (Inr (), st\<lparr>st_rdev := ucast (bb_at pn 12) OR push_bit 32 (ucast (bb_at pn 4))\<rparr>))"

text \<open>
  The attribute string while it is collected: its buffer, \<open>*aa_len\<close>, \<open>*prev_field\<close> and \<open>*is_done\<close>.
  \<open>*aa_size\<close> is the length of the buffer; what \<open>realloc\<close> appends is shown as zeros.
\<close>

record aa_state =
  aa_string :: "byte list option"
  aa_len :: nat
  aa_prev :: nat
  aa_done :: bool

definition aa_take :: "byte list \<Rightarrow> aa_state \<Rightarrow> aa_state" where
  "aa_take sue aa =
     (let len = len_sue sue;
          buf = (case aa_string aa of Some b \<Rightarrow> b | None \<Rightarrow> []);
          buf = (if aa_len aa > 0 then buf[aa_prev aa + 4 := 1] else buf);
          field = str ''AL'' @ [sue ! 2, 1, 0] @ take (len - 5) (drop 5 sue)
      in aa\<lparr>aa_string := Some (take (aa_len aa) buf @ field @ drop (aa_len aa + len) buf),
            aa_prev := aa_len aa, aa_done := \<not> bit (sue ! 4) 0, aa_len := aa_len aa + len\<rparr>)"

text \<open>
  An entry of less than 5 bytes makes \<open>memcpy\<close> run out of bounds.
\<close>

definition aa_grow :: "byte list \<Rightarrow> aa_state \<Rightarrow> aa_state" where
  "aa_grow sue aa =
     (case aa_string aa of
        None \<Rightarrow> aa\<lparr>aa_string := Some (replicate (aa_len aa + len_sue sue) 0), aa_len := 0\<rparr>
      | Some b \<Rightarrow>
          if b = [] then aa\<lparr>aa_string := Some (replicate (aa_len aa + len_sue sue) 0), aa_len := 0\<rparr>
          else if aa_len aa + len_sue sue > length b
          then aa\<lparr>aa_string := Some (b @ replicate (aa_len aa + len_sue sue) 0)\<rparr>
          else aa)"

definition read_aaip_AL :: "byte list \<Rightarrow> aa_state \<Rightarrow> (unit res \<times> aa_state) option" where
  "read_aaip_AL sue aa =
     (if aa_done aa then Some (Inl ISO_WRONG_RR, aa)
      else if sue ! 3 \<noteq> 1 then Some (Inl ISO_WRONG_RR, aa)
      else if len_sue sue < 5 then None
      else Some (Inr (), aa_take sue (aa_grow sue aa)))"

definition read_aaip_AA :: "byte list \<Rightarrow> aa_state \<Rightarrow> (unit res \<times> aa_state) option" where
  "read_aaip_AA sue aa =
     (if aa_done aa then
        (if sue ! 3 \<noteq> 1 \<or> len_sue sue = 7 then Some (Inr (), aa) else Some (Inl ISO_WRONG_RR, aa))
      else
        let fresh = (case aa_string aa of None \<Rightarrow> True | Some b \<Rightarrow> b = []) in
        if fresh \<and> (sue ! 3 \<noteq> 1 \<or> len_sue sue < 9) then Some (Inr (), aa)
        else if \<not> fresh \<and> aa_len aa + len_sue sue > length (the (aa_string aa)) \<and> sue ! 3 \<noteq> 1
        then Some (Inl ISO_WRONG_RR, aa)
        else if len_sue sue < 5 then None
        else Some (Inr (), aa_take sue (aa_grow sue aa)))"

text \<open>The parameters and the two bytes of the algorithm.\<close>

definition read_zisofs_ZF :: "byte list \<Rightarrow> (byte list \<times> byte \<times> byte \<times> u32) res" where
  "read_zisofs_ZF zf =
     (if \<not> sig_is zf ''ZF'' then Inl ISO_WRONG_ARG_VALUE
      else if len_sue zf \<noteq> 16 then Inl ISO_WRONG_RR
      else Inr (take 2 (drop 4 zf), zf ! 6, zf ! 7, bb_at zf 8))"

section \<open>The entries of a directory record\<close>

text \<open>
  The local variables of \<open>iso_file_source_new_ifs\<close> that the loop over the entries uses, and the
  two members of the file system data that it changes.  \<open>zisofs\<close> are \<open>zisofs_hs4\<close>, \<open>zisofs_bsl2\<close> and
  \<open>zisofs_usize\<close>.
\<close>

record ifs_state =
  atts :: rr_stat
  has_px :: bool
  px_ino_status :: nat
  inode_counter :: u32
  ifs_name :: "cstring option"
  namecont :: bool
  linkdest :: "cstring option"
  linkdestcont :: nat
  relocated_dir :: u32
  ifs_aa :: aa_state
  zisofs :: "byte \<times> byte \<times> u32"

text \<open>
  \<open>iso_rr_msg_submit\<close> and \<open>iso_msg_submit\<close> return a negative code
  when the severity of the message demands to abort: \<open>rr_msg\<close> and \<open>ce_msg\<close>.
\<close>

record ifs_env =
  rr_msg :: "nat \<Rightarrow> iso_error option"
  ce_msg :: "iso_error option"
  env_timegm :: "tm \<Rightarrow> int"
  read_block :: block_source

datatype ifs_verdict = Go_on ifs_state | Leave "unit res" ifs_state | Relocated ifs_state

definition msg_ret :: "ifs_env \<Rightarrow> nat \<Rightarrow> unit res" where
  "msg_ret E k = (case rr_msg E k of Some e \<Rightarrow> Inl e | None \<Rightarrow> Inr ())"

definition ifs_PX :: "byte list \<Rightarrow> ifs_state \<Rightarrow> ifs_state" where
  "ifs_PX sue st =
     (let (ret, a) = read_rr_PX sue (atts st); st = st\<lparr>has_px := True, atts := a\<rparr>
      in case ret of
           Inl e \<Rightarrow> st\<lparr>px_ino_status := px_ino_status st OR 8 OR 2\<rparr>
         | Inr k \<Rightarrow>
             if k = 2 then st\<lparr>inode_counter := max (inode_counter st) (st_ino a), px_ino_status := px_ino_status st OR 1\<rparr>
             else st\<lparr>px_ino_status := px_ino_status st OR 2\<rparr>)"

definition ifs_NM :: "byte list \<Rightarrow> ifs_state \<Rightarrow> ifs_state option" where
  "ifs_NM sue st =
     (if ifs_name st \<noteq> None \<and> \<not> namecont st then Some st
      else map_option (\<lambda>(ret, name, cont). st\<lparr>ifs_name := name, namecont := cont\<rparr>)
             (read_rr_NM sue (ifs_name st, namecont st)))"

definition ifs_SL :: "byte list \<Rightarrow> ifs_state \<Rightarrow> ifs_state option" where
  "ifs_SL sue st =
     (if linkdest st \<noteq> None \<and> linkdestcont st = 0 then Some st
      else map_option (\<lambda>(ret, target, cont). st\<lparr>linkdest := target, linkdestcont := cont\<rparr>)
             (read_rr_SL sue (linkdest st, linkdestcont st)))"

definition ifs_ZF :: "byte list \<Rightarrow> ifs_state \<Rightarrow> ifs_state" where
  "ifs_ZF sue st =
     (case read_zisofs_ZF sue of
        Inl e \<Rightarrow> st\<lparr>zisofs := (0, snd (zisofs st))\<rparr>
      | Inr (alg, hs4, bsl2, usize) \<Rightarrow>
          if alg \<noteq> str ''pz'' then st\<lparr>zisofs := (0, bsl2, usize)\<rparr> else st\<lparr>zisofs := (hs4, bsl2, usize)\<rparr>)"

text \<open>The body of the loop for one entry.\<close>

definition ifs_entry :: "ifs_env \<Rightarrow> byte list \<Rightarrow> ifs_state \<Rightarrow> ifs_verdict option" where
  "ifs_entry E sue st =
     (if sue ! 3 \<noteq> 1 then Some (Go_on st)
      else if sig_is sue ''PX'' then Some (Go_on (ifs_PX sue st))
      else if sig_is sue ''TF'' then Some (Go_on (st\<lparr>atts := snd (read_rr_TF (env_timegm E) sue (atts st))\<rparr>))
      else if sig_is sue ''NM'' then map_option Go_on (ifs_NM sue st)
      else if sig_is sue ''SL'' then map_option Go_on (ifs_SL sue st)
      else if sig_is sue ''RE'' then Some (Relocated st)
      else if sig_is sue ''CL'' then
        (let st = st\<lparr>relocated_dir := bb_at sue 4\<rparr>
         in Some (if relocated_dir st = 0 then Leave (msg_ret E 6) st else Go_on st))
      else if sig_is sue ''PN'' then Some (Go_on (st\<lparr>atts := snd (read_rr_PN sue (atts st))\<rparr>))
      else if sig_is sue ''SF'' then Some (Leave (msg_ret E 8) st)
      else if sig_is sue ''AA'' then map_option (\<lambda>(ret, aa). Go_on (st\<lparr>ifs_aa := aa\<rparr>)) (read_aaip_AA sue (ifs_aa st))
      else if sig_is sue ''AL'' then map_option (\<lambda>(ret, aa). Go_on (st\<lparr>ifs_aa := aa\<rparr>)) (read_aaip_AL sue (ifs_aa st))
      else if sig_is sue ''ZF'' then Some (Go_on (ifs_ZF sue st))
      else Some (Go_on st))"

partial_function (option) ifs_loop :: "ifs_env \<Rightarrow> susp_iter \<Rightarrow> ifs_state \<Rightarrow> ifs_verdict option" where
  "ifs_loop E it st =
     (case susp_iter_next (read_block E) (ce_msg E) it of
        None \<Rightarrow> None
      | Some r \<Rightarrow>
          (case r of
             Inl e \<Rightarrow> Some (Leave (Inl e) st)
           | Inr x \<Rightarrow>
               (case x of
                  None \<Rightarrow> Some (Leave (Inr ()) st)
                | Some y \<Rightarrow>
                    (case ifs_entry E (fst y) st of
                       None \<Rightarrow> None
                     | Some v \<Rightarrow>
                         (case v of
                            Go_on st \<Rightarrow> ifs_loop E (snd y) st
                          | Leave ret st \<Rightarrow> Some (Leave ret st)
                          | Relocated st \<Rightarrow> Some (Relocated st))))))"

definition ifs_start :: "nat \<Rightarrow> u32 \<Rightarrow> ifs_state" where
  "ifs_start status counter =
     \<lparr>atts = \<lparr>st_mode = 0, st_nlink = 1, st_uid = 0, st_gid = 0, st_ino = 0, st_rdev = 0,
               st_mtime = 0, st_atime = 0, st_ctime = 0\<rparr>,
      has_px = False, px_ino_status = status, inode_counter = counter, ifs_name = None, namecont = False,
      linkdest = None, linkdestcont = 0, relocated_dir = 0,
      ifs_aa = \<lparr>aa_string = None, aa_len = 0, aa_prev = 0, aa_done = False\<rparr>, zisofs = (0, 0, 0)\<rparr>"

text \<open>
  The loop and the checks after it.  \<open>Inr None\<close> means that the record is ignored, because it belongs
  to a relocated directory.  The attribute \<open>isofs.cs\<close> of the root directory, which may change
  the character set, and the conversion of the name and of the link target come later in the code and are
  not part of the model.
\<close>

definition ifs_read :: "ifs_env \<Rightarrow> byte \<Rightarrow> byte list \<Rightarrow> nat \<Rightarrow> u32 \<Rightarrow> (ifs_state option) res option" where
  "ifs_read E len_skp dr status counter =
     (case ifs_loop E (susp_iter_new dr len_skp) (ifs_start status counter) of
        None \<Rightarrow> None
      | Some (Relocated st) \<Rightarrow> Some (Inr None)
      | Some (Go_on st) \<Rightarrow> None
      | Some (Leave (Inl e) st) \<Rightarrow> Some (Inl e)
      | Some (Leave (Inr u) st) \<Rightarrow>
          let ret = (if relocated_dir st = 0 \<and> st_mode (atts st) = 0 then msg_ret E 14
                     else let ret = (if namecont st then msg_ret E 15 else Inr ())
                          in if linkdestcont st \<noteq> 0 then msg_ret E 16 else ret)
          in case ret of Inl e \<Rightarrow> Some (Inl e) | Inr u \<Rightarrow> Some (Inr (Some st)))"
end
