(* ===== verification/RR_Loop.thy ===== *)
theory RR_Loop
  imports RR_Size Rock_Ridge_Read
begin

text \<open>
  How the iterator of \<open>rockridge_read.c\<close> and the loop of \<open>iso_file_source_new_ifs\<close> walk over the
  entries of a directory record and of its continuation area.
\<close>

section \<open>Iterating over a region of entries\<close>

definition plain :: "byte list \<Rightarrow> bool" where
  "plain f \<longleftrightarrow> sized f \<and> \<not> sig_is f ''ST'' \<and> \<not> sig_is f ''CE'' \<and> \<not> sig_is f ''PD''"

text \<open>The iterator stands before the entries \<open>fs\<close>, after which fewer than 4 bytes are left.\<close>

definition before_fields :: "susp_iter \<Rightarrow> byte list list \<Rightarrow> bool" where
  "before_fields it fs \<longleftrightarrow>
     (\<exists>zs. drop (si_pos it) (si_base it) = concat fs @ zs) \<and>
     int (si_pos it + total fs) \<le> si_size it \<and> si_size it < int (si_pos it + total fs) + 4"

lemma sized_prefix: "sized f \<Longrightarrow> len_sue (f @ zs) = length f" "sized f \<Longrightarrow> sig_is (f @ zs) s \<longleftrightarrow> sig_is f s"
  by (auto simp: sized_def len_sue_def sig_is_def nth_append)

lemma turn_entry:
  assumes "before_fields it (f # fs)" "sized f" "\<not> sig_is f ''ST''"
  shows "\<exists>zs. susp_iter_turn src ab it = Some (susp_iter_take ab (f @ zs) it) \<and>
    (\<forall>it'. si_base it' = si_base it \<and> si_size it' = si_size it \<and> si_pos it' = si_pos it + length f \<longrightarrow> before_fields it' fs)"
proof -
  obtain zs where m: "drop (si_pos it) (si_base it) = f @ concat fs @ zs" using assms(1) by (auto simp: before_fields_def)
  have l: "4 \<le> length f" using assms(2) by (simp add: sized_def)
  have "3 \<le> length (si_base it) - si_pos it" using arg_cong [OF m, of length] l by simp
  then have e: "entry_at (si_base it) (si_pos it) = Some (f @ concat fs @ zs)" by (simp add: entry_at_def m)
  have room: "\<not> int (si_pos it) + 4 > si_size it" using assms(1) l by (auto simp: before_fields_def)
  have "susp_iter_turn src ab it = Some (susp_iter_take ab (f @ concat fs @ zs) it)"
    using room assms(3) sized_prefix(2) [OF assms(2)] by (simp add: susp_iter_turn_def e)
  moreover have "drop (si_pos it + length f) (si_base it) = concat fs @ zs"
    by (metis m add.commute append_eq_conv_conj drop_drop)
  ultimately show ?thesis using assms(1) by (auto simp: before_fields_def)
qed

lemma take_plain: "plain f \<Longrightarrow> susp_iter_take ab (f @ zs) it = Turn_entry (f @ zs) (it\<lparr>si_pos := si_pos it + length f\<rparr>)"
proof -
  assume p: "plain f"
  then have s: "sized f" "length f \<noteq> 0" by (auto simp: plain_def sized_def)
  show ?thesis using p s(2) unfolding susp_iter_take_def sized_prefix [OF s(1)] plain_def Let_def by simp
qed

lemma sized_ce: "sized (ce_entry b off n)"
  by (simp add: sized_def ce_entry_def)

lemma take_ce: "si_ce_len it = 0 \<Longrightarrow> susp_iter_take ab (ce_entry b off n @ zs) it =
  Turn_skip (it\<lparr>si_pos := si_pos it + 28, si_ce_block := b, si_ce_off := off, si_ce_len := n\<rparr>)"
proof -
  assume c: "si_ce_len it = 0"
  have l: "len_sue (ce_entry b off n @ zs) = 28" using sized_prefix(1) [OF sized_ce] by simp
  have "sig_is (ce_entry b off n @ zs) ''CE''" by (simp add: sig_is_def ce_entry_def)
  moreover have "iso_read_bb (drop 4 (ce_entry b off n @ zs)) 4 = (b, False)"
    "iso_read_bb (drop 12 (ce_entry b off n @ zs)) 4 = (off, False)"
    "iso_read_bb (drop 20 (ce_entry b off n @ zs)) 4 = (n, False)"
    by (simp_all add: ce_entry_def)
  ultimately show ?thesis using c l by (simp add: susp_iter_take_def Let_def)
qed

section \<open>The loop over the entries\<close>

text \<open>The entries are accepted one after the other and change the state from \<open>st\<close> to \<open>st'\<close>.\<close>

inductive feeds :: "ifs_env \<Rightarrow> byte list list \<Rightarrow> ifs_state \<Rightarrow> ifs_state \<Rightarrow> bool" for E where
  feeds_Nil: "feeds E [] st st"
| feeds_Cons: "plain f \<Longrightarrow> (\<And>zs. ifs_entry E (f @ zs) st = Some (Go_on st1)) \<Longrightarrow> feeds E fs st1 st2 \<Longrightarrow>
    feeds E (f # fs) st st2"

inductive_cases feeds_ConsE: "feeds E (f # fs) st st'"

lemma feeds_append: "feeds E fs st st1 \<Longrightarrow> feeds E gs st1 st2 \<Longrightarrow> feeds E (fs @ gs) st st2"
  by (induction rule: feeds.induct) (auto intro: feeds.intros)

lemma feeds_one: "plain f \<Longrightarrow> (\<And>zs. ifs_entry E (f @ zs) st = Some (Go_on st1)) \<Longrightarrow> feeds E [f] st st1"
  by (blast intro: feeds.intros)

lemma loop_fields:
  "feeds E fs st st' \<Longrightarrow> before_fields it (fs @ gs) \<Longrightarrow>
   ifs_loop E it st = ifs_loop E (it\<lparr>si_pos := si_pos it + total fs\<rparr>) st' \<and>
   before_fields (it\<lparr>si_pos := si_pos it + total fs\<rparr>) gs"
proof (induction arbitrary: it rule: feeds.induct)
  case (feeds_Nil st)
  then show ?case by simp
next
  case (feeds_Cons f st st1 fs st2)
  obtain zs where t: "susp_iter_turn (read_block E) (ce_msg E) it = Some (susp_iter_take (ce_msg E) (f @ zs) it)"
    "\<forall>it'. si_base it' = si_base it \<and> si_size it' = si_size it \<and> si_pos it' = si_pos it + length f \<longrightarrow> before_fields it' (fs @ gs)"
    using turn_entry [of it f "fs @ gs"] feeds_Cons.prems feeds_Cons.hyps(1) unfolding plain_def append_Cons by blast
  let ?it = "it\<lparr>si_pos := si_pos it + length f\<rparr>"
  have "susp_iter_next (read_block E) (ce_msg E) it = Some (Inr (Some (f @ zs, ?it)))"
    using t(1) take_plain [OF feeds_Cons.hyps(1)] by (subst susp_iter_next.simps) simp
  then have "ifs_loop E it st = ifs_loop E ?it st1"
    using feeds_Cons.hyps(2) [of zs] by (subst ifs_loop.simps) simp
  moreover have "before_fields ?it (fs @ gs)" using t(2) by simp
  ultimately show ?case using feeds_Cons.IH [of ?it] by (simp add: add.assoc)
qed

lemma loop_same_next:
  "susp_iter_next (read_block E) (ce_msg E) it = susp_iter_next (read_block E) (ce_msg E) it' \<Longrightarrow> ifs_loop E it st = ifs_loop E it' st"
  by (subst (1 2) ifs_loop.simps) simp

lemma loop_ce:
  assumes "before_fields it (ce_entry b off n # fs)" "si_ce_len it = 0"
  shows "ifs_loop E it st = ifs_loop E (it\<lparr>si_pos := si_pos it + 28, si_ce_block := b, si_ce_off := off, si_ce_len := n\<rparr>) st"
    "before_fields (it\<lparr>si_pos := si_pos it + 28, si_ce_block := b, si_ce_off := off, si_ce_len := n\<rparr>) fs"
proof -
  have "\<not> sig_is (ce_entry b off n) ''ST''" by (simp add: sig_is_def ce_entry_def)
  from turn_entry [OF assms(1) sized_ce this] obtain zs where
    t: "susp_iter_turn (read_block E) (ce_msg E) it = Some (susp_iter_take (ce_msg E) (ce_entry b off n @ zs) it)"
    "\<forall>it'. si_base it' = si_base it \<and> si_size it' = si_size it \<and> si_pos it' = si_pos it + 28 \<longrightarrow> before_fields it' fs"
    by (metis length_ce_entry)
  show "ifs_loop E it st = ifs_loop E (it\<lparr>si_pos := si_pos it + 28, si_ce_block := b, si_ce_off := off, si_ce_len := n\<rparr>) st"
    by (rule loop_same_next, subst susp_iter_next.simps) (simp add: t(1) take_ce [OF assms(2)])
  show "before_fields (it\<lparr>si_pos := si_pos it + 28, si_ce_block := b, si_ce_off := off, si_ce_len := n\<rparr>) fs"
    using t(2) by simp
qed

lemma loop_end:
  assumes "before_fields it []" "si_ce_len it = 0"
  shows "ifs_loop E it st = Some (Leave (Inr ()) st)"
proof -
  have "int (si_pos it) + 4 > si_size it" using assms(1) by (simp add: before_fields_def)
  then have "susp_iter_turn (read_block E) (ce_msg E) it = Some Turn_end"
    using assms(2) by (simp add: susp_iter_turn_def)
  then show ?thesis by (subst ifs_loop.simps, subst susp_iter_next.simps) simp
qed

text \<open>At the end of the record the iterator goes on with the continuation area.\<close>

definition area_at :: "block_source \<Rightarrow> u32 \<Rightarrow> byte list \<Rightarrow> bool" where
  "area_at src block area \<longleftrightarrow>
     length area < 2 ^ 32 - 2048 \<and>
     (\<forall>k < (length area + 2047) div 2048. src (block + word_of_nat k) = Inr (take 2048 (drop (2048 * k) area @ replicate 2048 0)))"

lemma read_blocks_area:
  assumes "\<forall>k < m. src (block + word_of_nat k) = Inr (f k)"
  shows "read_blocks src block m = Inr (concat (map f [0..<m]))"
  using assms
proof (induction m arbitrary: block f)
  case (Suc m)
  have 0: "src block = Inr (f 0)" using Suc.prems [rule_format, of 0] by simp
  have "\<forall>k < m. src (block + 1 + word_of_nat k) = Inr (f (Suc k))"
  proof (intro allI impI)
    fix k assume "k < m"
    then have "src (block + word_of_nat (Suc k)) = Inr (f (Suc k))" using Suc.prems by blast
    then show "src (block + 1 + word_of_nat k) = Inr (f (Suc k))" by (simp only: of_nat_Suc add.assoc)
  qed
  from Suc.IH [OF this] have "read_blocks src (block + 1) m = Inr (concat (map (\<lambda>k. f (Suc k)) [0..<m]))" .
  moreover have "map f [0..<Suc m] = f 0 # map (\<lambda>k. f (Suc k)) [0..<m]"
    by (simp only: upt_rec [of 0 "Suc m"] map_Suc_upt [symmetric] zero_less_Suc if_True list.map map_map comp_def)
  ultimately show ?case using 0 by (simp del: upt_Suc)
qed simp

definition nth_block :: "byte list \<Rightarrow> nat \<Rightarrow> byte list" where
  "nth_block area k = take 2048 (drop (2048 * k) area @ replicate 2048 0)"

lemma nth_block_padded:
  "2048 * k \<le> length area \<Longrightarrow> nth_block area k = take 2048 (drop (2048 * k) (area @ replicate 2048 0))"
  by (simp add: nth_block_def)

lemma blocks_concat:
  "m * 2048 \<le> length area + 2048 \<Longrightarrow> concat (map (nth_block area) [0..<m]) = take (2048 * m) (area @ replicate 2048 0)"
proof (induction m)
  case (Suc m)
  have IH: "concat (map (nth_block area) [0..<m]) = take (2048 * m) (area @ replicate 2048 0)" using Suc by simp
  have le: "2048 * m \<le> length area" using Suc.prems by simp
  have "concat (map (nth_block area) [0..<Suc m]) = concat (map (nth_block area) [0..<m]) @ nth_block area m"
    by simp
  also have "\<dots> = take (2048 * m) (area @ replicate 2048 0) @ take 2048 (drop (2048 * m) (area @ replicate 2048 0))"
    by (simp only: IH nth_block_padded [OF le])
  also have "\<dots> = take (2048 * m + 2048) (area @ replicate 2048 0)" by (rule take_add [symmetric])
  finally show ?case by (simp only: mult_Suc_right add.commute)
qed simp

lemma loop_area:
  assumes it: "before_fields it []" "si_ce_len it = word_of_nat (total cs)" "si_ce_off it = word_of_nat (length pre)"
    and area: "area_at (read_block E) (si_ce_block it) (pre @ concat cs @ post)"
    and cs: "cs \<noteq> []" "list_all plain cs"
  shows "\<exists>it'. ifs_loop E it st = ifs_loop E it' st \<and> before_fields it' cs \<and> si_ce_len it' = 0"
proof -
  let ?area = "pre @ concat cs @ post"
  define n where "n = length pre + total cs"
  have n: "n \<le> length ?area" "n < 2 ^ 32 - 2048" "length ?area < 2 ^ 32"
    using area by (auto simp: n_def area_at_def length_concat_total)
  define m where "m = (n + 2047) div 2048"
  have um: "unat ((si_ce_off it + si_ce_len it + 2048 - 1) div 2048) = m"
  proof -
    have "si_ce_off it + si_ce_len it + 2048 - 1 = word_of_nat (n + 2047)" by (simp add: it(2,3) n_def)
    moreover have "unat (word_of_nat (n + 2047) :: u32) = n + 2047"
      using n(2) by (simp add: unat_of_nat take_bit_nat_eq_self del: of_nat_add)
    ultimately show ?thesis by (simp add: unat_div m_def del: of_nat_add)
  qed
  have m: "m \<le> (length ?area + 2047) div 2048" using n(1) by (simp add: m_def div_le_mono)
  have "\<forall>k < m. read_block E (si_ce_block it + word_of_nat k) = Inr (nth_block ?area k)"
    using area m by (simp add: area_at_def nth_block_def)
  from read_blocks_area [OF this]
  have "read_blocks (read_block E) (si_ce_block it) m = Inr (concat (map (nth_block ?area) [0..<m]))" .
  moreover have "m * 2048 \<le> length ?area + 2048" using n(1) by (simp add: m_def)
  ultimately have rb: "read_blocks (read_block E) (si_ce_block it) m = Inr (take (2048 * m) (?area @ replicate 2048 0))"
    using blocks_concat by metis
  have big: "n \<le> 2048 * m" by (simp add: m_def)
  define base where "base = drop (length pre) (take (2048 * m) (?area @ replicate 2048 0))"
  have base: "\<exists>zs. base = concat cs @ zs"
  proof -
    have "take n (take (2048 * m) (?area @ replicate 2048 0)) = pre @ concat cs"
      using big by (simp add: n_def min_def length_concat_total)
    then obtain zs where z: "take (2048 * m) (?area @ replicate 2048 0) = (pre @ concat cs) @ zs"
      by (metis append_take_drop_id)
    have "base = concat cs @ zs" unfolding base_def z by simp
    then show ?thesis by blast
  qed
  have off: "unat (si_ce_off it) = length pre" "unat (si_ce_len it) = total cs"
    using n by (simp_all add: it(2,3) n_def unat_of_nat take_bit_nat_eq_self)
  obtain f fs where cs1: "cs = f # fs" using cs(1) by (cases cs) auto
  have f: "plain f" "sized f" "4 \<le> length f" "\<not> sig_is f ''ST''" using cs(2) by (auto simp: cs1 plain_def sized_def)
  have ne: "si_ce_len it \<noteq> 0" using off(2) f(3) by (auto simp: cs1)
  let ?it = "it\<lparr>si_base := base, si_pos := 0, si_size := int (total cs), si_ce_len := 0\<rparr>"
  have b: "before_fields ?it cs" using base by (auto simp: before_fields_def)
  have end1: "int (si_pos it) + 4 > si_size it" using it(1) by (simp add: before_fields_def)
  obtain zs where zs: "base = f @ concat fs @ zs" using base by (auto simp: cs1)
  have e: "entry_at base 0 = Some base" using f(3) by (simp add: entry_at_def zs)
  have t1: "susp_iter_turn (read_block E) (ce_msg E) it = Some (susp_iter_take (ce_msg E) base ?it)"
    using end1 ne um rb e off by (simp add: susp_iter_turn_def Let_def base_def)
  have "\<not> int (si_pos ?it) + 4 > si_size ?it" using f(3) by (simp add: cs1)
  then have t2: "susp_iter_turn (read_block E) (ce_msg E) ?it = Some (susp_iter_take (ce_msg E) base ?it)"
    using e f(4) sized_prefix(2) [OF f(2), of "concat fs @ zs" "''ST''"] by (simp add: susp_iter_turn_def zs)
  have "ifs_loop E it st = ifs_loop E ?it st"
    by (rule loop_same_next, subst (1 2) susp_iter_next.simps) (simp add: t1 t2)
  then show ?thesis using b by (intro exI [of _ ?it]) simp
qed
end
