(* ===== verification/RR_Trip.thy ===== *)
theory RR_Trip
  imports RR_Loop
begin

text \<open>
  What \<open>rrip_get_susp_fields\<close> writes for a node, \<open>iso_file_source_new_ifs\<close> reads back.
\<close>

section \<open>Groups of entries\<close>

text \<open>
  The entries of a kind change a part of the state only.  \<open>step\<close> is what one entry does to that
  part; entries of different kinds may then stand in any order.
\<close>

inductive runs :: "(byte list \<Rightarrow> 'x \<Rightarrow> 'x option) \<Rightarrow> byte list list \<Rightarrow> 'x \<Rightarrow> 'x \<Rightarrow> bool" for step where
  runs_Nil: "runs step [] x x"
| runs_Cons: "plain f \<Longrightarrow> (\<And>zs. step (f @ zs) x = Some x1) \<Longrightarrow> runs step fs x1 y \<Longrightarrow> runs step (f # fs) x y"

inductive_cases runs_ConsE: "runs step (f # fs) x y"

lemma runs_append: "runs step (fs @ gs) x z \<longleftrightarrow> (\<exists>y. runs step fs x y \<and> runs step gs y z)"
proof
  show "runs step (fs @ gs) x z \<Longrightarrow> \<exists>y. runs step fs x y \<and> runs step gs y z"
    by (induction fs arbitrary: x) (auto intro: runs.intros elim!: runs_ConsE, blast intro: runs.intros)
next
  assume "\<exists>y. runs step fs x y \<and> runs step gs y z"
  then obtain y where "runs step fs x y" "runs step gs y z" by blast
  then show "runs step (fs @ gs) x z" by (induction rule: runs.induct) (auto intro: runs.intros)
qed

lemma runs_trans: "runs step fs x y \<Longrightarrow> runs step gs y z \<Longrightarrow> runs step (fs @ gs) x z"
  by (auto simp: runs_append)

lemma runs_plain: "runs step fs x y \<Longrightarrow> list_all plain fs"
  by (induction rule: runs.induct) auto

lemma runs_one: "plain f \<Longrightarrow> (\<And>zs. step (f @ zs) x = Some y) \<Longrightarrow> runs step [f] x y"
  by (blast intro: runs.intros)

locale entry_group =
  fixes step :: "byte list \<Rightarrow> 'x \<Rightarrow> 'x option"
    and get :: "ifs_state \<Rightarrow> 'x"
    and put :: "'x \<Rightarrow> ifs_state \<Rightarrow> ifs_state"
  assumes entry: "step e (get st) = Some x \<Longrightarrow> ifs_entry E e st = Some (Go_on (put x st))"
    and put_get: "put (get st) st = st"
    and get_put: "get (put x st) = x"
    and put_put: "put x (put y st) = put x st"
begin

lemma feeds_runs: "runs step fs x y \<Longrightarrow> get st = x \<Longrightarrow> feeds E fs st (put y st)"
proof (induction arbitrary: st rule: runs.induct)
  case (runs_Nil x)
  then show ?case using put_get by (auto intro: feeds.intros)
next
  case (runs_Cons f x x1 fs y)
  have "ifs_entry E (f @ zs) st = Some (Go_on (put x1 st))" for zs using runs_Cons.hyps(2) runs_Cons.prems entry by simp
  moreover have "feeds E fs (put x1 st) (put y (put x1 st))" using runs_Cons.IH get_put by simp
  ultimately show ?case using runs_Cons.hyps(1) by (auto simp: put_put intro: feeds_Cons)
qed

end

definition nm_step :: "byte list \<Rightarrow> cstring option \<times> bool \<Rightarrow> (cstring option \<times> bool) option" where
  "nm_step e x =
     (if \<not> (sig_is e ''NM'' \<and> e ! 3 = 1) then None
      else if fst x \<noteq> None \<and> \<not> snd x then Some x else map_option snd (read_rr_NM e x))"

definition sl_step :: "byte list \<Rightarrow> cstring option \<times> nat \<Rightarrow> (cstring option \<times> nat) option" where
  "sl_step e x =
     (if \<not> (sig_is e ''SL'' \<and> e ! 3 = 1) then None
      else if fst x \<noteq> None \<and> snd x = 0 then Some x else map_option snd (read_rr_SL e x))"

text \<open>The entries behind the link target: \<open>ZF\<close>, \<open>ES\<close> and \<open>AL\<close>.\<close>

definition tail_step :: "byte list \<Rightarrow> (byte \<times> byte \<times> u32) \<times> aa_state \<Rightarrow> ((byte \<times> byte \<times> u32) \<times> aa_state) option" where
  "tail_step e x =
     (if e ! 3 \<noteq> 1 then None
      else if sig_is e ''ES'' then Some x
      else if sig_is e ''ZF'' then
        (case read_zisofs_ZF e of
           Inr (alg, z) \<Rightarrow> if alg = str ''pz'' then Some (z, snd x) else None
         | Inl e \<Rightarrow> None)
      else if sig_is e ''AL'' then map_option (\<lambda>(r, aa). (fst x, aa)) (read_aaip_AL e (snd x))
      else None)"

lemma entry_NM: "sig_is e ''NM'' \<Longrightarrow> e ! 3 = 1 \<Longrightarrow> ifs_entry E e st = map_option Go_on (ifs_NM e st)"
  by (simp add: ifs_entry_def sig_is_def)

lemma entry_SL: "sig_is e ''SL'' \<Longrightarrow> e ! 3 = 1 \<Longrightarrow> ifs_entry E e st = map_option Go_on (ifs_SL e st)"
  by (simp add: ifs_entry_def sig_is_def)

lemma entry_ES: "sig_is e ''ES'' \<Longrightarrow> e ! 3 = 1 \<Longrightarrow> ifs_entry E e st = Some (Go_on st)"
  by (simp add: ifs_entry_def sig_is_def)

lemma entry_ZF: "sig_is e ''ZF'' \<Longrightarrow> e ! 3 = 1 \<Longrightarrow> ifs_entry E e st = Some (Go_on (ifs_ZF e st))"
  by (simp add: ifs_entry_def sig_is_def)

lemma entry_AL: "sig_is e ''AL'' \<Longrightarrow> e ! 3 = 1 \<Longrightarrow>
  ifs_entry E e st = map_option (\<lambda>(ret, aa). Go_on (st\<lparr>ifs_aa := aa\<rparr>)) (read_aaip_AL e (ifs_aa st))"
  by (simp add: ifs_entry_def sig_is_def)

interpretation nms: entry_group nm_step "\<lambda>st. (ifs_name st, namecont st)"
  "\<lambda>x st. st\<lparr>ifs_name := fst x, namecont := snd x\<rparr>"
proof
  fix e E x and st :: ifs_state
  assume a: "nm_step e (ifs_name st, namecont st) = Some x"
  then have s: "sig_is e ''NM''" "e ! 3 = 1" by (auto simp: nm_step_def split: if_splits)
  show "ifs_entry E e st = Some (Go_on (st\<lparr>ifs_name := fst x, namecont := snd x\<rparr>))"
    using a by (auto simp: entry_NM [OF s] nm_step_def ifs_NM_def s split: if_splits)
qed simp_all

interpretation sls: entry_group sl_step "\<lambda>st. (linkdest st, linkdestcont st)"
  "\<lambda>x st. st\<lparr>linkdest := fst x, linkdestcont := snd x\<rparr>"
proof
  fix e E x and st :: ifs_state
  assume a: "sl_step e (linkdest st, linkdestcont st) = Some x"
  then have s: "sig_is e ''SL''" "e ! 3 = 1" by (auto simp: sl_step_def split: if_splits)
  show "ifs_entry E e st = Some (Go_on (st\<lparr>linkdest := fst x, linkdestcont := snd x\<rparr>))"
    using a by (auto simp: entry_SL [OF s] sl_step_def ifs_SL_def s split: if_splits)
qed simp_all

interpretation tails: entry_group tail_step "\<lambda>st. (zisofs st, ifs_aa st)"
  "\<lambda>x st. st\<lparr>zisofs := fst x, ifs_aa := snd x\<rparr>"
proof
  fix e E x and st :: ifs_state
  assume a: "tail_step e (zisofs st, ifs_aa st) = Some x"
  then have v: "e ! 3 = 1" by (auto simp: tail_step_def split: if_splits)
  consider "sig_is e ''ES''" "x = (zisofs st, ifs_aa st)"
    | z where "sig_is e ''ZF''" "read_zisofs_ZF e = Inr (str ''pz'', z)" "x = (z, ifs_aa st)"
    | r aa where "sig_is e ''AL''" "read_aaip_AL e (ifs_aa st) = Some (r, aa)" "x = (zisofs st, aa)"
    using a v unfolding tail_step_def by (auto split: if_splits sum.splits)
  then show "ifs_entry E e st = Some (Go_on (st\<lparr>zisofs := fst x, ifs_aa := snd x\<rparr>))"
  proof cases
    case 1
    then show ?thesis using v by (simp add: entry_ES)
  next
    case (2 z)
    then show ?thesis using v by (cases z) (simp add: entry_ZF ifs_ZF_def)
  next
    case (3 r aa)
    then show ?thesis using v by (simp add: entry_AL)
  qed
qed simp_all

section \<open>The name\<close>

lemma c_prefix_exact [simp]: "0 \<notin> set s \<Longrightarrow> c_prefix (length s) (s @ zs) = s"
  by (auto simp: c_prefix_def)

lemma nm_entry_sized: "length s \<le> 250 \<Longrightarrow> sized (nm_entry fl s)"
  by (simp add: sized_def nm_entry_def unat_of_nat take_bit_nat_eq_self del: of_nat_add)

lemma nm_plain: "length s \<le> 250 \<Longrightarrow> plain (nm_entry fl s)"
  using nm_entry_sized by (simp add: plain_def sig_is_def nm_entry_def)

lemma read_NM:
  assumes "length s \<le> 250" "0 \<notin> set s"
  shows "nm_step (nm_entry 0 s @ zs) (None, False) = (if s = [] then Some (None, False) else Some (Some s, False))"
    "nm_step (nm_entry 1 s @ zs) (None, False) = (if s = [] then Some (None, False) else Some (Some s, True))"
    "s \<noteq> [] \<Longrightarrow> nm_step (nm_entry 0 s @ zs) (Some a, True) = Some (Some (a @ s), False)"
proof -
  have l: "len_sue (nm_entry fl s @ zs) = length s + 5" for fl
    using sized_prefix(1) [OF nm_entry_sized [OF assms(1)]] by simp
  have h: "sig_is (nm_entry fl s @ zs) ''NM''" "(nm_entry fl s @ zs) ! 3 = 1" "(nm_entry fl s @ zs) ! 4 = fl"
    "drop 5 (nm_entry fl s) = s" "length (nm_entry fl s) = length s + 5" for fl
    by (simp_all add: sig_is_def nm_entry_def)
  show "nm_step (nm_entry 0 s @ zs) (None, False) = (if s = [] then Some (None, False) else Some (Some s, False))"
    "nm_step (nm_entry 1 s @ zs) (None, False) = (if s = [] then Some (None, False) else Some (Some s, True))"
    "s \<noteq> [] \<Longrightarrow> nm_step (nm_entry 0 s @ zs) (Some a, True) = Some (Some (a @ s), False)"
    using assms by (simp_all add: nm_step_def read_rr_NM_def h l)
qed

text \<open>The name, whole or divided.\<close>

lemma runs_name:
  assumes "k \<le> length name" "name \<noteq> []" "0 \<notin> set name" "k \<le> 250" "length (drop k name) \<le> 250"
  shows "\<exists>x. runs nm_step [nm_entry (if k < length name then 1 else 0) (take k name)] (None, False) x \<and>
    runs nm_step (normal_ce name k) x (Some name, False)"
proof (cases "k < length name")
  case False
  then have k: "k = length name" using assms(1) by simp
  have "runs nm_step [nm_entry 0 name] (None, False) (Some name, False)"
    using assms k by (intro runs_Cons [OF nm_plain _ runs_Nil]) (simp_all add: read_NM(1))
  then show ?thesis using runs_Nil [of nm_step "(Some name, False)"]
    by (intro exI [of _ "(Some name, False)"] conjI) (simp_all add: normal_ce_def k)
next
  case True
  have z: "0 \<notin> set (take k name)" "0 \<notin> set (drop k name)" using assms(3) in_set_takeD in_set_dropD by metis+
  have lt: "length (take k name) \<le> 250" using assms(4) by simp
  have ne: "drop k name \<noteq> []" using True by simp
  show ?thesis
  proof (cases "k = 0")
    case True
    have "runs nm_step [nm_entry 1 []] (None, False) (None, False)"
      by (intro runs_Cons [OF nm_plain _ runs_Nil]) (simp_all add: read_NM(2))
    moreover have "runs nm_step [nm_entry 0 name] (None, False) (Some name, False)"
      using assms True by (intro runs_Cons [OF nm_plain _ runs_Nil]) (simp_all add: read_NM(1))
    ultimately show ?thesis using True assms(2) by (auto simp: normal_ce_def)
  next
    case False
    have "runs nm_step [nm_entry 1 (take k name)] (None, False) (Some (take k name), True)"
      using False assms(2) lt z by (intro runs_Cons [OF nm_plain _ runs_Nil]) (simp_all add: read_NM(2))
    moreover have "runs nm_step [nm_entry 0 (drop k name)] (Some (take k name), True) (Some (take k name @ drop k name), False)"
      by (rule runs_one) (rule nm_plain [OF assms(5)], rule read_NM(3) [OF assms(5) z(2) ne])
    ultimately show ?thesis using True by (auto simp: normal_ce_def)
  qed
qed

section \<open>The link target\<close>

text \<open>The text that the reader makes of a component, and how it joins the components.\<close>

definition comp_reads :: "byte list \<Rightarrow> cstring" where
  "comp_reads c =
     (if bit (c ! 0) 1 then str ''.'' else if bit (c ! 0) 2 then str ''..''
      else if bit (c ! 0) 3 then str ''/'' else drop 2 c)"

definition comp_plain :: "byte list \<Rightarrow> bool" where
  "comp_plain c \<longleftrightarrow> comp_ok c \<and> c ! 0 \<in> {0, 1, 2, 4, 8} \<and> 0 \<notin> set (drop 2 c)"

fun joins :: "byte list list \<Rightarrow> cstring option \<times> nat \<Rightarrow> (cstring option \<times> nat) option" where
  "joins [] x = Some x"
| "joins (c # cs) x =
     (case sl_join (comp_reads c) x of
        None \<Rightarrow> None
      | Some d \<Rightarrow> joins cs (Some d, if bit (c ! 0) 0 then 2 else 1))"

lemma joins_append: "joins (cs @ ds) x = (case joins cs x of None \<Rightarrow> None | Some y \<Rightarrow> joins ds y)"
  by (induction cs arbitrary: x) (auto split: option.splits)

lemma joins_cont: "joins cs x = Some y \<Longrightarrow> cs \<noteq> [] \<Longrightarrow> fst y \<noteq> None \<and> snd y \<in> {1, 2}"
proof (induction cs arbitrary: x)
  case (Cons c cs)
  then show ?case by (cases "cs = []") (auto split: option.splits)
qed simp

lemma sl_component_plain:
  assumes c: "comp_plain c" and drop: "drop (5 + pos) sl = c @ zs"
  shows "sl_component sl pos = Inr (comp_reads c)" "sl ! (5 + pos) = c ! 0" "unat (sl ! (6 + pos)) = length c - 2"
    "2 \<le> length c" "5 + pos + length c \<le> length sl"
proof -
  have l: "2 \<le> length c" "comp_size c = length c" using c by (auto simp: comp_plain_def comp_ok_def)
  have n: "sl ! (5 + pos + k) = c ! k" if "k < length c" for k
  proof -
    have "sl ! (5 + pos + k) = drop (5 + pos) sl ! k"
      using that arg_cong [OF drop, of length] by (subst nth_drop) auto
    then show ?thesis using that by (simp add: drop nth_append)
  qed
  have n0: "sl ! (5 + pos) = c ! 0" using n [of 0] l by (cases c) auto
  have n1: "sl ! (6 + pos) = c ! 1" using n [of 1] l by (simp add: numeral_eq_Suc)
  have len: "unat (sl ! (6 + pos)) = length c - 2" using l n1 by (simp add: comp_size_def)
  have "drop (7 + pos) sl = drop 2 (drop (5 + pos) sl)" by (simp add: add.commute)
  then have d: "drop (7 + pos) sl = drop 2 c @ zs" using l by (simp add: drop)
  have "c_prefix (length (drop 2 c)) (drop 2 c @ zs) = drop 2 c" using c by (intro c_prefix_exact) (simp add: comp_plain_def)
  then have "c_prefix (unat (sl ! (6 + pos))) (drop (7 + pos) sl) = drop 2 c" by (simp add: d len)
  then show "sl_component sl pos = Inr (comp_reads c)"
    using c unfolding sl_component_def comp_reads_def n0 Let_def
    by (auto simp: comp_plain_def bit_iff_odd_drop_bit)
  show "sl ! (5 + pos) = c ! 0" "unat (sl ! (6 + pos)) = length c - 2" "2 \<le> length c" by (fact n0 len l)+
  show "5 + pos + length c \<le> length sl" using arg_cong [OF drop, of length] l by auto
qed

lemma read_sl_comps:
  assumes "list_all comp_plain cs" "drop (5 + pos) sl = concat cs @ zs" "len_sue sl = 5 + pos + total cs"
    and "joins cs x = Some y"
  shows "read_sl_loop sl pos x = Some (Inr (), y)"
  using assms
proof (induction cs arbitrary: pos x)
  case Nil
  then show ?case by (subst read_sl_loop.simps) simp
next
  case (Cons c cs)
  have c: "comp_plain c" "drop (5 + pos) sl = c @ concat cs @ zs" using Cons.prems by auto
  note p = sl_component_plain [OF c]
  obtain d where d: "sl_join (comp_reads c) x = Some d" "joins cs (Some d, if bit (c ! 0) 0 then 2 else 1) = Some y"
    using Cons.prems(4) by (auto split: option.splits)
  have pos: "Suc (Suc (pos + unat (sl ! (6 + pos)))) = pos + length c" using p(3,4) by simp
  have "drop (5 + (pos + length c)) sl = concat cs @ zs"
    using c(2) by (metis add.assoc add.commute append_eq_conv_conj drop_drop)
  from Cons.IH [OF _ this _ d(2)] Cons.prems(1,3)
  have "read_sl_loop sl (pos + length c) (Some d, if bit (c ! 0) 0 then 2 else 1) = Some (Inr (), y)" by simp
  moreover have "pos + 5 < len_sue sl" "\<not> length sl < 7 + pos" using Cons.prems(3) p(4,5) by auto
  ultimately show ?case
    by (subst read_sl_loop.simps) (simp add: p(1,2) d(1) pos)
qed

lemma read_sl_entry:
  assumes "list_all comp_plain cs" "total cs \<le> 250" "joins cs x = Some (d, k)"
    and x: "fst x = None \<or> snd x \<noteq> 0"
  shows "sl_step (sl_entry fl cs @ zs) x = Some (d, if k = 2 then 2 else if bit fl 0 then 1 else 0)"
proof -
  have ok: "list_all comp_ok cs" using assms(1) by (auto simp: comp_plain_def list_all_iff)
  note e = sl_entry_text [OF ok, of fl]
  have l: "len_sue (sl_entry fl cs @ zs) = 5 + total cs"
    using sized_prefix(1) [OF sized_sl_entry [OF ok assms(2)]] length_sl_entry [OF ok] by simp
  have h: "sig_is (sl_entry fl cs @ zs) ''SL''" "(sl_entry fl cs @ zs) ! 3 = 1" "(sl_entry fl cs @ zs) ! 4 = fl"
    "drop (5 + 0) (sl_entry fl cs @ zs) = concat cs @ zs" by (simp_all add: e sig_is_def)
  have "read_sl_loop (sl_entry fl cs @ zs) 0 x = Some (Inr (), d, k)"
    using read_sl_comps [OF assms(1) h(4) _ assms(3)] l by simp
  then have "read_rr_SL (sl_entry fl cs @ zs) x = Some (Inr (), d, if k = 2 then 2 else if bit fl 0 then 1 else 0)"
    by (simp add: read_rr_SL_def h)
  then show ?thesis using x by (auto simp: sl_step_def h)
qed

lemma sl_plain: "list_all comp_ok cs \<Longrightarrow> total cs \<le> 250 \<Longrightarrow> plain (sl_entry fl cs)"
  using sized_sl_entry by (simp add: plain_def sig_is_def sl_entry_text)

lemma runs_sl:
  "list_all comp_plain (pending @ cs) \<Longrightarrow> total pending \<le> 250 \<Longrightarrow> fst x = None \<or> snd x \<noteq> 0 \<Longrightarrow>
   joins (pending @ cs) x = Some (d, 1) \<Longrightarrow> runs sl_step (sl_entries cs pending) x (d, 0)"
proof (induction cs arbitrary: pending x)
  case Nil
  have ok: "list_all comp_ok pending" using Nil.prems(1) by (auto simp: comp_plain_def list_all_iff)
  have "sl_step (sl_entry 0 pending @ zs) x = Some (d, 0)" for zs
    using read_sl_entry [of pending x d 1 0 zs] Nil.prems by simp
  then have "runs sl_step [sl_entry 0 pending] x (d, 0)"
    by (rule runs_one [OF sl_plain [OF ok Nil.prems(2)]])
  then show ?case by simp
next
  case (Cons c cs)
  show ?case
  proof (cases "total pending + length c > 250")
    case False
    then show ?thesis using Cons.IH [of "pending @ [c]" x] Cons.prems by simp
  next
    case True
    have ok: "list_all comp_ok pending" "length c \<le> 250" using Cons.prems(1) by (auto simp: comp_plain_def comp_ok_def list_all_iff)
    then have ne: "pending \<noteq> []" using True by auto
    obtain e k where j: "joins pending x = Some (e, k)" "joins (c # cs) (e, k) = Some (d, 1)"
      using Cons.prems(4) by (auto simp only: joins_append split: option.splits)
    have k: "k = 1 \<or> k = 2" "e \<noteq> None" using joins_cont [OF j(1) ne] by auto
    have "sl_step (sl_entry 1 pending @ zs) x = Some (e, k)" for zs
      using read_sl_entry [OF _ Cons.prems(2) j(1) Cons.prems(3), of 1 zs] Cons.prems(1) k by auto
    moreover have "runs sl_step (sl_entries cs [c]) (e, k) (d, 0)"
      using Cons.IH [of "[c]" "(e, k)"] Cons.prems(1) ok(2) j(2) k by auto
    ultimately have "runs sl_step (sl_entry 1 pending # sl_entries cs [c]) x (d, 0)"
      by (rule runs_Cons [OF sl_plain [OF ok(1) Cons.prems(2)]])
    then show ?thesis using True by simp
  qed
qed

text \<open>What the reader gets for a link target: a single \<open>/\<close> at the end is lost.\<close>

definition link_text :: "cstring \<Rightarrow> cstring" where
  "link_text s =
     (if 2 \<le> length s \<and> last s = asc CHR ''/'' \<and> last (butlast s) \<noteq> asc CHR ''/'' then butlast s else s)"

text \<open>The target up to a separator, and what the reader has then.\<close>

definition joined :: "cstring \<Rightarrow> cstring \<Rightarrow> bool" where
  "joined d pre \<longleftrightarrow> d \<noteq> [] \<and> pre = (if last d \<noteq> asc CHR ''/'' then d @ str ''/'' else d)"

lemma comp_text_split:
  "prev = comp_text prev \<and> strchr prev (asc CHR ''/'') = None \<or>
   (\<exists>post. prev = comp_text prev @ asc CHR ''/'' # post \<and> strchr prev (asc CHR ''/'') = Some (length (comp_text prev)))"
  unfolding comp_text_def by (induction prev) auto

lemma join_pre:
  "x = (None, 0) \<and> pre = [] \<or> (\<exists>d. x = (Some d, 1) \<and> joined d pre) \<Longrightarrow> sl_join text x = Some (pre @ text)"
  by (auto simp: sl_join_def joined_def)

definition piece :: "cstring \<Rightarrow> cstring" where
  "piece prev = (if comp_text prev = [] then str ''/'' else comp_text prev)"

lemma take_comp_text: "n \<le> length (comp_text prev) \<Longrightarrow> take n prev = take n (comp_text prev)"
  by (metis comp_text_def takeWhile_eq_take take_take min.absorb1 length_takeWhile_le)

lemma plan_cases:
  assumes plan: "comps_plan sua_free prev st = (cew, comps, fill, ce)"
    and ok: "length (comp_text prev) \<le> 248 \<or> comp_text prev = prev \<and> length prev \<le> 255"
  shows "comps = [(prev, comp_len prev, comp_flags prev)] \<or>
    (\<exists>k. comps = [(prev, k, 1), (drop k prev, length prev - k, 0)] \<and> comp_text prev = prev \<and> prev \<noteq> [])"
proof (cases "comp_len prev \<le> 248")
  case True
  then show ?thesis using plan by (auto simp: plan_short Let_def)
next
  case False
  then have l: "length prev = comp_len prev" "comp_text prev = prev" "prev \<noteq> []"
    using ok comp_len_le [of prev] by (auto simp: comp_len_def split: if_splits)
  show ?thesis using plan l unfolding comps_plan_def Let_def
    by (auto split: if_splits simp: diff_diff_eq2)
qed

lemma flags_cases:
  "comp_flags prev \<in> {0, 2, 4, 8}" "comp_flags prev = 0 \<Longrightarrow> comp_len prev = length (comp_text prev) \<and> comp_text prev \<noteq> []"
  "comp_flags prev = 2 \<Longrightarrow> comp_text prev = str ''.''" "comp_flags prev = 4 \<Longrightarrow> comp_text prev = str ''..''"
  "comp_flags prev = 8 \<Longrightarrow> comp_text prev = []"
  by (auto simp: comp_flags_def comp_len_def split: if_splits)

lemma comp_reads_single: "comp_reads (comp_of (prev, comp_len prev, comp_flags prev)) = piece prev"
proof -
  have 1: "bit (2 :: byte) 1" "\<not> bit (4 :: byte) 1" "bit (4 :: byte) 2" "\<not> bit (8 :: byte) 1" "\<not> bit (8 :: byte) 2" "bit (8 :: byte) 3"
    by simp_all
  have 2: "comp_of (prev, comp_len prev, comp_flags prev) ! 0 = comp_flags prev"
    "drop 2 (comp_of (prev, comp_len prev, comp_flags prev)) = take (comp_len prev) prev" by (simp_all add: comp_of_def)
  consider "comp_flags prev = 0" | "comp_flags prev = 2" | "comp_flags prev = 4" | "comp_flags prev = 8"
    using flags_cases(1) [of prev] by blast
  then show ?thesis
  proof cases
    case 1
    with flags_cases(2) [OF 1] show ?thesis by (simp add: comp_reads_def comp_of_def piece_def take_comp_text)
  next
    case 2
    with flags_cases(3) [OF 2] show ?thesis by (simp add: comp_reads_def comp_of_def piece_def)
  next
    case 3
    with flags_cases(4) [OF 3] show ?thesis using 1 by (simp add: comp_reads_def comp_of_def piece_def)
  next
    case 4
    with flags_cases(5) [OF 4] show ?thesis using 1 by (simp add: comp_reads_def comp_of_def piece_def)
  qed
qed

lemma plan_joins:
  assumes plan: "comps_plan sua_free prev st = (cew, comps, fill, ce)"
    and ok: "length (comp_text prev) \<le> 248 \<or> comp_text prev = prev \<and> length prev \<le> 255"
    and x: "x = (None, 0) \<and> pre = [] \<or> (\<exists>d. x = (Some d, 1) \<and> joined d pre)"
    and cok: "list_all comp_ok (map comp_of comps)" and nz: "0 \<notin> set prev"
  shows "list_all comp_plain (map comp_of comps) \<and> joins (map comp_of comps) x = Some (Some (pre @ piece prev), 1)"
  using plan_cases [OF plan ok]
proof (elim disjE exE conjE)
  assume c: "comps = [(prev, comp_len prev, comp_flags prev)]"
  have "comp_plain (comp_of (prev, comp_len prev, comp_flags prev))"
    using cok flags_cases(1) [of prev] nz by (auto simp: c comp_plain_def comp_of_def dest: in_set_takeD)
  moreover have "\<not> bit (comp_of (prev, comp_len prev, comp_flags prev) ! 0) 0"
    using flags_cases(1) [of prev] by (auto simp: comp_of_def)
  ultimately show ?thesis using join_pre [OF x] by (simp add: c comp_reads_single)
next
  fix k assume c: "comps = [(prev, k, 1), (drop k prev, length prev - k, 0)]" "comp_text prev = prev" "prev \<noteq> []"
  let ?a = "comp_of (prev, k, 1)" and ?b = "comp_of (drop k prev, length prev - k, 0)"
  have r: "comp_reads ?a = take k prev" "comp_reads ?b = drop k prev" "bit (?a ! 0) 0" "\<not> bit (?b ! 0) 0"
    by (simp_all add: comp_reads_def comp_of_def)
  have "comp_plain ?a" "comp_plain ?b"
    using cok nz by (auto simp: c(1) comp_plain_def comp_of_def dest: in_set_takeD in_set_dropD)
  moreover have "sl_join (drop k prev) (Some (pre @ take k prev), 2) = Some (pre @ prev)" by (simp add: sl_join_def)
  ultimately show ?thesis using join_pre [OF x, of "take k prev"] r c by (simp add: piece_def)
qed

lemma comp_text_drop: "prev = comp_text prev @ c # post \<Longrightarrow> drop (Suc (length (comp_text prev))) prev = post"
  by (metis append_Cons append_Nil append_assoc append_eq_conv_conj length_append_singleton)

lemma last_comp_text: "comp_text prev \<noteq> [] \<Longrightarrow> last (comp_text prev) \<noteq> asc CHR ''/''"
  unfolding comp_text_def by (drule last_in_set, drule set_takeWhileD) simp

lemma joined_piece: "joined (pre @ piece prev) (pre @ comp_text prev @ str ''/'')"
  using last_comp_text [of prev] by (auto simp: joined_def piece_def)

lemma link_text_end:
  assumes "comp_next prev = None" "prev \<noteq> []"
    and x: "x = (None, 0) \<and> pre = [] \<or> (\<exists>d. x = (Some d, 1) \<and> joined d pre)"
  shows "link_text (pre @ prev) = pre @ piece prev"
  using comp_text_split [of prev]
proof (elim disjE exE conjE)
  assume p: "prev = comp_text prev"
  then have "last prev \<noteq> asc CHR ''/''" using last_comp_text [of prev] assms(2) by metis
  then show ?thesis using assms(2) p by (simp add: link_text_def piece_def)
next
  fix post assume p: "prev = comp_text prev @ asc CHR ''/'' # post" "strchr prev (asc CHR ''/'') = Some (length (comp_text prev))"
  have "drop (Suc (length (comp_text prev))) prev = post" by (subst p(1)) simp
  then have post: "post = []" using assms(1) p(2) by (auto simp: comp_next_def split: if_splits)
  show ?thesis
  proof (cases "comp_text prev = []")
    case True
    have pr: "prev = str ''/''" using p(1) post True by simp
    have "pre = [] \<or> last pre = asc CHR ''/''" using x by (auto simp: joined_def split: if_splits)
    then show ?thesis using True by (auto simp: link_text_def piece_def pr)
  next
    case False
    have pr: "prev = comp_text prev @ str ''/''" using p(1) post by simp
    have "link_text (pre @ comp_text prev @ str ''/'') = pre @ comp_text prev"
      using last_comp_text [OF False] False by (cases "comp_text prev") (auto simp: link_text_def butlast_append)
    then show ?thesis using False pr by (simp add: piece_def)
  qed
qed

lemma comps_loop_joins:
  "comps_loop sua_free prev st = (Inr (), st') \<Longrightarrow> fill_inv ce0 sua_free st \<Longrightarrow> sua_free \<le> 255 \<Longrightarrow> link_ok prev \<Longrightarrow>
   prev \<noteq> [] \<Longrightarrow> 0 \<notin> set prev \<Longrightarrow> list_all comp_plain (sl_comps st) \<Longrightarrow> joins (sl_comps st) (None, 0) = Some x \<Longrightarrow>
   x = (None, 0) \<and> pre = [] \<or> (\<exists>d. x = (Some d, 1) \<and> joined d pre) \<Longrightarrow>
   list_all comp_plain (sl_comps st') \<and> joins (sl_comps st') (None, 0) = Some (Some (link_text (pre @ prev)), 1)"
proof (induction sua_free prev st arbitrary: x pre rule: comps_loop.induct)
  case (1 sua_free prev st)
  have ok: "length (comp_text prev) \<le> 248 \<or> comp_text prev = prev \<and> length prev \<le> 255"
    using "1.prems"(4) by (subst (asm) link_ok.simps) blast
  obtain st1 where st1: "comps_step sua_free prev st = (Inr (), st1)"
    using "1.prems"(1) by (subst (asm) comps_loop.simps) (auto split: prod.splits sum.splits)
  obtain cew comps fill ce where plan: "comps_plan sua_free prev st = (cew, comps, fill, ce)" by (metis prod_cases4)
  have inv: "fill_inv ce0 sua_free st1" using comps_step_inv [OF st1 "1.prems"(2) ok "1.prems"(3)] .
  have "list_all comp_ok (map comp_of comps)" using fill_inv_step [OF "1.prems"(2,3) ok plan] by blast
  note j = plan_joins [OF plan ok "1.prems"(9) this "1.prems"(6)]
  have c1: "sl_comps st1 = sl_comps st @ map comp_of comps" using comps_stepD(1) [OF st1 plan] .
  have all: "list_all comp_plain (sl_comps st1)" "joins (sl_comps st1) (None, 0) = Some (Some (pre @ piece prev), 1)"
    using j "1.prems"(7,8) by (simp_all add: c1 joins_append)
  show ?case
  proof (cases "comp_next prev")
    case None
    then have "st1 = st'" using "1.prems"(1) st1 by (subst (asm) comps_loop.simps) simp
    moreover have "pre @ piece prev = link_text (pre @ prev)"
      by (rule link_text_end [OF None "1.prems"(5,9), symmetric])
    ultimately show ?thesis using all by simp
  next
    case (Some p)
    then have l: "comps_loop sua_free p st1 = (Inr (), st')" using "1.prems"(1) st1 by (subst (asm) comps_loop.simps) simp
    have p: "prev = comp_text prev @ asc CHR ''/'' # p" "p \<noteq> []"
    proof -
      from comp_text_split [of prev] obtain post where s: "prev = comp_text prev @ asc CHR ''/'' # post"
        "strchr prev (asc CHR ''/'') = Some (length (comp_text prev))"
        using Some by (auto simp: comp_next_def)
      have "drop (Suc (length (comp_text prev))) prev = post" using s(1) by (rule comp_text_drop)
      then have "p = post \<and> post \<noteq> []" using Some s(2) by (auto simp: comp_next_def split: if_splits)
      then show "prev = comp_text prev @ asc CHR ''/'' # p" "p \<noteq> []" using s(1) by auto
    qed
    have lo: "link_ok p" using "1.prems"(4) Some by (subst (asm) link_ok.simps) simp
    have nz: "0 \<notin> set p" using "1.prems"(6) p(1) by (metis in_set_conv_decomp append_Cons append_assoc)
    have "joined (pre @ piece prev) (pre @ comp_text prev @ str ''/'')" by (rule joined_piece)
    then show ?thesis
      using "1.IH" [OF st1 [symmetric] refl Some l inv "1.prems"(3) lo p(2) nz all(1) all(2), of "pre @ comp_text prev @ str ''/''"]
      p(1) by simp
  qed
qed

section \<open>The attributes\<close>

text \<open>
  An attribute string as the writer of the library composes it: the continuation bits are set in all
  fields but the last one and the other flag bits are 0.  The reader keeps nothing else.
\<close>

definition al_std :: "byte list \<Rightarrow> bool" where
  "al_std data \<longleftrightarrow>
     al_ok data \<and> list_all (\<lambda>f. f ! 3 = 1) (al_fields data) \<and>
     list_all (\<lambda>f. f ! 4 = 1) (butlast (al_fields data)) \<and> last (al_fields data) ! 4 = 0"

definition aa_holds :: "byte list list \<Rightarrow> aa_state \<Rightarrow> bool" where
  "aa_holds gs aa \<longleftrightarrow>
     (if gs = [] then aa = \<lparr>aa_string = None, aa_len = 0, aa_prev = 0, aa_done = False\<rparr>
      else aa_len aa = total gs \<and> aa_prev aa = total (butlast gs) \<and>
        (\<exists>b. aa_string aa = Some b \<and> b \<noteq> [] \<and> take (total gs) b = concat (butlast gs) @ (last gs)[4 := 0] \<and>
             total gs \<le> length b))"

lemma al_field_text: "al_field_ok f \<Longrightarrow> f ! 3 = 1 \<Longrightarrow> str ''AL'' @ [f ! 2, 1, 0] @ drop 5 f = f[4 := 0]"
proof -
  assume a: "al_field_ok f" "f ! 3 = 1"
  then have l: "5 \<le> length f" by (simp add: al_field_ok_def)
  then obtain a0 a1 a2 a3 a4 r where f: "f = a0 # a1 # a2 # a3 # a4 # r"
    by (auto simp: numeral_eq_Suc Suc_le_length_iff)
  show ?thesis using a by (simp add: f al_field_ok_def numeral_eq_Suc)
qed

lemma AL_step:
  assumes aa: "aa_holds gs aa" "\<not> aa_done aa" and f: "al_field_ok f" "f ! 3 = 1"
    and gs: "gs \<noteq> [] \<Longrightarrow> last gs ! 4 = 1 \<and> 5 \<le> length (last gs)"
  shows "\<exists>aa'. (\<forall>zs. read_aaip_AL (f @ zs) aa = Some (Inr (), aa')) \<and> aa_holds (gs @ [f]) aa' \<and>
    aa_done aa' = (\<not> bit (f ! 4) 0)"
proof -
  have l: "5 \<le> length f" "sized f" using f by (auto simp: al_field_ok_def)
  define g where "g = aa_grow f aa"
  have lf: "len_sue f = length f" using sized_prefix(1) [OF l(2), of "[]"] by simp
  have grow: "aa_grow (f @ zs) aa = g" for zs by (simp only: g_def aa_grow_def lf sized_prefix(1) [OF l(2)])
  define aa' where "aa' = aa_take f g"
  have tk: "aa_take (f @ zs) g = aa'" for zs
    using l(1) by (simp add: aa'_def aa_take_def sized_prefix(1) [OF l(2)] lf nth_append)
  have "read_aaip_AL (f @ zs) aa = Some (Inr (), aa')" for zs
    using aa(2) f(2) l by (simp add: read_aaip_AL_def grow tk sized_prefix(1) [OF l(2)] nth_append)
  moreover have "aa_done aa' = (\<not> bit (f ! 4) 0)" by (simp add: aa'_def aa_take_def Let_def)
  moreover have "aa_holds (gs @ [f]) aa'"
  proof (cases "gs = []")
    case True
    then have "aa = \<lparr>aa_string = None, aa_len = 0, aa_prev = 0, aa_done = False\<rparr>" using aa(1) by (simp add: aa_holds_def)
    then show ?thesis using True l al_field_text [OF f]
      by (auto simp: aa_holds_def aa'_def aa_take_def g_def aa_grow_def lf Let_def)
  next
    case False
    then obtain b where b: "aa_string aa = Some b" "b \<noteq> []" "take (total gs) b = concat (butlast gs) @ (last gs)[4 := 0]"
      "total gs \<le> length b" "aa_len aa = total gs" "aa_prev aa = total (butlast gs)"
      using aa(1) by (auto simp: aa_holds_def)
    define c where "c = (if total gs + length f > length b then b @ replicate (total gs + length f) 0 else b)"
    have c: "aa_string g = Some c" "aa_len g = total gs" "aa_prev g = total (butlast gs)"
      "take (total gs) c = take (total gs) b" "total gs + length f \<le> length c"
      using b by (auto simp: g_def aa_grow_def lf c_def)
    have tg: "total gs = total (butlast gs) + length (last gs)"
      using False by (metis append_butlast_last_id total_simps(1,2,3) add_0_right)
    have pos: "0 < total gs" using tg gs [OF False] by linarith
    have "take (total gs) (c[total (butlast gs) + 4 := 1]) = (concat (butlast gs) @ (last gs)[4 := 0])[total (butlast gs) + 4 := 1]"
      by (simp add: take_update_swap c(4) b(3))
    also have "\<dots> = concat (butlast gs) @ (last gs)[4 := 1]"
      by (simp add: list_update_append length_concat_total)
    also have "(last gs)[4 := 1] = last gs" using gs [OF False] by (metis list_update_id)
    also have "concat (butlast gs) @ last gs = concat gs"
      using False by (metis append_butlast_last_id concat.simps concat_append append_Nil2)
    finally have t: "take (total gs) (c[total (butlast gs) + 4 := 1]) = concat gs" .
    have s: "aa_string aa' = Some (concat gs @ f[4 := 0] @ drop (total gs + length f) (c[total (butlast gs) + 4 := 1]))"
      using pos l al_field_text [OF f] by (simp add: aa'_def aa_take_def c lf t Let_def)
    have "aa_len aa' = total gs + length f" "aa_prev aa' = total gs" by (simp_all add: aa'_def aa_take_def c lf Let_def)
    then show ?thesis using s l c(5) by (auto simp: aa_holds_def length_concat_total)
  qed
  ultimately show ?thesis by blast
qed

lemma tail_AL: "al_field_ok f \<Longrightarrow> f ! 3 = 1 \<Longrightarrow> read_aaip_AL (f @ zs) aa = Some (Inr (), aa') \<Longrightarrow> tail_step (f @ zs) (z, aa) = Some (z, aa')"
  using sized_prefix(2) [of f zs]
  by (auto simp: al_field_ok_def tail_step_def sized_def sig_is_def nth_append)

lemma al_plain: "al_field_ok f \<Longrightarrow> plain f"
  by (auto simp: al_field_ok_def plain_def sig_is_def)

lemma runs_al:
  "list_all al_field_ok fs \<Longrightarrow> list_all (\<lambda>f. f ! 3 = 1) fs \<Longrightarrow> list_all (\<lambda>f. f ! 4 = 1) (butlast fs) \<Longrightarrow>
   fs \<noteq> [] \<Longrightarrow> last fs ! 4 = 0 \<Longrightarrow> aa_holds gs aa \<Longrightarrow> \<not> aa_done aa \<Longrightarrow>
   (gs \<noteq> [] \<Longrightarrow> last gs ! 4 = 1 \<and> 5 \<le> length (last gs)) \<Longrightarrow>
   \<exists>aa'. runs tail_step fs (z, aa) (z, aa') \<and> aa_holds (gs @ fs) aa' \<and> aa_done aa'"
proof (induction fs arbitrary: gs aa)
  case (Cons f fs)
  have f: "al_field_ok f" "f ! 3 = 1" using Cons.prems by auto
  obtain aa1 where aa1: "\<forall>zs. read_aaip_AL (f @ zs) aa = Some (Inr (), aa1)" "aa_holds (gs @ [f]) aa1"
    "aa_done aa1 = (\<not> bit (f ! 4) 0)" using AL_step [OF Cons.prems(6,7) f Cons.prems(8)] by blast
  have one: "runs tail_step [f] (z, aa) (z, aa1)"
    by (rule runs_one) (use al_plain f tail_AL aa1(1) in blast)+
  show ?case
  proof (cases "fs = []")
    case True
    then have "aa_done aa1" using aa1(3) Cons.prems(5) by simp
    then show ?thesis using one aa1(2) True by auto
  next
    case False
    then have b: "f ! 4 = 1" "butlast (f # fs) = f # butlast fs" using Cons.prems(3) by auto
    have "\<exists>aa'. runs tail_step fs (z, aa1) (z, aa') \<and> aa_holds ((gs @ [f]) @ fs) aa' \<and> aa_done aa'"
    proof (rule Cons.IH)
      show "list_all al_field_ok fs" "list_all (\<lambda>f. f ! 3 = 1) fs" "list_all (\<lambda>f. f ! 4 = 1) (butlast fs)" "fs \<noteq> []"
        "last fs ! 4 = 0" using Cons.prems False b(2) by auto
      show "aa_holds (gs @ [f]) aa1" by (fact aa1)
      show "\<not> aa_done aa1" using aa1(3) b(1) by simp
      show "last (gs @ [f]) ! 4 = 1 \<and> 5 \<le> length (last (gs @ [f]))" using b(1) f(1) by (simp add: al_field_ok_def)
    qed
    then obtain aa' where aa': "runs tail_step fs (z, aa1) (z, aa')" "aa_holds (gs @ f # fs) aa'" "aa_done aa'" by auto
    have "runs tail_step (f # fs) (z, aa) (z, aa')" using runs_trans [OF one aa'(1)] by simp
    then show ?thesis using aa' by blast
  qed
qed simp

lemma concat_al_fields: "concat (al_fields data) = data"
  by (induction data rule: al_fields.induct) (subst al_fields.simps, auto)

lemma al_fields_nonempty: "al_fields data \<noteq> []"
  by (subst al_fields.simps) simp

text \<open>What the reader has of the attributes and of the zisofs parameters.\<close>

definition attrs_read :: "rr_image \<Rightarrow> rr_node \<Rightarrow> aa_state \<Rightarrow> bool" where
  "attrs_read t n aa \<longleftrightarrow>
     (if num_aapt t n > 0
      then aa_done aa \<and> map_option (take (aa_len aa)) (aa_string aa) = aaip_xinfo n
      else aa_string aa = None)"

definition zf_read :: "rr_image \<Rightarrow> rr_node \<Rightarrow> byte \<times> byte \<times> u32" where
  "zf_read t n =
     (case zf_wanted t n of
        Inr (Some (hs4, bsl2, usize)) \<Rightarrow> (word_of_nat hs4, word_of_nat bsl2, usize) | _ \<Rightarrow> (0, 0, 0))"

abbreviation no_attrs :: aa_state where
  "no_attrs \<equiv> \<lparr>aa_string = None, aa_len = 0, aa_prev = 0, aa_done = False\<rparr>"

lemma runs_zf: "runs tail_step (zf_entries t n) ((0, 0, 0), aa) (zf_read t n, aa)"
proof (cases "\<exists>hs4 bsl2 usize. zf_wanted t n = Inr (Some (hs4, bsl2, usize))")
  case True
  then obtain hs4 bsl2 usize where z: "zf_wanted t n = Inr (Some (hs4, bsl2, usize))" by blast
  have "sized (zf_entry (hs4, bsl2, usize))" by (simp add: zf_entry_def sized_def)
  note l = sized_prefix(1) [OF this]
  have "tail_step (zf_entry (hs4, bsl2, usize) @ zs) ((0, 0, 0), aa) = Some (zf_read t n, aa)" for zs
    by (simp add: tail_step_def read_zisofs_ZF_def l) (simp add: zf_entry_def sig_is_def zf_read_def z bb_at_def)
  then have "runs tail_step [zf_entry (hs4, bsl2, usize)] ((0, 0, 0), aa) (zf_read t n, aa)"
    by (intro runs_one) (simp_all add: plain_def sig_is_def zf_entry_def sized_def)
  then show ?thesis by (simp add: zf_entries_def z)
next
  case False
  then have "zf_entries t n = []" "zf_read t n = (0, 0, 0)"
    by (auto simp: zf_entries_def zf_read_def split: sum.splits option.splits)
  then show ?thesis by (simp add: runs_Nil)
qed

lemma runs_tail:
  assumes "attrs_ok n" "num_aapt t n > 0 \<Longrightarrow> al_std (the (aaip_xinfo n))"
  shows "\<exists>aa. runs tail_step (zf_entries t n @ aa_entries t n) ((0, 0, 0), no_attrs) (zf_read t n, aa) \<and> attrs_read t n aa"
proof (cases "num_aapt t n > 0")
  case False
  then have "aa_entries t n = []" by (simp add: aa_entries_def)
  moreover have "attrs_read t n no_attrs" using False by (simp add: attrs_read_def)
  ultimately show ?thesis using runs_zf by (intro exI [of _ no_attrs]) simp
next
  case True
  let ?data = "the (aaip_xinfo n)"
  have d: "aaip_xinfo n = Some ?data" using True by (auto simp: num_aapt_def split: if_splits option.splits)
  have std: "al_std ?data" using assms(2) True by simp
  then have "\<exists>aa'. runs tail_step (al_fields ?data) (zf_read t n, no_attrs) (zf_read t n, aa') \<and> aa_holds ([] @ al_fields ?data) aa' \<and> aa_done aa'"
    by (intro runs_al al_fields_nonempty) (auto simp: al_std_def al_ok_def aa_holds_def)
  then obtain aa where aa: "runs tail_step (al_fields ?data) (zf_read t n, no_attrs) (zf_read t n, aa)"
    "aa_holds (al_fields ?data) aa" "aa_done aa" by auto
  have es: "runs tail_step [str ''ES'' @ [5, 1, 1]] (zf_read t n, no_attrs) (zf_read t n, no_attrs)"
    by (intro runs_one) (simp_all add: plain_def sized_def sig_is_def tail_step_def)
  have "runs tail_step (aa_entries t n) (zf_read t n, no_attrs) (zf_read t n, aa)"
    using True runs_trans [OF es aa(1)] aa(1) by (simp add: aa_entries_def)
  then have "runs tail_step (zf_entries t n @ aa_entries t n) ((0, 0, 0), no_attrs) (zf_read t n, aa)"
    by (rule runs_trans [OF runs_zf])
  moreover have "attrs_read t n aa"
  proof -
    let ?fs = "al_fields ?data"
    have ne: "?fs \<noteq> []" by (rule al_fields_nonempty)
    then obtain b where b: "aa_string aa = Some b" "aa_len aa = total ?fs"
      "take (total ?fs) b = concat (butlast ?fs) @ (last ?fs)[4 := 0]" using aa(2) by (auto simp: aa_holds_def)
    have "(last ?fs)[4 := 0] = last ?fs" using std by (metis al_std_def list_update_id)
    then have "take (total ?fs) b = concat ?fs"
      using b(3) ne by (metis append_butlast_last_id concat.simps concat_append append_Nil2)
    then show ?thesis using True b aa(3) d by (cases "aaip_xinfo n") (simp_all add: attrs_read_def concat_al_fields)
  qed
  ultimately show ?thesis by blast
qed
end
