(* ===== verification/RR_Back.thy ===== *)
theory RR_Back
  imports RR_Trip
begin

text \<open>
  The round trip of a node through its Rock Ridge entries.
\<close>

section \<open>The entries before the name\<close>

text \<open>A node that is not involved in the relocation of directories.\<close>

definition simple_node :: "rr_image \<Rightarrow> rr_node \<Rightarrow> bool" where
  "simple_node t n \<longleftrightarrow>
     etype n \<noteq> ECMA119_PLACEHOLDER \<and>
     (etype n = ECMA119_DIR \<longrightarrow>
        real_parent n = None \<and> \<not> (ecma119_is_dedicated_reloc_dir t n \<and> rr_reloc_flags t AND 1 \<noteq> 0))"

definition has_dev :: "rr_node \<Rightarrow> bool" where
  "has_dev n \<longleftrightarrow> etype n = ECMA119_SPECIAL \<and> is_device n"

definition pn_entry :: "rr_node \<Rightarrow> byte list" where
  "pn_entry n = str ''PN'' @ [20, 1] @ iso_bb (ucast (drop_bit 32 (dev n))) 4 @ iso_bb (ucast (dev n AND 0xffffffff)) 4"

definition fixed_entries :: "rr_image \<Rightarrow> rr_node \<Rightarrow> byte list list" where
  "fixed_entries t n =
     (if announces_aaip t then [str ''ES'' @ [5, 1, 0]] else []) @ [px_entry t n, tf_entry t n] @
     (if has_dev n then [pn_entry n] else [])"

lemma add_PN_entry: "rrip_add_PN n s = (Inr (), s') \<Longrightarrow> adds [pn_entry n] [] s s'"
  unfolding rrip_add_PN_def pn_entry_def [symmetric]
  by (auto split: if_splits dest!: adds_sua simp: sized_def pn_entry_def)

lemma fixed_adds_simple:
  assumes "run (rrip_fixed_steps t n n is_root 0) s = (Inr (), s')" "simple_node t n"
  shows "adds (fixed_entries t n) [] s s'"
proof -
  have place: "place_step t n n 0 = (if has_dev n then [rrip_add_PN n] else [])"
    using assms(2) by (cases "etype n") (auto simp: place_step_def simple_node_def has_dev_def split: option.splits)
  obtain s1 s2 s3 where s: "run (if announces_aaip t then [susp_add_ES False 0] else []) s = (Inr (), s1)"
    "rrip_add_PX t n s1 = (Inr (), s2)" "rrip_add_TF t n s2 = (Inr (), s3)"
    "run (if has_dev n then [rrip_add_PN n] else []) s3 = (Inr (), s')"
    using assms(1) by (auto simp: rrip_fixed_steps_def place run_append run_Cons simp del: run.simps(2))
  have 1: "adds (if announces_aaip t then [str ''ES'' @ [5, 1, 0]] else []) [] s s1"
    using s(1) add_ES [of False 0 s s1] by (auto simp: adds_none run_Cons simp del: run.simps(2) split: if_splits)
  have 4: "adds (if has_dev n then [pn_entry n] else []) [] s3 s'"
    using s(4) add_PN_entry [of n s3 s'] by (auto simp: adds_none run_Cons simp del: run.simps(2) split: if_splits)
  show ?thesis
    using adds_trans [OF 1 adds_trans [OF add_PX [OF s(2)] adds_trans [OF add_TF [OF s(3)] 4]]]
    by (simp add: fixed_entries_def)
qed

text \<open>A time that the stamps of a \<open>TF\<close> entry can express.\<close>

definition stamp_ok :: "rr_image \<Rightarrow> int \<Rightarrow> bool" where
  "stamp_ok t x \<longleftrightarrow>
     (let y = (if replace_timestamps t then timestamp t else x); off = snd (zone t y)
      in zone t y = (gmtime (y + off), off) \<and> 900 dvd off \<and> 0 \<le> y \<and> 0 \<le> y + off \<and>
         tm_year (gmtime y) < 256 \<and> tm_year (gmtime (y + off)) < 256)"

definition stamp_of :: "rr_image \<Rightarrow> int \<Rightarrow> int" where
  "stamp_of t x = (if replace_timestamps t then timestamp t else x)"

lemma read_7_stamp: "stamp_ok t x \<Longrightarrow> iso_datetime_read_7 env (tf_stamp t x @ zs) = stamp_of t x"
proof -
  assume a: "stamp_ok t x"
  have "iso_datetime_read_7 env (tf_stamp t x @ zs) = iso_datetime_read_7 env (tf_stamp t x)"
    by (simp add: iso_datetime_read_7_def nth_append)
  also have "\<dots> = stamp_of t x"
  proof -
    let ?y = "stamp_of t x" and ?off = "snd (zone t (stamp_of t x))"
    have z: "zone t ?y = (gmtime (?y + ?off), ?off)" "900 dvd ?off" "0 \<le> ?y" "0 \<le> ?y + ?off"
      and y: "tm_year (gmtime ?y) < 256" "tm_year (gmtime (?y + ?off)) < 256"
      using a by (auto simp: stamp_ok_def stamp_of_def Let_def)
    obtain tz where tz: "zone_time (zone t) ?y (always_gmt t) = (gmtime (?y + 900 * tz), tz)"
      "0 \<le> ?y + 900 * tz" "-48 \<le> tz" "tz \<le> 52" "tz = 0 \<or> 900 * tz = ?off"
      using zone_time_gmt [of "zone t" ?y ?off "always_gmt t", OF z] by blast
    have "tm_year (gmtime (?y + 900 * tz)) < 256" using tz(5) y by auto
    then show ?thesis using read_7_zone [OF tz(1-4)] unfolding tf_stamp_def stamp_of_def [symmetric] by blast
  qed
  finally show ?thesis .
qed

definition atts_read :: "rr_image \<Rightarrow> rr_node \<Rightarrow> rr_stat" where
  "atts_read t n =
     \<lparr>st_mode = px_get_mode t n, st_nlink = ucast (nlink n), st_uid = px_get_uid t n, st_gid = px_get_gid t n,
      st_ino = (if px_has_ino t then ucast (ino n) else 0), st_rdev = (if has_dev n then dev n else 0),
      st_mtime = stamp_of t (mtime_of n), st_atime = stamp_of t (atime n), st_ctime = stamp_of t (ctime n)\<rparr>"

lemma feeds_ES: "feeds E [str ''ES'' @ [5, 1, k]] st st"
  by (intro feeds_one) (simp_all add: plain_def sized_def sig_is_def entry_ES)

lemma px_plain: "plain (px_entry t n)" "plain (tf_entry t n)" "plain (pn_entry n)"
  using sized_px [of t n] sized_tf [of t n]
  by (simp_all add: plain_def sig_is_def px_entry_def tf_entry_def pn_entry_def sized_def del: sized_px sized_tf)

lemma entry_PX: "\<exists>status counter. \<forall>zs. ifs_entry E (px_entry t n @ zs) st = Some (Go_on
  (st\<lparr>has_px := True, px_ino_status := status, inode_counter := counter,
     atts := (atts st)\<lparr>st_mode := px_get_mode t n, st_nlink := ucast (nlink n), st_uid := px_get_uid t n,
        st_gid := px_get_gid t n, st_ino := (if px_has_ino t then ucast (ino n) else 0)\<rparr>\<rparr>))"
proof -
  have s: "sig_is (px_entry t n @ zs) ''PX''" "(px_entry t n @ zs) ! 3 = 1" for zs by (simp_all add: sig_is_def px_entry_def)
  have e: "ifs_entry E (px_entry t n @ zs) st = Some (Go_on (ifs_PX (px_entry t n @ zs) st))" for zs
    using s [of zs] by (simp add: ifs_entry_def)
  have l: "len_sue (px_entry t n @ zs) = (if px_has_ino t then 44 else 36)" for zs
    using sized_prefix(1) [OF sized_px, of t n] by (simp add: px_entry_def)
  have b: "bb_at (px_entry t n @ zs) 4 = px_get_mode t n" "bb_at (px_entry t n @ zs) 12 = ucast (nlink n)"
    "bb_at (px_entry t n @ zs) 20 = px_get_uid t n" "bb_at (px_entry t n @ zs) 28 = px_get_gid t n"
    "px_has_ino t \<Longrightarrow> bb_at (px_entry t n @ zs) 36 = ucast (ino n)" for zs
    by (simp_all add: bb_at_def px_entry_def)
  have "ifs_PX (px_entry t n @ zs) st = ifs_PX (px_entry t n) st" for zs
    using l [of zs] l [of "[]"] b [of zs] b [of "[]"] s [of zs] s [of "[]"]
    by (simp add: ifs_PX_def read_rr_PX_def split del: if_split cong: if_cong) (auto split: if_splits)
  moreover have "\<exists>status counter. ifs_PX (px_entry t n) st = st\<lparr>has_px := True, px_ino_status := status, inode_counter := counter,
     atts := (atts st)\<lparr>st_mode := px_get_mode t n, st_nlink := ucast (nlink n), st_uid := px_get_uid t n,
        st_gid := px_get_gid t n, st_ino := (if px_has_ino t then ucast (ino n) else 0)\<rparr>\<rparr>"
  proof (cases "px_has_ino t")
    case True
    then show ?thesis using l [of "[]"] b [of "[]"] s [of "[]"]
      by (intro exI [of _ "px_ino_status st OR 1"] exI [of _ "max (inode_counter st) (ucast (ino n))"])
        (simp add: ifs_PX_def read_rr_PX_def)
  next
    case False
    then show ?thesis using l [of "[]"] b [of "[]"] s [of "[]"]
      by (intro exI [of _ "px_ino_status st OR 2"] exI [of _ "inode_counter st"])
        (cases st, simp add: ifs_PX_def read_rr_PX_def)
  qed
  ultimately show ?thesis using e by simp
qed

lemma entry_TF:
  assumes "stamp_ok t (mtime_of n)" "stamp_ok t (atime n)" "stamp_ok t (ctime n)"
  shows "ifs_entry E (tf_entry t n @ zs) st = Some (Go_on (st\<lparr>atts := (atts st)\<lparr>
     st_mtime := stamp_of t (mtime_of n), st_atime := stamp_of t (atime n), st_ctime := stamp_of t (ctime n)\<rparr>\<rparr>))"
proof -
  let ?e = "tf_entry t n @ zs"
  have s: "sig_is ?e ''TF''" "?e ! 3 = 1" "?e ! 4 = 14" by (simp_all add: sig_is_def tf_entry_def)
  have l: "len_sue ?e = 26" using sized_prefix(1) [OF sized_tf, of t n] by (simp add: tf_entry_def)
  have d: "drop 5 ?e = tf_stamp t (mtime_of n) @ tf_stamp t (atime n) @ tf_stamp t (ctime n) @ zs" by (simp add: tf_entry_def)
  have "drop 12 ?e = drop 7 (drop 5 ?e)" "drop 19 ?e = drop 14 (drop 5 ?e)" by (simp_all only: drop_drop) simp_all
  then have d2: "drop 12 ?e = tf_stamp t (atime n) @ tf_stamp t (ctime n) @ zs" "drop 19 ?e = tf_stamp t (ctime n) @ zs"
    unfolding d by simp_all
  have "\<not> bit (14 :: byte) 7" "\<not> bit (14 :: byte) 0" "bit (14 :: byte) 1" "bit (14 :: byte) 2" "bit (14 :: byte) 3" by simp_all
  note bits = this
  have "read_rr_TF (env_timegm E) ?e (atts st) = (Inr (), (atts st)\<lparr>st_mtime := stamp_of t (mtime_of n),
      st_atime := stamp_of t (atime n), st_ctime := stamp_of t (ctime n)\<rparr>)"
    using assms unfolding read_rr_TF_def tf_read_def s l bits
    by (simp add: s bits l d d2 read_7_stamp del: drop_append)
  then show ?thesis using s by (simp add: ifs_entry_def sig_is_def)
qed

lemma dev_join: "ucast (ucast (d AND 0xffffffff) :: u32) OR push_bit 32 (ucast (ucast (drop_bit 32 d) :: u32)) = (d :: u64)"
proof -
  have m: "(0xffffffff :: u64) = mask 32" by (simp add: mask_eq_exp_minus_1)
  show ?thesis unfolding m by (rule bit_eqI) (auto simp: bit_simps)
qed

lemma entry_PN: "ifs_entry E (pn_entry n @ zs) st = Some (Go_on (st\<lparr>atts := (atts st)\<lparr>st_rdev := dev n\<rparr>\<rparr>))"
proof -
  have s: "sig_is (pn_entry n @ zs) ''PN''" "(pn_entry n @ zs) ! 3 = 1" by (simp_all add: sig_is_def pn_entry_def)
  have "len_sue (pn_entry n @ zs) = 20" "bb_at (pn_entry n @ zs) 12 = ucast (dev n AND 0xffffffff)"
    "bb_at (pn_entry n @ zs) 4 = ucast (drop_bit 32 (dev n))" by (simp_all add: pn_entry_def bb_at_def len_sue_def)
  then have "read_rr_PN (pn_entry n @ zs) (atts st) = (Inr (), (atts st)\<lparr>st_rdev := dev n\<rparr>)"
    using s by (simp add: read_rr_PN_def dev_join)
  then show ?thesis using s by (simp add: ifs_entry_def sig_is_def)
qed

lemma feeds_fixed:
  assumes "stamp_ok t (mtime_of n)" "stamp_ok t (atime n)" "stamp_ok t (ctime n)"
  shows "\<exists>st1. feeds E (fixed_entries t n) (ifs_start status counter) st1 \<and> atts st1 = atts_read t n \<and>
     (ifs_name st1, namecont st1) = (None, False) \<and> (linkdest st1, linkdestcont st1) = (None, 0) \<and>
     (zisofs st1, ifs_aa st1) = ((0, 0, 0), no_attrs) \<and> relocated_dir st1 = 0"
proof -
  let ?st = "ifs_start status counter"
  obtain status' counter' where ex: "\<forall>zs. ifs_entry E (px_entry t n @ zs) ?st = Some (Go_on
    (?st\<lparr>has_px := True, px_ino_status := status', inode_counter := counter',
       atts := (atts ?st)\<lparr>st_mode := px_get_mode t n, st_nlink := ucast (nlink n), st_uid := px_get_uid t n,
          st_gid := px_get_gid t n, st_ino := (if px_has_ino t then ucast (ino n) else 0)\<rparr>\<rparr>))"
    using entry_PX [of E t n ?st] by blast
  define sx where "sx = ?st\<lparr>has_px := True, px_ino_status := status', inode_counter := counter',
       atts := (atts ?st)\<lparr>st_mode := px_get_mode t n, st_nlink := ucast (nlink n), st_uid := px_get_uid t n,
          st_gid := px_get_gid t n, st_ino := (if px_has_ino t then ucast (ino n) else 0)\<rparr>\<rparr>"
  have px: "ifs_entry E (px_entry t n @ zs) ?st = Some (Go_on sx)" for zs using ex unfolding sx_def by blast
  define sy where "sy = sx\<lparr>atts := (atts sx)\<lparr>
     st_mtime := stamp_of t (mtime_of n), st_atime := stamp_of t (atime n), st_ctime := stamp_of t (ctime n)\<rparr>\<rparr>"
  define sz where "sz = (if has_dev n then sy\<lparr>atts := (atts sy)\<lparr>st_rdev := dev n\<rparr>\<rparr> else sy)"
  have 1: "feeds E (if announces_aaip t then [str ''ES'' @ [5, 1, 0]] else []) ?st ?st"
    using feeds_ES feeds_Nil by simp
  have 2: "feeds E [px_entry t n] ?st sx" by (rule feeds_one [OF px_plain(1) px])
  have 3: "feeds E [tf_entry t n] sx sy" unfolding sy_def by (intro feeds_one px_plain entry_TF [OF assms])
  have 4: "feeds E (if has_dev n then [pn_entry n] else []) sy sz"
    using feeds_one [OF px_plain(3) entry_PN] feeds_Nil by (simp add: sz_def)
  have "feeds E (fixed_entries t n) ?st sz"
    using feeds_append [OF 1 feeds_append [OF 2 feeds_append [OF 3 4]]] by (simp add: fixed_entries_def)
  then show ?thesis
    by (intro exI [of _ sz]) (simp add: sz_def sy_def sx_def ifs_start_def atts_read_def)
qed

section \<open>The whole record\<close>

lemma loop_record:
  assumes it: "before_fields it (A @ (if ca then [ce_entry b off w] else []) @ B)" "si_ce_len it = 0"
    and feeds: "feeds E A st0 st1" "feeds E B st1 st2" "feeds E C st2 st3"
    and area: "if ca then area_at (read_block E) b (pre @ concat C @ post) \<and> off = word_of_nat (length pre) \<and>
        w = word_of_nat (total C) \<and> list_all plain C else C = []"
  shows "ifs_loop E it st0 = Some (Leave (Inr ()) st3)"
proof -
  define it1 where "it1 = it\<lparr>si_pos := si_pos it + total A\<rparr>"
  have A: "ifs_loop E it st0 = ifs_loop E it1 st1" "before_fields it1 ((if ca then [ce_entry b off w] else []) @ B)"
    using loop_fields [OF feeds(1) it(1)] by (simp_all add: it1_def)
  have ce1: "si_ce_len it1 = 0" using it(2) by (simp add: it1_def)
  have C_Nil: "C = [] \<Longrightarrow> st2 = st3" using feeds(3) by (auto elim: feeds.cases)
  show ?thesis
  proof (cases ca)
    case False
    then have B: "ifs_loop E it1 st1 = ifs_loop E (it1\<lparr>si_pos := si_pos it1 + total B\<rparr>) st2"
      "before_fields (it1\<lparr>si_pos := si_pos it1 + total B\<rparr>) []"
      using loop_fields [OF feeds(2), of it1 "[]"] A(2) by auto
    show ?thesis using A(1) B(1) loop_end [OF B(2)] ce1 C_Nil area False by simp
  next
    case True
    then have "before_fields it1 (ce_entry b off w # B)" using A(2) by simp
    note ce = loop_ce [OF this ce1]
    define it2 where "it2 = it1\<lparr>si_pos := si_pos it1 + 28, si_ce_block := b, si_ce_off := off, si_ce_len := w\<rparr>"
    define it3 where "it3 = it2\<lparr>si_pos := si_pos it2 + total B\<rparr>"
    have ce': "ifs_loop E it1 st1 = ifs_loop E it2 st1" using ce(1) [of E st1] by (simp only: it2_def)
    have B: "ifs_loop E it2 st1 = ifs_loop E it3 st2" "before_fields it3 []"
      using loop_fields [OF feeds(2), of it2 "[]"] ce(2) by (auto simp: it3_def it2_def)
    have i3: "si_ce_block it3 = b" "si_ce_off it3 = off" "si_ce_len it3 = w" by (simp_all add: it3_def it2_def)
    show ?thesis
    proof (cases "C = []")
      case True
      then have "si_ce_len it3 = 0" using area \<open>ca\<close> i3 by simp
      then show ?thesis using A(1) ce' B loop_end [OF B(2)] C_Nil True by simp
    next
      case False
      obtain it4 where it4: "ifs_loop E it3 st2 = ifs_loop E it4 st2" "before_fields it4 C" "si_ce_len it4 = 0"
        using loop_area [of it3 C pre E post st2] B(2) i3 area \<open>ca\<close> False by auto
      have C: "ifs_loop E it4 st2 = ifs_loop E (it4\<lparr>si_pos := si_pos it4 + total C\<rparr>) st3"
        "before_fields (it4\<lparr>si_pos := si_pos it4 + total C\<rparr>) []"
        using loop_fields [OF feeds(3), of it4 "[]"] it4(2) by auto
      then show ?thesis using A(1) ce' B(1) it4 loop_end [OF C(2)] by simp
    qed
  qed
qed

lemma before_record:
  assumes "dr = hdr @ concat fs @ pad" "length hdr = 33 + unat (hdr ! 32) + (unat (hdr ! 32) + 1) mod 2"
    and "unat (hdr ! 0) = length hdr + (total fs + total fs mod 2)"
  shows "before_fields (susp_iter_new dr 0) fs" "si_ce_len (susp_iter_new dr 0) = 0"
proof -
  have l: "32 < length hdr" using assms(2) by linarith
  then have "0 < length hdr" by linarith
  with l have d: "dr ! 32 = hdr ! 32" "dr ! 0 = hdr ! 0" by (simp_all add: assms(1) nth_append)
  have base: "si_base (susp_iter_new dr 0) = concat fs @ pad" "si_pos (susp_iter_new dr 0) = 0"
    unfolding susp_iter_new_def Let_def d assms(2) [symmetric] by (simp_all add: assms(1))
  have "si_size (susp_iter_new dr 0) = int (unat (hdr ! 0)) - int (33 + unat (hdr ! 32) + (unat (hdr ! 32) + 1) mod 2)"
    by (simp add: susp_iter_new_def Let_def d)
  then have "si_size (susp_iter_new dr 0) = int (total fs + total fs mod 2)" by (simp add: assms(2,3))
  moreover have "total fs mod 2 < 2" by simp
  ultimately show "before_fields (susp_iter_new dr 0) fs" using base by (auto simp: before_fields_def)
  show "si_ce_len (susp_iter_new dr 0) = 0" by (simp add: susp_iter_new_def Let_def)
qed

lemma no_entries: "list_all sized fs \<Longrightarrow> total fs = 0 \<Longrightarrow> fs = []"
  by (cases fs) (auto simp: sized_def)

lemma take_sized: "sized f \<Longrightarrow> take (unat (f ! 2)) f = f"
  by (simp add: sized_def)

lemma written_fields: "list_all sized (susp_fields s) \<Longrightarrow> fst (rrip_write_susp_fields s) = concat (susp_fields s)"
proof -
  assume "list_all sized (susp_fields s)"
  then have "map (\<lambda>f. take (unat (f ! 2)) f) (susp_fields s) = susp_fields s"
    by (simp add: map_idI list_all_iff take_sized)
  then show ?thesis by (simp add: rrip_write_susp_fields_def)
qed

lemma write_fields_sink:
  "list_all sized fs \<Longrightarrow> write_fields (\<lambda>buf out. (Inr (), out @ buf)) fs out = (Inr (), out @ concat fs)"
  by (induction fs arbitrary: out) (simp_all add: take_sized)

lemma written_area:
  "rrip_write_ce_fields (\<lambda>buf out. (Inr (), out @ buf)) s [] = (Inr (), area, s2) \<Longrightarrow> list_all sized (ce_susp_fields s) \<Longrightarrow>
   \<exists>zs. area = concat (ce_susp_fields s) @ zs"
  by (auto simp: rrip_write_ce_fields_def write_fields_sink Let_def split: if_splits)

lemma sized_nmD: "sized (nm_entry fl x) \<Longrightarrow> length x \<le> 250"
proof -
  assume "sized (nm_entry fl x)"
  moreover have "unat (nm_entry fl x ! 2) < 2 ^ LENGTH(8)" by (rule unsigned_less)
  ultimately show ?thesis by (simp add: sized_def)
qed

text \<open>What the entries for the name, the target and the attributes do, wherever they stand.\<close>

lemma runs_link:
  assumes "if etype n = ECMA119_SYMLINK
      then \<exists>free ce st st'. fill_inv ce free st \<and> sl_comps st = [] \<and> free \<le> 255 \<and>
        comps_loop free target st = (Inr (), st') \<and> fs = sl_entries (sl_comps st') []
      else fs = []"
    and "etype n = ECMA119_SYMLINK \<Longrightarrow> link_ok target \<and> target \<noteq> [] \<and> 0 \<notin> set target"
  shows "runs sl_step fs (None, 0) (if etype n = ECMA119_SYMLINK then Some (link_text target) else None, 0)"
proof (cases "etype n = ECMA119_SYMLINK")
  case False
  then show ?thesis using assms(1) by (simp add: runs_Nil)
next
  case True
  then obtain free ce st st' where l: "fill_inv ce free st" "sl_comps st = []" "free \<le> 255"
    "comps_loop free target st = (Inr (), st')" "fs = sl_entries (sl_comps st') []" using assms(1) by auto
  have "list_all comp_plain (sl_comps st') \<and> joins (sl_comps st') (None, 0) = Some (Some (link_text ([] @ target)), 1)"
    by (rule comps_loop_joins [OF l(4,1,3)]) (use assms(2) True l(2) in auto)
  then show ?thesis using runs_sl [of "[]" "sl_comps st'" "(None, 0)"] True l(5) by simp
qed

text \<open>
  What the property below and the directories need: the continuation area is known by its entries so
  far and what stands behind them.
\<close>

lemma rr_read_back:
  assumes run: "rrip_get_susp_fields t n par 0 used_up s = (Inr (), s')" "\<not> corrupt s'"
    and start: "susp_fields s = []" "suf_len s = 0" "list_all sized (ce_susp_fields s)"
      "ce_len s = word_of_nat (total (ce_susp_fields s))"
    and ok: "node_ok t n 0 used_up" "simple_node t n" "px_get_mode t n \<noteq> 0"
    and name: "get_rr_fname t (rr_name n) \<noteq> []" "0 \<notin> set (get_rr_fname t (rr_name n))"
    and target: "etype n = ECMA119_SYMLINK \<Longrightarrow> get_rr_fname t (dest n) \<noteq> [] \<and> 0 \<notin> set (get_rr_fname t (dest n))"
    and attrs: "num_aapt t n > 0 \<Longrightarrow> al_std (the (aaip_xinfo n))"
    and stamps: "stamp_ok t (mtime_of n)" "stamp_ok t (atime n)" "stamp_ok t (ctime n)"
    and dr: "dr = hdr @ fst (rrip_write_susp_fields s') @ pad"
      "length hdr = 33 + unat (hdr ! 32) + (unat (hdr ! 32) + 1) mod 2" "unat (hdr ! 0) = length hdr + suf_len s'"
    and area: "area_at (read_block E) (ce_block s - eff_partition_offset t) (concat (ce_susp_fields s') @ post)"
  shows "\<exists>st. ifs_read E 0 dr status counter = Some (Inr (Some st)) \<and>
     ifs_name st = Some (get_rr_fname t (rr_name n)) \<and>
     linkdest st = (if etype n = ECMA119_SYMLINK then Some (link_text (get_rr_fname t (dest n))) else None) \<and>
     atts st = atts_read t n \<and> attrs_read t n (ifs_aa st) \<and> zisofs st = zf_read t n \<and>
     relocated_dir st = 0"
proof -
  define nm where "nm = get_rr_fname t (rr_name n)"
  define lk where "lk = (if etype n = ECMA119_SYMLINK then Some (link_text (get_rr_fname t (dest n))) else None)"
  define space where "space = sua_space used_up"
  have sp: "space \<le> 254" "0 \<le> space"
    using run(1) by (auto simp: rrip_get_susp_fields_def space_def sua_space_def ISO_ROCKRIDGE_IN_DIR_REC_def Let_def split: if_splits)
  obtain s1 s3 where s: "run (rrip_fixed_steps t n n (par = None) 0) s = (Inr (), s1)"
    "rrip_normal_fields t n (nat space) s1 = (Inr (), s3)" "s' = s3\<lparr>suf_len := suf_len s3 + suf_len s3 mod 2\<rparr>"
    using run(1) unfolding rrip_get_susp_fields_def Let_def space_def [symmetric]
    by (auto split: if_splits prod.splits sum.splits)
  have fixed: "adds (fixed_entries t n) [] s s1" by (rule fixed_adds_simple [OF s(1) ok(2)])
  obtain ff where "adds ff [] s s1" "total ff = calc_fixed_len t n 0" using fixed_adds [OF s(1)] by auto
  then have room: "suf_len s1 + 33 \<le> nat space" "nat space \<le> 255"
    using ok(1) sp start(2) by (auto simp: node_ok_def adds_def space_def)
  have nc: "\<not> corrupt s3" using run(2) s(3) by simp
  have ao: "attrs_ok n" using ok(1) by (simp add: node_ok_def)
  have lok: "etype n = ECMA119_SYMLINK \<Longrightarrow> zf_wanted t n = Inr None \<and> num_aapt t n = 0 \<and> link_ok (get_rr_fname t (dest n))"
    using ok(1) by (simp add: node_ok_def)
  from normal_adds [OF s(2) nc room ao lok nm_def]
  obtain ca su ce k slS slC fs cs where N: "predicts t n (nat space) (suf_len s1) ca su ce"
    "adds (normal_sua t s1 nm k ca ce @ slS @ fs) (normal_ce nm k @ slC @ cs) s1 s3"
    "total (normal_ce nm k @ slC @ cs) = ce" "k \<le> length nm"
    "if etype n = ECMA119_SYMLINK
      then \<exists>free ce st st'. fill_inv ce free st \<and> sl_comps st = [] \<and> free \<le> 255 \<and>
        comps_loop free (get_rr_fname t (dest n)) st = (Inr (), st') \<and> slS @ slC = sl_entries (sl_comps st') []
      else slS = [] \<and> slC = []"
    "fs @ cs = zf_entries t n @ aa_entries t n"
    by blast
  have sl: "if etype n = ECMA119_SYMLINK
      then \<exists>free ce st st'. fill_inv ce free st \<and> sl_comps st = [] \<and> free \<le> 255 \<and>
        comps_loop free (get_rr_fname t (dest n)) st = (Inr (), st') \<and> slS @ slC = sl_entries (sl_comps st') []
      else slS @ slC = []" using N(5) by (cases "etype n = ECMA119_SYMLINK") simp_all
  text \<open>The runs of the three groups, divided between record and continuation area.\<close>
  have szd: "list_all sized (normal_sua t s1 nm k ca ce)" "list_all sized (normal_ce nm k)" using N(2) by (auto simp: adds_def)
  have k: "k \<le> 250" "length (drop k nm) \<le> 250"
    using szd N(4) sized_nmD by (fastforce simp: normal_sua_def normal_ce_def split: if_splits)+
  define n1 where "n1 = nm_entry (if k < length nm then 1 else 0) (take k nm)"
  obtain x where x: "runs nm_step [n1] (None, False) x" "runs nm_step (normal_ce nm k) x (Some nm, False)"
    using runs_name [OF N(4) _ _ k] name unfolding nm_def n1_def by blast
  have "runs sl_step (slS @ slC) (None, 0) (lk, 0)"
    unfolding lk_def by (rule runs_link [OF sl]) (use ok(1) target in \<open>auto simp: node_ok_def\<close>)
  then obtain y where y: "runs sl_step slS (None, 0) y" "runs sl_step slC y (lk, 0)" unfolding runs_append by blast
  obtain aa where aa: "runs tail_step (fs @ cs) ((0, 0, 0), no_attrs) (zf_read t n, aa)" "attrs_read t n aa"
    using runs_tail [OF ao attrs] N(6) by metis
  then obtain z where z: "runs tail_step fs ((0, 0, 0), no_attrs) z" "runs tail_step cs z (zf_read t n, aa)"
    unfolding runs_append by blast
  obtain st1 where st1: "feeds E (fixed_entries t n) (ifs_start status counter) st1" "atts st1 = atts_read t n"
    "(ifs_name st1, namecont st1) = (None, False)" "(linkdest st1, linkdestcont st1) = (None, 0)"
    "(zisofs st1, ifs_aa st1) = ((0, 0, 0), no_attrs)" "relocated_dir st1 = 0"
    using feeds_fixed [OF stamps] by blast
  define sa where "sa = st1\<lparr>ifs_name := fst x, namecont := snd x\<rparr>"
  define sb where "sb = sa\<lparr>linkdest := fst y, linkdestcont := snd y\<rparr>"
  define sc where "sc = sb\<lparr>zisofs := fst z, ifs_aa := snd z\<rparr>"
  define sd where "sd = sc\<lparr>ifs_name := Some nm, namecont := False\<rparr>"
  define se where "se = sd\<lparr>linkdest := lk, linkdestcont := 0\<rparr>"
  define sf where "sf = se\<lparr>zisofs := zf_read t n, ifs_aa := aa\<rparr>"
  have "feeds E [n1] st1 sa" unfolding sa_def by (rule nms.feeds_runs [OF x(1)]) (simp add: st1(3))
  then have fA: "feeds E (fixed_entries t n @ [n1]) (ifs_start status counter) sa" using feeds_append [OF st1(1)] by blast
  have "feeds E slS sa sb" unfolding sb_def by (rule sls.feeds_runs [OF y(1)]) (use st1(4) in \<open>simp add: sa_def\<close>)
  moreover have "feeds E fs sb sc" unfolding sc_def by (rule tails.feeds_runs [OF z(1)]) (use st1(5) in \<open>simp add: sa_def sb_def\<close>)
  ultimately have fB: "feeds E (slS @ fs) sa sc" by (rule feeds_append)
  have "feeds E (normal_ce nm k) sc sd"
    using nms.feeds_runs [OF x(2), of sc E] by (simp add: sd_def sc_def sb_def sa_def)
  moreover have "feeds E slC sd se" using sls.feeds_runs [OF y(2), of sd E] by (simp add: se_def sd_def sc_def sb_def)
  moreover have "feeds E cs se sf" using tails.feeds_runs [OF z(2), of se E] by (simp add: sf_def se_def sd_def sc_def)
  ultimately have fC: "feeds E (normal_ce nm k @ slC @ cs) sc sf" by (blast intro: feeds_append)
  text \<open>The record and the area as the reader finds them.\<close>
  let ?ce = "if ca then [ce_entry (ce_block s1 - eff_partition_offset t) (ce_len s1) (word_of_nat ce)] else []"
  have all: "adds ((fixed_entries t n @ [n1]) @ ?ce @ slS @ fs) (normal_ce nm k @ slC @ cs) s s3"
    using adds_trans [OF fixed N(2)] by (simp add: normal_sua_def n1_def)
  have F: "susp_fields s' = (fixed_entries t n @ [n1]) @ ?ce @ slS @ fs" "suf_len s3 = total (susp_fields s')"
    "list_all sized (susp_fields s')" "ce_susp_fields s' = ce_susp_fields s @ normal_ce nm k @ slC @ cs"
    "list_all sized (normal_ce nm k @ slC @ cs)"
    using all start(1,2) s(3) by (simp_all add: adds_def)
  have "dr = hdr @ concat (susp_fields s') @ pad" using dr(1) written_fields [OF F(3)] by simp
  note rec = before_record [OF this dr(2)]
  have suf: "suf_len s' = suf_len s3 + suf_len s3 mod 2" by (simp add: s(3))
  have "unat (hdr ! 0) = length hdr + (total (susp_fields s') + total (susp_fields s') mod 2)"
    by (simp only: dr(3) suf F(2))
  note rec = rec [OF this, unfolded F(1)]
  have b1: "ce_block s1 = ce_block s" "ce_len s1 = word_of_nat (length (concat (ce_susp_fields s)))"
    using fixed start(4) by (simp_all add: adds_def length_concat_total)
  have ca_area: "if ca then area_at (read_block E) (ce_block s1 - eff_partition_offset t)
        (concat (ce_susp_fields s) @ concat (normal_ce nm k @ slC @ cs) @ post) \<and>
        ce_len s1 = word_of_nat (length (concat (ce_susp_fields s))) \<and>
        word_of_nat ce = (word_of_nat (total (normal_ce nm k @ slC @ cs)) :: u32) \<and>
        list_all plain (normal_ce nm k @ slC @ cs)
      else normal_ce nm k @ slC @ cs = []"
  proof (cases ca)
    case True
    have "list_all plain (normal_ce nm k @ slC @ cs)"
      using runs_plain [OF x(2)] runs_plain [OF y(2)] runs_plain [OF z(2)] by simp
    then show ?thesis using True area b1 N(3) F(4) by simp
  next
    case False
    then have "ce = 0" using N(1) calc_no_ca by (auto simp: predicts_def)
    then have "total (normal_ce nm k @ slC @ cs) = 0" using N(3) by simp
    then have "normal_ce nm k @ slC @ cs = []"
      by (rule no_entries [OF F(5)])
    then show ?thesis using False by simp
  qed
  from loop_record [OF rec fA fB fC ca_area]
  have loop: "ifs_loop E (susp_iter_new dr 0) (ifs_start status counter) = Some (Leave (Inr ()) sf)" .
  have sf: "ifs_name sf = Some nm" "namecont sf = False" "linkdest sf = lk" "linkdestcont sf = 0" "atts sf = atts_read t n"
    "ifs_aa sf = aa" "zisofs sf = zf_read t n" "relocated_dir sf = 0"
    using st1(2,6) by (simp_all add: sf_def se_def sd_def sc_def sb_def sa_def)
  have "st_mode (atts_read t n) \<noteq> 0" using ok(3) by (simp add: atts_read_def)
  then have "ifs_read E 0 dr status counter = Some (Inr (Some sf))"
    by (simp add: ifs_read_def loop sf)
  then show ?thesis using sf aa(2) by (auto simp: nm_def lk_def)
qed

text \<open>
  C2: a node that the writer gave its Rock Ridge entries is what the loader of the library sees: with
  the same name of up to 255 bytes, the same owner, access mode, link count and time stamps, the
  same device number, link target (but for a single slash at its end), attributes and zisofs
  parameters, no matter how the entries were distributed over the directory record and the
  continuation area.\<close>
theorem rr_roundtrip:
  assumes run: "rrip_get_susp_fields t n par 0 used_up s = (Inr (), s')" "\<not> corrupt s'"
    and start: "susp_fields s = []" "suf_len s = 0" "list_all sized (ce_susp_fields s)"
      "ce_len s = word_of_nat (total (ce_susp_fields s))"
    and ok: "node_ok t n 0 used_up" "simple_node t n" "px_get_mode t n \<noteq> 0"
    and name: "get_rr_fname t (rr_name n) \<noteq> []" "0 \<notin> set (get_rr_fname t (rr_name n))"
    and target: "etype n = ECMA119_SYMLINK \<Longrightarrow> get_rr_fname t (dest n) \<noteq> [] \<and> 0 \<notin> set (get_rr_fname t (dest n))"
    and attrs: "num_aapt t n > 0 \<Longrightarrow> al_std (the (aaip_xinfo n))"
    and stamps: "stamp_ok t (mtime_of n)" "stamp_ok t (atime n)" "stamp_ok t (ctime n)"
    and dr: "dr = hdr @ fst (rrip_write_susp_fields s') @ pad"
      "length hdr = 33 + unat (hdr ! 32) + (unat (hdr ! 32) + 1) mod 2" "unat (hdr ! 0) = length hdr + suf_len s'"
    and area: "rrip_write_ce_fields (\<lambda>buf out. (Inr (), out @ buf)) s' [] = (Inr (), area, s2)"
      "area_at (read_block E) (ce_block s - eff_partition_offset t) (area @ post)"
  shows "\<exists>st. ifs_read E 0 dr status counter = Some (Inr (Some st)) \<and>
     ifs_name st = Some (get_rr_fname t (rr_name n)) \<and>
     linkdest st = (if etype n = ECMA119_SYMLINK then Some (link_text (get_rr_fname t (dest n))) else None) \<and>
     atts st = atts_read t n \<and> attrs_read t n (ifs_aa st) \<and> zisofs st = zf_read t n"
proof -
  obtain su ce cs where p: "ce_susp_fields s' = ce_susp_fields s @ cs" "list_all sized cs"
    using rr_prediction [OF run start(1,2) ok(1)] by blast
  then have "list_all sized (ce_susp_fields s')" using start(3) by simp
  then obtain zs where "area = concat (ce_susp_fields s') @ zs" using written_area [OF area(1)] by blast
  with area(2) have "area_at (read_block E) (ce_block s - eff_partition_offset t) (concat (ce_susp_fields s') @ zs @ post)"
    by simp
  from rr_read_back [OF run start ok name target attrs stamps dr this]
  show ?thesis by blast
qed

section \<open>An example\<close>

definition area_source :: "u32 \<Rightarrow> byte list \<Rightarrow> block_source" where
  "area_source block area = (\<lambda>b. Inr (take 2048 (drop (2048 * unat (b - block)) area @ replicate 2048 0)))"

lemma area_source_at: "length area < 2 ^ 32 - 2048 \<Longrightarrow> area_at (area_source block area) block area"
proof -
  assume l: "length area < 2 ^ 32 - 2048"
  have "unat (word_of_nat k :: u32) = k" if "k < (length area + 2047) div 2048" for k
  proof -
    have "(length area + 2047) div 2048 \<le> length area + 2047" by (rule div_le_dividend)
    then have "k < 2 ^ 32" using that l by linarith
    then show ?thesis by (simp add: unat_of_nat take_bit_nat_eq_self)
  qed
  then show ?thesis using l by (simp add: area_at_def area_source_def)
qed

definition example_env :: "byte list \<Rightarrow> ifs_env" where
  "example_env area = \<lparr>rr_msg = \<lambda>_. None, ce_msg = None, env_timegm = \<lambda>_. 0, read_block = area_source 20 area\<rparr>"

text \<open>The header of a directory record with a file identifier of one byte.\<close>

definition example_hdr :: "nat \<Rightarrow> byte list" where
  "example_hdr len = word_of_nat (34 + len) # replicate 31 0 @ [1, 0]"

lemma rr_roundtrip_witness:
  "\<exists>dr area st. ifs_read (example_env area) 0 dr 0 0 = Some (Inr (Some st)) \<and>
     ifs_name st = Some (replicate 120 0x61) \<and> linkdest st = Some (str ''/usr/../lib'') \<and> st_uid (atts st) = 1000"
proof -
  let ?t = example_rr_image and ?n = example_long_link and ?s = "example_info\<lparr>ce_len := 0\<rparr>"
  have "case rrip_get_susp_fields ?t ?n (Some ?n) 0 50 ?s of
      (Inr _, s') \<Rightarrow> \<not> corrupt s' \<and> suf_len s' < 220 \<and>
        (case rrip_write_ce_fields (\<lambda>buf out. (Inr (), out @ buf)) s' [] of
           (Inr _, area, _) \<Rightarrow> length area < 10000 | _ \<Rightarrow> False)
    | _ \<Rightarrow> False" by code_simp
  then obtain s' area s2 where r: "rrip_get_susp_fields ?t ?n (Some ?n) 0 50 ?s = (Inr (), s')" "\<not> corrupt s'"
    "suf_len s' < 220" "rrip_write_ce_fields (\<lambda>buf out. (Inr (), out @ buf)) s' [] = (Inr (), area, s2)" "length area < 10000"
    by (auto split: prod.splits sum.splits)
  let ?h = "example_hdr (suf_len s')"
  have h: "length ?h = 34" "?h ! 32 = 1" "unat (?h ! 0) = 34 + suf_len s'"
    using r(3) by (simp_all add: example_hdr_def nth_append unat_of_nat take_bit_nat_eq_self del: of_nat_add)
  have names: "get_rr_fname ?t (rr_name ?n) = replicate 120 0x61" "get_rr_fname ?t (dest ?n) = str ''/usr/../lib''"
    "etype ?n = ECMA119_SYMLINK" "link_text (str ''/usr/../lib'') = str ''/usr/../lib''" "num_aapt ?t ?n = 0" "uid ?n = 1000" "replace_uid ?t = False"
    by code_simp+
  have "\<exists>st. ifs_read (example_env area) 0 (?h @ fst (rrip_write_susp_fields s') @ []) 0 0 = Some (Inr (Some st)) \<and>
     ifs_name st = Some (get_rr_fname ?t (rr_name ?n)) \<and>
     linkdest st = (if etype ?n = ECMA119_SYMLINK then Some (link_text (get_rr_fname ?t (dest ?n))) else None) \<and>
     atts st = atts_read ?t ?n \<and> attrs_read ?t ?n (ifs_aa st) \<and> zisofs st = zf_read ?t ?n"
  proof (rule rr_roundtrip [OF r(1,2) _ _ _ _ _ _ _ _ _ _ _ _ _ _ refl _ _ r(4)])
    have "area_at (area_source 20 area) 20 area" by (rule area_source_at) (use r(5) in simp)
    then show "area_at (read_block (example_env area)) (ce_block ?s - eff_partition_offset ?t) (area @ [])"
      by (simp add: example_env_def example_info_def example_rr_image_def)
    show "node_ok ?t ?n 0 50" "simple_node ?t ?n" "px_get_mode ?t ?n \<noteq> 0" "stamp_ok ?t (mtime_of ?n)" "stamp_ok ?t (atime ?n)"
      "stamp_ok ?t (ctime ?n)" by code_simp+
  qed (use h names in \<open>simp_all add: example_info_def\<close>)
  then obtain st where st: "ifs_read (example_env area) 0 (?h @ fst (rrip_write_susp_fields s') @ []) 0 0 = Some (Inr (Some st))"
    "ifs_name st = Some (replicate 120 0x61)" "linkdest st = Some (str ''/usr/../lib'')" "atts st = atts_read ?t ?n"
    unfolding names by auto
  moreover have "st_uid (atts st) = 1000" by (simp add: st(4) atts_read_def px_get_uid_def names)
  ultimately show ?thesis by blast
qed
end
