(* ===== verification/Directory.thy ===== *)
theory Directory
  imports RR_Size
begin

text \<open>
  The directory records and path tables of \<open>libisofs/ecma119.c\<close>: first the sizes and block
  addresses of all directories are computed (\<open>calc_dir_pos\<close>), later the records and the continuation
  areas are written (\<open>write_dirs\<close>), and the path tables that list the directories.
\<close>

section \<open>The data\<close>

text \<open>The members of \<open>Ecma119Image\<close> beyond those of the Rock Ridge writer.\<close>

record dir_image =
  rr_opts :: rr_image
  rockridge :: bool
  omit_version_numbers :: nat
  untranslated_name_len :: nat
  dir_rec_mtime :: nat
  now :: int
  old_empty :: bool
  empty_file_block :: u32
  md5_session_checksum :: bool
  partition_offset :: u32
  ms_block :: u32

text \<open>
  \<open>Ecma119Node\<close> with its \<open>info\<close>: the name, which is \<open>NULL\<close> for the root only; the members that the Rock
  Ridge entries depend on; the pointers \<open>real_parent\<close> and \<open>real_me\<close> as the \<open>node_id\<close> of their target;
  block and size of the sections of a file; \<open>block\<close> and \<open>len\<close> of a directory; the children.
\<close>

datatype dtree =
  DNode (d_name: "cstring option") (d_rr: rr_node) (d_real_parent: "nat option") (d_real_me: nat)
    (d_sections: "(u32 \<times> u32) list") (d_block: u32) (d_len: nat) (d_children: "dtree list")

text \<open>
  What the Rock Ridge writer sees of a node.  \<open>blk\<close> follows a pointer to the \<open>block\<close> of a
  directory.
\<close>

definition rr_view :: "(nat \<Rightarrow> u32) \<Rightarrow> dtree \<Rightarrow> rr_node" where
  "rr_view blk n =
     (d_rr n)\<lparr>real_parent := map_option blk (d_real_parent n), real_me := blk (d_real_me n)\<rparr>"

abbreviation d_type :: "dtree \<Rightarrow> ecma119_node_type" where
  "d_type n \<equiv> etype (d_rr n)"

definition name_bytes :: "dtree \<Rightarrow> cstring" where
  "name_bytes n = (case d_name n of Some s \<Rightarrow> s | None \<Rightarrow> [])"

definition nsections :: "dtree \<Rightarrow> nat" where
  "nsections n = (if d_type n = ECMA119_FILE then length (d_sections n) else 1)"

definition DIV_UP :: "nat \<Rightarrow> nat \<Rightarrow> nat" where
  "DIV_UP n d = (n + d - 1) div d"

section \<open>Sizes and positions\<close>

definition need_version_number :: "dir_image \<Rightarrow> dtree \<Rightarrow> bool" where
  "need_version_number t n \<longleftrightarrow>
     \<not> (omit_version_numbers t AND 1 \<noteq> 0 \<or> untranslated_name_len t > 0) \<and>
     \<not> (d_type n = ECMA119_DIR \<or> d_type n = ECMA119_PLACEHOLDER)"

definition calc_dirent_len :: "dir_image \<Rightarrow> dtree \<Rightarrow> nat" where
  "calc_dirent_len t n =
     (let ret = (case d_name n of Some s \<Rightarrow> length s + 33 | None \<Rightarrow> 34);
          ret = (if need_version_number t n then ret + 2 else ret)
      in if ret mod 2 = 1 then ret + 1 else ret)"

text \<open>
  The result of \<open>rrip_calc_len\<close> as the callers take it: the error code \<open>ISO_ASSERT_FAILURE\<close> is the number
  0xF030FFFC, and then \<open>*ce\<close> keeps its old value.
\<close>

definition rr_len :: "dir_image \<Rightarrow> rr_node \<Rightarrow> bool \<Rightarrow> nat \<Rightarrow> nat \<Rightarrow> nat \<Rightarrow> nat \<times> nat" where
  "rr_len t n is_root type used_up celen =
     (case rrip_calc_len (rr_opts t) n is_root type used_up of
        Inl e \<Rightarrow> (0xF030FFFC, celen)
      | Inr (su, ce) \<Rightarrow> (su, ce))"

text \<open>A record of \<open>dirent_len\<close> bytes behind the first \<open>len\<close> bytes does not cross the end of a block.\<close>

definition add_dirent :: "nat \<Rightarrow> nat \<Rightarrow> nat" where
  "add_dirent len dirent_len =
     (let remaining = 2048 - len mod 2048
      in if dirent_len > remaining then len + (remaining + dirent_len) else len + dirent_len)"

text \<open>The pointers are not followed while sizes are computed.\<close>

definition no_blk :: "nat \<Rightarrow> u32" where "no_blk i = 0"

definition calc_child :: "dir_image \<Rightarrow> nat \<times> nat \<times> nat \<Rightarrow> dtree \<Rightarrow> nat \<times> nat \<times> nat" where
  "calc_child t st child =
     (case st of (len, celen, ce) \<Rightarrow>
        let dirent_len = calc_dirent_len t child
        in if rockridge t then
             let (su, celen) = rr_len t (rr_view no_blk child) False 0 dirent_len celen
             in (add_dirent len (dirent_len + su), celen, ce + celen)
           else (add_dirent len dirent_len, celen, ce))"

text \<open>A file has a record for each of its sections.\<close>

definition records_of :: "dtree list \<Rightarrow> (dtree \<times> nat) list" where
  "records_of cs = concat (map (\<lambda>c. map (Pair c) [0..<nsections c]) cs)"

text \<open>The length of the directory and the sum of its continuation areas.\<close>

definition calc_dir_size :: "dir_image \<Rightarrow> bool \<Rightarrow> dtree \<Rightarrow> nat \<times> nat" where
  "calc_dir_size t is_root dir =
     (let n = rr_view no_blk dir;
          dots = (if rockridge t then
                    let (l1, c1) = rr_len t n is_root 1 34 0; (l2, c2) = rr_len t n is_root 2 34 c1
                    in (34 + 34 + l1 + l2, c2, c1 + c2)
                  else (34 + 34, 0, 0));
          (len, celen, ce) = foldl (calc_child t) dots (map fst (records_of (d_children dir)))
      in (DIV_UP len 2048 * 2048, ce))"

text \<open>\<open>t->curblock\<close> and \<open>t->ndirs\<close> are the state.\<close>

fun calc_dir_pos :: "dir_image \<Rightarrow> bool \<Rightarrow> dtree \<Rightarrow> u32 \<times> nat \<Rightarrow> dtree \<times> u32 \<times> nat"
  and calc_dirs_pos :: "dir_image \<Rightarrow> dtree list \<Rightarrow> u32 \<times> nat \<Rightarrow> dtree list \<times> u32 \<times> nat" where
  "calc_dir_pos t is_root (DNode nm n rp rm secs blk len cs) (curblock, ndirs) =
     (let (len', ce) = calc_dir_size t is_root (DNode nm n rp rm secs blk len cs);
          cur = curblock + word_of_nat (DIV_UP len' 2048) +
                (if rockridge t then word_of_nat (DIV_UP ce 2048) else 0);
          (cs', st) = calc_dirs_pos t cs (cur, ndirs + 1)
      in (DNode nm n rp rm secs curblock len' cs', st))"
| "calc_dirs_pos t [] st = ([], st)"
| "calc_dirs_pos t (c # cs) st =
     (let (c', st) = (if d_type c = ECMA119_DIR then calc_dir_pos t False c st else (c, st));
          (cs', st) = calc_dirs_pos t cs st
      in (c' # cs', st))"

fun calc_path_table_size :: "dtree \<Rightarrow> u32" where
  "calc_path_table_size (DNode nm n rp rm secs blk len cs) =
     (let sz = 8 + (case nm of Some s \<Rightarrow> length s | None \<Rightarrow> 1); sz = sz + sz mod 2
      in word_of_nat sz +
         sum_list (map (\<lambda>c. if d_type c = ECMA119_DIR then calc_path_table_size c else 0) cs))"

text \<open>
  What \<open>ecma119_writer_compute_data_blocks\<close> stores in the image beyond the members of the nodes,
  \<open>ndirs\<close> and \<open>curblock\<close>.
\<close>

record tree_pos =
  l_path_table_pos :: u32
  m_path_table_pos :: u32
  path_table_size :: u32
  checksum_tree_tag_pos :: u32
  partition_l_table_pos :: u32
  partition_m_table_pos :: u32
  tree_end_block :: u32

definition div_up_word :: "u32 \<Rightarrow> u32 \<Rightarrow> u32" where
  "div_up_word n d = (n + d - 1) div d"

text \<open>\<open>root\<close> and \<open>part\<close> are \<open>target->root\<close> and \<open>target->partition_root\<close>; the trees with their positions are returned.\<close>

definition compute_data_blocks :: "dir_image \<Rightarrow> dtree \<Rightarrow> dtree \<Rightarrow> tree_pos \<Rightarrow> u32 \<Rightarrow>
    (dtree \<times> dtree \<times> nat \<times> tree_pos \<times> u32) res" where
  "compute_data_blocks t root part pos curblock =
     (let (root, cur, ndirs) = calc_dir_pos t True root (curblock, 0);
          size = calc_path_table_size root;
          l = cur; cur = cur + div_up_word size 2048;
          m = cur; cur = cur + div_up_word size 2048;
          pos = pos\<lparr>l_path_table_pos := l, m_path_table_pos := m, path_table_size := size\<rparr>;
          (pos, cur) = (if md5_session_checksum t then (pos\<lparr>checksum_tree_tag_pos := cur\<rparr>, cur + 1) else (pos, cur))
      in if partition_offset t > 0 then
           (let (part, cur, ndirs2) = calc_dir_pos t True part (cur, 0)
            in if ndirs2 \<noteq> ndirs then Inl ISO_ASSERT_FAILURE
               else
                 let size = calc_path_table_size part;
                     l = cur; cur = cur + div_up_word size 2048;
                     m = cur; cur = cur + div_up_word size 2048
                 in Inr (root, part, ndirs, pos\<lparr>partition_l_table_pos := l, partition_m_table_pos := m, tree_end_block := cur\<rparr>, cur))
         else Inr (root, part, ndirs, pos\<lparr>tree_end_block := cur\<rparr>, cur))"

section \<open>Writing the records\<close>

text \<open>
  \<open>file_id\<close> is \<open>None\<close> for -1.  The file identifier of \<open>.\<close> and \<open>..\<close> is the first byte of the \<open>int\<close>, as on a
  little endian machine.  The time and the directory flag of \<open>..\<close> come from the parent of \<open>node\<close>,
  though the caller hands over the parent of the directory as \<open>node\<close> already.
\<close>

definition record_header :: "dir_image \<Rightarrow> dtree \<Rightarrow> dtree option \<Rightarrow> nat option \<Rightarrow> nat \<Rightarrow> nat \<Rightarrow> nat \<Rightarrow> byte list" where
  "record_header t node par file_id len_fi suf extent =
     (let name = take len_fi (case file_id of Some i \<Rightarrow> [word_of_nat i] | None \<Rightarrow> name_bytes node);
          pad = (if len_fi mod 2 = 1 then 0 else 1);
          version = (if need_version_number t node then str '';1'' else []);
          len_dr = 33 + len_fi + pad + length version;
          (block, len, multi_extend) =
            (case d_type node of
               ECMA119_DIR \<Rightarrow> (d_block node, word_of_nat (d_len node), False)
             | ECMA119_FILE \<Rightarrow>
                 (fst (d_sections node ! extent), snd (d_sections node ! extent), length (d_sections node) - 1 \<noteq> extent)
             | _ \<Rightarrow> (if \<not> old_empty t then empty_file_block t else 0, 0, False));
          stamped = (if file_id = Some 1 then case par of Some p \<Rightarrow> p | None \<Rightarrow> node else node);
          r = rr_opts t;
          time = (if dir_rec_mtime t AND 1 \<noteq> 0
                  then tf_stamp r (mtime_of (d_rr stamped))
                  else iso_datetime_7 (zone r) (now t) (always_gmt r));
          flags = (if d_type stamped = ECMA119_DIR then 2 else 0) OR (if multi_extend then 0x80 else 0)
      in [word_of_nat (len_dr + suf), 0] @ iso_bb (block - eff_partition_offset r) 4 @ iso_bb len 4 @ time @
         [flags, 0, 0] @ iso_bb 1 2 @ [word_of_nat (len_fi + length version)] @ name @ version @ replicate pad 0)"

definition write_one_dir_record ::
  "dir_image \<Rightarrow> dtree \<Rightarrow> dtree option \<Rightarrow> nat option \<Rightarrow> nat \<Rightarrow> susp_info option \<Rightarrow> nat \<Rightarrow> byte list \<times> susp_info option" where
  "write_one_dir_record t node par file_id len_fi info extent =
     (case info of
        None \<Rightarrow> (record_header t node par file_id len_fi 0 extent, None)
      | Some s \<Rightarrow>
          (case rrip_write_susp_fields s of
             (susp, s') \<Rightarrow> (record_header t node par file_id len_fi (suf_len s) extent @ susp, Some s')))"

text \<open>
  The block in the buffer is the list of its bytes up to the write position; what follows is
  zero.  The record takes \<open>len\<close> bytes.
\<close>

definition put_record :: "byte list \<Rightarrow> nat \<Rightarrow> byte list \<Rightarrow> byte list" where
  "put_record cur len rec = cur @ rec @ replicate (len - length rec) 0"

definition whole_block :: "byte list \<Rightarrow> byte list" where
  "whole_block cur = cur @ replicate (2048 - length cur) 0"

text \<open>\<open>put\<close> is \<open>iso_write\<close> on the state \<open>w\<close> of the image.\<close>

type_synonym 'w writer = "byte list \<Rightarrow> 'w \<Rightarrow> unit res \<times> 'w"

definition write_record :: "dir_image \<Rightarrow> (nat \<Rightarrow> u32) \<Rightarrow> 'w writer \<Rightarrow> dtree \<Rightarrow> dtree \<Rightarrow> nat \<Rightarrow>
    byte list \<Rightarrow> susp_info \<Rightarrow> 'w \<Rightarrow> byte list res \<times> susp_info \<times> 'w" where
  "write_record t blk put dir child section cur info w =
     (let fi_len = length (name_bytes child);
          len = fi_len + 33 + (if fi_len mod 2 = 1 then 0 else 1) + (if need_version_number t child then 2 else 0);
          (r, info) = (if rockridge t
                       then rrip_get_susp_fields (rr_opts t) (rr_view blk child) (Some (rr_view blk dir)) 0 len info
                       else (Inr (), info))
      in case r of
           Inl e \<Rightarrow> (Inl e, info, w)
         | Inr _ \<Rightarrow>
             let len = (if rockridge t then len + suf_len info else len);
                 (r, cur, w) = (if length cur + len > 2048
                                then case put (whole_block cur) w of (r, w) \<Rightarrow> (r, [], w)
                                else (Inr (), cur, w))
             in case r of
                  Inl e \<Rightarrow> (Inl e, info, w)
                | Inr _ \<Rightarrow>
                    (case write_one_dir_record t child (Some dir) None fi_len (Some info) section of
                       (rec, info) \<Rightarrow> (Inr (put_record cur len rec), the info, w)))"

fun write_records :: "dir_image \<Rightarrow> (nat \<Rightarrow> u32) \<Rightarrow> 'w writer \<Rightarrow> dtree \<Rightarrow> (dtree \<times> nat) list \<Rightarrow>
    byte list \<Rightarrow> susp_info \<Rightarrow> 'w \<Rightarrow> byte list res \<times> susp_info \<times> 'w" where
  "write_records t blk put dir [] cur info w = (Inr cur, info, w)"
| "write_records t blk put dir (x # rest) cur info w =
     (case write_record t blk put dir (fst x) (snd x) cur info w of
        (Inl e, info, w) \<Rightarrow> (Inl e, info, w)
      | (Inr cur, info, w) \<Rightarrow> write_records t blk put dir rest cur info w)"

text \<open>
  \<open>up\<close> is \<open>dir->parent\<close>; the parameter \<open>parent\<close> of the code is the root itself for the root, and its own
  parent is \<open>upup\<close>.  \<open>mem\<close> allocations succeed; the number of those left is returned.
\<close>

definition dot_records :: "dir_image \<Rightarrow> (nat \<Rightarrow> u32) \<Rightarrow> dtree \<Rightarrow> dtree option \<Rightarrow> dtree option \<Rightarrow> susp_info \<Rightarrow>
    byte list res \<times> susp_info" where
  "dot_records t blk dir up upup info =
     (let par = map_option (rr_view blk) up;
          (r, info) = (if rockridge t then rrip_get_susp_fields (rr_opts t) (rr_view blk dir) par 1 34 info else (Inr (), info))
      in case r of
           Inl e \<Rightarrow> (Inl e, info)
         | Inr _ \<Rightarrow>
             let len = 34 + suf_len info;
                 (rec, info) = write_one_dir_record t dir up (Some 0) 1 (Some info) 0;
                 cur = put_record [] len rec;
                 (r, info) = (if rockridge t then rrip_get_susp_fields (rr_opts t) (rr_view blk dir) par 2 34 (the info)
                              else (Inr (), the info))
             in case r of
                  Inl e \<Rightarrow> (Inl e, info)
                | Inr _ \<Rightarrow>
                    let len = 34 + suf_len info;
                        (rec, info) = write_one_dir_record t (case up of Some p \<Rightarrow> p | None \<Rightarrow> dir) upup (Some 1) 1 (Some info) 0
                    in (Inr (put_record cur len rec), the info))"

definition write_one_dir :: "dir_image \<Rightarrow> (nat \<Rightarrow> u32) \<Rightarrow> 'w writer \<Rightarrow> dtree \<Rightarrow> dtree option \<Rightarrow> dtree option \<Rightarrow> nat \<Rightarrow> 'w \<Rightarrow>
    unit res \<times> susp_info \<times> 'w" where
  "write_one_dir t blk put dir up upup mem w =
     (let info = \<lparr>susp_fields = [], suf_len = 0,
            ce_block = (if rockridge t then d_block dir + word_of_nat (DIV_UP (d_len dir) 2048) else 0),
            ce_len = 0, ce_susp_fields = [], mem_left = mem - 1, corrupt = False\<rparr>
      in if mem = 0 then (Inl ISO_OUT_OF_MEM, info, w)
         else case dot_records t blk dir up upup info of
             (Inl e, info) \<Rightarrow> (Inl e, info, w)
           | (Inr cur, info) \<Rightarrow>
               (case write_records t blk put dir (records_of (d_children dir)) cur info w of
                  (Inl e, info, w) \<Rightarrow> (Inl e, info, w)
                | (Inr cur, info, w) \<Rightarrow>
                    (case put (whole_block cur) w of
                       (Inl e, w) \<Rightarrow> (Inl e, info, w)
                     | (Inr _, w) \<Rightarrow>
                         if ce_len info > 0
                         then (case rrip_write_ce_fields put info w of (r, w, info) \<Rightarrow> (r, info, w))
                         else (Inr (), info, w))))"

text \<open>
  All directories in the order of \<open>calc_dir_pos\<close>; the first argument after \<open>put\<close> is \<open>root->parent\<close>.  \<open>None\<close>
  tells that memory was corrupted, see \<open>corrupt\<close>.
\<close>

fun write_dirs :: "dir_image \<Rightarrow> (nat \<Rightarrow> u32) \<Rightarrow> 'w writer \<Rightarrow> dtree option \<Rightarrow> dtree option \<Rightarrow> dtree \<Rightarrow> nat \<times> 'w \<Rightarrow>
    (unit res \<times> nat \<times> 'w) option"
  and write_subdirs :: "dir_image \<Rightarrow> (nat \<Rightarrow> u32) \<Rightarrow> 'w writer \<Rightarrow> dtree option \<Rightarrow> dtree \<Rightarrow> dtree list \<Rightarrow> nat \<times> 'w \<Rightarrow>
    (unit res \<times> nat \<times> 'w) option" where
  "write_dirs t blk put up upup (DNode nm n rp rm secs b len cs) (mem, w) =
     (case write_one_dir t blk put (DNode nm n rp rm secs b len cs) up upup mem w of
        (r, info, w) \<Rightarrow>
          if corrupt info then None
          else case r of
                 Inl e \<Rightarrow> Some (Inl e, mem_left info, w)
               | Inr _ \<Rightarrow> write_subdirs t blk put up (DNode nm n rp rm secs b len cs) cs (mem_left info, w))"
| "write_subdirs t blk put up dir [] st = Some (Inr (), st)"
| "write_subdirs t blk put up dir (c # cs) st =
     (if d_type c = ECMA119_DIR then
        (case write_dirs t blk put (Some dir) up c st of
           Some (Inr _, st) \<Rightarrow> write_subdirs t blk put up dir cs st
         | x \<Rightarrow> x)
      else write_subdirs t blk put up dir cs st)"

section \<open>Path tables\<close>

text \<open>
  \<open>pathlist\<close>: the directories with the \<open>node_id\<close> of their parent, in the order of a breadth first
  search.  The array has room for \<open>ndirs\<close> pointers.
\<close>

definition d_id :: "dtree \<Rightarrow> nat" where "d_id n = node_id (d_rr n)"

definition subdirs :: "dtree \<Rightarrow> (dtree \<times> nat option) list" where
  "subdirs d = map (\<lambda>c. (c, Some (d_id d))) (filter (\<lambda>c. d_type c = ECMA119_DIR) (d_children d))"

definition path_list :: "nat \<Rightarrow> dtree \<Rightarrow> (dtree \<times> nat option) list" where
  "path_list ndirs root = foldl (\<lambda>pl i. pl @ subdirs (fst (pl ! i))) [(root, None)] [0..<ndirs]"

text \<open>The loop that looks for the parent; \<open>None\<close> when it leaves the array.\<close>

function find_parent :: "(dtree \<times> nat option) list \<Rightarrow> nat option \<Rightarrow> nat \<Rightarrow> nat option" where
  "find_parent pl up i =
     (if i < length pl then
        if Some (d_id (fst (pl ! i))) \<noteq> up then find_parent pl up (i + 1) else Some i
      else None)"
  by auto

termination by (relation "measure (\<lambda>(pl, _, i). length pl - i)") auto

declare find_parent.simps [simp del]

definition path_record :: "dir_image \<Rightarrow> bool \<Rightarrow> dtree \<Rightarrow> bool \<Rightarrow> nat \<Rightarrow> byte list" where
  "path_record t l_type dir has_parent parent_idx =
     (let write_int = (if l_type then iso_lsb else iso_msb);
          name = (if has_parent then name_bytes dir else [0]);
          len_di = (if has_parent then word_of_nat (length (name_bytes dir)) else 1 :: byte)
      in [len_di, 0] @ write_int (d_block dir - eff_partition_offset (rr_opts t)) 4 @
         write_int (word_of_nat (parent_idx + 1)) 2 @ take (unat len_di) name @
         replicate (unat len_di mod 2) 0)"

text \<open>
  The record is put together in a buffer of 64 bytes, and a directory name of more than 56 bytes does
  not fit.  Then, and when the search for the parent leaves the array, the result is \<open>None\<close>.
\<close>

fun write_path_records :: "dir_image \<Rightarrow> bool \<Rightarrow> 'w writer \<Rightarrow> (dtree \<times> nat option) list \<Rightarrow>
    (dtree \<times> nat option) list \<Rightarrow> bool \<Rightarrow> nat \<Rightarrow> nat \<Rightarrow> 'w \<Rightarrow> (nat res \<times> 'w) option" where
  "write_path_records t l_type put pl [] first parent_idx written_len w = Some (Inr written_len, w)"
| "write_path_records t l_type put pl ((dir, up) # rest) first parent_idx written_len w =
     (case (if first then Some parent_idx else find_parent pl up parent_idx) of
        None \<Rightarrow> None
      | Some p \<Rightarrow>
          let rec = path_record t l_type dir (up \<noteq> None) p
          in if length rec > 64 then None
             else case put rec w of
                 (Inl e, w) \<Rightarrow> Some (Inl e, w)
               | (Inr _, w) \<Rightarrow> write_path_records t l_type put pl rest False p (written_len + length rec) w)"

text \<open>\<open>mem\<close> is the number of memory allocations that succeed before the first one fails.\<close>

definition write_path_table :: "dir_image \<Rightarrow> bool \<Rightarrow> 'w writer \<Rightarrow> (dtree \<times> nat option) list \<Rightarrow> nat \<times> 'w \<Rightarrow>
    (unit res \<times> nat \<times> 'w) option" where
  "write_path_table t l_type put pl st =
     (case st of (mem, w) \<Rightarrow>
        (case write_path_records t l_type put pl pl True 0 0 w of
           None \<Rightarrow> None
         | Some (Inl e, w) \<Rightarrow> Some (Inl e, mem, w)
         | Some (Inr written_len, w) \<Rightarrow>
             Some (if written_len mod 2048 = 0 then (Inr (), mem, w)
                   else if mem = 0 then (Inl ISO_OUT_OF_MEM, mem, w)
                   else case put (replicate (2048 - written_len mod 2048) 0) w of (r, w) \<Rightarrow> (r, mem - 1, w))))"

definition write_path_tables :: "dir_image \<Rightarrow> 'w writer \<Rightarrow> nat \<Rightarrow> dtree \<Rightarrow> nat \<times> 'w \<Rightarrow> (unit res \<times> nat \<times> 'w) option" where
  "write_path_tables t put ndirs root st =
     (if fst st = 0 then Some (Inl ISO_OUT_OF_MEM, st)
      else
        let pl = path_list ndirs root
        in case write_path_table t True put pl (fst st - 1, snd st) of
             None \<Rightarrow> None
           | Some (Inl e, st) \<Rightarrow> Some (Inl e, st)
           | Some (Inr _, st) \<Rightarrow> write_path_table t False put pl st)"

section \<open>The tree and its path tables\<close>

text \<open>The pointer to a directory is followed by looking for its \<open>node_id\<close>.\<close>

fun dir_nodes :: "dtree \<Rightarrow> dtree list" where
  "dir_nodes (DNode nm n rp rm secs b len cs) =
     DNode nm n rp rm secs b len cs # concat (map (\<lambda>c. if d_type c = ECMA119_DIR then dir_nodes c else []) cs)"

definition block_of_id :: "dtree \<Rightarrow> nat \<Rightarrow> u32" where
  "block_of_id root i = (case filter (\<lambda>d. d_id d = i) (dir_nodes root) of d # _ \<Rightarrow> d_block d | [] \<Rightarrow> 0)"

text \<open>
  \<open>ecma119_writer_write_dirs\<close> with the root that it chooses.  \<open>tag\<close> stands for the call
  \<open>iso_md5_write_tag(t, 3)\<close>, see the theory \<open>Md5_Tags\<close>.  The attribute \<open>isofs.ca\<close> of the root, which gets
  changed while the second tree is written, comes with the tree \<open>root\<close>.
\<close>

definition writer_write_dirs :: "dir_image \<Rightarrow> 'w writer \<Rightarrow> ('w \<Rightarrow> unit res \<times> 'w) \<Rightarrow> nat \<Rightarrow> dtree \<Rightarrow> nat \<times> 'w \<Rightarrow>
    (unit res \<times> nat \<times> 'w) option" where
  "writer_write_dirs t put tag ndirs root st =
     (case write_dirs t (block_of_id root) put None None root st of
        None \<Rightarrow> None
      | Some (Inl e, st) \<Rightarrow> Some (Inl e, st)
      | Some (Inr _, st) \<Rightarrow>
          (case write_path_tables t put ndirs root st of
             None \<Rightarrow> None
           | Some (Inl e, st) \<Rightarrow> Some (Inl e, st)
           | Some (Inr _, mem, w) \<Rightarrow>
               Some (if md5_session_checksum t \<and> \<not> eff_partition_offset (rr_opts t) > 0
                     then case tag w of (r, w) \<Rightarrow> (r, mem, w) else (Inr (), mem, w))))"

text \<open>
  \<open>ecma119_writer_write_data\<close>: the result, the new \<open>tree_end_block\<close>, and whether the warning \<open>Calculated and written
  ECMA-119 tree end differ\<close> was issued.  \<open>bytes\<close> is \<open>t->bytes_written\<close>.  At the start \<open>eff_partition_offset\<close> is 0.
\<close>

definition writer_write_data :: "dir_image \<Rightarrow> 'w writer \<Rightarrow> ('w \<Rightarrow> unit res \<times> 'w) \<Rightarrow> ('w \<Rightarrow> nat) \<Rightarrow> nat \<Rightarrow>
    dtree \<Rightarrow> dtree \<Rightarrow> u32 \<Rightarrow> nat \<times> 'w \<Rightarrow> ((u32 \<times> bool) res \<times> nat \<times> 'w) option" where
  "writer_write_data t put tag bytes ndirs root part end_block st =
     (case writer_write_dirs t put tag ndirs root st of
        None \<Rightarrow> None
      | Some (Inl e, st) \<Rightarrow> Some (Inl e, st)
      | Some (Inr _, st) \<Rightarrow>
          (case (if partition_offset t > 0
                 then writer_write_dirs (t\<lparr>rr_opts := (rr_opts t)\<lparr>eff_partition_offset := partition_offset t\<rparr>\<rparr>) put tag ndirs part st
                 else Some (Inr (), st)) of
             None \<Rightarrow> None
           | Some (Inl e, st) \<Rightarrow> Some (Inl e, st)
           | Some (Inr _, mem, w) \<Rightarrow>
               if word_of_nat (bytes w div 2048) + ms_block t \<noteq> end_block
               then Some (if mem = 0 then Inl ISO_OUT_OF_MEM else Inr (1, True), mem - 1, w)
               else Some (Inr (end_block, False), mem, w)))"
end
