(* ===== verification/Dir_Layout.thy ===== *)
theory Dir_Layout
  imports Directory RR_Back
begin

text \<open>
  The directories take exactly the blocks that were reserved for them.
\<close>

section \<open>Lost memory stays lost\<close>

text \<open>No step of the Rock Ridge writer takes back the mark \<open>corrupt\<close>.\<close>

definition keeps :: "rr_step \<Rightarrow> bool" where
  "keeps f \<longleftrightarrow> (\<forall>s. corrupt s \<longrightarrow> corrupt (snd (f s)))"

named_theorems keeps_intros

lemma keepsD: "keeps f \<Longrightarrow> f s = (r, s') \<Longrightarrow> corrupt s \<Longrightarrow> corrupt s'"
  by (metis keeps_def snd_conv)

lemma keeps_append [keeps_intros]: "keeps (if ce then susp_append_ce f else susp_append f)" "keeps (susp_append f)" "keeps (susp_append_ce f)"
  by (auto simp: keeps_def susp_append_def susp_append_ce_def)

lemma keeps_choice [keeps_intros]: "keeps ((if ce then susp_append_ce else susp_append) f)"
  by (simp add: keeps_intros)

lemma keeps_malloc [keeps_intros]: "keeps f \<Longrightarrow> keeps (malloc_then f)"
  by (auto simp: keeps_def malloc_then_def)

lemma keeps_run [keeps_intros]: "(\<And>f. f \<in> set fs \<Longrightarrow> keeps f) \<Longrightarrow> keeps (run fs)"
proof (induction fs)
  case (Cons f fs)
  then have "keeps f" "keeps (run fs)" by simp_all
  then show ?case by (auto simp: keeps_def split: prod.splits sum.splits)
qed (simp add: keeps_def)

lemma keeps_if: "keeps f \<Longrightarrow> keeps g \<Longrightarrow> keeps (\<lambda>s. if b s then f s else g s)"
  by (simp add: keeps_def)

lemma keeps_err [keeps_intros]: "keeps (\<lambda>s. (r, s))"
  by (simp add: keeps_def)

lemma keeps_single [keeps_intros]:
  "keeps (rrip_add_PX t n)" "keeps (rrip_add_TF t n)" "keeps rrip_add_RE" "keeps susp_add_SP"
  "keeps (susp_add_ES ce k)" "keeps (rrip_add_ER t)" "keeps aaip_add_ER"
  by (simp_all add: rrip_add_PX_def rrip_add_TF_def rrip_add_RE_def susp_add_SP_def susp_add_ES_def rrip_add_ER_def
      aaip_add_ER_def keeps_malloc keeps_append keeps_choice)

lemma keeps_add_PL [keeps_intros]: "keeps (rrip_add_PL t n)"
  using keeps_malloc [OF keeps_append(2)] by (auto simp: keeps_def rrip_add_PL_def split: option.splits)

lemma keeps_add_PN [keeps_intros]: "keeps (rrip_add_PN n)"
  using keeps_malloc [OF keeps_append(2)] by (auto simp: keeps_def rrip_add_PN_def)

lemma keeps_add_CL [keeps_intros]: "keeps (rrip_add_CL t n)"
  using keeps_malloc [OF keeps_append(2)] by (auto simp: keeps_def rrip_add_CL_def)

lemma keeps_add_CE [keeps_intros]: "keeps (susp_add_CE t k)"
  by (auto simp: keeps_def susp_add_CE_def malloc_then_def susp_append_def)

lemma keeps_add_ZF [keeps_intros]: "keeps (zisofs_add_ZF ce z)"
  by (auto simp: zisofs_add_ZF_def keeps_malloc keeps_append split: prod.splits)

lemma keeps_add_NM [keeps_intros]: "keeps (rrip_add_NM name n fl ce)"
  using keeps_append(1) [of ce] by (auto simp: keeps_def rrip_add_NM_def malloc_then_def susp_append_def susp_append_ce_def)

lemma keeps_SL_loop: "keeps (rrip_add_SL_loop cs p k ce)"
proof (induction cs arbitrary: p k)
  case Nil
  show ?case using keeps_malloc [OF keeps_choice, of ce "sl_entry 0 p"] by (simp add: keeps_def)
next
  case (Cons c cs)
  have "keeps (run [susp_append_ce (sl_entry 1 p), rrip_add_SL_loop cs [c] (comp_size c) ce])"
    by (rule keeps_run) (auto intro: Cons keeps_append)
  then have "keeps (malloc_then (\<lambda>s. if \<not> ce then (Inl ISO_ASSERT_FAILURE, s)
       else run [susp_append_ce (sl_entry 1 p), rrip_add_SL_loop cs [c] (comp_size c) ce] s))"
    by (intro keeps_malloc keeps_if keeps_err)
  then show ?case using Cons [of "p @ [c]" "k + comp_size c"] unfolding keeps_def by (auto simp del: run.simps)
qed

lemma keeps_add_SL [keeps_intros]: "keeps (rrip_add_SL cs ce)"
  by (simp add: rrip_add_SL_def [abs_def] keeps_SL_loop)

lemma keeps_add_AL [keeps_intros]: "keeps (aaip_add_AL t data room)"
proof -
  have ap: "corrupt s \<Longrightarrow> corrupt (snd (susp_append d s))" "corrupt s \<Longrightarrow> corrupt (snd (susp_append_ce d s))" for d s
    using keeps_append(2,3) by (simp_all add: keeps_def)
  show ?thesis unfolding keeps_def aaip_add_AL_def Let_def
    by (auto simp: ap AL_loop_corrupt split: sum.splits prod.splits dest!: keepsD [OF keeps_single(5)])
qed

lemma keeps_aa [keeps_intros]: "keeps (add_aa_string t n room)"
  using keeps_malloc [OF keeps_add_AL] by (auto simp: keeps_def add_aa_string_def)

lemma keeps_zf [keeps_intros]: "keeps (add_zf_field t n room)"
  using keeps_add_ZF by (auto simp: keeps_def add_zf_field_def split: sum.splits option.splits)

lemma keeps_fixed: "keeps (run (rrip_fixed_steps t n node r type))"
  by (rule keeps_run) (auto simp: rrip_fixed_steps_def place_step_def intro: keeps_intros split: ecma119_node_type.splits option.splits if_splits)

lemma keeps_dots: "keeps (run (rrip_dot_steps t n r type))"
  by (rule keeps_run) (auto simp: rrip_dot_steps_def intro: keeps_intros split: if_splits)

lemma keeps_name_steps: "keeps (run (rrip_name_steps t n sp info p a b c d e))"
  by (rule keeps_run) (auto simp: rrip_name_steps_def Let_def intro: keeps_intros split: if_splits)

lemma link_comps_corrupt: "link_comps t n f b ce s = (r, s') \<Longrightarrow> corrupt s' = corrupt s"
  by (auto simp: link_comps_def split: if_splits prod.splits sum.splits)

lemma keeps_normal: "keeps (rrip_normal_fields t n space)"
  unfolding keeps_def rrip_normal_fields_def Let_def
  by (auto split: prod.splits sum.splits dest!: link_comps_corrupt intro!: keeps_name_steps [unfolded keeps_def, rule_format])

lemma keeps_get_susp_fields: "keeps (rrip_get_susp_fields t n par type used_up)"
  unfolding keeps_def rrip_get_susp_fields_def Let_def
  by (auto split: prod.splits sum.splits if_splits dest!: keepsD [OF keeps_fixed] keepsD [OF keeps_dots] keepsD [OF keeps_normal])

section \<open>What the prediction depends on\<close>

text \<open>The blocks that the pointers of a node lead to do not matter for the sizes.\<close>

lemma rr_view_simps [simp]:
  "etype (rr_view blk n) = etype (d_rr n)" "aaip_xinfo (rr_view blk n) = aaip_xinfo (d_rr n)"
  "rr_name (rr_view blk n) = rr_name (d_rr n)" "dest (rr_view blk n) = dest (d_rr n)"
  "iso_type (rr_view blk n) = iso_type (d_rr n)" "node_id (rr_view blk n) = node_id (d_rr n)"
  "mode (rr_view blk n) = mode (d_rr n)" "zf_xinfo (rr_view blk n) = zf_xinfo (d_rr n)"
  "streams (rr_view blk n) = streams (d_rr n)" "from_old_session (rr_view blk n) = from_old_session (d_rr n)"
  "real_parent (rr_view blk n) = map_option blk (d_real_parent n)"
  by (simp_all add: rr_view_def)

lemma num_aapt_view [simp]: "num_aapt t (rr_view blk n) = num_aapt t (d_rr n)"
  by (simp only: num_aapt_def rr_view_simps)

lemma aa_account_view [simp]: "aa_account t (rr_view blk n) room = aa_account t (d_rr n) room"
  by (simp only: aa_account_def num_aapt_view)

lemma zf_wanted_view [simp]: "zf_wanted t (rr_view blk n) = zf_wanted t (d_rr n)"
  by (simp only: zf_wanted_def rr_view_simps)

lemma zf_account_view [simp]: "zf_account t (rr_view blk n) room = zf_account t (d_rr n) room"
  by (simp only: zf_account_def zf_wanted_view)

lemma fixed_len_view: "calc_fixed_len t (rr_view blk n) type = calc_fixed_len t (rr_view no_blk n) type"
proof -
  have "ecma119_is_dedicated_reloc_dir t (rr_view blk n) = ecma119_is_dedicated_reloc_dir t (rr_view no_blk n)"
    "is_device (rr_view blk n) = is_device (rr_view no_blk n)"
    by (simp_all only: ecma119_is_dedicated_reloc_dir_def is_device_def rr_view_simps)
  then show ?thesis
    by (cases "d_type n"; cases "d_real_parent n") (simp_all add: calc_fixed_len_def)
qed

lemma calc_nm_sl_al_view: "susp_calc_nm_sl_al t (rr_view blk n) sp su ce ca = susp_calc_nm_sl_al t (d_rr n) sp su ce ca"
  by (simp only: susp_calc_nm_sl_al_def rr_view_simps zf_account_view aa_account_view num_aapt_view)

lemma calc_len_view: "rrip_calc_len t (rr_view blk n) r type u = rrip_calc_len t (rr_view no_blk n) r type u"
  by (simp only: rrip_calc_len_def fixed_len_view [of t blk] calc_nm_sl_al_view aa_account_view)

lemma node_ok_view: "node_ok t (rr_view blk n) type u = node_ok t (rr_view no_blk n) type u"
  by (simp add: node_ok_def attrs_ok_def fixed_len_view [of t blk])

section \<open>One record\<close>

text \<open>Where the bytes go: \<open>iso_write\<close> appends them to the image.\<close>

definition collect :: "byte list writer" where
  "collect buf out = (Inr (), out @ buf)"

text \<open>The entries of a record were made, from the state \<open>s\<close> to \<open>s'\<close>.\<close>

definition made :: "dir_image \<Rightarrow> rr_node \<Rightarrow> rr_node option \<Rightarrow> nat \<Rightarrow> nat \<Rightarrow> susp_info \<Rightarrow> susp_info \<Rightarrow> bool" where
  "made t n par type used_up s s' \<longleftrightarrow>
     (if rockridge t then rrip_get_susp_fields (rr_opts t) n par type used_up s = (Inr (), s') else s' = s)"

definition cleared :: "susp_info \<Rightarrow> susp_info" where
  "cleared s = s\<lparr>susp_fields := [], suf_len := 0\<rparr>"

lemma cleared_simps [simp]:
  "susp_fields (cleared s) = []" "suf_len (cleared s) = 0" "ce_susp_fields (cleared s) = ce_susp_fields s"
  "ce_len (cleared s) = ce_len s" "ce_block (cleared s) = ce_block s" "corrupt (cleared s) = corrupt s"
  "mem_left (cleared s) = mem_left s"
  by (simp_all add: cleared_def)

definition clean :: "susp_info \<Rightarrow> bool" where
  "clean s \<longleftrightarrow> susp_fields s = [] \<and> suf_len s = 0"

lemma clean_cleared [simp]: "clean (cleared s)"
  by (simp add: clean_def)

text \<open>What the prediction says of a record: the size of its entries in the record and in the continuation area.\<close>

definition predicted :: "dir_image \<Rightarrow> rr_node \<Rightarrow> bool \<Rightarrow> nat \<Rightarrow> nat \<Rightarrow> nat \<times> nat" where
  "predicted t n is_root type used_up = (if rockridge t then rr_len t n is_root type used_up 0 else (0, 0))"

lemma predicted_view: "predicted t (rr_view blk n) r type u = predicted t (rr_view no_blk n) r type u"
  by (simp only: predicted_def rr_len_def calc_len_view [of _ blk])

lemma made_facts:
  assumes made: "made t n par type used_up s s'" "\<not> corrupt s'" "clean s"
    and ok: "rockridge t \<Longrightarrow> node_ok (rr_opts t) n type used_up" "used_up \<le> 254"
  obtains su ce cs where "predicted t n (par = None) type used_up = (su, ce)"
    "rockridge t \<Longrightarrow> rr_len t n (par = None) type used_up x = (su, ce)"
    "\<not> rockridge t \<Longrightarrow> su = 0" "\<not> rockridge t \<Longrightarrow> ce = 0"
    "suf_len s' = su" "su = total (susp_fields s') + total (susp_fields s') mod 2" "list_all sized (susp_fields s')"
    "ce_susp_fields s' = ce_susp_fields s @ cs" "total cs = ce" "list_all sized cs"
    "ce_len s' = ce_len s + word_of_nat ce" "ce_block s' = ce_block s"
    "type = 0 \<longrightarrow> used_up + su \<le> 254" "type \<noteq> 0 \<longrightarrow> su \<le> 136"
proof (cases "rockridge t")
  case True
  then have "rrip_get_susp_fields (rr_opts t) n par type used_up s = (Inr (), s')" "susp_fields s = []" "suf_len s = 0"
    using made(1,3) by (simp_all add: made_def clean_def)
  note p = rr_prediction [OF this(1) made(2) this(2,3) ok(1) [OF True]]
  show thesis by (rule p, rule that) (simp_all add: predicted_def rr_len_def True)
next
  case False
  then show thesis using made ok(2) by (intro that [of 0 0 "[]"]) (simp_all add: made_def predicted_def clean_def)
qed

lemma made_corrupt: "made t n par type u s s' \<Longrightarrow> corrupt s \<Longrightarrow> corrupt s'"
  by (auto simp: made_def split: if_splits dest: keepsD [OF keeps_get_susp_fields])

definition record_bytes :: "dir_image \<Rightarrow> dtree \<Rightarrow> dtree option \<Rightarrow> nat option \<Rightarrow> nat \<Rightarrow> nat \<Rightarrow> susp_info \<Rightarrow> byte list" where
  "record_bytes t node par file_id len_fi extent s =
     record_header t node par file_id len_fi (suf_len s) extent @ concat (susp_fields s) @
     replicate (suf_len s - total (susp_fields s)) 0"

lemma write_susp_fields_sized:
  assumes "list_all sized (susp_fields s)" "susp_fields s = [] \<longrightarrow> suf_len s = 0"
  shows "rrip_write_susp_fields s = (concat (susp_fields s), cleared s)"
proof (cases "susp_fields s = []")
  case True
  with assms have "s\<lparr>susp_fields := [], suf_len := 0\<rparr> = s" by (cases s) simp
  then show ?thesis using True by (simp add: rrip_write_susp_fields_def cleared_def)
next
  case False
  then show ?thesis using written_fields [OF assms(1)] by (simp add: rrip_write_susp_fields_def cleared_def)
qed

lemma put_record_bytes:
  assumes "list_all sized (susp_fields s)" "suf_len s = total (susp_fields s) + total (susp_fields s) mod 2"
    and "len = length (record_header t node par file_id len_fi (suf_len s) extent) + suf_len s"
    and "write_one_dir_record t node par file_id len_fi (Some s) extent = (rec, info)"
  shows "put_record cur len rec = cur @ record_bytes t node par file_id len_fi extent s" "info = Some (cleared s)"
    "length (record_bytes t node par file_id len_fi extent s) = len"
proof -
  have w: "rrip_write_susp_fields s = (concat (susp_fields s), cleared s)"
    by (rule write_susp_fields_sized [OF assms(1)]) (simp add: assms(2))
  then have r: "rec = record_header t node par file_id len_fi (suf_len s) extent @ concat (susp_fields s)"
    "info = Some (cleared s)" using assms(4) by (auto simp: write_one_dir_record_def)
  then show "put_record cur len rec = cur @ record_bytes t node par file_id len_fi extent s" "info = Some (cleared s)"
    by (simp_all add: put_record_def record_bytes_def assms(3) length_concat_total)
  show "length (record_bytes t node par file_id len_fi extent s) = len"
    by (simp add: record_bytes_def assms(3) length_concat_total assms(2))
qed

lemma length_datetime_7 [simp]: "length (iso_datetime_7 z x g) = 7"
  by (simp add: iso_datetime_7_def Let_def split: prod.split)

lemma length_version: "length (if b then str ''1'' else []) = (if b then 1 else 0)"
  by simp

lemma length_header:
  "length (record_header t node par file_id len_fi suf extent) =
     33 + length (take len_fi (case file_id of Some i \<Rightarrow> [word_of_nat i] | None \<Rightarrow> name_bytes node)) +
     (if need_version_number t node then 2 else 0) + (if len_fi mod 2 = 1 then 0 else 1)"
  by (simp add: record_header_def Let_def split: prod.split)

lemma header_None: "len_fi = length (name_bytes node) \<Longrightarrow> d_name node \<noteq> None \<Longrightarrow>
  length (record_header t node par None len_fi suf extent) = calc_dirent_len t node"
proof -
  assume a: "len_fi = length (name_bytes node)" "d_name node \<noteq> None"
  then obtain s where "d_name node = Some s" by auto
  then have "len_fi = length s" "name_bytes node = s" using a by (simp_all add: name_bytes_def)
  then show ?thesis using \<open>d_name node = Some s\<close>
    by (cases "even (length s)"; cases "need_version_number t node")
      (simp_all add: length_header calc_dirent_len_def Let_def even_iff_mod_2_eq_zero odd_iff_mod_2_eq_one mod_add_eq [symmetric])
qed

lemma header_dot: "\<not> need_version_number t node \<Longrightarrow> length (record_header t node par (Some i) 1 suf extent) = 34"
  by (simp add: length_header)

text \<open>A record goes into the block in the buffer if it fits.\<close>

definition fill_block :: "byte list \<times> byte list \<Rightarrow> byte list \<Rightarrow> byte list \<times> byte list" where
  "fill_block st rec =
     (if length (fst st) + length rec > 2048 then (rec, snd st @ whole_block (fst st)) else (fst st @ rec, snd st))"

definition child_ok :: "dir_image \<Rightarrow> dtree \<Rightarrow> bool" where
  "child_ok t c \<longleftrightarrow>
     d_name c \<noteq> None \<and> calc_dirent_len t c \<le> 254 \<and>
     (rockridge t \<longrightarrow> node_ok (rr_opts t) (rr_view no_blk c) 0 (calc_dirent_len t c))"

lemma write_record_collect:
  assumes w: "write_record t blk collect dir child sec cur info out = (Inr cur', info', out')"
    and "\<not> corrupt info'" "clean info" "child_ok t child"
  obtains s' where "made t (rr_view blk child) (Some (rr_view blk dir)) 0 (calc_dirent_len t child) info s'"
    "info' = cleared s'"
    "(cur', out') = fill_block (cur, out) (record_bytes t child (Some dir) None (length (name_bytes child)) sec s')"
    "length (record_bytes t child (Some dir) None (length (name_bytes child)) sec s') = calc_dirent_len t child + suf_len s'"
proof -
  let ?fi = "length (name_bytes child)"
  let ?len = "?fi + 33 + (if ?fi mod 2 = 1 then 0 else 1) + (if need_version_number t child then 2 else 0)"
  have hl: "length (record_header t child (Some dir) None ?fi suf sec) = calc_dirent_len t child" for suf
    using header_None [OF refl] assms(4) by (simp add: child_ok_def)
  then have len: "?len = calc_dirent_len t child" by (simp add: length_header)
  obtain s' where s': "(if rockridge t
       then rrip_get_susp_fields (rr_opts t) (rr_view blk child) (Some (rr_view blk dir)) 0 (calc_dirent_len t child) info
       else (Inr (), info)) = (Inr (), s')"
    using w unfolding write_record_def Let_def len by (auto split: prod.splits sum.splits if_splits)
  then have made: "made t (rr_view blk child) (Some (rr_view blk dir)) 0 (calc_dirent_len t child) info s'"
    by (auto simp: made_def split: if_splits)
  have suf: "\<not> rockridge t \<Longrightarrow> suf_len s' = 0" using s' assms(3) by (auto simp: clean_def)
  let ?n = "calc_dirent_len t child + suf_len s'"
  obtain rec info2 where rec: "write_one_dir_record t child (Some dir) None ?fi (Some s') sec = (rec, info2)" by fastforce
  have c: "info' = the info2" "(cur', out') = (if length cur + ?n > 2048 then (put_record [] ?n rec, out @ whole_block cur)
      else (put_record cur ?n rec, out))"
    using w suf unfolding write_record_def Let_def len s' by (auto simp: rec collect_def split: if_splits)
  have "\<not> corrupt s'"
  proof
    assume "corrupt s'"
    then have "corrupt (the info2)" using rec by (auto simp: write_one_dir_record_def rrip_write_susp_fields_def split: if_splits)
    then show False using c(1) assms(2) by simp
  qed
  then obtain su ce cs where f: "suf_len s' = su" "su = total (susp_fields s') + total (susp_fields s') mod 2" "list_all sized (susp_fields s')"
    using made_facts [OF made] assms(3,4) node_ok_view by (metis child_ok_def)
  note p = put_record_bytes [OF f(3) f(2) [folded f(1)] _ rec, unfolded hl, OF refl]
  show thesis
    by (rule that [OF made]) (use c p in \<open>auto simp: fill_block_def put_record_def\<close>)
qed

section \<open>All records of a directory\<close>

text \<open>The records \<open>recs\<close> were made for the list \<open>xs\<close> of children and sections.\<close>

inductive records_made :: "dir_image \<Rightarrow> (nat \<Rightarrow> u32) \<Rightarrow> dtree \<Rightarrow> (dtree \<times> nat) list \<Rightarrow> susp_info \<Rightarrow> byte list list \<Rightarrow> susp_info \<Rightarrow> bool"
  for t blk dir where
  rm_Nil: "records_made t blk dir [] s [] s"
| rm_Cons: "made t (rr_view blk c) (Some (rr_view blk dir)) 0 (calc_dirent_len t c) s s' \<Longrightarrow>
    records_made t blk dir xs (cleared s') recs s'' \<Longrightarrow>
    records_made t blk dir ((c, k) # xs) s (record_bytes t c (Some dir) None (length (name_bytes c)) k s' # recs) s''"

inductive_cases records_made_ConsE: "records_made t blk dir ((c, k) # xs) s recs s''"
inductive_cases records_made_NilE: "records_made t blk dir [] s recs s''"

lemma records_made_corrupt: "records_made t blk dir xs s recs s' \<Longrightarrow> corrupt s \<Longrightarrow> corrupt s'"
  by (induction rule: records_made.induct) (auto dest: made_corrupt)

lemma records_made_clean: "records_made t blk dir xs s recs s' \<Longrightarrow> clean s \<Longrightarrow> clean s'"
  by (induction rule: records_made.induct) auto

lemma write_record_corrupt:
  "write_record t blk put dir child sec cur info w = (r, info', w') \<Longrightarrow> corrupt info \<Longrightarrow> corrupt info'"
  by (auto simp: write_record_def Let_def write_one_dir_record_def rrip_write_susp_fields_def
      split: prod.splits sum.splits if_splits dest!: keepsD [OF keeps_get_susp_fields])

lemma write_records_corrupt:
  "write_records t blk put dir xs cur info w = (r, info', w') \<Longrightarrow> corrupt info \<Longrightarrow> corrupt info'"
proof (induction xs arbitrary: cur info w)
  case (Cons x xs)
  then show ?case by (auto split: prod.splits sum.splits dest: write_record_corrupt)
qed simp

lemma write_records_collect:
  "write_records t blk collect dir xs cur info out = (Inr cur', info', out') \<Longrightarrow> \<not> corrupt info' \<Longrightarrow> clean info \<Longrightarrow>
   list_all (\<lambda>x. child_ok t (fst x)) xs \<Longrightarrow>
   \<exists>recs. records_made t blk dir xs info recs info' \<and> (cur', out') = foldl fill_block (cur, out) recs"
proof (induction xs arbitrary: cur info out)
  case Nil
  then show ?case by (intro exI [of _ "[]"]) (simp add: rm_Nil)
next
  case (Cons x xs)
  obtain c k where x: "x = (c, k)" by fastforce
  obtain cur1 info1 out1 where w: "write_record t blk collect dir c k cur info out = (Inr cur1, info1, out1)"
    "write_records t blk collect dir xs cur1 info1 out1 = (Inr cur', info', out')"
    using Cons.prems(1) x by (auto split: prod.splits sum.splits)
  have nc: "\<not> corrupt info1" using write_records_corrupt [OF w(2)] Cons.prems(2) by blast
  have ok: "child_ok t c" using Cons.prems(4) x by simp
  obtain s' where s': "made t (rr_view blk c) (Some (rr_view blk dir)) 0 (calc_dirent_len t c) info s'"
    "info1 = cleared s'"
    "(cur1, out1) = fill_block (cur, out) (record_bytes t c (Some dir) None (length (name_bytes c)) k s')"
    using write_record_collect [OF w(1) nc Cons.prems(3) ok] by metis
  have "clean info1" by (simp add: s'(2))
  then obtain recs where "records_made t blk dir xs info1 recs info'" "(cur', out') = foldl fill_block (cur1, out1) recs"
    using Cons.IH [OF w(2) Cons.prems(2)] Cons.prems(4) by auto
  then show ?case using s' x rm_Cons [OF s'(1)]
    by (intro exI [of _ "record_bytes t c (Some dir) None (length (name_bytes c)) k s' # recs"]) simp
qed

text \<open>The sizes that were predicted for a record.\<close>

definition child_sizes :: "dir_image \<Rightarrow> dtree \<Rightarrow> nat \<times> nat" where
  "child_sizes t c = predicted t (rr_view no_blk c) False 0 (calc_dirent_len t c)"

definition record_size :: "dir_image \<Rightarrow> dtree \<times> nat \<Rightarrow> nat" where
  "record_size t x = calc_dirent_len t (fst x) + fst (child_sizes t (fst x))"

definition area_size :: "dir_image \<Rightarrow> (dtree \<times> nat) list \<Rightarrow> nat" where
  "area_size t xs = sum_list (map (\<lambda>x. snd (child_sizes t (fst x))) xs)"

lemma area_size_simps [simp]:
  "area_size t [] = 0" "area_size t (x # xs) = snd (child_sizes t (fst x)) + area_size t xs"
  by (simp_all add: area_size_def)

text \<open>The continuation area grew by the entries \<open>cs\<close>.\<close>

definition area_grows :: "byte list list \<Rightarrow> susp_info \<Rightarrow> susp_info \<Rightarrow> bool" where
  "area_grows cs s s' \<longleftrightarrow>
     ce_susp_fields s' = ce_susp_fields s @ cs \<and> list_all sized cs \<and>
     ce_len s' = ce_len s + word_of_nat (total cs) \<and> ce_block s' = ce_block s"

lemma area_grows_Nil: "area_grows [] s s"
  by (simp add: area_grows_def)

lemma area_grows_trans: "area_grows cs s s' \<Longrightarrow> area_grows ds s' s'' \<Longrightarrow> area_grows (cs @ ds) s s''"
  by (simp add: area_grows_def)

lemma area_grows_cleared [simp]: "area_grows cs s (cleared s') = area_grows cs s s'" "area_grows cs (cleared s) s' = area_grows cs s s'"
  by (simp_all add: area_grows_def)

lemma record_facts:
  assumes made: "made t (rr_view blk c) (Some (rr_view blk dir)) 0 (calc_dirent_len t c) s s'"
    and "\<not> corrupt s'" "clean s" "child_ok t c"
  obtains cs where "length (record_bytes t c (Some dir) None (length (name_bytes c)) k s') = record_size t (c, k)"
    "suf_len s' = fst (child_sizes t c)" "list_all sized (susp_fields s')"
    "suf_len s' = total (susp_fields s') + total (susp_fields s') mod 2"
    "record_size t (c, k) \<le> 254" "area_grows cs s s'" "total cs = snd (child_sizes t c)"
    "rockridge t \<Longrightarrow> rr_len t (rr_view no_blk c) False 0 (calc_dirent_len t c) x = child_sizes t c"
    "\<not> rockridge t \<Longrightarrow> child_sizes t c = (0, 0)"
proof -
  have ok: "rockridge t \<Longrightarrow> node_ok (rr_opts t) (rr_view blk c) 0 (calc_dirent_len t c)" "calc_dirent_len t c \<le> 254"
    using assms(4) by (auto simp: child_ok_def node_ok_view [of _ blk])
  obtain su ce cs where f: "predicted t (rr_view blk c) (Some (rr_view blk dir) = None) 0 (calc_dirent_len t c) = (su, ce)"
    "rockridge t \<Longrightarrow> rr_len t (rr_view blk c) (Some (rr_view blk dir) = None) 0 (calc_dirent_len t c) x = (su, ce)"
    "\<not> rockridge t \<Longrightarrow> su = 0" "\<not> rockridge t \<Longrightarrow> ce = 0"
    "suf_len s' = su" "su = total (susp_fields s') + total (susp_fields s') mod 2" "list_all sized (susp_fields s')"
    "ce_susp_fields s' = ce_susp_fields s @ cs" "total cs = ce" "list_all sized cs"
    "ce_len s' = ce_len s + word_of_nat ce" "ce_block s' = ce_block s"
    "(0 :: nat) = 0 \<longrightarrow> calc_dirent_len t c + su \<le> 254"
    using made_facts [OF made assms(2,3) ok] by metis
  have sz: "child_sizes t c = (su, ce)" using f(1) by (simp add: child_sizes_def predicted_view [of _ blk])
  have len: "length (record_bytes t c (Some dir) None (length (name_bytes c)) k s') = calc_dirent_len t c + su"
    using header_None [OF refl, of c t "Some dir" "suf_len s'" k] assms(4) f(5,6)
    by (simp add: record_bytes_def length_concat_total child_ok_def)
  show thesis
    by (rule that [of cs]) (use f sz len in \<open>auto simp: record_size_def area_grows_def rr_len_def calc_len_view [of _ blk]\<close>)
qed

lemma records_sizes:
  "records_made t blk dir xs s recs s' \<Longrightarrow> \<not> corrupt s' \<Longrightarrow> clean s \<Longrightarrow> list_all (\<lambda>x. child_ok t (fst x)) xs \<Longrightarrow>
   map length recs = map (record_size t) xs \<and> list_all (\<lambda>x. record_size t x \<le> 254) xs \<and>
   (\<exists>cs. area_grows cs s s' \<and> total cs = area_size t xs) \<and>
   foldl (calc_child t) (len, celen, ce) (map fst xs) =
     (foldl add_dirent len (map (record_size t) xs), fst (snd (foldl (calc_child t) (len, celen, ce) (map fst xs))), ce + area_size t xs)"
proof (induction xs s recs s' arbitrary: len celen ce rule: records_made.induct)
  case (rm_Nil s)
  then show ?case using area_grows_Nil [of s] by (auto simp: total_def intro!: exI [of _ "[]"])
next
  case (rm_Cons c s s1 xs recs s' k)
  have nc: "\<not> corrupt s1" using records_made_corrupt [OF rm_Cons.hyps(2)] rm_Cons.prems(1) by auto
  have ok: "child_ok t c" "list_all (\<lambda>x. child_ok t (fst x)) xs" using rm_Cons.prems(3) by simp_all
  have r: "\<exists>cs. length (record_bytes t c (Some dir) None (length (name_bytes c)) k s1) = record_size t (c, k) \<and>
      record_size t (c, k) \<le> 254 \<and> area_grows cs s s1 \<and> total cs = snd (child_sizes t c) \<and>
      (rockridge t \<longrightarrow> rr_len t (rr_view no_blk c) False 0 (calc_dirent_len t c) celen = child_sizes t c) \<and>
      (\<not> rockridge t \<longrightarrow> child_sizes t c = (0, 0))"
    by (rule record_facts [OF rm_Cons.hyps(1) nc rm_Cons.prems(2) ok(1), where k = k and x = celen]) blast
  then obtain cs where cs: "length (record_bytes t c (Some dir) None (length (name_bytes c)) k s1) = record_size t (c, k)"
      "record_size t (c, k) \<le> 254" "area_grows cs s s1" "total cs = snd (child_sizes t c)"
      "rockridge t \<Longrightarrow> rr_len t (rr_view no_blk c) False 0 (calc_dirent_len t c) celen = child_sizes t c"
      "\<not> rockridge t \<Longrightarrow> child_sizes t c = (0, 0)" by blast
  let ?celen = "if rockridge t then snd (child_sizes t c) else celen"
  have step: "calc_child t (len, celen, ce) c = (add_dirent len (record_size t (c, k)), ?celen, ce + snd (child_sizes t c))"
    using cs(5,6) by (cases "rockridge t") (simp_all add: calc_child_def Let_def record_size_def split: prod.split)
  note ih = rm_Cons.IH [OF rm_Cons.prems(1) clean_cleared ok(2), of "add_dirent len (record_size t (c, k))" ?celen "ce + snd (child_sizes t c)"]
  from ih obtain ds where "area_grows ds s1 s'" "total ds = area_size t xs" by auto
  with cs(3,4) have "\<exists>cs. area_grows cs s s' \<and> total cs = area_size t ((c, k) # xs)"
    using area_grows_trans by (intro exI [of _ "cs @ ds"]) (auto simp: total_def)
  then show ?case using ih cs(1,2) step by (simp add: algebra_simps)
qed

section \<open>Blocks\<close>

text \<open>The bytes of a directory with the records \<open>recs\<close>.\<close>

definition dir_extent :: "byte list list \<Rightarrow> byte list" where
  "dir_extent recs = (case foldl fill_block ([], []) recs of (cur, out) \<Rightarrow> out @ whole_block cur)"

lemma fill_block_shift: "fill_block (cur, out @ o1) rec = (fst (fill_block (cur, o1) rec), out @ snd (fill_block (cur, o1) rec))"
  by (simp add: fill_block_def)

lemma fill_shift: "foldl fill_block (cur, out @ o1) recs = (fst (foldl fill_block (cur, o1) recs), out @ snd (foldl fill_block (cur, o1) recs))"
proof (induction recs arbitrary: cur o1)
  case (Cons r recs)
  obtain c o2 where f: "fill_block (cur, o1) r = (c, o2)" by fastforce
  then show ?case using Cons [of c o2] fill_block_shift [of cur out o1 r] by simp
qed simp

lemma length_whole_block: "length cur \<le> 2048 \<Longrightarrow> length (whole_block cur) = 2048"
  by (simp add: whole_block_def)

lemma fill_sizes:
  "foldl fill_block (cur, out) recs = (cur', out') \<Longrightarrow> list_all (\<lambda>r. r \<noteq> [] \<and> length r \<le> 2048) recs \<Longrightarrow>
   0 < length cur \<Longrightarrow> length cur \<le> 2048 \<Longrightarrow> 2048 dvd length out \<Longrightarrow>
   0 < length cur' \<and> length cur' \<le> 2048 \<and> 2048 dvd length out' \<and>
   foldl add_dirent (length out + length cur) (map length recs) = length out' + length cur'"
proof (induction recs arbitrary: cur out)
  case (Cons r recs)
  have r: "0 < length r" "length r \<le> 2048" and rest: "list_all (\<lambda>r. r \<noteq> [] \<and> length r \<le> 2048) recs" using Cons.prems(2) by simp_all
  obtain q where q: "length out = 2048 * q" using Cons.prems(5) by (rule dvdE)
  show ?case
  proof (cases "length cur + length r > 2048")
    case True
    then have f: "fill_block (cur, out) r = (r, out @ whole_block cur)" by (simp add: fill_block_def)
    have "foldl fill_block (r, out @ whole_block cur) recs = (cur', out')" using Cons.prems(1) f by simp
    from Cons.IH [OF this rest r] q length_whole_block [OF Cons.prems(4)]
    have ih: "0 < length cur' \<and> length cur' \<le> 2048 \<and> 2048 dvd length out' \<and>
      foldl add_dirent (length out + 2048 + length r) (map length recs) = length out' + length cur'" by simp
    have "add_dirent (length out + length cur) (length r) = length out + 2048 + length r"
    proof (cases "length cur = 2048")
      case True
      then show ?thesis using q r(2) by (simp add: add_dirent_def Let_def)
    next
      case False
      then have "(length out + length cur) mod 2048 = length cur" using q Cons.prems(4) by simp
      moreover have "2048 - length cur < length r" using \<open>length cur + length r > 2048\<close> False Cons.prems(4) by linarith
      ultimately show ?thesis using Cons.prems(4) by (simp add: add_dirent_def Let_def)
    qed
    then show ?thesis using ih by simp
  next
    case False
    then have f: "fill_block (cur, out) r = (cur @ r, out)" by (simp add: fill_block_def)
    have "foldl fill_block (cur @ r, out) recs = (cur', out')" using Cons.prems(1) f by simp
    from Cons.IH [OF this rest] False Cons.prems(5) r
    have ih: "0 < length cur' \<and> length cur' \<le> 2048 \<and> 2048 dvd length out' \<and>
      foldl add_dirent (length out + length (cur @ r)) (map length recs) = length out' + length cur'" by simp
    have "length cur < 2048" using False r(1) by linarith
    then have "(length out + length cur) mod 2048 = length cur" using q by simp
    then have "add_dirent (length out + length cur) (length r) = length out + length (cur @ r)"
      using False by (simp add: add_dirent_def Let_def)
    then show ?thesis using ih by simp
  qed
qed simp

lemma DIV_UP_block: "2048 dvd n \<Longrightarrow> 0 < k \<Longrightarrow> k \<le> 2048 \<Longrightarrow> DIV_UP (n + k) 2048 * 2048 = n + 2048"
proof -
  assume a: "2048 dvd n" "0 < k" "k \<le> 2048"
  then obtain q where q: "n = 2048 * q" by (rule_tac dvdE)
  have "(2048 * q + k + 2048 - 1) div 2048 = q + 1" using a(2,3)
    by (intro div_nat_eqI) auto
  then show ?thesis unfolding DIV_UP_def q by simp
qed

lemma length_dir_extent:
  assumes "list_all (\<lambda>r. r \<noteq> [] \<and> length r \<le> 2048) recs" "0 < length d1" "0 < length d2" "length d1 + length d2 \<le> 2048"
  shows "length (dir_extent (d1 # d2 # recs)) =
     DIV_UP (foldl add_dirent (length d1 + length d2) (map length recs)) 2048 * 2048"
proof -
  obtain cur out where f: "foldl fill_block (d1 @ d2, []) recs = (cur, out)" by fastforce
  note s = fill_sizes [OF f assms(1)]
  have "0 < length cur \<and> length cur \<le> 2048 \<and> 2048 dvd length out \<and>
      foldl add_dirent (length d1 + length d2) (map length recs) = length out + length cur"
    using s assms(2-4) by simp
  moreover have "dir_extent (d1 # d2 # recs) = out @ whole_block cur"
    using assms(4) f by (simp add: dir_extent_def fill_block_def)
  ultimately show ?thesis using length_whole_block [of cur] DIV_UP_block [of "length out" "length cur"] by simp
qed

section \<open>One directory\<close>

definition dir_ok :: "dir_image \<Rightarrow> dtree \<Rightarrow> bool" where
  "dir_ok t dir \<longleftrightarrow>
     d_type dir = ECMA119_DIR \<and> list_all (child_ok t) (d_children dir) \<and> (rockridge t \<longrightarrow> attrs_ok (d_rr dir))"

lemma records_of_ok: "dir_ok t dir \<Longrightarrow> list_all (\<lambda>x. child_ok t (fst x)) (records_of (d_children dir))"
  by (auto simp: dir_ok_def records_of_def list_all_iff)

lemma attrs_ok_view [simp]: "attrs_ok (rr_view blk n) = attrs_ok (d_rr n)"
  by (simp only: attrs_ok_def rr_view_simps)

lemma dot_node_ok: "dir_ok t dir \<Longrightarrow> rockridge t \<Longrightarrow> type \<noteq> 0 \<Longrightarrow> node_ok (rr_opts t) (rr_view blk dir) type 34"
  by (simp add: dir_ok_def node_ok_def)

lemma no_version_dir: "d_type n = ECMA119_DIR \<Longrightarrow> \<not> need_version_number t n"
  by (simp add: need_version_number_def)

text \<open>The records of \<open>.\<close> and \<open>..\<close>.\<close>

definition dot_nodes :: "dtree \<Rightarrow> dtree option \<Rightarrow> dtree" where
  "dot_nodes dir up = (case up of Some p \<Rightarrow> p | None \<Rightarrow> dir)"

definition dots_made :: "dir_image \<Rightarrow> (nat \<Rightarrow> u32) \<Rightarrow> dtree \<Rightarrow> dtree option \<Rightarrow> dtree option \<Rightarrow> susp_info \<Rightarrow>
    byte list \<Rightarrow> byte list \<Rightarrow> susp_info \<Rightarrow> bool" where
  "dots_made t blk dir up upup s d1 d2 s'' \<longleftrightarrow>
     (\<exists>s1 s2. made t (rr_view blk dir) (map_option (rr_view blk) up) 1 34 s s1 \<and>
        made t (rr_view blk dir) (map_option (rr_view blk) up) 2 34 (cleared s1) s2 \<and>
        d1 = record_bytes t dir up (Some 0) 1 0 s1 \<and> d2 = record_bytes t (dot_nodes dir up) upup (Some 1) 1 0 s2 \<and>
        s'' = cleared s2)"

definition dot_sizes :: "dir_image \<Rightarrow> bool \<Rightarrow> dtree \<Rightarrow> nat \<Rightarrow> nat \<times> nat" where
  "dot_sizes t is_root dir type = predicted t (rr_view no_blk dir) is_root type 34"

lemma dot_bound: "(34 :: nat) \<le> 254" by simp

lemma dot_facts:
  assumes made: "made t (rr_view blk dir) par type 34 s s'" "\<not> corrupt s'" "clean s" "type \<noteq> 0"
    and ok: "dir_ok t dir" "d_type n = ECMA119_DIR"
  shows "\<exists>cs. length (record_bytes t n p (Some i) 1 0 s') = 34 + fst (dot_sizes t (par = None) dir type) \<and>
    list_all sized (susp_fields s') \<and> suf_len s' = total (susp_fields s') + total (susp_fields s') mod 2 \<and>
    suf_len s' = fst (dot_sizes t (par = None) dir type) \<and> suf_len s' \<le> 136 \<and>
    area_grows cs s s' \<and> total cs = snd (dot_sizes t (par = None) dir type) \<and>
    (rockridge t \<longrightarrow> rr_len t (rr_view no_blk dir) (par = None) type 34 x = dot_sizes t (par = None) dir type) \<and>
    (\<not> rockridge t \<longrightarrow> dot_sizes t (par = None) dir type = (0, 0))"
proof -
  obtain su ce cs where f: "predicted t (rr_view blk dir) (par = None) type 34 = (su, ce)"
    "rockridge t \<Longrightarrow> rr_len t (rr_view blk dir) (par = None) type 34 x = (su, ce)"
    "\<not> rockridge t \<Longrightarrow> su = 0" "\<not> rockridge t \<Longrightarrow> ce = 0"
    "suf_len s' = su" "su = total (susp_fields s') + total (susp_fields s') mod 2" "list_all sized (susp_fields s')"
    "ce_susp_fields s' = ce_susp_fields s @ cs" "total cs = ce" "list_all sized cs"
    "ce_len s' = ce_len s + word_of_nat ce" "ce_block s' = ce_block s" "type \<noteq> 0 \<longrightarrow> su \<le> 136"
    using made_facts [OF made(1-3), where x = x] dot_node_ok [OF ok(1) _ made(4)] by (metis dot_bound)
  have sz: "dot_sizes t (par = None) dir type = (su, ce)" using f(1) by (simp add: dot_sizes_def predicted_view [of _ blk])
  have len: "length (record_bytes t n p (Some i) 1 0 s') = 34 + su"
    using header_dot [OF no_version_dir [OF ok(2)], of t p i "suf_len s'" 0] f(5,6)
    by (simp add: record_bytes_def length_concat_total)
  have sz': "fst (dot_sizes t (par = None) dir type) = su" "snd (dot_sizes t (par = None) dir type) = ce" by (simp_all only: sz fst_conv snd_conv)
  have view: "rr_len t (rr_view no_blk dir) (par = None) type 34 x = rr_len t (rr_view blk dir) (par = None) type 34 x"
    by (simp only: rr_len_def calc_len_view [of _ blk])
  show ?thesis
  proof (intro exI [of _ cs] conjI)
    show "area_grows cs s s'" using f(8-12) by (simp only: area_grows_def)
    show "suf_len s' = total (susp_fields s') + total (susp_fields s') mod 2" by (simp only: f(5) f(6) [symmetric])
    show "rockridge t \<longrightarrow> rr_len t (rr_view no_blk dir) (par = None) type 34 x = dot_sizes t (par = None) dir type"
      using f(2) by (simp only: view sz) simp
    show "\<not> rockridge t \<longrightarrow> dot_sizes t (par = None) dir type = (0, 0)" using f(3,4) sz by simp
    show "suf_len s' \<le> 136" using f(5,13) made(4) by blast
  qed (simp_all only: sz' len f(5,7,9))
qed

lemma write_dir_record_corrupt:
  "write_one_dir_record t node par file_id len_fi (Some s) extent = (rec, info) \<Longrightarrow> corrupt s \<Longrightarrow> corrupt (the info)"
  by (auto simp: write_one_dir_record_def rrip_write_susp_fields_def split: if_splits)

lemma dot_records_made:
  assumes w: "dot_records t blk dir up upup info = (Inr cur, info')" "\<not> corrupt info'" "clean info"
    and ok: "dir_ok t dir" "\<And>p. up = Some p \<Longrightarrow> d_type p = ECMA119_DIR"
  obtains d1 d2 where "dots_made t blk dir up upup info d1 d2 info'" "cur = d1 @ d2"
proof -
  let ?par = "map_option (rr_view blk) up"
  let ?up = "dot_nodes dir up"
  have up: "d_type ?up = ECMA119_DIR" "d_type dir = ECMA119_DIR" using ok by (auto simp: dot_nodes_def dir_ok_def split: option.split)
  obtain s1 where s1: "(if rockridge t then rrip_get_susp_fields (rr_opts t) (rr_view blk dir) ?par 1 34 info else (Inr (), info)) = (Inr (), s1)"
    using w(1) unfolding dot_records_def Let_def by (auto simp del: One_nat_def split: prod.splits sum.splits)
  obtain r1 i1 where r1: "write_one_dir_record t dir up (Some 0) 1 (Some s1) 0 = (r1, i1)" by fastforce
  obtain s2 where s2: "(if rockridge t then rrip_get_susp_fields (rr_opts t) (rr_view blk dir) ?par 2 34 (the i1) else (Inr (), the i1)) = (Inr (), s2)"
    using w(1) unfolding dot_records_def Let_def s1 by (auto simp: r1 simp del: One_nat_def split: prod.splits sum.splits)
  obtain r2 i2 where r2: "write_one_dir_record t ?up upup (Some 1) 1 (Some s2) 0 = (r2, i2)" by fastforce
  have c: "info' = the i2" "cur = put_record (put_record [] (34 + suf_len s1) r1) (34 + suf_len s2) r2"
    using w(1) s2 r2 unfolding dot_records_def Let_def s1 dot_nodes_def by (simp_all add: r1 del: One_nat_def)
  have m2: "made t (rr_view blk dir) ?par 2 34 (the i1) s2" and m1: "made t (rr_view blk dir) ?par 1 34 info s1"
    using s1 s2 by (auto simp: made_def split: if_splits)
  have n2: "\<not> corrupt s2" using write_dir_record_corrupt [OF r2] c(1) w(2) by blast
  have n1: "\<not> corrupt s1" using made_corrupt [OF m2] n2 write_dir_record_corrupt [OF r1] by blast
  obtain cs1 where f1: "list_all sized (susp_fields s1)" "suf_len s1 = total (susp_fields s1) + total (susp_fields s1) mod 2"
    using dot_facts [OF m1 n1 w(3) _ ok(1) up(1)] by (metis one_neq_zero)
  note p1 = put_record_bytes [OF f1 _ r1, unfolded header_dot [OF no_version_dir [OF up(2)]], OF refl]
  have m2': "made t (rr_view blk dir) ?par 2 34 (cleared s1) s2" using m2 p1(2) by simp
  obtain cs2 where f2: "list_all sized (susp_fields s2)" "suf_len s2 = total (susp_fields s2) + total (susp_fields s2) mod 2"
    using dot_facts [OF m2' n2 clean_cleared _ ok(1) up(1)] by (metis zero_neq_numeral)
  note p2 = put_record_bytes [OF f2 _ r2, unfolded header_dot [OF no_version_dir [OF up(1)]], OF refl]
  show thesis
    by (rule that) (use m1 m2' c p1 p2 in \<open>auto simp: dots_made_def\<close>)
qed


text \<open>Continuation areas.\<close>

definition area_bytes :: "susp_info \<Rightarrow> byte list" where
  "area_bytes s =
     concat (ce_susp_fields s) @ replicate (DIV_UP (total (ce_susp_fields s)) 2048 * 2048 - total (ce_susp_fields s)) 0"

lemma DIV_UP_blocks: "DIV_UP n 2048 * 2048 = (if n mod 2048 = 0 then n else n + (2048 - n mod 2048))"
proof -
  define q r where "q = n div 2048" and "r = n mod 2048"
  have n: "n = 2048 * q + r" and r: "r < 2048" by (simp_all add: q_def r_def)
  have "(2048 * q + r + 2048 - 1) div 2048 = (if r = 0 then q else q + 1)"
    using r by (auto intro!: div_nat_eqI)
  moreover have "(2048 * q + r) mod 2048 = r" using r by simp
  ultimately show ?thesis unfolding DIV_UP_def n using r by simp
qed

lemma DIV_UP_ge: "n \<le> DIV_UP n 2048 * 2048"
  unfolding DIV_UP_blocks by auto

lemma length_area_bytes: "length (area_bytes s) = DIV_UP (total (ce_susp_fields s)) 2048 * 2048"
  using DIV_UP_ge [of "total (ce_susp_fields s)"] by (simp add: area_bytes_def length_concat_total)

lemma DIV_UP_pad: "DIV_UP n 2048 * 2048 - n = (if n mod 2048 = 0 then 0 else 2048 - n mod 2048)"
  by (simp add: DIV_UP_blocks)

lemma write_ce_fields_collect:
  assumes "rrip_write_ce_fields collect s out = (Inr (), out', s')" "list_all sized (ce_susp_fields s)"
    and "ce_len s = word_of_nat (total (ce_susp_fields s))" "total (ce_susp_fields s) < 2 ^ 32"
  shows "out' = out @ area_bytes s" "corrupt s' = corrupt s"
proof -
  have w: "write_fields collect (ce_susp_fields s) out = (Inr (), out @ concat (ce_susp_fields s))"
    using write_fields_sink [OF assms(2), of out] by (simp add: collect_def [abs_def])
  have n: "unat (ce_len s) = total (ce_susp_fields s)"
    using assms(3,4) by (simp add: unat_of_nat take_bit_nat_eq_self)
  have "DIV_UP (total (ce_susp_fields s)) 2048 * 2048 - total (ce_susp_fields s) =
      (if 2048 - unat (ce_len s) mod 2048 < 2048 then 2048 - unat (ce_len s) mod 2048 else 0)"
    unfolding n DIV_UP_pad by simp
  then show "out' = out @ area_bytes s"
    using assms(1) w by (cases "ce_susp_fields s = []") (auto simp: rrip_write_ce_fields_def area_bytes_def collect_def Let_def total_def DIV_UP_def split: if_splits)
  show "corrupt s' = corrupt s"
    using assms(1) w by (auto simp: rrip_write_ce_fields_def collect_def Let_def split: if_splits)
qed

definition first_info :: "dir_image \<Rightarrow> dtree \<Rightarrow> nat \<Rightarrow> susp_info" where
  "first_info t dir mem =
     \<lparr>susp_fields = [], suf_len = 0,
      ce_block = (if rockridge t then d_block dir + word_of_nat (DIV_UP (d_len dir) 2048) else 0),
      ce_len = 0, ce_susp_fields = [], mem_left = mem - 1, corrupt = False\<rparr>"

lemma first_info_simps [simp]:
  "clean (first_info t dir mem)" "ce_susp_fields (first_info t dir mem) = []" "ce_len (first_info t dir mem) = 0"
  "ce_block (first_info t dir mem) = (if rockridge t then d_block dir + word_of_nat (DIV_UP (d_len dir) 2048) else 0)"
  by (simp_all add: first_info_def clean_def)

text \<open>What one directory consists of.\<close>

definition dir_made :: "dir_image \<Rightarrow> (nat \<Rightarrow> u32) \<Rightarrow> dtree \<Rightarrow> dtree option \<Rightarrow> dtree option \<Rightarrow> nat \<Rightarrow>
    byte list list \<Rightarrow> susp_info \<Rightarrow> bool" where
  "dir_made t blk dir up upup mem recs s \<longleftrightarrow>
     (\<exists>d1 d2 rest s0. recs = d1 # d2 # rest \<and> dots_made t blk dir up upup (first_info t dir mem) d1 d2 s0 \<and>
        records_made t blk dir (records_of (d_children dir)) s0 rest s \<and> \<not> corrupt s)"


lemma calc_dir_size_sizes:
  assumes "rockridge t \<Longrightarrow> rr_len t (rr_view no_blk dir) r 1 34 0 = dot_sizes t r dir 1"
    and "rockridge t \<Longrightarrow> rr_len t (rr_view no_blk dir) r 2 34 (snd (dot_sizes t r dir 1)) = dot_sizes t r dir 2"
    and "\<not> rockridge t \<Longrightarrow> dot_sizes t r dir 1 = (0, 0)" "\<not> rockridge t \<Longrightarrow> dot_sizes t r dir 2 = (0, 0)"
    and "\<And>len celen ce. foldl (calc_child t) (len, celen, ce) (map fst xs) =
     (foldl add_dirent len (map (record_size t) xs), fst (snd (foldl (calc_child t) (len, celen, ce) (map fst xs))), ce + area_size t xs)"
    and "xs = records_of (d_children dir)"
  shows "calc_dir_size t r dir =
     (DIV_UP (foldl add_dirent (34 + fst (dot_sizes t r dir 1) + (34 + fst (dot_sizes t r dir 2))) (map (record_size t) xs)) 2048 * 2048,
      snd (dot_sizes t r dir 1) + snd (dot_sizes t r dir 2) + area_size t xs)"
proof -
  obtain l1 c1 l2 c2 where d: "dot_sizes t r dir 1 = (l1, c1)" "dot_sizes t r dir 2 = (l2, c2)" by fastforce
  have dots: "(if rockridge t then
        let (l1, c1) = rr_len t (rr_view no_blk dir) r 1 34 0; (l2, c2) = rr_len t (rr_view no_blk dir) r 2 34 c1
        in (34 + 34 + l1 + l2, c2, c1 + c2)
      else (34 + 34, 0, 0)) = (34 + l1 + (34 + l2), c2, c1 + c2)"
    using assms(1-4) d by (cases "rockridge t") (simp_all del: One_nat_def)
  show ?thesis
    unfolding calc_dir_size_def Let_def dots [unfolded Let_def] assms(6) [symmetric]
    by (subst assms(5)) (simp add: d del: One_nat_def)
qed

lemma dots_facts:
  assumes m: "dots_made t blk dir up upup s d1 d2 s'" "\<not> corrupt s'" "clean s"
    and ok: "dir_ok t dir" "\<And>p. up = Some p \<Longrightarrow> d_type p = ECMA119_DIR"
  obtains cs1 cs2 where "length d1 = 34 + fst (dot_sizes t (up = None) dir 1)" "length d2 = 34 + fst (dot_sizes t (up = None) dir 2)"
    "length d1 \<le> 170" "length d2 \<le> 170" "area_grows (cs1 @ cs2) s s'" "clean s'"
    "total cs1 = snd (dot_sizes t (up = None) dir 1)" "total cs2 = snd (dot_sizes t (up = None) dir 2)"
    "rockridge t \<Longrightarrow> rr_len t (rr_view no_blk dir) (up = None) 1 34 0 = dot_sizes t (up = None) dir 1"
    "rockridge t \<Longrightarrow> rr_len t (rr_view no_blk dir) (up = None) 2 34 (snd (dot_sizes t (up = None) dir 1)) = dot_sizes t (up = None) dir 2"
    "\<not> rockridge t \<Longrightarrow> dot_sizes t (up = None) dir 1 = (0, 0)" "\<not> rockridge t \<Longrightarrow> dot_sizes t (up = None) dir 2 = (0, 0)"
proof -
  let ?par = "map_option (rr_view blk) up" and ?r = "up = None"
  obtain s1 s2 where d: "made t (rr_view blk dir) ?par 1 34 s s1" "made t (rr_view blk dir) ?par 2 34 (cleared s1) s2"
    "d1 = record_bytes t dir up (Some 0) 1 0 s1" "d2 = record_bytes t (dot_nodes dir up) upup (Some 1) 1 0 s2" "s' = cleared s2"
    using m(1) unfolding dots_made_def by blast
  have n2: "\<not> corrupt s2" using m(2) d(5) by simp
  have n1: "\<not> corrupt s1" using made_corrupt [OF d(2)] n2 by auto
  have up: "d_type (dot_nodes dir up) = ECMA119_DIR" "d_type dir = ECMA119_DIR" using ok by (auto simp: dot_nodes_def dir_ok_def split: option.split)
  have par: "(?par = None) = ?r" by simp
  obtain cs1 where f1: "length d1 = 34 + fst (dot_sizes t ?r dir 1)" "suf_len s1 = fst (dot_sizes t ?r dir 1)" "suf_len s1 \<le> 136"
    "area_grows cs1 (s) s1" "total cs1 = snd (dot_sizes t ?r dir 1)"
    "rockridge t \<Longrightarrow> rr_len t (rr_view no_blk dir) ?r 1 34 0 = dot_sizes t ?r dir 1"
    "\<not> rockridge t \<Longrightarrow> dot_sizes t ?r dir 1 = (0, 0)"
    using dot_facts [OF d(1) n1 m(3) one_neq_zero ok(1) up(2), unfolded par, where x = 0 and i = 0 and p = up]
    unfolding d(3) by blast
  obtain cs2 where f2: "length d2 = 34 + fst (dot_sizes t ?r dir 2)" "suf_len s2 = fst (dot_sizes t ?r dir 2)" "suf_len s2 \<le> 136"
    "area_grows cs2 (cleared s1) s2" "total cs2 = snd (dot_sizes t ?r dir 2)"
    "rockridge t \<Longrightarrow> rr_len t (rr_view no_blk dir) ?r 2 34 (snd (dot_sizes t ?r dir 1)) = dot_sizes t ?r dir 2"
    "\<not> rockridge t \<Longrightarrow> dot_sizes t ?r dir 2 = (0, 0)"
    using dot_facts [OF d(2) n2 clean_cleared _ ok(1) up(1), unfolded par, where x = "snd (dot_sizes t ?r dir 1)" and i = 1 and p = upup]
    unfolding d(4) by simp blast
  have l: "length d1 \<le> 170" "length d2 \<le> 170" using f1(1-3) f2(1-3) by simp_all
  have "area_grows (cs1 @ cs2) s s'"
    using area_grows_trans [OF f1(4), of cs2 s2] f2(4) d(5) by simp
  then show thesis
    by (rule that [OF f1(1) f2(1) l _ _ f1(5) f2(5) f1(6) f2(6) f1(7) f2(7)]) (simp_all add: d(5))
qed

lemma dir_made_facts:
  assumes made: "dir_made t blk dir up upup mem recs s" and ok: "dir_ok t dir" "\<And>p. up = Some p \<Longrightarrow> d_type p = ECMA119_DIR"
  shows "length (dir_extent recs) = fst (calc_dir_size t (up = None) dir)"
    "total (ce_susp_fields s) = snd (calc_dir_size t (up = None) dir)"
    "list_all sized (ce_susp_fields s)" "ce_len s = word_of_nat (total (ce_susp_fields s))"
    "\<not> rockridge t \<Longrightarrow> snd (calc_dir_size t (up = None) dir) = 0"
proof -
  let ?par = "map_option (rr_view blk) up" and ?r = "up = None"
  obtain d1 d2 rest s0 where m: "recs = d1 # d2 # rest" "dots_made t blk dir up upup (first_info t dir mem) d1 d2 s0"
    "records_made t blk dir (records_of (d_children dir)) s0 rest s" "\<not> corrupt s" using made by (auto simp: dir_made_def)
  have n0: "\<not> corrupt s0" using records_made_corrupt [OF m(3)] m(4) by blast
  obtain cs1 cs2 where f: "length d1 = 34 + fst (dot_sizes t ?r dir 1)" "length d2 = 34 + fst (dot_sizes t ?r dir 2)"
    "length d1 \<le> 170" "length d2 \<le> 170" "area_grows (cs1 @ cs2) (first_info t dir mem) s0" "clean s0"
    "total cs1 = snd (dot_sizes t ?r dir 1)" "total cs2 = snd (dot_sizes t ?r dir 2)"
    "rockridge t \<Longrightarrow> rr_len t (rr_view no_blk dir) ?r 1 34 0 = dot_sizes t ?r dir 1"
    "rockridge t \<Longrightarrow> rr_len t (rr_view no_blk dir) ?r 2 34 (snd (dot_sizes t ?r dir 1)) = dot_sizes t ?r dir 2"
    "\<not> rockridge t \<Longrightarrow> dot_sizes t ?r dir 1 = (0, 0)" "\<not> rockridge t \<Longrightarrow> dot_sizes t ?r dir 2 = (0, 0)"
    by (rule dots_facts [OF m(2) n0 first_info_simps(1) ok]) (assumption | blast)+
  note rs = records_sizes [OF m(3,4) f(6) records_of_ok [OF ok(1)]]
  obtain cs where cs: "area_grows cs s0 s" "total cs = area_size t (records_of (d_children dir))" using rs by blast
  have sz: "map length rest = map (record_size t) (records_of (d_children dir))"
    "list_all (\<lambda>x. record_size t x \<le> 254) (records_of (d_children dir))" using rs by blast+
  have calc: "calc_dir_size t ?r dir =
     (DIV_UP (foldl add_dirent (length d1 + length d2) (map length rest)) 2048 * 2048,
      snd (dot_sizes t ?r dir 1) + snd (dot_sizes t ?r dir 2) + area_size t (records_of (d_children dir)))"
    unfolding f(1,2) sz(1) by (rule calc_dir_size_sizes [OF f(9-12) _ refl])
      (assumption | rule conjunct2 [OF conjunct2 [OF conjunct2 [OF rs]]])+
  have "list_all (\<lambda>r. r \<noteq> [] \<and> length r \<le> 2048) rest"
    unfolding list_all_length
  proof (intro allI impI)
    fix i assume i: "i < length rest"
    have "length rest = length (records_of (d_children dir))" using sz(1) by (metis length_map)
    then have "length (rest ! i) = record_size t (records_of (d_children dir) ! i)"
      "record_size t (records_of (d_children dir) ! i) \<le> 254"
      using i sz by (metis nth_map, simp add: list_all_length)
    moreover have "0 < record_size t (records_of (d_children dir) ! i)"
      by (simp add: record_size_def calc_dirent_len_def Let_def split: option.split)
    ultimately show "rest ! i \<noteq> [] \<and> length (rest ! i) \<le> 2048" by (auto simp del: length_greater_0_conv simp: length_greater_0_conv [symmetric])
  qed
  moreover have "length d1 + length d2 \<le> 2048" using f(3,4) by linarith
  ultimately show "length (dir_extent recs) = fst (calc_dir_size t ?r dir)"
    unfolding m(1) calc fst_conv by (intro length_dir_extent) (simp_all add: f(1,2))
  have "area_grows (cs1 @ cs2 @ cs) (first_info t dir mem) s"
    using area_grows_trans [OF f(5) cs(1)] by simp
  then have a: "ce_susp_fields s = cs1 @ cs2 @ cs" "list_all sized (cs1 @ cs2 @ cs)" "ce_len s = word_of_nat (total (cs1 @ cs2 @ cs))"
    by (simp_all add: area_grows_def)
  then show "total (ce_susp_fields s) = snd (calc_dir_size t ?r dir)" "list_all sized (ce_susp_fields s)"
    "ce_len s = word_of_nat (total (ce_susp_fields s))"
    unfolding calc snd_conv by (simp_all only: a total_simps f(7,8) cs(2))
  show "snd (calc_dir_size t ?r dir) = 0" if "\<not> rockridge t"
    using that f(11,12) by (simp add: calc area_size_def child_sizes_def predicted_def del: One_nat_def)
qed


lemma write_one_dir_collect:
  assumes w: "write_one_dir t blk collect dir up upup mem out = (Inr (), info', out')" "\<not> corrupt info'"
    and ok: "dir_ok t dir" "\<And>p. up = Some p \<Longrightarrow> d_type p = ECMA119_DIR" "snd (calc_dir_size t (up = None) dir) < 2 ^ 32"
  obtains recs s where "dir_made t blk dir up upup mem recs s" "out' = out @ dir_extent recs @ area_bytes s"
proof -
  have info: "\<lparr>susp_fields = [], suf_len = 0,
            ce_block = (if rockridge t then d_block dir + word_of_nat (DIV_UP (d_len dir) 2048) else 0),
            ce_len = 0, ce_susp_fields = [], mem_left = mem - 1, corrupt = False\<rparr> = first_info t dir mem"
    by (simp add: first_info_def)
  obtain cur s0 where d: "dot_records t blk dir up upup (first_info t dir mem) = (Inr cur, s0)" "mem \<noteq> 0"
    using w(1) unfolding write_one_dir_def Let_def info by (auto split: if_splits prod.splits sum.splits)
  obtain cur2 s out2 where r: "write_records t blk collect dir (records_of (d_children dir)) cur s0 out = (Inr cur2, s, out2)"
    using w(1) d unfolding write_one_dir_def Let_def info by (auto split: if_splits prod.splits sum.splits)
  have e: "(if ce_len s > 0 then (case rrip_write_ce_fields collect s (out2 @ whole_block cur2) of (r, w, info) \<Rightarrow> (r, info, w))
      else (Inr (), s, out2 @ whole_block cur2)) = (Inr (), info', out')"
    using w(1) d(2) unfolding write_one_dir_def Let_def info d(1) by (simp add: r collect_def [of "whole_block cur2"])
  have nc: "\<not> corrupt s"
  proof
    assume "corrupt s"
    moreover have "corrupt s' = corrupt s" if "rrip_write_ce_fields collect s o1 = (r, o2, s')" for r o1 o2 s'
      using that by (auto simp: rrip_write_ce_fields_def Let_def split: if_splits prod.splits sum.splits)
    ultimately show False using e w(2) by (auto split: if_splits prod.splits)
  qed
  have n0: "\<not> corrupt s0" using write_records_corrupt [OF r] nc by blast
  obtain d1 d2 where d12: "dots_made t blk dir up upup (first_info t dir mem) d1 d2 s0" "cur = d1 @ d2"
    using dot_records_made [OF d(1) n0 first_info_simps(1) ok(1,2)] by metis
  then have cl: "clean s0" by (auto simp: dots_made_def)
  obtain recs where recs: "records_made t blk dir (records_of (d_children dir)) s0 recs s" "(cur2, out2) = foldl fill_block (cur, out) recs"
    using write_records_collect [OF r nc cl records_of_ok [OF ok(1)]] by blast
  have made: "dir_made t blk dir up upup mem (d1 # d2 # recs) s"
    using d12(1) recs(1) nc by (auto simp: dir_made_def)
  note f = dir_made_facts [OF made ok(1,2)]
  have ext: "out2 @ whole_block cur2 = out @ dir_extent (d1 # d2 # recs)"
  proof -
    have "length d1 \<le> 170 \<and> length d2 \<le> 170"
      by (rule dots_facts [OF d12(1) n0 first_info_simps(1) ok(1,2)]) (assumption | blast)+
    then have l: "length (d1 @ d2) \<le> 2048" by simp
    have "(cur2, out2) = (fst (foldl fill_block (d1 @ d2, []) recs), out @ snd (foldl fill_block (d1 @ d2, []) recs))"
      using recs(2) d12(2) fill_shift [of "d1 @ d2" out "[]" recs] by simp
    then show ?thesis using l by (simp add: dir_extent_def fill_block_def split: prod.split)
  qed
  show thesis
  proof (cases "ce_len s > 0")
    case True
    then obtain s' where "rrip_write_ce_fields collect s (out2 @ whole_block cur2) = (Inr (), out', s')"
      using e by (auto split: prod.splits)
    from write_ce_fields_collect(1) [OF this f(3,4)] ok(3) f(2) ext
    have "out' = out @ dir_extent (d1 # d2 # recs) @ area_bytes s" by simp
    then show thesis by (rule that [OF made])
  next
    case False
    then have "unat (ce_len s) = 0" by (simp add: word_gt_0)
    then have "total (ce_susp_fields s) = 0"
      using f(2,4) ok(3) by (simp add: unat_of_nat take_bit_nat_eq_self)
    then have "area_bytes s = []" using length_area_bytes [of s] by (simp add: DIV_UP_def)
    then have "out' = out @ dir_extent (d1 # d2 # recs) @ area_bytes s" using e False ext by simp
    then show thesis by (rule that [OF made])
  qed
qed

end
