(* ===== verification/Dir_Tree.thy ===== *)
theory Dir_Tree
  imports Dir_Layout
begin

text \<open>
  The directories of the whole tree and their path tables.
\<close>

section \<open>The whole tree\<close>

text \<open>The directories with their parent and its parent, in the order of the recursion.\<close>

fun visits :: "dtree option \<Rightarrow> dtree option \<Rightarrow> dtree \<Rightarrow> (dtree \<times> dtree option \<times> dtree option) list" where
  "visits up upup (DNode nm n rp rm secs b len cs) =
     (DNode nm n rp rm secs b len cs, up, upup) #
     concat (map (\<lambda>c. if d_type c = ECMA119_DIR then visits (Some (DNode nm n rp rm secs b len cs)) up c else []) cs)"

abbreviation sub_visits :: "dtree \<Rightarrow> dtree option \<Rightarrow> dtree list \<Rightarrow> (dtree \<times> dtree option \<times> dtree option) list" where
  "sub_visits d up cs \<equiv> concat (map (\<lambda>c. if d_type c = ECMA119_DIR then visits (Some d) up c else []) cs)"

lemma map_concat_if: "map f (concat (map (\<lambda>c. if P c then g c else []) cs)) = concat (map (\<lambda>c. if P c then map f (g c) else []) cs)"
  by (induction cs) simp_all

lemma visits_nodes: "map fst (visits up upup d) = dir_nodes d"
proof (induction up upup d rule: visits.induct)
  case (1 up upup nm n rp rm secs b len cs)
  have "concat (map (\<lambda>c. if d_type c = ECMA119_DIR then map fst (visits (Some (DNode nm n rp rm secs b len cs)) up c) else []) cs) =
      concat (map (\<lambda>c. if d_type c = ECMA119_DIR then dir_nodes c else []) cs)"
    by (rule arg_cong [where f = concat], rule map_cong) (auto simp: 1)
  then show ?case by (simp add: map_concat_if)
qed

text \<open>Blocks for a directory and its continuation area.\<close>

definition dir_space :: "dir_image \<Rightarrow> dtree \<times> dtree option \<times> dtree option \<Rightarrow> nat" where
  "dir_space t v =
     (let (len, ce) = calc_dir_size t (fst (snd v) = None) (fst v)
      in DIV_UP len 2048 + (if rockridge t then DIV_UP ce 2048 else 0))"

definition space_of :: "dir_image \<Rightarrow> (dtree \<times> dtree option \<times> dtree option) list \<Rightarrow> nat" where
  "space_of t vs = sum_list (map (dir_space t) vs)"

lemma space_of_simps [simp]:
  "space_of t [] = 0" "space_of t (v # vs) = dir_space t v + space_of t vs" "space_of t (vs @ ws) = space_of t vs + space_of t ws"
  by (simp_all add: space_of_def)

text \<open>Each directory has its size, and its position behind the one before it.\<close>

fun laid_out :: "dir_image \<Rightarrow> u32 \<Rightarrow> (dtree \<times> dtree option \<times> dtree option) list \<Rightarrow> bool" where
  "laid_out t cur [] \<longleftrightarrow> True"
| "laid_out t cur (v # vs) \<longleftrightarrow>
     d_block (fst v) = cur \<and> d_len (fst v) = fst (calc_dir_size t (fst (snd v) = None) (fst v)) \<and>
     laid_out t (cur + word_of_nat (dir_space t v)) vs"

lemma laid_out_append: "laid_out t cur (vs @ ws) \<longleftrightarrow> laid_out t cur vs \<and> laid_out t (cur + word_of_nat (space_of t vs)) ws"
  by (induction vs arbitrary: cur) (simp_all add: add.assoc)

text \<open>Sizes do not depend on positions.\<close>

definition same_node :: "dtree \<Rightarrow> dtree \<Rightarrow> bool" where
  "same_node a b \<longleftrightarrow>
     d_name a = d_name b \<and> d_rr a = d_rr b \<and> d_real_parent a = d_real_parent b \<and> d_real_me a = d_real_me b \<and>
     d_sections a = d_sections b"

lemma same_node_view: "same_node a b \<Longrightarrow> rr_view blk a = rr_view blk b"
  by (simp add: same_node_def rr_view_def)

lemma same_node_dirent: "same_node a b \<Longrightarrow> calc_dirent_len t a = calc_dirent_len t b"
  by (simp add: same_node_def calc_dirent_len_def need_version_number_def)

lemma same_node_child: "same_node a b \<Longrightarrow> calc_child t st a = calc_child t st b"
  by (simp only: calc_child_def same_node_view [of a b no_blk] same_node_dirent [of a b t])

lemma same_node_ok: "same_node a b \<Longrightarrow> child_ok t a = child_ok t b"
  using same_node_view [of a b no_blk] same_node_dirent [of a b t] by (simp add: child_ok_def same_node_def)

lemma same_children_records:
  "list_all2 same_node as bs \<Longrightarrow> foldl (calc_child t) st (map fst (records_of as)) = foldl (calc_child t) st (map fst (records_of bs))"
proof (induction as bs arbitrary: st rule: list_all2_induct)
  case (Cons a as b bs)
  have n: "nsections a = nsections b" using Cons.hyps(1) by (simp add: same_node_def nsections_def)
  have "map fst (records_of (x # xs)) = replicate (nsections x) x @ map fst (records_of xs)" for x xs
    by (simp add: records_of_def o_def map_replicate_const)
  moreover have "foldl (calc_child t) st (replicate k a) = foldl (calc_child t) st (replicate k b)" for k st
    by (induction k arbitrary: st) (simp_all add: same_node_child [OF Cons.hyps(1)])
  ultimately show ?case using Cons.IH n by simp
qed simp

lemma same_dir_size:
  "same_node a b \<Longrightarrow> list_all2 same_node (d_children a) (d_children b) \<Longrightarrow> calc_dir_size t r a = calc_dir_size t r b"
  by (simp add: calc_dir_size_def same_children_records same_node_view)

lemma calc_dir_pos_same: "calc_dir_pos t r d st = (d', st') \<Longrightarrow> same_node d' d"
  by (cases d; cases st) (auto simp: same_node_def Let_def split: prod.splits)

lemma calc_dirs_pos_same: "calc_dirs_pos t cs st = (cs', st') \<Longrightarrow> list_all2 same_node cs' cs"
proof (induction cs arbitrary: st cs' st')
  case (Cons c cs)
  obtain c1 st1 where c: "(if d_type c = ECMA119_DIR then calc_dir_pos t False c st else (c, st)) = (c1, st1)" by (rule prod.exhaust)
  obtain cs1 st2 where cs: "calc_dirs_pos t cs st1 = (cs1, st2)" by (rule prod.exhaust)
  have "same_node c1 c" using c calc_dir_pos_same by (auto simp: same_node_def split: if_splits)
  moreover have "cs' = c1 # cs1" using Cons.prems c cs by simp
  ultimately show ?case using Cons.IH [OF cs] by simp
qed simp

lemma calc_pos:
  "calc_dir_pos t r d (cur, n) = (d', cur', n') \<Longrightarrow> r = (up = None) \<Longrightarrow>
     laid_out t cur (visits up upup d') \<and> cur' = cur + word_of_nat (space_of t (visits up upup d')) \<and>
     n' = n + length (visits up upup d')"
  "calc_dirs_pos t cs (cur, n) = (cs', cur', n') \<Longrightarrow>
     laid_out t cur (sub_visits D up cs') \<and> cur' = cur + word_of_nat (space_of t (sub_visits D up cs')) \<and>
     n' = n + length (sub_visits D up cs')"
proof (induction t r d "(cur, n)" and t cs "(cur, n)" arbitrary: cur n d' cur' n' up upup and cur n cs' cur' n' D up
    rule: calc_dir_pos_calc_dirs_pos.induct)
  case (1 t r nm nd rp rm secs blk len cs cur n)
  let ?d = "DNode nm nd rp rm secs blk len cs"
  obtain l ce where sz: "calc_dir_size t r ?d = (l, ce)" by fastforce
  let ?cur = "cur + word_of_nat (DIV_UP l 2048) + (if rockridge t then word_of_nat (DIV_UP ce 2048) else 0)"
  obtain cs' where cs': "calc_dirs_pos t cs (?cur, n + 1) = (cs', cur', n')" "d' = DNode nm nd rp rm secs cur l cs'"
    using "1.prems"(1) sz by (auto simp: Let_def split: prod.splits)
  have same: "calc_dir_size t r d' = (l, ce)"
    using same_dir_size [of d' ?d] calc_dirs_pos_same [OF cs'(1)] sz cs'(2) by (simp add: same_node_def)
  have space: "dir_space t (d', up, upup) = DIV_UP l 2048 + (if rockridge t then DIV_UP ce 2048 else 0)"
    using same "1.prems"(2) by (simp add: dir_space_def)
  have cur: "?cur = cur + word_of_nat (dir_space t (d', up, upup))" unfolding space by (simp add: add.assoc)
  have ih: "laid_out t ?cur (sub_visits d' up cs') \<and> cur' = ?cur + word_of_nat (space_of t (sub_visits d' up cs')) \<and>
     n' = n + 1 + length (sub_visits d' up cs')"
    by (rule "1.hyps" [OF sz [symmetric] refl _ cs'(1)]) simp
  have v: "visits up upup d' = (d', up, upup) # sub_visits d' up cs'" unfolding cs'(2) by (rule visits.simps)
  have db: "d_block d' = cur" "d_len d' = fst (calc_dir_size t (up = None) d')" using cs'(2) same "1.prems"(2) by simp_all
  show ?case using ih db unfolding v cur by (simp add: add.assoc)
next
  case (2 t cur n)
  then show ?case by simp
next
  case (3 t c cs cur n)
  obtain c1 cur1 n1 where c: "(if d_type c = ECMA119_DIR then calc_dir_pos t False c (cur, n) else (c, (cur, n))) = (c1, cur1, n1)"
    by (metis prod.exhaust)
  obtain cs1 where cs: "calc_dirs_pos t cs (cur1, n1) = (cs1, cur', n')" "cs' = c1 # cs1"
    using "3.prems" c by (auto split: prod.splits)
  have type: "d_type c1 = d_type c" using c calc_dir_pos_same by (auto simp: same_node_def split: if_splits)
  let ?v = "if d_type c1 = ECMA119_DIR then visits (Some D) up c1 else []"
  have 1: "laid_out t cur ?v \<and> cur1 = cur + word_of_nat (space_of t ?v) \<and> n1 = n + length ?v"
  proof (cases "d_type c = ECMA119_DIR")
    case True
    then have "calc_dir_pos t False c (cur, n) = (c1, cur1, n1)" using c by simp
    from "3.hyps"(1) [OF True this, of "Some D" up] show ?thesis using True type by simp
  next
    case False
    then show ?thesis using c type by simp
  qed
  have 2: "laid_out t cur1 (sub_visits D up cs1) \<and> cur' = cur1 + word_of_nat (space_of t (sub_visits D up cs1)) \<and>
     n' = n1 + length (sub_visits D up cs1)"
    using "3.hyps"(2) [OF c [symmetric] refl cs(1)] by blast
  have v: "sub_visits D up cs' = ?v @ sub_visits D up cs1" by (simp add: cs(2))
  show ?case using 1 2 unfolding v laid_out_append by (simp add: add.assoc)
qed


text \<open>The bytes written for a directory.\<close>

definition piece_of :: "dir_image \<Rightarrow> (nat \<Rightarrow> u32) \<Rightarrow> dtree \<times> dtree option \<times> dtree option \<Rightarrow> byte list \<Rightarrow> bool" where
  "piece_of t blk v bs \<longleftrightarrow>
     (\<exists>mem recs s. dir_made t blk (fst v) (fst (snd v)) (snd (snd v)) mem recs s \<and> bs = dir_extent recs @ area_bytes s)"

definition visit_ok :: "dir_image \<Rightarrow> dtree \<times> dtree option \<times> dtree option \<Rightarrow> bool" where
  "visit_ok t v \<longleftrightarrow>
     dir_ok t (fst v) \<and> snd (calc_dir_size t (fst (snd v) = None) (fst v)) < 2 ^ 32 \<and>
     (\<forall>p. fst (snd v) = Some p \<longrightarrow> d_type p = ECMA119_DIR)"

lemma length_piece: "piece_of t blk v bs \<Longrightarrow> visit_ok t v \<Longrightarrow> length bs = 2048 * dir_space t v"
proof -
  assume a: "piece_of t blk v bs" "visit_ok t v"
  then obtain mem recs s where p: "dir_made t blk (fst v) (fst (snd v)) (snd (snd v)) mem recs s" "bs = dir_extent recs @ area_bytes s"
    by (auto simp: piece_of_def)
  have ok: "dir_ok t (fst v)" "\<And>p. fst (snd v) = Some p \<Longrightarrow> d_type p = ECMA119_DIR" using a(2) by (auto simp: visit_ok_def)
  note f = dir_made_facts [OF p(1) ok]
  obtain l ce where sz: "calc_dir_size t (fst (snd v) = None) (fst v) = (l, ce)" by (rule prod.exhaust)
  have "l = DIV_UP l 2048 * 2048"
  proof -
    obtain k where "l = k * 2048" using sz by (auto simp: calc_dir_size_def Let_def split: prod.splits)
    then show ?thesis by (simp add: DIV_UP_blocks)
  qed
  moreover have "\<not> rockridge t \<Longrightarrow> ce = 0" using f(5) sz by simp
  ultimately show ?thesis using f(1,2) sz by (cases "rockridge t") (simp_all add: p(2) length_area_bytes dir_space_def DIV_UP_def)
qed

lemma write_dirs_collect:
  "write_dirs t blk collect up upup d (mem, out) = Some (Inr (), mem', out') \<Longrightarrow> list_all (visit_ok t) (visits up upup d) \<Longrightarrow>
     \<exists>pieces. out' = out @ concat pieces \<and> list_all2 (piece_of t blk) (visits up upup d) pieces"
  "write_subdirs t blk collect up D cs (mem, out) = Some (Inr (), mem', out') \<Longrightarrow> list_all (visit_ok t) (sub_visits D up cs) \<Longrightarrow>
     \<exists>pieces. out' = out @ concat pieces \<and> list_all2 (piece_of t blk) (sub_visits D up cs) pieces"
proof (induction t blk "collect" up upup d "(mem, out)" and t blk "collect" up D cs "(mem, out)"
    arbitrary: mem out mem' out' and mem out mem' out' rule: write_dirs_write_subdirs.induct)
  case (1 t blk up upup nm n rp rm secs b len cs mem out)
  let ?d = "DNode nm n rp rm secs b len cs"
  have v: "visits up upup ?d = (?d, up, upup) # sub_visits ?d up cs" by (rule visits.simps)
  obtain info out1 where w: "write_one_dir t blk collect ?d up upup mem out = (Inr (), info, out1)" "\<not> corrupt info"
    "write_subdirs t blk collect up ?d cs (mem_left info, out1) = Some (Inr (), mem', out')"
    using "1.prems"(1) by (auto split: prod.splits sum.splits if_splits)
  have ok: "visit_ok t (?d, up, upup)" "list_all (visit_ok t) (sub_visits ?d up cs)" using "1.prems"(2) unfolding v by simp_all
  obtain recs s where p: "dir_made t blk ?d up upup mem recs s" "out1 = out @ dir_extent recs @ area_bytes s"
    using write_one_dir_collect [OF w(1,2), of ] ok(1) unfolding visit_ok_def by auto
  have "piece_of t blk (?d, up, upup) (dir_extent recs @ area_bytes s)" using p(1) by (auto simp: piece_of_def)
  moreover obtain pieces where "out' = out1 @ concat pieces" "list_all2 (piece_of t blk) (sub_visits ?d up cs) pieces"
    using "1.hyps" [OF w(1) [symmetric] refl w(2) refl w(3) ok(2)] by blast
  ultimately show ?case unfolding v using p(2)
    by (intro exI [of _ "(dir_extent recs @ area_bytes s) # pieces"]) simp
next
  case (2 t blk up D mem out)
  then show ?case by (intro exI [of _ "[]"]) simp
next
  case (3 t blk up D c cs mem out)
  show ?case
  proof (cases "d_type c = ECMA119_DIR")
    case True
    then obtain mem1 out1 where w: "write_dirs t blk collect (Some D) up c (mem, out) = Some (Inr (), mem1, out1)"
      "write_subdirs t blk collect up D cs (mem1, out1) = Some (Inr (), mem', out')"
      using "3.prems"(1) by (auto split: option.splits sum.splits)
    obtain p1 where "out1 = out @ concat p1" "list_all2 (piece_of t blk) (visits (Some D) up c) p1"
      using "3.hyps"(1) [OF True w(1)] True "3.prems"(2) by auto
    moreover obtain p2 where "out' = out1 @ concat p2" "list_all2 (piece_of t blk) (sub_visits D up cs) p2"
      using "3.hyps"(2) [OF True w(1) refl refl w(2)] "3.prems"(2) by auto
    ultimately show ?thesis using True by (intro exI [of _ "p1 @ p2"]) (simp add: list_all2_appendI)
  next
    case False
    then show ?thesis using "3.hyps" "3.prems" by simp
  qed
qed


lemma laid_out_nth:
  "laid_out t cur vs \<Longrightarrow> i < length vs \<Longrightarrow>
   d_block (fst (vs ! i)) = cur + word_of_nat (space_of t (take i vs)) \<and>
   d_len (fst (vs ! i)) = fst (calc_dir_size t (fst (snd (vs ! i)) = None) (fst (vs ! i)))"
proof (induction vs arbitrary: cur i)
  case (Cons v vs)
  show ?case
  proof (cases i)
    case 0
    then show ?thesis using Cons.prems by simp
  next
    case (Suc j)
    then show ?thesis using Cons.IH [of "cur + word_of_nat (dir_space t v)" j] Cons.prems by (simp add: add.assoc)
  qed
qed simp

lemma pieces_at:
  "list_all2 (piece_of t blk) vs pieces \<Longrightarrow> list_all (visit_ok t) vs \<Longrightarrow>
   length (concat pieces) = 2048 * space_of t vs \<and>
   (\<forall>i < length vs. take (length (pieces ! i)) (drop (2048 * space_of t (take i vs)) (concat pieces)) = pieces ! i)"
proof (induction vs pieces rule: list_all2_induct)
  case (Cons v vs bs pieces)
  have l: "length bs = 2048 * dir_space t v" using length_piece [OF Cons.hyps(1)] Cons.prems by simp
  have ih: "length (concat pieces) = 2048 * space_of t vs"
    "\<And>i. i < length vs \<Longrightarrow> take (length (pieces ! i)) (drop (2048 * space_of t (take i vs)) (concat pieces)) = pieces ! i"
    using Cons.IH Cons.prems by auto
  have "take (length ((bs # pieces) ! i)) (drop (2048 * space_of t (take i (v # vs))) (concat (bs # pieces))) = (bs # pieces) ! i"
    if "i < length (v # vs)" for i
  proof (cases i)
    case (Suc j)
    have "drop (2048 * dir_space t v + k) (bs @ xs) = drop k xs" for k xs by (simp add: l [symmetric])
    then show ?thesis using Suc ih(2) [of j] that by (simp add: distrib_left)
  qed simp
  then show ?case using l ih(1) by (simp add: distrib_left)
qed simp

definition tree_ok :: "dir_image \<Rightarrow> dtree \<Rightarrow> bool" where
  "tree_ok t root \<longleftrightarrow> list_all (visit_ok t) (visits None None root)"

text \<open>Where the bytes \<open>bs\<close> begin with block \<open>pos\<close> of the output \<open>out\<close>.\<close>

definition stands_at :: "byte list \<Rightarrow> nat \<Rightarrow> byte list \<Rightarrow> bool" where
  "stands_at bs pos out \<longleftrightarrow> take (length bs) (drop (2048 * pos) out) = bs"

lemma tree_written:
  assumes calc: "calc_dir_pos t True root (cur, 0) = (root', cur', ndirs)"
    and wr: "write_dirs t blk collect None None root' (mem, out) = Some (Inr (), mem', out')"
    and ok: "tree_ok t root'"
  shows "\<exists>tree. out' = out @ tree \<and> length tree = 2048 * space_of t (visits None None root') \<and>
    ndirs = length (dir_nodes root') \<and> cur' = cur + word_of_nat (space_of t (visits None None root')) \<and>
    (\<forall>d up upup. (d, up, upup) \<in> set (visits None None root') \<longrightarrow>
      (\<exists>pos mem recs s. dir_made t blk d up upup mem recs s \<and> d_block d = cur + word_of_nat pos \<and>
        d_len d = length (dir_extent recs) \<and> stands_at (dir_extent recs @ area_bytes s) pos tree))"
proof -
  let ?vs = "visits None None root'"
  have vok: "list_all (visit_ok t) ?vs" using ok by (simp add: tree_ok_def)
  obtain pieces where p: "out' = out @ concat pieces" "list_all2 (piece_of t blk) ?vs pieces"
    using write_dirs_collect(1) [OF wr vok] by blast
  have lay: "laid_out t cur ?vs" "cur' = cur + word_of_nat (space_of t ?vs)" "ndirs = length ?vs"
    using calc_pos(1) [OF calc, of None None] by auto
  have A: "length (concat pieces) = 2048 * space_of t ?vs"
    "\<And>i. i < length ?vs \<Longrightarrow> take (length (pieces ! i)) (drop (2048 * space_of t (take i ?vs)) (concat pieces)) = pieces ! i"
    using pieces_at [OF p(2) vok] by auto
  have n: "length ?vs = length (dir_nodes root')" using visits_nodes [of None None root'] by (metis length_map)
  show ?thesis
  proof (intro exI [of _ "concat pieces"] conjI allI impI)
    show "out' = out @ concat pieces" "length (concat pieces) = 2048 * space_of t ?vs"
      "cur' = cur + word_of_nat (space_of t ?vs)" by (fact p(1) A(1) lay(2))+
    show "ndirs = length (dir_nodes root')" using lay(3) n by simp
    fix d up upup assume "(d, up, upup) \<in> set ?vs"
    then obtain i where i: "i < length ?vs" "?vs ! i = (d, up, upup)" by (auto simp: in_set_conv_nth)
    have "piece_of t blk (d, up, upup) (pieces ! i)" using list_all2_nthD [OF p(2) i(1)] i(2) by simp
    then obtain mem recs s where m: "dir_made t blk d up upup mem recs s" "pieces ! i = dir_extent recs @ area_bytes s"
      by (auto simp: piece_of_def)
    have "visit_ok t (d, up, upup)" using vok i by (metis list_all_length)
    then have "length (dir_extent recs) = fst (calc_dir_size t (up = None) d)"
      using dir_made_facts(1) [OF m(1)] by (auto simp: visit_ok_def)
    moreover have "d_block d = cur + word_of_nat (space_of t (take i ?vs))" "d_len d = fst (calc_dir_size t (up = None) d)"
      using laid_out_nth [OF lay(1) i(1)] i(2) by simp_all
    ultimately show "\<exists>pos mem recs s. dir_made t blk d up upup mem recs s \<and> d_block d = cur + word_of_nat pos \<and>
        d_len d = length (dir_extent recs) \<and> stands_at (dir_extent recs @ area_bytes s) pos (concat pieces)"
      using m(1) A(2) [OF i(1)] unfolding stands_at_def m(2)
      by (intro exI [of _ "space_of t (take i ?vs)"] exI [of _ mem] exI [of _ recs] exI [of _ s] conjI) simp_all
  qed
qed

section \<open>The offset of the second tree\<close>

text \<open>
  The second tree is written with addresses relative to a partition.  No size depends on this
  offset.
\<close>

abbreviation with_offset :: "rr_image \<Rightarrow> u32 \<Rightarrow> rr_image" where
  "with_offset r x \<equiv> r\<lparr>eff_partition_offset := x\<rparr>"

lemma offset_fields [simp]:
  "replace_uid (with_offset r x) = replace_uid r"
  "replace_gid (with_offset r x) = replace_gid r"
  "rrip_version_1_10 (with_offset r x) = rrip_version_1_10 r"
  "rrip_1_10_px_ino (with_offset r x) = rrip_1_10_px_ino r"
  "aaip (with_offset r x) = aaip r"
  "aaip_susp_1_10 (with_offset r x) = aaip_susp_1_10 r"
  "appendable (with_offset r x) = appendable r"
  "rr_reloc_flags (with_offset r x) = rr_reloc_flags r"
  "rr_reloc_node (with_offset r x) = rr_reloc_node r"
  "root_node (with_offset r x) = root_node r"
  "partition_root (with_offset r x) = partition_root r"
  "same_charset (with_offset r x) = same_charset r"
  "strconv (with_offset r x) = strconv r"
  by simp_all

lemma num_aapt_offset [simp]: "num_aapt (with_offset r x) = num_aapt r"
  by (rule ext) (simp only: num_aapt_def offset_fields)

lemma es_extra_offset [simp]: "es_extra (with_offset r x) = es_extra r"
  by (simp only: es_extra_def offset_fields)

lemma aa_account_offset [simp]: "aa_account (with_offset r x) = aa_account r"
  by (intro ext) (simp only: aa_account_def num_aapt_offset es_extra_offset)

lemma zf_wanted_offset [simp]: "zf_wanted (with_offset r x) = zf_wanted r"
  by (rule ext) (simp only: zf_wanted_def offset_fields)

lemma zf_account_offset [simp]: "zf_account (with_offset r x) = zf_account r"
  by (intro ext) (simp only: zf_account_def zf_wanted_offset)

lemma get_rr_fname_offset [simp]: "get_rr_fname (with_offset r x) = get_rr_fname r"
  by (rule ext) (simp only: get_rr_fname_def offset_fields)

lemma announces_offset [simp]: "announces_aaip (with_offset r x) = announces_aaip r"
  by (simp only: announces_aaip_def offset_fields)

lemma calc_fixed_offset [simp]: "calc_fixed_len (with_offset r x) = calc_fixed_len r"
  by (intro ext) (simp only: calc_fixed_len_def announces_offset px_has_ino_def ecma119_is_dedicated_reloc_dir_def offset_fields)

lemma calc_nm_sl_al_offset [simp]: "susp_calc_nm_sl_al (with_offset r x) = susp_calc_nm_sl_al r"
  by (intro ext) (simp only: susp_calc_nm_sl_al_def get_rr_fname_offset zf_account_offset aa_account_offset num_aapt_offset)

lemma calc_len_offset [simp]: "rrip_calc_len (with_offset r x) = rrip_calc_len r"
  by (intro ext) (simp only: rrip_calc_len_def er_len_def announces_offset calc_fixed_offset calc_nm_sl_al_offset aa_account_offset offset_fields)

lemma node_ok_offset [simp]: "node_ok (with_offset r x) = node_ok r"
  by (intro ext) (simp only: node_ok_def calc_fixed_offset zf_wanted_offset num_aapt_offset get_rr_fname_offset)

abbreviation image_at :: "dir_image \<Rightarrow> u32 \<Rightarrow> dir_image" where
  "image_at t x \<equiv> t\<lparr>rr_opts := with_offset (rr_opts t) x\<rparr>"

lemma image_at_fields [simp]:
  "rockridge (image_at t x) = rockridge t"
  "omit_version_numbers (image_at t x) = omit_version_numbers t"
  "untranslated_name_len (image_at t x) = untranslated_name_len t"
  "rr_opts (image_at t x) = with_offset (rr_opts t) x"
  by simp_all

lemma image_at_simps [simp]: "calc_dirent_len (image_at t x) = calc_dirent_len t" "rr_len (image_at t x) = rr_len t"
  "need_version_number (image_at t x) = need_version_number t"
proof -
  show nv: "need_version_number (image_at t x) = need_version_number t"
    by (intro ext) (simp only: need_version_number_def image_at_fields)
  show "calc_dirent_len (image_at t x) = calc_dirent_len t"
    by (intro ext) (simp only: calc_dirent_len_def nv)
  show "rr_len (image_at t x) = rr_len t"
    by (intro ext) (simp only: rr_len_def image_at_fields calc_len_offset)
qed

lemma calc_dir_size_offset [simp]: "calc_dir_size (image_at t x) = calc_dir_size t"
proof -
  have "calc_child (image_at t x) = calc_child t"
    by (intro ext) (simp only: calc_child_def image_at_simps image_at_fields)
  then show ?thesis by (intro ext) (simp only: calc_dir_size_def image_at_simps image_at_fields)
qed

lemma tree_ok_offset [simp]: "tree_ok (image_at t x) = tree_ok t"
proof -
  have "child_ok (image_at t x) = child_ok t"
    by (intro ext) (simp only: child_ok_def image_at_simps image_at_fields node_ok_offset)
  then have "dir_ok (image_at t x) = dir_ok t" by (intro ext) (simp only: dir_ok_def image_at_fields)
  then have "visit_ok (image_at t x) = visit_ok t" by (intro ext) (simp only: visit_ok_def calc_dir_size_offset)
  then show ?thesis by (intro ext) (simp only: tree_ok_def)
qed

lemma space_of_offset [simp]: "space_of (image_at t x) = space_of t"
proof -
  have "dir_space (image_at t x) = dir_space t" by (intro ext) (simp only: dir_space_def calc_dir_size_offset image_at_fields)
  then show ?thesis by (intro ext) (simp only: space_of_def)
qed

section \<open>The positions of the directories\<close>

text \<open>
  C3: the directories are written where \<open>calc_dir_pos\<close> put them.  For every directory of the tree, the
  records of \<open>.\<close>, \<open>..\<close> and of all children and file sections, with their Rock Ridge entries, stand at
  the block \<open>d_block\<close> and have the length \<open>d_len\<close> together, the continuation area follows, and the
  whole tree takes exactly the number of blocks by which \<open>curblock\<close> was advanced.\<close>
theorem tree_positions:
  assumes calc: "calc_dir_pos t True root (cur, 0) = (root', cur', ndirs)"
    and wr: "write_dirs t (block_of_id root') collect None None root' (mem, out) = Some (Inr (), mem', out')"
    and ok: "tree_ok t root'"
  shows "\<exists>tree n. out' = out @ tree \<and> ndirs = length (dir_nodes root') \<and> length tree = 2048 * n \<and>
     cur' = cur + word_of_nat n \<and>
     (\<forall>d \<in> set (dir_nodes root'). \<exists>up upup mem recs s pos. dir_made t (block_of_id root') d up upup mem recs s \<and>
        d_block d = cur + word_of_nat pos \<and> d_len d = length (dir_extent recs) \<and>
        stands_at (dir_extent recs @ area_bytes s) pos tree)"
proof -
  obtain tree where tree: "out' = out @ tree" "length tree = 2048 * space_of t (visits None None root')"
    "ndirs = length (dir_nodes root')" "cur' = cur + word_of_nat (space_of t (visits None None root'))"
    "\<forall>d up upup. (d, up, upup) \<in> set (visits None None root') \<longrightarrow>
      (\<exists>pos mem recs s. dir_made t (block_of_id root') d up upup mem recs s \<and> d_block d = cur + word_of_nat pos \<and>
        d_len d = length (dir_extent recs) \<and> stands_at (dir_extent recs @ area_bytes s) pos tree)"
    using tree_written [OF calc wr ok] by blast
  have "\<exists>up upup mem recs s pos. dir_made t (block_of_id root') d up upup mem recs s \<and>
        d_block d = cur + word_of_nat pos \<and> d_len d = length (dir_extent recs) \<and>
        stands_at (dir_extent recs @ area_bytes s) pos tree" if d: "d \<in> set (dir_nodes root')" for d
  proof -
    have "d \<in> fst ` set (visits None None root')" using d by (metis visits_nodes set_map)
    then obtain up upup where "(d, up, upup) \<in> set (visits None None root')" by auto
    then show ?thesis using tree(5) by blast
  qed
  then show ?thesis using tree(1-4) by blast
qed

section \<open>An example\<close>

definition example_node :: "nat \<Rightarrow> ecma119_node_type \<Rightarrow> node_type \<Rightarrow> u32 \<Rightarrow> cstring \<Rightarrow> rr_node" where
  "example_node i type it md name =
     (example_link name [] None)\<lparr>node_id := i, etype := type, iso_type := it, mode := md,
        streams := [\<lparr>zisofs_type = Inr (0, 0, 0, 0), src_zf = None\<rparr>]\<rparr>"

definition placed_dir :: "u32 \<Rightarrow> nat \<Rightarrow> nat \<Rightarrow> cstring option \<Rightarrow> dtree list \<Rightarrow> dtree" where
  "placed_dir b len i name cs =
     DNode name (example_node i ECMA119_DIR LIBISO_DIR 0x41ed (case name of Some s \<Rightarrow> s | None \<Rightarrow> [])) None 0 [] b len cs"

definition example_dir :: "nat \<Rightarrow> cstring option \<Rightarrow> dtree list \<Rightarrow> dtree" where
  "example_dir = placed_dir 0 0"

definition example_file :: "nat \<Rightarrow> cstring \<Rightarrow> cstring \<Rightarrow> (u32 \<times> u32) list \<Rightarrow> dtree" where
  "example_file i inm name secs = DNode (Some inm) (example_node i ECMA119_FILE LIBISO_FILE 0x81a4 name) None 0 secs 0 0 []"

definition example_tree :: dtree where
  "example_tree =
     example_dir 0 None
       [example_file 3 (str ''LONG.TXT'') (replicate 200 0x61) [(50, 1000)],
        example_dir 1 (Some (str ''SUB'')) [example_dir 4 (Some (str ''DEEP'')) []],
        example_dir 2 (Some (str ''TWO'')) []]"

definition example_dir_image :: dir_image where
  "example_dir_image =
     \<lparr>rr_opts = example_rr_image, rockridge = True, omit_version_numbers = 0, untranslated_name_len = 0,
      dir_rec_mtime = 0, now = 0, old_empty = False, empty_file_block = 0, md5_session_checksum = False,
      partition_offset = 0, ms_block = 20\<rparr>"

definition small_tree :: dtree where
  "small_tree =
     example_dir 0 None
       [example_file 3 (str ''A.TXT'') (str ''a.text'') [(50, 1000)], example_dir 1 (Some (str ''SUB'')) []]"

definition placed_tree :: dtree where
  "placed_tree =
     placed_dir 20 2048 0 None
       [example_file 3 (str ''A.TXT'') (str ''a.text'') [(50, 1000)], placed_dir 22 2048 1 (Some (str ''SUB'')) []]"

lemma calc_small_tree: "calc_dir_pos example_dir_image True small_tree (20, 0) = (placed_tree, 23, 2)"
proof -
  have s: "calc_dir_size example_dir_image True small_tree = (2048, 182)"
    "calc_dir_size example_dir_image False (example_dir 1 (Some (str ''SUB'')) []) = (2048, 0)" by code_simp+
  have "d_type (example_file 3 (str ''A.TXT'') (str ''a.text'') [(50, 1000)]) = ECMA119_FILE"
    "d_type (example_dir 1 (Some (str ''SUB'')) []) = ECMA119_DIR" "rockridge example_dir_image" by code_simp+
  with s show ?thesis
    by (simp add: small_tree_def placed_tree_def example_dir_def placed_dir_def DIV_UP_def)
qed

lemma placed_tree_ok: "tree_ok example_dir_image placed_tree"
proof -
  have "list_all (\<lambda>v. dir_ok example_dir_image (fst v) \<and> snd (calc_dir_size example_dir_image (fst (snd v) = None) (fst v)) < 1000 \<and>
      (case fst (snd v) of Some p \<Rightarrow> d_type p = ECMA119_DIR | None \<Rightarrow> True)) (visits None None placed_tree)"
    by code_simp
  then show ?thesis
    unfolding tree_ok_def visit_ok_def by (rule list.pred_mono_strong) (auto split: option.splits)
qed

lemma write_placed_tree:
  "\<exists>mem' out'. 3 < mem' \<and> write_dirs example_dir_image (block_of_id placed_tree) collect None None placed_tree (500, []) = Some (Inr (), mem', out')"
proof -
  have "case write_dirs example_dir_image (block_of_id placed_tree) collect None None placed_tree (500, []) of
      Some (r, m, _) \<Rightarrow> r = Inr () \<and> 3 < m | None \<Rightarrow> False" by code_simp
  then show ?thesis by (auto split: option.splits)
qed

lemma tree_positions_witness:
  "\<exists>root' cur' ndirs mem' out'. calc_dir_pos example_dir_image True small_tree (20, 0) = (root', cur', ndirs) \<and>
     write_dirs example_dir_image (block_of_id root') collect None None root' (500, []) = Some (Inr (), mem', out') \<and>
     cur' = 23 \<and> ndirs = 2 \<and> (\<exists>n. length out' = 2048 * n \<and> cur' = 20 + word_of_nat n)"
proof -
  obtain mem' out' where w: "write_dirs example_dir_image (block_of_id placed_tree) collect None None placed_tree (500, []) = Some (Inr (), mem', out')"
    using write_placed_tree by blast
  have "\<exists>n. length out' = 2048 * n \<and> 23 = 20 + (word_of_nat n :: u32)"
    using tree_positions [OF calc_small_tree w placed_tree_ok] by auto
  then show ?thesis using calc_small_tree w by blast
qed
end
