(* ===== verification/Path_Tables.thy ===== *)
theory Path_Tables
  imports Dir_Tree "HOL-Library.Multiset"
begin

text \<open>
  The path tables of \<open>libisofs/ecma119.c\<close>: they list all directories in the order of a breadth first
  search, each with the number of its parent in the table.
\<close>

section \<open>The breadth first search\<close>

abbreviation subs :: "dtree \<times> nat option \<Rightarrow> (dtree \<times> nat option) list" where
  "subs x \<equiv> subdirs (fst x)"

lemma dir_nodes_eq: "dir_nodes d = d # concat (map dir_nodes (filter (\<lambda>c. d_type c = ECMA119_DIR) (d_children d)))"
proof (cases d)
  case (DNode nm n rp rm secs b len cs)
  have "concat (map (\<lambda>c. if d_type c = ECMA119_DIR then dir_nodes c else []) cs) =
      concat (map dir_nodes (filter (\<lambda>c. d_type c = ECMA119_DIR) cs))" for cs
    by (induction cs) simp_all
  then show ?thesis by (simp add: DNode)
qed

lemma nodes_subs: "concat (map (dir_nodes \<circ> fst) (subdirs d)) = tl (dir_nodes d)"
  by (subst dir_nodes_eq) (simp add: subdirs_def o_def)

lemma dir_nodes_ne: "dir_nodes d \<noteq> []"
  by (subst dir_nodes_eq) simp

text \<open>After \<open>i\<close> turns: what is known of the list so far.\<close>

definition bfs_inv :: "dtree \<Rightarrow> nat \<Rightarrow> (dtree \<times> nat option) list \<Rightarrow> bool" where
  "bfs_inv root i pl \<longleftrightarrow>
     i \<le> length pl \<and>
     mset (dir_nodes root) = mset (map fst (take i pl)) + mset (concat (map (dir_nodes \<circ> fst) (drop i pl))) \<and>
     pl = (root, None) # concat (map subs (take i pl))"

lemma bfs_start: "bfs_inv root 0 [(root, None)]"
  by (simp add: bfs_inv_def)

lemma bfs_room: "bfs_inv root i pl \<Longrightarrow> i < length (dir_nodes root) \<Longrightarrow> i < length pl"
proof (rule ccontr)
  assume a: "bfs_inv root i pl" "i < length (dir_nodes root)" "\<not> i < length pl"
  then have "i = length pl" by (simp add: bfs_inv_def)
  then have "mset (dir_nodes root) = mset (map fst pl)" using a(1) by (simp add: bfs_inv_def)
  then have "length (dir_nodes root) = length pl" by (metis length_map mset_eq_length)
  then show False using a(2) \<open>i = length pl\<close> by simp
qed

lemma bfs_step:
  assumes "bfs_inv root i pl" "i < length (dir_nodes root)"
  shows "bfs_inv root (Suc i) (pl @ subs (pl ! i))"
proof -
  have i: "i < length pl" by (rule bfs_room [OF assms])
  let ?x = "pl ! i"
  have t: "take (Suc i) (pl @ subs ?x) = take i pl @ [?x]" using i by (simp add: take_Suc_conv_app_nth)
  have d: "drop i pl = ?x # drop (Suc i) pl" "drop (Suc i) (pl @ subs ?x) = drop (Suc i) pl @ subs ?x"
    using i by (simp_all add: Cons_nth_drop_Suc)
  have x: "mset (dir_nodes (fst ?x)) = {#fst ?x#} + mset (concat (map (dir_nodes \<circ> fst) (subs ?x)))"
    unfolding nodes_subs by (subst dir_nodes_eq) (simp add: dir_nodes_eq [of "fst ?x"])
  have m: "mset (dir_nodes root) = mset (map fst (take i pl @ [?x])) +
      mset (concat (map (dir_nodes \<circ> fst) (drop (Suc i) pl @ subs ?x)))"
    using assms(1) x unfolding bfs_inv_def d(1) by simp
  have e: "pl @ subs ?x = (root, None) # concat (map subs (take i pl @ [?x]))"
    using assms(1) by (simp add: bfs_inv_def)
  show ?thesis unfolding bfs_inv_def t d(2) using i by (intro conjI m e) simp
qed

definition bfs :: "dtree \<Rightarrow> nat \<Rightarrow> (dtree \<times> nat option) list" where
  "bfs root n = foldl (\<lambda>pl i. pl @ subs (pl ! i)) [(root, None)] [0..<n]"

lemma bfs_inv_bfs: "n \<le> length (dir_nodes root) \<Longrightarrow> bfs_inv root n (bfs root n)"
  by (induction n) (simp_all add: bfs_def bfs_start bfs_step)

lemma bfs_prefix: "i \<le> n \<Longrightarrow> n \<le> length (dir_nodes root) \<Longrightarrow> take (length (bfs root i)) (bfs root n) = bfs root i"
proof (induction n)
  case (Suc n)
  show ?case
  proof (cases "i = Suc n")
    case False
    then have "take (length (bfs root i)) (bfs root n) = bfs root i" using Suc by simp
    moreover have "bfs root (Suc n) = bfs root n @ subs (bfs root n ! n)" by (simp add: bfs_def)
    ultimately show ?thesis by (metis append.right_neutral diff_is_0_eq' length_take min_def nat_le_linear take_all take_append take_eq_Nil)
  qed simp
qed simp

lemma path_list_bfs:
  assumes "pl = path_list (length (dir_nodes root)) root"
  shows "length pl = length (dir_nodes root)" "mset (map fst pl) = mset (dir_nodes root)"
    "pl = (root, None) # concat (map subs pl)"
    "i < length pl \<Longrightarrow> i < length ((root, None) # concat (map subs (take i pl)))"
proof -
  let ?n = "length (dir_nodes root)"
  have pl: "pl = bfs root ?n" using assms by (simp add: path_list_def bfs_def)
  have inv: "bfs_inv root ?n pl" unfolding pl by (rule bfs_inv_bfs) simp
  then have "size (mset (dir_nodes root)) = ?n + size (mset (concat (map (dir_nodes \<circ> fst) (drop ?n pl))))"
    unfolding bfs_inv_def by (simp add: min_def)
  then have "concat (map (dir_nodes \<circ> fst) (drop ?n pl)) = []" by simp
  then have "drop ?n pl = []" using dir_nodes_ne by (cases "drop ?n pl") auto
  then show l: "length pl = ?n" using inv by (simp add: bfs_inv_def)
  then show "mset (map fst pl) = mset (dir_nodes root)" "pl = (root, None) # concat (map subs pl)"
    using inv by (simp_all add: bfs_inv_def)
  assume i: "i < length pl"
  then have b: "bfs_inv root i (bfs root i)" "i < length (bfs root i)"
    using bfs_inv_bfs [of i root] bfs_room [of root i] l by simp_all
  have "take (length (bfs root i)) pl = bfs root i"
    unfolding pl by (rule bfs_prefix) (use i l in simp_all)
  then have "take i (bfs root i) = take i (take (length (bfs root i)) pl)" by simp
  also have "\<dots> = take i pl" using b(2) by simp
  finally have "take i (bfs root i) = take i pl" .
  then show "i < length ((root, None) # concat (map subs (take i pl)))" using b unfolding bfs_inv_def by metis
qed

section \<open>The numbers of the parents\<close>

definition parents_of :: "(dtree \<times> nat option) list \<Rightarrow> nat list" where
  "parents_of pl = concat (map (\<lambda>j. replicate (length (subs (pl ! j))) j) [0..<length pl])"

lemma sorted_blocks: "sorted (concat (map (\<lambda>j. replicate (m j) j) [0..<n]))"
  by (induction n) (auto simp: sorted_append)

lemma parents_match:
  "list_all2 (\<lambda>x j. j < length pl \<and> x \<in> set (subs (pl ! j))) (concat (map subs pl)) (parents_of pl)"
proof -
  have "list_all2 (\<lambda>x j. j < length pl \<and> x \<in> set (subs (pl ! j))) (concat (map (\<lambda>j. subs (pl ! j)) js))
      (concat (map (\<lambda>j. replicate (length (subs (pl ! j))) j) js))" if "\<forall>j \<in> set js. j < length pl" for js
    using that
  proof (induction js)
    case (Cons j js)
    have "list_all2 (\<lambda>x j. j < length pl \<and> x \<in> set (subs (pl ! j))) (subs (pl ! j)) (replicate (length (subs (pl ! j))) j)"
      using Cons.prems by (simp add: list_all2_conv_all_nth)
    then show ?case using Cons by (simp add: list_all2_appendI)
  qed simp
  moreover have "map subs pl = map (\<lambda>j. subs (pl ! j)) [0..<length pl]" by (rule nth_equalityI) simp_all
  ultimately show ?thesis unfolding parents_of_def by simp
qed

text \<open>A parent stands before its children.\<close>

lemma parents_before:
  assumes "\<And>i. i < length pl \<Longrightarrow> i < length (r # concat (map subs (take i pl)))" "k < length (parents_of pl)"
  shows "parents_of pl ! k < Suc k"
proof -
  have *: "k < length (concat (map (\<lambda>j. replicate (m j) j) [0..<n])) \<Longrightarrow> (\<And>j. j < n \<Longrightarrow> j < Suc (sum_list (map m [0..<j]))) \<Longrightarrow>
      concat (map (\<lambda>j. replicate (m j) j) [0..<n]) ! k < Suc k" for m :: "nat \<Rightarrow> nat" and n
  proof (induction n)
    case (Suc n)
    let ?c = "concat (map (\<lambda>j. replicate (m j) j) [0..<n])"
    have l: "length ?c = sum_list (map m [0..<n])" by (simp add: length_concat o_def)
    show ?case
    proof (cases "k < length ?c")
      case True
      then show ?thesis using Suc.IH Suc.prems(2) by (simp add: nth_append)
    next
      case False
      moreover have "n < Suc (sum_list (map m [0..<n]))" by (rule Suc.prems(2)) simp
      ultimately have "n < Suc k" using l by linarith
      then show ?thesis using False Suc.prems(1) l by (simp add: nth_append)
    qed
  qed simp
  have "j < Suc (sum_list (map (\<lambda>j. length (subs (pl ! j))) [0..<j]))" if "j < length pl" for j
  proof -
    have "map (\<lambda>j. length (subs (pl ! j))) [0..<j] = map (\<lambda>x. length (subs x)) (take j pl)"
      by (rule nth_equalityI) (use that in simp_all)
    then show ?thesis using assms(1) [OF that] by (simp add: length_concat o_def)
  qed
  then show ?thesis using *[of "\<lambda>j. length (subs (pl ! j))" "length pl"] assms(2) by (simp add: parents_of_def)
qed

lemma find_parent_finds:
  "distinct (map (\<lambda>x. d_id (fst x)) pl) \<Longrightarrow> i \<le> j \<Longrightarrow> j < length pl \<Longrightarrow> find_parent pl (Some (d_id (fst (pl ! j)))) i = Some j"
proof (induction pl "Some (d_id (fst (pl ! j)))" i rule: find_parent.induct)
  case (1 pl i)
  show ?case
  proof (cases "i = j")
    case True
    then show ?thesis using "1.prems" by (subst find_parent.simps) simp
  next
    case False
    then have "d_id (fst (pl ! i)) \<noteq> d_id (fst (pl ! j))" using "1.prems" by (simp add: distinct_conv_nth)
    then show ?thesis using "1.hyps" "1.prems" False by (subst find_parent.simps) simp
  qed
qed

section \<open>Writing a table\<close>

definition table_records :: "dir_image \<Rightarrow> bool \<Rightarrow> (dtree \<times> nat option) list \<Rightarrow> nat list \<Rightarrow> byte list list" where
  "table_records t l_type pl ps = map2 (\<lambda>x p. path_record t l_type (fst x) (snd x \<noteq> None) p) pl ps"

lemma write_path_records_collect:
  "list_all2 (\<lambda>x j. j < length pl \<and> snd x = Some (d_id (fst (pl ! j)))) rest js \<Longrightarrow> sorted (p # js) \<Longrightarrow>
   distinct (map (\<lambda>x. d_id (fst x)) pl) \<Longrightarrow> list_all (\<lambda>r. length r \<le> 64) (table_records t l_type rest js) \<Longrightarrow>
   write_path_records t l_type collect pl rest False p k out =
     Some (Inr (k + length (concat (table_records t l_type rest js))), out @ concat (table_records t l_type rest js))"
proof (induction rest js arbitrary: p k out rule: list_all2_induct)
  case Nil
  then show ?case by (simp add: table_records_def)
next
  case (Cons x rest j js)
  obtain d up where x: "x = (d, up)" by fastforce
  have f: "find_parent pl up p = Some j"
    using find_parent_finds [of pl p j] Cons.hyps(1) Cons.prems(1,2) x by simp
  have tr: "table_records t l_type (x # rest) (j # js) =
      path_record t l_type d (up \<noteq> None) j # table_records t l_type rest js"
    by (simp add: table_records_def x)
  have "write_path_records t l_type collect pl rest False j (k + length (path_record t l_type d (up \<noteq> None) j))
      (out @ path_record t l_type d (up \<noteq> None) j) =
    Some (Inr (k + length (path_record t l_type d (up \<noteq> None) j) + length (concat (table_records t l_type rest js))),
      (out @ path_record t l_type d (up \<noteq> None) j) @ concat (table_records t l_type rest js))"
    by (rule Cons.IH) (use Cons.prems tr in simp_all)
  then show ?case using Cons.prems(3) unfolding tr
    by (simp add: x f Let_def collect_def [of "path_record t l_type d (\<exists>y. up = Some y) j"])
qed

lemma concat_bound: "list_all (\<lambda>r. length r \<le> k) rs \<Longrightarrow> length (concat rs) \<le> k * length rs"
  by (induction rs) simp_all

text \<open>The size of the record of a directory.\<close>

definition entry_size :: "dtree \<Rightarrow> nat" where
  "entry_size d = (let sz = 8 + (case d_name d of Some s \<Rightarrow> length s | None \<Rightarrow> 1) in sz + sz mod 2)"

lemma calc_path_table_size_nodes: "calc_path_table_size d = word_of_nat (sum_list (map entry_size (dir_nodes d)))"
proof (induction d rule: calc_path_table_size.induct)
  case (1 nm n rp rm secs blk len cs)
  have "sum_list (map (\<lambda>c. if d_type c = ECMA119_DIR then calc_path_table_size c else 0) cs) =
      (word_of_nat (sum_list (map entry_size (concat (map (\<lambda>c. if d_type c = ECMA119_DIR then dir_nodes c else []) cs)))) :: u32)"
    using 1 by (induction cs) simp_all
  then show ?case by (simp add: entry_size_def [of "DNode nm n rp rm secs blk len cs"] Let_def)
qed

definition path_ok :: "dtree \<Rightarrow> bool" where
  "path_ok root \<longleftrightarrow>
     d_name root = None \<and> distinct (map d_id (dir_nodes root)) \<and> length (dir_nodes root) < 2 ^ 16 \<and>
     list_all (\<lambda>d. list_all (\<lambda>c. d_type c = ECMA119_DIR \<longrightarrow> d_name c \<noteq> None \<and> length (name_bytes c) \<le> 56) (d_children d)) (dir_nodes root)"

lemma length_path_record:
  assumes "d_name d = None \<and> \<not> b \<or> d_name d \<noteq> None \<and> b \<and> length (name_bytes d) \<le> 56"
  shows "length (path_record t l_type d b p) = entry_size d" "entry_size d \<le> 64"
proof -
  have u: "length s \<le> 56 \<Longrightarrow> unat (word_of_nat (length s) :: byte) = length s" for s :: cstring
    by (simp add: unat_of_nat take_bit_nat_eq_self)
  have e: "(8 + n) mod 2 = n mod 2" "n \<le> 56 \<Longrightarrow> n + n mod 2 \<le> 56" for n :: nat by presburger+
  show "length (path_record t l_type d b p) = entry_size d" "entry_size d \<le> 64"
    using assms u e by (auto simp: path_record_def entry_size_def name_bytes_def Let_def)
qed

text \<open>A table with the zeros behind it.\<close>

definition table_block :: "byte list \<Rightarrow> byte list" where
  "table_block bs = bs @ replicate (DIV_UP (length bs) 2048 * 2048 - length bs) 0"

lemma length_table_block: "length (table_block bs) = DIV_UP (length bs) 2048 * 2048"
  using DIV_UP_ge [of "length bs"] by (simp add: table_block_def)

lemma write_path_table_collect:
  fixes t :: dir_image and l_type :: bool
  assumes pl: "pl = path_list (length (dir_nodes root)) root" and ok: "path_ok root"
  defines "bs \<equiv> concat (table_records t l_type pl (0 # parents_of pl))"
  shows "length bs = sum_list (map entry_size (dir_nodes root))"
    "length bs < 2 ^ 22"
    "mem > 0 \<Longrightarrow> \<exists>mem' \<le> mem. mem \<le> mem' + 1 \<and> write_path_table t l_type collect pl (mem, out) = Some (Inr (), mem', out @ table_block bs)"
    "write_path_table t l_type collect pl (mem, out) = Some (Inr (), mem1, out1) \<Longrightarrow> out1 = out @ table_block bs"
proof -
  note P = path_list_bfs [OF pl]
  have root: "d_name root = None" and dist: "distinct (map d_id (dir_nodes root))"
    and names: "\<And>d c. d \<in> set (dir_nodes root) \<Longrightarrow> c \<in> set (d_children d) \<Longrightarrow> d_type c = ECMA119_DIR \<Longrightarrow>
      d_name c \<noteq> None \<and> length (name_bytes c) \<le> 56"
    using ok unfolding path_ok_def list_all_iff by blast+
  have nodes: "set (map fst pl) = set (dir_nodes root)" using P(2) by (metis set_mset_mset)
  have "mset (map d_id (map fst pl)) = mset (map d_id (dir_nodes root))" using P(2) by (metis mset_map)
  from mset_eq_imp_distinct_iff [OF this] dist have "distinct (map d_id (map fst pl))" by blast
  then have dpl: "distinct (map (\<lambda>x. d_id (fst x)) pl)" by (simp add: o_def)
  define rest where "rest = concat (map subs pl)"
  have plr: "pl = (root, None) # rest" using P(3) by (simp add: rest_def)
  have m: "list_all2 (\<lambda>x j. j < length pl \<and> x \<in> set (subs (pl ! j))) rest (parents_of pl)"
    unfolding rest_def by (rule parents_match)
  then have m2: "list_all2 (\<lambda>x j. j < length pl \<and> snd x = Some (d_id (fst (pl ! j)))) rest (parents_of pl)"
    by (rule list_all2_mono) (auto simp: subdirs_def)
  have good: "snd x \<noteq> None \<and> d_name (fst x) \<noteq> None \<and> length (name_bytes (fst x)) \<le> 56" if x: "x \<in> set rest" for x
  proof -
    obtain y where y: "y \<in> set pl" "x \<in> set (subs y)" using x by (auto simp: rest_def)
    then have "fst y \<in> set (dir_nodes root)" using nodes by auto
    moreover have "fst x \<in> set (d_children (fst y))" "d_type (fst x) = ECMA119_DIR" "snd x \<noteq> None"
      using y(2) by (auto simp: subdirs_def)
    ultimately show ?thesis using names by blast
  qed
  have rec: "length (path_record t l_type (fst x) (snd x \<noteq> None) p) = entry_size (fst x) \<and> entry_size (fst x) \<le> 64" if "x \<in> set pl" for x p
  proof -
    have "d_name (fst x) = None \<and> \<not> (snd x \<noteq> None) \<or> d_name (fst x) \<noteq> None \<and> snd x \<noteq> None \<and> length (name_bytes (fst x)) \<le> 56"
      using that good [of x] root by (cases "x = (root, None)") (auto simp: plr)
    from length_path_record [OF this] show ?thesis by blast
  qed
  have len_ps: "length (0 # parents_of pl) = length pl" using list_all2_lengthD [OF m] plr by simp
  have lens: "map length (table_records t l_type pl (0 # parents_of pl)) = map (entry_size \<circ> fst) pl"
    unfolding table_records_def by (rule nth_equalityI) (use len_ps rec in auto)
  have "length bs = sum_list (map (entry_size \<circ> fst) pl)" by (simp add: bs_def length_concat lens)
  also have "\<dots> = sum_list (map entry_size (map fst pl))" by simp
  also have "\<dots> = sum_list (map entry_size (dir_nodes root))"
    using P(2) by (metis mset_map sum_mset_sum_list)
  finally show "length bs = sum_list (map entry_size (dir_nodes root))" .
  have tr: "table_records t l_type pl (0 # parents_of pl) = path_record t l_type root False 0 # table_records t l_type rest (parents_of pl)"
    by (subst (1) plr) (simp add: table_records_def)
  have small: "list_all (\<lambda>r. length r \<le> 64) (table_records t l_type pl (0 # parents_of pl))"
    unfolding list_all_length table_records_def using len_ps rec by auto
  have "length bs \<le> 64 * length pl"
    using concat_bound [OF small] len_ps by (simp add: bs_def table_records_def)
  then show "length bs < 2 ^ 22" using ok P(1) by (simp add: path_ok_def)
  have r0: "length (path_record t l_type root False 0) \<le> 64" using small unfolding tr by simp
  have "write_path_records t l_type collect pl rest False 0 (length (path_record t l_type root False 0)) (out @ path_record t l_type root False 0) =
    Some (Inr (length (path_record t l_type root False 0) + length (concat (table_records t l_type rest (parents_of pl)))),
      (out @ path_record t l_type root False 0) @ concat (table_records t l_type rest (parents_of pl)))"
  proof (rule write_path_records_collect [OF m2 _ dpl])
    show "sorted (0 # parents_of pl)" by (simp add: parents_of_def sorted_blocks)
    show "list_all (\<lambda>r. length r \<le> 64) (table_records t l_type rest (parents_of pl))" using small unfolding tr by simp
  qed
  then have w: "write_path_records t l_type collect pl pl True 0 0 out = Some (Inr (length bs), out @ bs)"
    using r0 unfolding bs_def tr
    by (subst (2) plr) (simp add: Let_def collect_def [of "path_record t l_type root False 0"])
  have pad: "DIV_UP (length bs) 2048 * 2048 - length bs = (if length bs mod 2048 = 0 then 0 else 2048 - length bs mod 2048)"
    by (rule DIV_UP_pad)
  show "out1 = out @ table_block bs" if "write_path_table t l_type collect pl (mem, out) = Some (Inr (), mem1, out1)"
    using that w by (auto simp: write_path_table_def table_block_def pad collect_def [of "replicate k 0" for k] split: if_splits)
  show "\<exists>mem' \<le> mem. mem \<le> mem' + 1 \<and> write_path_table t l_type collect pl (mem, out) = Some (Inr (), mem', out @ table_block bs)" if "mem > 0"
    by (rule exI [of _ "if length bs mod 2048 = 0 then mem else mem - 1"])
      (use that w in \<open>simp add: write_path_table_def table_block_def pad collect_def [of "replicate k 0" for k]\<close>)
qed

section \<open>Both tables\<close>


section \<open>The end of the tree\<close>

lemma write_path_tables_collect:
  assumes ok: "path_ok root"
    and wr: "write_path_tables t collect (length (dir_nodes root)) root (mem, out) = Some (Inr (), mem', out')"
  shows "\<exists>tables. out' = out @ tables \<and> length tables = 2 * (DIV_UP (unat (calc_path_table_size root)) 2048 * 2048)"
proof -
  define pl where "pl = path_list (length (dir_nodes root)) root"
  note W = write_path_table_collect [OF pl_def ok]
  obtain m1 o1 where 1: "write_path_table t True collect pl (mem - 1, out) = Some (Inr (), m1, o1)"
    "write_path_table t False collect pl (m1, o1) = Some (Inr (), mem', out')"
    using wr by (auto simp: write_path_tables_def pl_def [symmetric] Let_def split: if_splits option.splits sum.splits)
  have "unat (calc_path_table_size root) = sum_list (map entry_size (dir_nodes root))"
    using W(1,2) by (simp add: calc_path_table_size_nodes unat_of_nat take_bit_nat_eq_self)
  then have len: "length (table_block (concat (table_records t l pl (0 # parents_of pl)))) = DIV_UP (unat (calc_path_table_size root)) 2048 * 2048" for l
    by (simp add: length_table_block W(1))
  show ?thesis using W(4) [OF 1(1)] W(4) [OF 1(2)] len by (simp add: length_table_block)
qed

lemma div_up_word: "unat x < 2 ^ 32 - 2048 \<Longrightarrow> div_up_word x 2048 = word_of_nat (DIV_UP (unat x) 2048)"
proof -
  assume x: "unat x < 2 ^ 32 - 2048"
  have "div_up_word x 2048 = (x + 2047) div 2048" by (simp add: div_up_word_def add.commute)
  also have "x + 2047 = word_of_nat (unat x + 2047)" by simp
  also have "word_of_nat (unat x + 2047) div (2048 :: u32) = word_of_nat ((unat x + 2047) div 2048)"
  proof -
    have "unat (word_of_nat (unat x + 2047) :: u32) = unat x + 2047"
      using x by (simp add: unat_of_nat take_bit_nat_eq_self del: of_nat_add)
    then have "unat (word_of_nat (unat x + 2047) div (2048 :: u32)) = (unat x + 2047) div 2048" by (simp add: unat_div_distrib del: of_nat_add)
    moreover have "word_of_nat (unat w) = w" for w :: u32 by simp
    ultimately show ?thesis by metis
  qed
  finally show ?thesis by (simp add: DIV_UP_def add.commute)
qed

lemma small_table: "path_ok root \<Longrightarrow> unat (calc_path_table_size root) < 2 ^ 32 - 2048"
  using write_path_table_collect(1,2) [OF refl, of root example_dir_image True]
  by (simp add: calc_path_table_size_nodes unat_of_nat take_bit_nat_eq_self)

lemma calc_pos_offset:
  "calc_dir_pos t r d st = X \<Longrightarrow> calc_dir_pos (image_at t x) r d st = X"
  "calc_dirs_pos t cs st = Y \<Longrightarrow> calc_dirs_pos (image_at t x) cs st = Y"
proof (induction t r d st and t cs st arbitrary: X and Y rule: calc_dir_pos_calc_dirs_pos.induct)
  case (1 t r nm n rp rm secs blk len cs curblock ndirs)
  then show ?case by (auto simp: Let_def split: prod.splits)
next
  case (2 t st)
  then show ?case by simp
next
  case (3 t c cs st)
  then show ?case by (auto simp: Let_def split: prod.splits)
qed

text \<open>One tree with its tables takes the blocks that were computed.\<close>

lemma write_tree_blocks:
  assumes calc: "calc_dir_pos t True root (cur, 0) = (root', cur1, ndirs)"
    and wr: "writer_write_dirs (image_at t x) collect tag ndirs root' (mem, out) = Some (Inr (), mem', out')"
    and tag: "tag = collect tag_block" "length tag_block = 2048"
    and ok: "tree_ok t root'" "path_ok root'"
  shows "\<exists>n. length out' = length out + 2048 * n \<and>
     word_of_nat n = cur1 - cur + div_up_word (calc_path_table_size root') 2048 + div_up_word (calc_path_table_size root') 2048 +
       (if md5_session_checksum t \<and> \<not> x > 0 then 1 else 0)"
proof -
  let ?t = "image_at t x"
  obtain m1 o1 where w1: "write_dirs ?t (block_of_id root') collect None None root' (mem, out) = Some (Inr (), m1, o1)"
    using wr by (auto simp: writer_write_dirs_def split: option.splits sum.splits)
  obtain m2 o2 where w2: "write_path_tables ?t collect ndirs root' (m1, o1) = Some (Inr (), m2, o2)"
    using wr w1 by (auto simp: writer_write_dirs_def split: option.splits sum.splits)
  have w3: "(if md5_session_checksum t \<and> \<not> x > 0 then case tag o2 of (r, w) \<Rightarrow> (r, m2, w) else (Inr (), m2, o2)) = (Inr (), mem', out')"
    using wr w1 w2 by (simp add: writer_write_dirs_def)
  have calc': "calc_dir_pos ?t True root (cur, 0) = (root', cur1, ndirs)" by (rule calc_pos_offset(1) [OF calc])
  obtain tree where tree: "o1 = out @ tree" "length tree = 2048 * space_of t (visits None None root')"
    "ndirs = length (dir_nodes root')" "cur1 = cur + word_of_nat (space_of t (visits None None root'))"
    using tree_written [OF calc' w1] ok(1) by auto
  obtain tables where tables: "o2 = o1 @ tables" "length tables = 2 * (DIV_UP (unat (calc_path_table_size root')) 2048 * 2048)"
    using write_path_tables_collect [OF ok(2)] w2 tree(3) by blast
  let ?n = "space_of t (visits None None root') + 2 * DIV_UP (unat (calc_path_table_size root')) 2048 + (if md5_session_checksum t \<and> \<not> x > 0 then 1 else 0)"
  have "length out' = length out + 2048 * ?n"
    using w3 tag tree(1,2) tables by (auto simp: collect_def split: if_splits)
  then show ?thesis using tree(4) div_up_word [OF small_table [OF ok(2)]] by (intro exI [of _ ?n]) simp
qed

text \<open>
  C6: the run-time check at the end of \<open>ecma119_writer_write_data\<close> never finds a difference: what was written
  for the tree, its path tables, the checksum tag and, with a partition offset, for the second tree, ends at
  the block that \<open>ecma119_writer_compute_data_blocks\<close> predicted, so that \<open>tree_end_block\<close> keeps its value and no
  warning is issued.\<close>
theorem tree_end_agrees:
  assumes compute: "compute_data_blocks t root part pos0 cur = Inr (root', part', ndirs, pos, cur')"
    and wr: "writer_write_data t collect (collect tag_block) length ndirs root' part' (tree_end_block pos) (mem, out) =
      Some (Inr (end_block, warned), mem', out')"
    and start: "2048 dvd length out" "cur = word_of_nat (length out div 2048) + ms_block t" "eff_partition_offset (rr_opts t) = 0"
    and ok: "tree_ok t root'" "path_ok root'" "partition_offset t > 0 \<Longrightarrow> tree_ok t part' \<and> path_ok part'"
    and tag: "length tag_block = 2048"
  shows "\<not> warned \<and> end_block = tree_end_block pos \<and> tree_end_block pos = cur'"
proof -
  let ?s = "\<lambda>r. div_up_word (calc_path_table_size r) 2048 + div_up_word (calc_path_table_size r) 2048"
  let ?tag = "if md5_session_checksum t then 1 else (0 :: u32)"
  have t0: "image_at t 0 = t" using start(3) by simp
  obtain cur1 where c1: "calc_dir_pos t True root (cur, 0) = (root', cur1, ndirs)"
    and c2: "if partition_offset t > 0
      then \<exists>cur2. calc_dir_pos t True part (cur1 + ?s root' + ?tag, 0) = (part', cur2, ndirs) \<and> cur' = cur2 + ?s part'
      else cur' = cur1 + ?s root' + ?tag"
    and c3: "tree_end_block pos = cur'"
    using compute by (auto simp: compute_data_blocks_def Let_def add.assoc split: prod.splits if_splits)
  obtain m1 o1 where w1: "writer_write_dirs (image_at t 0) collect (collect tag_block) ndirs root' (mem, out) = Some (Inr (), m1, o1)"
    using wr unfolding t0 by (auto simp: writer_write_data_def split: option.splits sum.splits)
  obtain m2 o2 where w2: "(if partition_offset t > 0
       then writer_write_dirs (image_at t (partition_offset t)) collect (collect tag_block) ndirs part' (m1, o1)
       else Some (Inr (), m1, o1)) = Some (Inr (), m2, o2)"
    using wr w1 unfolding t0 by (auto simp: writer_write_data_def split: option.splits sum.splits if_splits)
  have w3: "(if word_of_nat (length o2 div 2048) + ms_block t \<noteq> tree_end_block pos
      then Some (if m2 = 0 then Inl ISO_OUT_OF_MEM else Inr (1, True), m2 - 1, o2)
      else Some (Inr (tree_end_block pos, False), m2, o2)) = Some (Inr (end_block, warned), mem', out')"
    using wr w1 w2 unfolding t0 by (simp add: writer_write_data_def split: if_splits)
  obtain n1 where n1: "length o1 = length out + 2048 * n1" "word_of_nat n1 = cur1 - cur + ?s root' + ?tag"
    using write_tree_blocks [OF c1 w1 refl tag ok(1,2)] by (auto simp: add.assoc)
  have "\<exists>n. length o2 = length out + 2048 * n \<and> word_of_nat n = cur' - cur"
  proof (cases "partition_offset t > 0")
    case True
    obtain cur2 where c: "calc_dir_pos t True part (cur1 + ?s root' + ?tag, 0) = (part', cur2, ndirs)" "cur' = cur2 + ?s part'"
      using c2 True by auto
    have w: "writer_write_dirs (image_at t (partition_offset t)) collect (collect tag_block) ndirs part' (m1, o1) = Some (Inr (), m2, o2)"
      using w2 True by simp
    obtain n2 where "length o2 = length o1 + 2048 * n2" "word_of_nat n2 = cur2 - (cur1 + ?s root' + ?tag) + ?s part'"
      using write_tree_blocks [OF c(1) w refl tag] ok(3) True by (auto simp: add.assoc)
    then show ?thesis using n1 c(2) by (intro exI [of _ "n1 + n2"]) (simp add: distrib_left)
  next
    case False
    then show ?thesis using n1 c2 w2 by (intro exI [of _ n1]) (simp add: algebra_simps)
  qed
  then obtain n where n: "length o2 = length out + 2048 * n" "word_of_nat n = cur' - cur" by blast
  obtain q where q: "length out = 2048 * q" using start(1) by (rule dvdE)
  have "word_of_nat (length o2 div 2048) + ms_block t = cur'"
    using n q start(2) by simp
  then show ?thesis using w3 c3 by simp
qed

section \<open>Examples\<close>


lemma write_path_tables_total:
  assumes ok: "path_ok root" and mem: "3 < mem"
  shows "\<exists>mem' out'. mem' \<noteq> 0 \<and> write_path_tables t collect (length (dir_nodes root)) root (mem, out) = Some (Inr (), mem', out')"
proof -
  define pl where "pl = path_list (length (dir_nodes root)) root"
  note W = write_path_table_collect(3) [OF pl_def ok]
  obtain m1 o1 where 1: "mem - 1 \<le> m1 + 1" "write_path_table t True collect pl (mem - 1, out) = Some (Inr (), m1, o1)"
    using W [of "mem - 1" t True out] mem by auto
  have "0 < m1" using 1(1) mem by linarith
  then obtain m2 o2 where 2: "m1 \<le> m2 + 1" "write_path_table t False collect pl (m1, o1) = Some (Inr (), m2, o2)"
    using W [of m1 t False o1] by auto
  have "m2 \<noteq> 0" using 1(1) 2(1) mem by linarith
  then show ?thesis using 1(2) 2(2) mem by (simp add: write_path_tables_def pl_def [symmetric] Let_def)
qed

lemma placed_path_ok: "path_ok placed_tree"
proof -
  have "length (dir_nodes placed_tree) = 2" by code_simp
  moreover have "d_name placed_tree = None" "distinct (map d_id (dir_nodes placed_tree))"
    "list_all (\<lambda>d. list_all (\<lambda>c. d_type c = ECMA119_DIR \<longrightarrow> d_name c \<noteq> None \<and> length (name_bytes c) \<le> 56) (d_children d)) (dir_nodes placed_tree)"
    by code_simp+
  ultimately show ?thesis by (simp add: path_ok_def)
qed

definition no_pos :: tree_pos where
  "no_pos = \<lparr>l_path_table_pos = 0, m_path_table_pos = 0, path_table_size = 0, checksum_tree_tag_pos = 0,
     partition_l_table_pos = 0, partition_m_table_pos = 0, tree_end_block = 0\<rparr>"

text \<open>A tree with two directories and a file: \<open>write_path_tables\<close> does not fail, so that the whole writer does not.\<close>

lemma write_small_tree:
  "\<exists>r mem' out'. writer_write_data example_dir_image collect (collect (replicate 2048 0)) length 2 placed_tree small_tree e (500, []) =
     Some (Inr r, mem', out')"
proof -
  obtain m1 o1 where w: "3 < m1" "write_dirs example_dir_image (block_of_id placed_tree) collect None None placed_tree (500, []) = Some (Inr (), m1, o1)"
    using write_placed_tree by blast
  have n: "length (dir_nodes placed_tree) = 2" by code_simp
  obtain m2 o2 where p: "m2 \<noteq> 0" "write_path_tables example_dir_image collect 2 placed_tree (m1, o1) = Some (Inr (), m2, o2)"
    using write_path_tables_total [OF placed_path_ok w(1), of example_dir_image o1] unfolding n by blast
  have "partition_offset example_dir_image = 0" "md5_session_checksum example_dir_image = False" by code_simp+
  then show ?thesis using w(2) p by (simp add: writer_write_data_def writer_write_dirs_def) blast
qed

lemma tree_end_agrees_witness:
  "\<exists>root' part' pos mem' out'. compute_data_blocks example_dir_image small_tree small_tree no_pos 20 = Inr (root', part', 2, pos, 25) \<and>
     writer_write_data example_dir_image collect (collect (replicate 2048 0)) length 2 root' part' (tree_end_block pos) (500, []) =
       Some (Inr (25, False), mem', out')"
proof -
  have sz: "div_up_word (calc_path_table_size placed_tree) 2048 = 1" by code_simp
  have f: "partition_offset example_dir_image = 0" "md5_session_checksum example_dir_image = False" "ms_block example_dir_image = 20"
    "eff_partition_offset (rr_opts example_dir_image) = 0" by code_simp+
  obtain pos where c: "compute_data_blocks example_dir_image small_tree small_tree no_pos 20 = Inr (placed_tree, small_tree, 2, pos, 25)"
    by (simp add: compute_data_blocks_def calc_small_tree sz f)
  obtain e w mem' out' where r: "writer_write_data example_dir_image collect (collect (replicate 2048 0)) length 2 placed_tree small_tree (tree_end_block pos) (500, []) =
       Some (Inr (e, w), mem', out')"
    using write_small_tree [of "tree_end_block pos"] by (metis prod.exhaust)
  have "\<not> w \<and> e = tree_end_block pos \<and> tree_end_block pos = 25"
    by (rule tree_end_agrees [OF c r]) (simp_all add: f placed_tree_ok placed_path_ok)
  then show ?thesis using c r by auto
qed

end
