(* ===== verification/Dir_Read.thy ===== *)
theory Dir_Read
  imports Rock_Ridge_Read
begin

text \<open>
  The loader of directories in \<open>libisofs/fs_image.c\<close>: \<open>read_dir\<close> reads the records of a directory
  and \<open>iso_file_source_new_ifs\<close> makes a file source of each of them.  The evaluation of the Rock
  Ridge entries is \<open>ifs_read\<close> of theory \<open>Rock_Ridge_Read\<close>.  Memory allocation is taken to succeed; \<open>None\<close>
  stands for an access outside the buffer and for a recursion or a loop that does not end.
\<close>

section \<open>The data\<close>

text \<open>
  The members of \<open>_ImageFsData\<close>.  \<open>ld_convert\<close> is the conversion from the input to the local character set,
  \<open>None\<close> if these are the same.  \<open>charset_msg\<close> and \<open>ecma_msg\<close> are the negative results of \<open>iso_msg_submit\<close>, if any,
  for the messages about character sets and about violations of ECMA-119.
\<close>

record loader =
  ld_rr :: bool
  ld_len_skp :: byte
  ld_uid :: u32
  ld_gid :: u32
  ld_dir_mode :: u32
  ld_file_mode :: u32
  ld_convert :: "(byte list \<Rightarrow> cstring option) option"
  charset_msg :: "iso_error option"
  ecma_msg :: "iso_error option"

text \<open>\<open>ImageFileSourceData\<close>: the members that describe the file.\<close>

record file_source =
  src_name :: "cstring option"
  src_info :: rr_stat
  src_size :: int
  src_sections :: "(u32 \<times> u32) list"
  src_aa :: "byte list option"
  src_zisofs :: "byte \<times> byte \<times> u32"
  src_link :: "cstring option"

text \<open>The results 2, 1 and 0, and the negative ones, of \<open>iso_file_source_new_ifs\<close>.\<close>

datatype ifs_result = Ifs_more | Ifs_done | Ifs_ignored | Ifs_error iso_error

text \<open>The counters \<open>px_ino_status\<close> and \<open>inode_counter\<close> of the file system.\<close>

type_synonym ino_state = "nat \<times> u32"

section \<open>A file source from a directory record\<close>

definition get_name :: "loader \<Rightarrow> byte list \<Rightarrow> nat \<Rightarrow> cstring option" where
  "get_name L s len =
     (case ld_convert L of
        None \<Rightarrow> Some (c_prefix len s)
      | Some f \<Rightarrow>
          (case f (take len s) of
             Some name \<Rightarrow> Some name
           | None \<Rightarrow> if charset_msg L \<noteq> None then None else Some (c_prefix len s)))"

definition len_fi :: "byte list \<Rightarrow> nat" where "len_fi dr = unat (dr ! 32)"

definition record_name :: "loader \<Rightarrow> byte list \<Rightarrow> cstring option" where
  "record_name L dr = get_name L (drop 33 dr) (len_fi dr)"

text \<open>The record without its version number \<open>;1\<close>, and without the period before it.\<close>

definition strip_version :: "cstring \<Rightarrow> cstring" where
  "strip_version name =
     (let len = length name
      in if len > 2 \<and> name ! (len - 2) = asc CHR '';'' \<and> name ! (len - 1) = asc CHR ''1''
         then if len > 3 \<and> name ! (len - 3) = asc CHR ''.'' then take (len - 3) name else take (len - 2) name
         else name)"

definition no_stat :: rr_stat where
  "no_stat = \<lparr>st_mode = 0, st_nlink = 0, st_uid = 0, st_gid = 0, st_ino = 0, st_rdev = 0, st_mtime = 0, st_atime = 0, st_ctime = 0\<rparr>"

definition add_section :: "byte list \<Rightarrow> file_source \<Rightarrow> file_source" where
  "add_section dr s = s\<lparr>src_sections := src_sections s @ [(bb_at dr 2, bb_at dr 10)]\<rparr>"

text \<open>A record with the multi-extent flag; \<open>src\<close> is what the former record of the same file left.\<close>

definition more_extent :: "loader \<Rightarrow> byte list \<Rightarrow> file_source option \<Rightarrow> ifs_result \<times> file_source option" where
  "more_extent L dr src =
     (if bit (dr ! 25) 1 then (Ifs_error ISO_WRONG_ECMA119, src)
      else
        let s = (case src of
                   Some s \<Rightarrow> Some s
                 | None \<Rightarrow> map_option (\<lambda>name. \<lparr>src_name = Some name, src_info = no_stat, src_size = 0, src_sections = [],
                       src_aa = None, src_zisofs = (0, 0, 0), src_link = None\<rparr>) (record_name L dr))
        in case s of
             None \<Rightarrow> (Ifs_error ISO_WRONG_ECMA119, None)
           | Some s \<Rightarrow> (Ifs_more, Some ((add_section dr s)\<lparr>src_size := src_size s + int (unat (bb_at dr 10))\<rparr>)))"

text \<open>
  The checks at the start: interleaved mode, extended attributes, and the name of a further extent.
\<close>

definition record_checks :: "loader \<Rightarrow> byte list \<Rightarrow> file_source option \<Rightarrow> iso_error option" where
  "record_checks L dr src =
     (if dr ! 26 \<noteq> 0 \<or> dr ! 27 \<noteq> 0 \<or> dr ! 1 \<noteq> 0 then Some ISO_UNSUPPORTED_ECMA119
      else case src of
        None \<Rightarrow> None
      | Some s \<Rightarrow>
          (case record_name L dr of
             None \<Rightarrow> Some ISO_WRONG_ECMA119
           | Some name \<Rightarrow> if Some name \<noteq> src_name s then Some ISO_WRONG_ECMA119 else None))"

definition converted :: "loader \<Rightarrow> ifs_env \<Rightarrow> cstring option \<Rightarrow> cstring option res" where
  "converted L E name =
     (case ld_convert L of
        None \<Rightarrow> Inr name
      | Some f \<Rightarrow>
          (case name of
             None \<Rightarrow> Inr None
           | Some s \<Rightarrow>
               (case f s of
                  Some s' \<Rightarrow> Inr (Some s')
                | None \<Rightarrow> (case rr_msg E 17 of Some e \<Rightarrow> Inl e | None \<Rightarrow> Inr (Some s)))))"

definition S_IFDIR :: u32 where "S_IFDIR = 0x4000"
definition S_IFREG :: u32 where "S_IFREG = 0x8000"
definition S_IFLNK :: u32 where "S_IFLNK = 0xA000"

text \<open>
  What is known of the file after the Rock Ridge entries, or without them.  \<open>Inr None\<close> is a record that
  belongs to a relocated directory.  The parameter \<open>flag\<close> of the function is 0, so that the attribute
  \<open>isofs.cs\<close> of the root directory is not looked up.
\<close>

definition record_state :: "loader \<Rightarrow> ifs_env \<Rightarrow> byte list \<Rightarrow> ino_state \<Rightarrow> (ifs_state option) res option" where
  "record_state L E dr cnt =
     (if ld_rr L then
        (case ifs_read E (ld_len_skp L) dr (fst cnt) (snd cnt) of
           None \<Rightarrow> None
         | Some (Inl e) \<Rightarrow> Some (Inl e)
         | Some (Inr None) \<Rightarrow> Some (Inr None)
         | Some (Inr (Some st)) \<Rightarrow>
             (case converted L E (ifs_name st) of
                Inl e \<Rightarrow> Some (Inl e)
              | Inr name \<Rightarrow>
                  (case converted L E (linkdest st) of
                     Inl e \<Rightarrow> Some (Inl e)
                   | Inr target \<Rightarrow> Some (Inr (Some (st\<lparr>ifs_name := name, linkdest := target\<rparr>))))))
      else
        let st = ifs_start (fst cnt) (snd cnt)
        in Some (Inr (Some (st\<lparr>atts := (atts st)\<lparr>st_uid := ld_uid L, st_gid := ld_gid L,
              st_mode := (if bit (dr ! 25) 1 then S_IFDIR OR ld_dir_mode L else S_IFREG OR ld_file_mode L)\<rparr>\<rparr>))))"

text \<open>
  A record that is ignored counts its \<open>PX\<close> entry nevertheless.  What an error leaves of the
  counters is not modelled.
\<close>

definition ignored_counters :: "loader \<Rightarrow> ifs_env \<Rightarrow> byte list \<Rightarrow> ino_state \<Rightarrow> ino_state" where
  "ignored_counters L E dr cnt =
     (case ifs_loop E (susp_iter_new dr (ld_len_skp L)) (ifs_start (fst cnt) (snd cnt)) of
        Some (Relocated st) \<Rightarrow> (px_ino_status st, inode_counter st)
      | _ \<Rightarrow> cnt)"

text \<open>
  The name, if there was no \<open>NM\<close> entry.  \<open>Inl None\<close> stands for the result 0 of \<open>iso_msg_submit\<close>: the caller
  sees an ignored record.
\<close>

definition plain_name :: "loader \<Rightarrow> byte list \<Rightarrow> ifs_state \<Rightarrow> iso_error option + cstring option" where
  "plain_name L dr st =
     (case ifs_name st of
        Some name \<Rightarrow> Inr (Some name)
      | None \<Rightarrow>
          if len_fi dr = 1 \<and> dr ! 33 = 0 then
            if st_mode (atts st) AND S_IFDIR = 0 then Inl (ecma_msg L) else Inr None
          else case record_name L dr of
            None \<Rightarrow> Inl (ecma_msg L)
          | Some name \<Rightarrow> Inr (Some (strip_version name)))"

definition filled_times :: "int \<Rightarrow> rr_stat \<Rightarrow> rr_stat" where
  "filled_times recorded a =
     a\<lparr>st_atime := (if st_atime a = 0 then recorded else st_atime a),
       st_ctime := (if st_ctime a = 0 then recorded else st_ctime a),
       st_mtime := (if st_mtime a = 0 then recorded else st_mtime a)\<rparr>"

definition verdict_of :: "iso_error option \<Rightarrow> ifs_result" where
  "verdict_of e = (case e of Some e \<Rightarrow> Ifs_error e | None \<Rightarrow> Ifs_ignored)"

text \<open>The last part, for a file that is not a relocated directory.\<close>

definition final_source :: "ifs_env \<Rightarrow> byte list \<Rightarrow> file_source option \<Rightarrow> ifs_state \<Rightarrow> cstring option \<Rightarrow>
    ifs_result \<times> file_source option" where
  "final_source E dr src st name =
     (let a = filled_times (iso_datetime_read_7 (env_timegm E) (drop 18 dr)) (atts st);
          is_link = (st_mode a AND S_IFMT = S_IFLNK);
          old = (case src of Some s \<Rightarrow> (src_size s, src_sections s) | None \<Rightarrow> (0, []))
      in if is_link \<and> linkdest st = None then (verdict_of (rr_msg E 18), src)
         else (Ifs_done, Some (add_section dr
            \<lparr>src_name = name, src_info = a, src_size = int (unat (bb_at dr 10)) + fst old, src_sections = snd old,
             src_aa = aa_string (ifs_aa st), src_zisofs = (if fst (zisofs st) > 0 then zisofs st else (0, 0, 0)),
             src_link = (if is_link then linkdest st else None)\<rparr>)))"

text \<open>\<open>src\<close> is the value of \<open>*src\<close>, before and after.  The record is followed by the rest of its buffer.\<close>

partial_function (option) iso_file_source_new_ifs ::
  "loader \<Rightarrow> ifs_env \<Rightarrow> byte list \<Rightarrow> file_source option \<Rightarrow> ino_state \<Rightarrow> (ifs_result \<times> file_source option \<times> ino_state) option" where
  "iso_file_source_new_ifs L E dr src cnt =
     (if length dr < 33 \<or> length dr < 33 + len_fi dr then None
      else case record_checks L dr src of
        Some e \<Rightarrow> Some (Ifs_error e, src, cnt)
      | None \<Rightarrow>
          if bit (dr ! 25) 7 then Some (case more_extent L dr src of (r, src) \<Rightarrow> (r, src, cnt))
          else case record_state L E dr cnt of
            None \<Rightarrow> None
          | Some (Inl e) \<Rightarrow> Some (Ifs_error e, src, cnt)
          | Some (Inr None) \<Rightarrow> Some (Ifs_ignored, src, ignored_counters L E dr cnt)
          | Some (Inr (Some st)) \<Rightarrow>
              let cnt = (if has_px st then px_ino_status st else px_ino_status st OR 4, inode_counter st)
              in case plain_name L dr st of
                   Inl e \<Rightarrow> Some (verdict_of e, src, cnt)
                 | Inr name \<Rightarrow>
                     if relocated_dir st \<noteq> 0 then
                       (case read_block E (relocated_dir st) of
                          Inl e \<Rightarrow> Some (Ifs_error e, src, cnt)
                        | Inr buffer \<Rightarrow>
                            Option.bind (iso_file_source_new_ifs L E buffer src cnt) (\<lambda>(r, src, cnt).
                              Some (if r = Ifs_more \<or> r = Ifs_done
                                    then (Ifs_done, map_option (\<lambda>s. s\<lparr>src_name := name\<rparr>) src, cnt)
                                    else (r, src, cnt))))
                     else Some (case final_source E dr src st name of (r, src) \<Rightarrow> (r, src, cnt)))"

section \<open>A directory\<close>

text \<open>
  The loop over the records.  \<open>child\<close> is the incomplete file of a multi-extent record, \<open>content\<close> the list of the
  children so far, which grows at its front.
\<close>

partial_function (option) read_records ::
  "loader \<Rightarrow> ifs_env \<Rightarrow> u32 \<Rightarrow> u32 \<Rightarrow> byte list \<Rightarrow> nat \<Rightarrow> u32 \<Rightarrow> file_source option \<Rightarrow> file_source list \<Rightarrow> ino_state \<Rightarrow>
     (file_source list \<times> ino_state) res option" where
  "read_records L E len block buffer pos tlen child content cnt =
     (if \<not> tlen < len then Some (Inr (content, cnt))
      else if pos > 2048 \<or> length buffer \<noteq> 2048 then None
      else if pos = 2048 \<or> buffer ! pos = 0 then
        (case read_block E (block + 1) of
           Inl e \<Rightarrow> Some (Inl e)
         | Inr buffer \<Rightarrow> read_records L E len (block + 1) buffer 0 (tlen + word_of_nat (2048 - pos)) child content cnt)
      else
        let dr_len = buffer ! pos
        in case iso_file_source_new_ifs L E (drop pos buffer) child cnt of
             None \<Rightarrow> None
           | Some (r, child, cnt) \<Rightarrow>
               (case r of
                  Ifs_error e \<Rightarrow> Some (Inl e)
                | Ifs_done \<Rightarrow> read_records L E len block buffer (pos + unat dr_len) (tlen + ucast dr_len) None
                    (case child of Some c \<Rightarrow> c # content | None \<Rightarrow> content) cnt
                | _ \<Rightarrow> read_records L E len block buffer (pos + unat dr_len) (tlen + ucast dr_len) child content cnt))"

text \<open>\<open>block\<close> is \<open>data->sections[0].block\<close>.\<close>

definition read_dir :: "loader \<Rightarrow> ifs_env \<Rightarrow> u32 \<Rightarrow> ino_state \<Rightarrow> (file_source list \<times> ino_state) res option" where
  "read_dir L E block cnt =
     (case read_block E block of
        Inl e \<Rightarrow> Some (Inl e)
      | Inr buffer \<Rightarrow>
          let len = bb_at buffer 10; pos = unat (buffer ! 0); pos = pos + unat (buffer ! pos)
          in if length buffer \<noteq> 2048 then None else read_records L E len block buffer pos (word_of_nat pos) None [] cnt)"
end
