(* ===== verification/Dir_Loop.thy ===== *)
theory Dir_Loop
  imports Dir_Read Dir_Tree
begin

text \<open>
  What the reader of directories makes of the records that the writer made: one record, and then all of them in
  the order in which \<open>fill_block\<close> put them into blocks.
\<close>

section \<open>The header of a record\<close>

definition header_block :: "dir_image \<Rightarrow> dtree \<Rightarrow> nat \<Rightarrow> u32 \<times> u32" where
  "header_block t n k =
     (case d_type n of
        ECMA119_DIR \<Rightarrow> (d_block n - eff_partition_offset (rr_opts t), word_of_nat (d_len n))
      | ECMA119_FILE \<Rightarrow> (fst (d_sections n ! k) - eff_partition_offset (rr_opts t), snd (d_sections n ! k))
      | _ \<Rightarrow> ((if \<not> old_empty t then empty_file_block t else 0) - eff_partition_offset (rr_opts t), 0))"

definition more_follow :: "dtree \<Rightarrow> nat \<Rightarrow> bool" where
  "more_follow n k \<longleftrightarrow> d_type n = ECMA119_FILE \<and> length (d_sections n) - 1 \<noteq> k"

definition header_time :: "dir_image \<Rightarrow> dtree \<Rightarrow> byte list" where
  "header_time t n =
     (if dir_rec_mtime t AND 1 \<noteq> 0 then tf_stamp (rr_opts t) (mtime_of (d_rr n))
      else iso_datetime_7 (zone (rr_opts t)) (now t) (always_gmt (rr_opts t)))"

definition file_id :: "dir_image \<Rightarrow> dtree \<Rightarrow> byte list" where
  "file_id t n = name_bytes n @ (if need_version_number t n then str '';1'' else [])"

text \<open>The header of the record of a child, by its fields.\<close>

lemma record_header_child:
  "record_header t n par None (length (name_bytes n)) suf k =
     [word_of_nat (33 + length (file_id t n) + (length (file_id t n) + 1) mod 2 + suf), 0] @
     iso_bb (fst (header_block t n k)) 4 @ iso_bb (snd (header_block t n k)) 4 @ header_time t n @
     [(if d_type n = ECMA119_DIR then 2 else 0) OR (if more_follow n k then 0x80 else 0), 0, 0] @ iso_bb 1 2 @
     [word_of_nat (length (file_id t n))] @ file_id t n @ replicate ((length (file_id t n) + 1) mod 2) 0"
proof -
  have v: "length (file_id t n) mod 2 = length (name_bytes n) mod 2" "length (file_id t n) = length (name_bytes n) + (if need_version_number t n then 2 else 0)"
    by (simp_all add: file_id_def)
  have p: "(length (file_id t n) + 1) mod 2 = (if length (name_bytes n) mod 2 = 1 then 0 else 1)"
    using v(1) by (auto simp: mod_Suc)
  show ?thesis
    unfolding p
    by (cases "d_type n") (simp_all add: record_header_def Let_def header_block_def more_follow_def header_time_def file_id_def algebra_simps)
qed

lemma length_header_time [simp]: "length (header_time t n) = 7"
  by (simp add: header_time_def tf_stamp_def)

lemma header_fields:
  assumes "h = record_header t n par None (length (name_bytes n)) suf k @ zs"
  shows "h ! 0 = word_of_nat (33 + length (file_id t n) + (length (file_id t n) + 1) mod 2 + suf)" "h ! Suc 0 = 0"
    "bb_at h 2 = fst (header_block t n k)" "bb_at h 10 = snd (header_block t n k)"
    "drop 18 h = header_time t n @ drop 25 h"
    "h ! 25 = (if d_type n = ECMA119_DIR then 2 else 0) OR (if more_follow n k then 0x80 else 0)"
    "h ! 26 = 0" "h ! 27 = 0" "h ! 32 = word_of_nat (length (file_id t n))"
    "drop 33 h = file_id t n @ replicate ((length (file_id t n) + 1) mod 2) 0 @ zs"
proof -
  define a where "a = iso_bb (fst (header_block t n k)) 4"
  define b where "b = iso_bb (snd (header_block t n k)) 4"
  define e where "e = iso_bb 1 2"
  define fl :: byte where "fl = (if d_type n = ECMA119_DIR then 2 else 0) OR (if more_follow n k then 0x80 else 0)"
  have l: "length a = 8" "length b = 8" "length e = 4" by (simp_all add: a_def b_def e_def)
  have h: "h = [word_of_nat (33 + length (file_id t n) + (length (file_id t n) + 1) mod 2 + suf), 0] @ a @ b @ header_time t n @
     [fl, 0, 0] @ e @ [word_of_nat (length (file_id t n))] @ file_id t n @ replicate ((length (file_id t n) + 1) mod 2) 0 @ zs"
    unfolding assms record_header_child a_def b_def e_def fl_def by simp
  show "h ! 0 = word_of_nat (33 + length (file_id t n) + (length (file_id t n) + 1) mod 2 + suf)" "h ! Suc 0 = 0"
    unfolding h by simp_all
  show "bb_at h 2 = fst (header_block t n k)" "bb_at h 10 = snd (header_block t n k)"
    unfolding h by (simp_all add: bb_at_def l) (simp_all add: a_def b_def)
  show "drop 18 h = header_time t n @ drop 25 h" "drop 33 h = file_id t n @ replicate ((length (file_id t n) + 1) mod 2) 0 @ zs"
    unfolding h by (simp_all add: l)
  show "h ! 25 = (if d_type n = ECMA119_DIR then 2 else 0) OR (if more_follow n k then 0x80 else 0)"
    "h ! 26 = 0" "h ! 27 = 0" "h ! 32 = word_of_nat (length (file_id t n))"
    unfolding h fl_def [symmetric] by (simp_all add: nth_append l)
qed


lemma length_file_id:
  assumes "d_name n \<noteq> None"
  shows "calc_dirent_len t n = 33 + length (file_id t n) + (length (file_id t n) + 1) mod 2"
  using header_None [OF refl assms, of t None 0 0] unfolding record_header_child by simp

section \<open>What the reader makes of a child\<close>

definition node_sections :: "dir_image \<Rightarrow> dtree \<Rightarrow> nat \<Rightarrow> (u32 \<times> u32) list" where
  "node_sections t n k = map (header_block t n) [0..<k]"

definition sections_size :: "(u32 \<times> u32) list \<Rightarrow> int" where
  "sections_size xs = sum_list (map (\<lambda>x. int (unat (snd x))) xs)"

text \<open>The multi-extent file of which \<open>k\<close> records were read.\<close>

definition partial_source :: "dir_image \<Rightarrow> dtree \<Rightarrow> nat \<Rightarrow> file_source option" where
  "partial_source t n k =
     (if k = 0 then None
      else Some \<lparr>src_name = Some (c_prefix (length (file_id t n)) (file_id t n)), src_info = no_stat,
        src_size = sections_size (node_sections t n k), src_sections = node_sections t n k, src_aa = None, src_zisofs = (0, 0, 0),
        src_link = None\<rparr>)"

text \<open>The file source of a node, but for its attribute string.\<close>

definition node_source :: "(tm \<Rightarrow> int) \<Rightarrow> dir_image \<Rightarrow> dtree \<Rightarrow> file_source" where
  "node_source tg t n =
     (let r = rr_opts t; z = zf_read r (d_rr n)
      in \<lparr>src_name = Some (get_rr_fname r (rr_name (d_rr n))),
          src_info = filled_times (iso_datetime_read_7 tg (header_time t n)) (atts_read r (d_rr n)),
          src_size = sections_size (node_sections t n (nsections n)), src_sections = node_sections t n (nsections n), src_aa = None,
          src_zisofs = (if fst z > 0 then z else (0, 0, 0)),
          src_link = (if d_type n = ECMA119_SYMLINK then Some (link_text (get_rr_fname r (dest (d_rr n)))) else None)\<rparr>)"

definition without_aa :: "file_source \<Rightarrow> file_source" where
  "without_aa s = s\<lparr>src_aa := None\<rparr>"

text \<open>A node whose entries the reader understands.\<close>

definition readable :: "dir_image \<Rightarrow> dtree \<Rightarrow> bool" where
  "readable t n \<longleftrightarrow>
     (let r = rr_opts t; x = d_rr n
      in simple_node r (rr_view no_blk n) \<and> px_get_mode r x \<noteq> 0 \<and>
         (px_get_mode r x AND S_IFMT = S_IFLNK \<longleftrightarrow> d_type n = ECMA119_SYMLINK) \<and>
         get_rr_fname r (rr_name x) \<noteq> [] \<and> 0 \<notin> set (get_rr_fname r (rr_name x)) \<and>
         (d_type n = ECMA119_SYMLINK \<longrightarrow> get_rr_fname r (dest x) \<noteq> [] \<and> 0 \<notin> set (get_rr_fname r (dest x))) \<and>
         (num_aapt r x > 0 \<longrightarrow> al_std (the (aaip_xinfo x))) \<and>
         stamp_ok r (mtime_of x) \<and> stamp_ok r (atime x) \<and> stamp_ok r (ctime x))"

lemma simple_node_view: "simple_node r (rr_view blk n) = simple_node r (rr_view no_blk n)"
  by (simp add: simple_node_def ecma119_is_dedicated_reloc_dir_def rr_view_def)

lemma atts_read_view: "atts_read r (rr_view blk n) = atts_read r (d_rr n)"
  by (auto simp: atts_read_def px_get_mode_def px_get_uid_def px_get_gid_def has_dev_def is_device_def rr_view_def)

lemma zf_read_view: "zf_read r (rr_view blk n) = zf_read r (d_rr n)"
  by (simp only: zf_read_def zf_wanted_view)


lemma px_mode_view: "px_get_mode r (rr_view blk n) = px_get_mode r (d_rr n)"
  by (simp add: px_get_mode_def)

section \<open>One record\<close>

lemma flag_bits:
  "bit ((if d then 2 else 0) OR (if m then 0x80 else 0) :: byte) 7 = m"
  "bit ((if d then 2 else 0) OR (if m then 0x80 else 0) :: byte) 1 = d"
  by (cases d; cases m; simp)+

text \<open>What is known of a record that \<open>write_records\<close> made, with what follows it in the block.\<close>

lemma record_start:
  assumes h: "h = record_bytes t c par None (length (name_bytes c)) k s @ zs" and c: "d_name c \<noteq> None"
    "calc_dirent_len t c + suf_len s \<le> 254"
  shows "h ! 0 = word_of_nat (calc_dirent_len t c + suf_len s)" "unat (h ! 0) = calc_dirent_len t c + suf_len s"
    "h ! Suc 0 = 0" "h ! 26 = 0" "h ! 27 = 0" "bb_at h 2 = fst (header_block t c k)" "bb_at h 10 = snd (header_block t c k)"
    "drop 18 h = header_time t c @ drop 25 h" "len_fi h = length (file_id t c)"
    "bit (h ! 25) 7 = more_follow c k" "bit (h ! 25) 1 = (d_type c = ECMA119_DIR)"
    "take (length (file_id t c)) (drop 33 h) = file_id t c" "\<not> length h < 33" "\<not> length h < 33 + len_fi h"
proof -
  have "h = record_header t c par None (length (name_bytes c)) (suf_len s) k @
      (concat (susp_fields s) @ replicate (suf_len s - total (susp_fields s)) 0 @ zs)"
    by (simp add: h record_bytes_def)
  note f = header_fields [OF this]
  have l: "calc_dirent_len t c = 33 + length (file_id t c) + (length (file_id t c) + 1) mod 2" by (rule length_file_id [OF c(1)])
  show 0: "h ! 0 = word_of_nat (calc_dirent_len t c + suf_len s)" using f(1) l by simp
  show "unat (h ! 0) = calc_dirent_len t c + suf_len s"
    unfolding 0 using c(2) by (simp add: unat_of_nat take_bit_nat_eq_self del: of_nat_add)
  show "h ! Suc 0 = 0" "h ! 26 = 0" "h ! 27 = 0" "bb_at h 2 = fst (header_block t c k)" "bb_at h 10 = snd (header_block t c k)"
    "drop 18 h = header_time t c @ drop 25 h" by (fact f)+
  have "length (file_id t c) \<le> 254" using l c(2) by simp
  then show fi: "len_fi h = length (file_id t c)"
    by (simp add: len_fi_def f(9) unat_of_nat take_bit_nat_eq_self)
  show "bit (h ! 25) 7 = more_follow c k" "bit (h ! 25) 1 = (d_type c = ECMA119_DIR)"
    unfolding f(6) by (rule flag_bits)+
  show "take (length (file_id t c)) (drop 33 h) = file_id t c" unfolding f(10) by simp
  have "length (drop 33 h) \<ge> length (file_id t c)" unfolding f(10) by simp
  moreover have "length h \<ge> 33"
  proof -
    have "length h \<ge> length (record_header t c par None (length (name_bytes c)) (suf_len s) k)"
      by (simp add: h record_bytes_def)
    then show ?thesis using header_None [OF refl c(1), of t par "suf_len s" k] l by simp
  qed
  ultimately show "\<not> length h < 33" "\<not> length h < 33 + len_fi h" by (simp_all add: fi)
qed

lemma record_name_start:
  assumes "take (length (file_id t c)) (drop 33 h) = file_id t c" "len_fi h = length (file_id t c)" "ld_convert L = None"
  shows "record_name L h = Some (c_prefix (length (file_id t c)) (file_id t c))"
  using assms(1) by (simp add: record_name_def get_name_def assms(2,3) c_prefix_def)

lemma checks_pass:
  assumes "h ! 26 = 0" "h ! 27 = 0" "h ! Suc 0 = 0"
    "record_name L h = Some (c_prefix (length (file_id t c)) (file_id t c))"
  shows "record_checks L h (partial_source t c k) = None"
  using assms by (simp add: record_checks_def partial_source_def)

lemma node_sections_Suc: "node_sections t n (Suc k) = node_sections t n k @ [header_block t n k]"
  by (simp add: node_sections_def)

lemma sections_size_Suc: "sections_size (node_sections t n (Suc k)) = sections_size (node_sections t n k) + int (unat (snd (header_block t n k)))"
  by (simp add: node_sections_Suc sections_size_def)

text \<open>A record that is not the last one of its file.\<close>

lemma reads_more:
  assumes h: "h = record_bytes t c par None (length (name_bytes c)) k s @ zs" and c: "d_name c \<noteq> None"
    "calc_dirent_len t c + suf_len s \<le> 254" and L: "ld_convert L = None" and k: "more_follow c k"
  shows "iso_file_source_new_ifs L E h (partial_source t c k) cnt = Some (Ifs_more, partial_source t c (Suc k), cnt)"
proof -
  note r = record_start [OF h c]
  note nm = record_name_start [OF r(12,9) L]
  have "d_type c \<noteq> ECMA119_DIR" using k by (auto simp: more_follow_def)
  then have more: "more_extent L h (partial_source t c k) = (Ifs_more, partial_source t c (Suc k))"
    using r(6,7,11) nm sections_size_Suc [of t c k]
    by (cases k) (simp_all add: more_extent_def partial_source_def add_section_def node_sections_Suc Let_def,
      simp_all add: node_sections_def sections_size_def)
  show ?thesis
    by (subst iso_file_source_new_ifs.simps)
      (simp only: r(13,14) checks_pass [OF r(4,5,3) nm] r(10) k if_True if_False simp_thms option.case more prod.case)
qed


lemma header_time_read: "iso_datetime_read_7 tg (header_time t n @ zs) = iso_datetime_read_7 tg (header_time t n)"
proof -
  have "(header_time t n @ zs) ! i = header_time t n ! i" if "i < 7" for i
    using that by (simp add: nth_append)
  then show ?thesis by (simp add: iso_datetime_read_7_def)
qed

text \<open>The only or the last record of a file.\<close>

lemma reads_last:
  assumes made: "made t (rr_view blk c) (Some par) 0 (calc_dirent_len t c) s s'" "\<not> corrupt s'" "clean s"
      "list_all sized (ce_susp_fields s)" "ce_len s = word_of_nat (total (ce_susp_fields s))"
    and c: "child_ok t c" "readable t c" "calc_dirent_len t c + suf_len s' \<le> 254"
      "suf_len s' = total (susp_fields s') + total (susp_fields s') mod 2" "list_all sized (susp_fields s')"
    and L: "rockridge t" "ld_rr L" "ld_len_skp L = 0" "ld_convert L = None"
    and k: "\<not> more_follow c k" "nsections c = Suc k"
    and h: "h = record_bytes t c (Some dir) None (length (name_bytes c)) k s' @ zs"
    and area: "area_at (read_block E) (ce_block s - eff_partition_offset (rr_opts t)) (concat (ce_susp_fields s') @ post)"
  shows "\<exists>f cnt'. iso_file_source_new_ifs L E h (partial_source t c k) cnt = Some (Ifs_done, Some f, cnt') \<and>
    without_aa f = node_source (env_timegm E) t c"
proof -
  let ?r = "rr_opts t" and ?n = "rr_view blk c"
  have name: "d_name c \<noteq> None" using c(1) by (simp add: child_ok_def)
  note r = record_start [OF h name c(3)]
  note nm = record_name_start [OF r(12,9) L(4)]
  define hdr where "hdr = record_header t c (Some dir) None (length (name_bytes c)) (suf_len s') k"
  have w: "fst (rrip_write_susp_fields s') = concat (susp_fields s')"
    using write_susp_fields_sized [OF c(5)] c(4) by simp
  have dr: "h = hdr @ fst (rrip_write_susp_fields s') @ replicate (suf_len s' - total (susp_fields s')) 0 @ zs"
    by (simp add: h record_bytes_def hdr_def w)
  have lh: "length hdr = calc_dirent_len t c" unfolding hdr_def by (rule header_None [OF refl name])
  have h32: "hdr ! 32 = h ! 32" "hdr ! 0 = h ! 0"
    using lh length_file_id [OF name, of t] unfolding dr by (simp_all add: nth_append)
  have l2: "length hdr = 33 + unat (hdr ! 32) + (unat (hdr ! 32) + 1) mod 2" "unat (hdr ! 0) = length hdr + suf_len s'"
    using lh length_file_id [OF name, of t] r(2,9) by (simp_all add: h32 len_fi_def)
  have run: "rrip_get_susp_fields ?r ?n (Some par) 0 (calc_dirent_len t c) s = (Inr (), s')"
    using made(1) L(1) by (simp add: made_def)
  have ok: "node_ok ?r ?n 0 (calc_dirent_len t c)" using c(1) L(1) by (simp add: child_ok_def node_ok_view [of _ blk])
  have rd: "simple_node ?r ?n" "px_get_mode ?r ?n \<noteq> 0" "get_rr_fname ?r (rr_name ?n) \<noteq> []" "0 \<notin> set (get_rr_fname ?r (rr_name ?n))"
    "etype ?n = ECMA119_SYMLINK \<Longrightarrow> get_rr_fname ?r (dest ?n) \<noteq> [] \<and> 0 \<notin> set (get_rr_fname ?r (dest ?n))"
    "num_aapt ?r ?n > 0 \<Longrightarrow> al_std (the (aaip_xinfo ?n))"
    "stamp_ok ?r (mtime_of ?n)" "stamp_ok ?r (atime ?n)" "stamp_ok ?r (ctime ?n)"
    using c(2) by (simp_all add: readable_def Let_def simple_node_view [of _ blk] px_mode_view) (simp_all add: rr_view_def)
  have sc: "susp_fields s = []" "suf_len s = 0" using made(3) by (simp_all add: clean_def)
  have "\<exists>st. ifs_read E 0 h (fst cnt) (snd cnt) = Some (Inr (Some st)) \<and>
      ifs_name st = Some (get_rr_fname ?r (rr_name ?n)) \<and>
      linkdest st = (if etype ?n = ECMA119_SYMLINK then Some (link_text (get_rr_fname ?r (dest ?n))) else None) \<and>
      atts st = atts_read ?r ?n \<and> attrs_read ?r ?n (ifs_aa st) \<and> zisofs st = zf_read ?r ?n \<and> relocated_dir st = 0"
    by (rule rr_read_back [OF run made(2) sc made(4,5) ok rd(1-4) _ _ rd(7-9) dr l2 area]; erule rd)
  then obtain st where st: "ifs_read E 0 h (fst cnt) (snd cnt) = Some (Inr (Some st))"
    "ifs_name st = Some (get_rr_fname ?r (rr_name (d_rr c)))"
    "linkdest st = (if d_type c = ECMA119_SYMLINK then Some (link_text (get_rr_fname ?r (dest (d_rr c)))) else None)"
    "atts st = atts_read ?r (d_rr c)" "zisofs st = zf_read ?r (d_rr c)" "relocated_dir st = 0"
    unfolding atts_read_view zf_read_view rr_view_simps by blast
  have rs: "record_state L E h cnt = Some (Inr (Some st))"
    using st by (cases st) (simp add: record_state_def L converted_def)
  have pn: "plain_name L h st = Inr (ifs_name st)" by (simp add: plain_name_def st(2))
  define a where "a = filled_times (iso_datetime_read_7 (env_timegm E) (header_time t c)) (atts_read ?r (d_rr c))"
  have link: "st_mode a AND S_IFMT = S_IFLNK \<longleftrightarrow> d_type c = ECMA119_SYMLINK"
    using c(2) by (simp add: a_def filled_times_def atts_read_def readable_def Let_def)
  have rec: "filled_times (iso_datetime_read_7 (env_timegm E) (drop 18 h)) (atts st) = a"
    by (simp only: r(8) header_time_read st(4) a_def)
  define old where "old = (case partial_source t c k of Some s \<Rightarrow> (src_size s, src_sections s) | None \<Rightarrow> (0, []))"
  have old: "old = (sections_size (node_sections t c k), node_sections t c k)"
    by (simp add: old_def partial_source_def node_sections_def sections_size_def)
  define f where "f = (node_source (env_timegm E) t c)\<lparr>src_aa := aa_string (ifs_aa st)\<rparr>"
  have f: "final_source E h (partial_source t c k) st (ifs_name st) = (Ifs_done, Some f)"
    unfolding final_source_def Let_def rec link old_def [symmetric] old fst_conv snd_conv
    by (cases "d_type c = ECMA119_SYMLINK")
      (simp_all add: f_def node_source_def Let_def a_def add_section_def st k(2) node_sections_Suc sections_size_Suc r(6,7),
       simp_all add: sections_size_def)
  have aa: "without_aa f = node_source (env_timegm E) t c"
    by (simp add: without_aa_def f_def node_source_def Let_def)
  show ?thesis
    by (subst iso_file_source_new_ifs.simps)
      (simp add: r(13,14) checks_pass [OF r(4,5,3) nm] r(10) k rs pn st(6) f aa Let_def del: not_less)
qed


section \<open>Reading along the extent\<close>

text \<open>The extent \<open>X\<close> can be read from block \<open>b\<close> on, and so can the block after it.\<close>

definition on_medium :: "ifs_env \<Rightarrow> u32 \<Rightarrow> byte list \<Rightarrow> bool" where
  "on_medium E b X \<longleftrightarrow>
     length X < 2 ^ 32 \<and> 2048 dvd length X \<and>
     (\<forall>k. 2048 * k < length X \<longrightarrow> read_block E (b + word_of_nat k) = Inr (take 2048 (drop (2048 * k) X))) \<and>
     (\<exists>z. read_block E (b + word_of_nat (length X div 2048)) = Inr z)"

text \<open>The loop of \<open>read_dir\<close> at byte \<open>pos\<close> of block \<open>q\<close>.\<close>

definition reader :: "loader \<Rightarrow> ifs_env \<Rightarrow> u32 \<Rightarrow> byte list \<Rightarrow> nat \<Rightarrow> nat \<Rightarrow> file_source option \<Rightarrow> file_source list \<Rightarrow> ino_state \<Rightarrow>
    (file_source list \<times> ino_state) res option" where
  "reader L E b X q pos child content cnt =
     read_records L E (word_of_nat (length X)) (b + word_of_nat q) (take 2048 (drop (2048 * q) X)) pos
       (word_of_nat (2048 * q + pos)) child content cnt"

lemma word_less: "length X < 2 ^ 32 \<Longrightarrow> m \<le> length X \<Longrightarrow> (word_of_nat m < (word_of_nat (length X) :: u32)) = (m < length X)"
proof -
  assume a: "length X < 2 ^ 32" "m \<le> length X"
  then have "unat (word_of_nat m :: u32) = m" "unat (word_of_nat (length X) :: u32) = length X"
    by (simp_all add: unat_of_nat take_bit_nat_eq_self)
  then show ?thesis by (simp add: word_less_nat_alt)
qed

lemma blocks_left: "2048 dvd length X \<Longrightarrow> 2048 * q < length X \<Longrightarrow> 2048 * Suc q \<le> length X"
  by (auto elim!: dvdE)

lemma buffer_facts:
  assumes "on_medium E b X" "2048 * q < length X"
  shows "length (take 2048 (drop (2048 * q) X)) = 2048" "pos < 2048 \<Longrightarrow> take 2048 (drop (2048 * q) X) ! pos = X ! (2048 * q + pos)"
  using assms blocks_left [of X q] by (auto simp: on_medium_def)

lemma reader_next:
  assumes m: "on_medium E b X" and q: "2048 * Suc q < length X" "pos \<le> 2048" "pos = 2048 \<or> X ! (2048 * q + pos) = 0"
  shows "reader L E b X q pos child content cnt = reader L E b X (Suc q) 0 child content cnt"
proof -
  have q': "2048 * q < length X" "2048 * q + pos < length X" using q by simp_all
  note f = buffer_facts [OF m q'(1)]
  have w: "(word_of_nat (2048 * q + pos) < (word_of_nat (length X) :: u32)) = True"
    using word_less [of X "2048 * q + pos"] q' m by (simp add: on_medium_def)
  have z: "pos = 2048 \<or> take 2048 (drop (2048 * q) X) ! pos = 0" using q(2,3) f(2) [of pos] by (cases "pos = 2048") auto
  have r: "read_block E (b + word_of_nat (Suc q)) = Inr (take 2048 (drop (2048 * Suc q) X))"
    using m q(1) unfolding on_medium_def by blast
  have b1: "b + word_of_nat q + 1 = b + (word_of_nat (Suc q) :: u32)" by simp
  have t1: "word_of_nat (2048 * q + pos) + word_of_nat (2048 - pos) = (word_of_nat (2048 * Suc q + 0) :: u32)"
    using q(2) by (simp only: of_nat_add [symmetric]) simp
  show ?thesis unfolding reader_def
    by (subst read_records.simps) (use z f(1) q(2) in \<open>simp only: w b1 r t1 if_True if_False not_True_eq_False f(1) sum.case\<close>; simp)
qed

lemma reader_end:
  assumes m: "on_medium E b X" and q: "2048 * Suc q = length X" "pos \<le> 2048" "pos = 2048 \<or> X ! (2048 * q + pos) = 0"
  shows "reader L E b X q pos child content cnt = Some (Inr (content, cnt))"
proof (cases "pos = 2048")
  case True
  then have "2048 * q + pos = length X" using q(1) by simp
  then show ?thesis by (simp only: reader_def) (subst read_records.simps, simp)
next
  case False
  then have q': "2048 * q < length X" "2048 * q + pos < length X" using q by simp_all
  note f = buffer_facts [OF m q'(1)]
  have w: "(word_of_nat (2048 * q + pos) < (word_of_nat (length X) :: u32)) = True"
    using word_less [of X "2048 * q + pos"] q' m by (simp add: on_medium_def)
  have z: "pos = 2048 \<or> take 2048 (drop (2048 * q) X) ! pos = 0" using q(2,3) f(2) [of pos] by (cases "pos = 2048") auto
  obtain z where r: "read_block E (b + word_of_nat (Suc q)) = Inr z"
    using m q(1) unfolding on_medium_def by (metis nonzero_mult_div_cancel_left zero_neq_numeral)
  have b1: "b + word_of_nat q + 1 = b + (word_of_nat (Suc q) :: u32)" by simp
  have t1: "word_of_nat (2048 * q + pos) + word_of_nat (2048 - pos) = (word_of_nat (length X) :: u32)"
  proof -
    have "2048 * q + pos + (2048 - pos) = length X" using q(1,2) by simp
    then show ?thesis by (simp only: of_nat_add [symmetric])
  qed
  have e: "read_records L E (word_of_nat (length X)) c d 0 (word_of_nat (length X)) child content cnt = Some (Inr (content, cnt))" for c d
    by (subst read_records.simps) simp
  show ?thesis unfolding reader_def
    by (subst read_records.simps) (use z f(1) q(2) in \<open>simp only: w b1 r t1 if_True if_False not_True_eq_False f(1) sum.case e\<close>; simp)
qed

lemma reader_record:
  assumes m: "on_medium E b X" and q: "2048 * q < length X" "pos + length r \<le> 2048"
    and X: "X = P @ r @ Z" "length P = 2048 * q + pos"
    and r: "0 < length r" "r ! 0 = word_of_nat (length r)" "length r < 256"
    and n: "iso_file_source_new_ifs L E (r @ take (2048 - (pos + length r)) Z) child cnt = Some (v, child', cnt')"
    "v = Ifs_more \<or> v = Ifs_done"
  shows "reader L E b X q pos child content cnt =
     reader L E b X q (pos + length r) (if v = Ifs_done then None else child')
       (case child' of Some c \<Rightarrow> if v = Ifs_done then c # content else content | None \<Rightarrow> content) cnt'"
proof -
  have q': "2048 * q + pos < length X" using X r(1) by simp
  note f = buffer_facts [OF m q(1)]
  have w: "(word_of_nat (2048 * q + pos) < (word_of_nat (length X) :: u32)) = True"
    using word_less [of X "2048 * q + pos"] q' m by (simp add: on_medium_def)
  have d: "drop pos (take 2048 (drop (2048 * q) X)) = r @ take (2048 - (pos + length r)) Z"
  proof -
    have "drop pos (take 2048 (drop (2048 * q) X)) = take (2048 - pos) (drop (2048 * q + pos) X)"
      by (simp add: drop_take add.commute)
    also have "drop (2048 * q + pos) X = r @ Z" by (simp add: X(1) X(2) [symmetric])
    also have "take (2048 - pos) (r @ Z) = r @ take (2048 - (pos + length r)) Z" using q(2) by simp
    finally show ?thesis .
  qed
  have p: "pos < 2048" using q(2) r(1) by linarith
  have x0: "take 2048 (drop (2048 * q) X) ! pos = word_of_nat (length r)"
    using f(2) [OF p] X(2) r(1,2) unfolding X(1) by (simp add: nth_append)
  have nz: "(word_of_nat (length r) :: byte) \<noteq> 0" "unat (word_of_nat (length r) :: byte) = length r"
    using r(1,3) by (auto simp: unat_of_nat take_bit_nat_eq_self word_of_nat_eq_0_iff dest: dvd_imp_le)
  have t: "word_of_nat (2048 * q + pos) + ucast (word_of_nat (length r) :: byte) = (word_of_nat (2048 * q + (pos + length r)) :: u32)"
  proof -
    have "(ucast (word_of_nat (length r) :: byte) :: u32) = word_of_nat (unat (word_of_nat (length r) :: byte))"
      by (simp only: unsigned_of_nat [symmetric] of_nat_unat)
    then show ?thesis by (simp add: nz(2))
  qed
  have np: "\<not> (pos > 2048 \<or> length (take 2048 (drop (2048 * q) X)) \<noteq> 2048)" "\<not> (pos = 2048 \<or> (word_of_nat (length r) :: byte) = 0)"
    using p f(1) nz by simp_all
  show ?thesis unfolding reader_def
    apply (subst read_records.simps)
    apply (simp only: w np x0 d n(1) nz(2) t if_True if_False not_True_eq_False Let_def option.case prod.case)
    using n(2) by (auto split: option.splits)
qed


section \<open>All records\<close>

lemma fill_prefix:
  "foldl fill_block (cur, out) recs = (cur', out') \<Longrightarrow> \<exists>z. out' @ whole_block cur' = out @ cur @ z"
proof (induction recs arbitrary: cur out)
  case Nil
  then show ?case by (auto simp: whole_block_def)
next
  case (Cons r recs)
  show ?case
  proof (cases "length cur + length r > 2048")
    case True
    then have "foldl fill_block (r, out @ whole_block cur) recs = (cur', out')" using Cons.prems by (simp add: fill_block_def [of "(cur, out)" r])
    from Cons.IH [OF this] show ?thesis by (auto simp: whole_block_def)
  next
    case False
    then have "foldl fill_block (cur @ r, out) recs = (cur', out')" using Cons.prems by (simp add: fill_block_def [of "(cur, out)" r])
    from Cons.IH [OF this] show ?thesis by auto
  qed
qed

text \<open>The records come file by file and section by section.  \<open>Some (c, k)\<close> tells which one has to be next.\<close>

fun follows :: "(dtree \<times> nat) option \<Rightarrow> (dtree \<times> nat) list \<Rightarrow> bool" where
  "follows p [] \<longleftrightarrow> p = None"
| "follows p ((c, k) # xs) \<longleftrightarrow>
     (case p of None \<Rightarrow> k = 0 | Some x \<Rightarrow> x = (c, k)) \<and> k < nsections c \<and>
     follows (if Suc k < nsections c then Some (c, Suc k) else None) xs"

fun finished :: "(dtree \<times> nat) list \<Rightarrow> dtree list" where
  "finished [] = []"
| "finished ((c, k) # xs) = (if Suc k < nsections c then finished xs else c # finished xs)"

lemma follows_file:
  "k < nsections c \<Longrightarrow> follows (if k = 0 then None else Some (c, k)) (map (Pair c) [k..<nsections c] @ xs) = follows None xs \<and>
   finished (map (Pair c) [k..<nsections c] @ xs) = c # finished xs"
proof (induction "nsections c - k" arbitrary: k)
  case (Suc m)
  have u: "[k..<nsections c] = k # [Suc k..<nsections c]" using Suc.prems by (simp add: upt_rec)
  show ?case
  proof (cases "Suc k < nsections c")
    case True
    then show ?thesis using Suc.hyps(1) [of "Suc k"] Suc.hyps(2) by (simp add: u)
  next
    case False
    then show ?thesis using Suc.prems by (simp add: u)
  qed
qed simp

lemma follows_records: "follows None (records_of cs) \<and> finished (records_of cs) = filter (\<lambda>c. 0 < nsections c) cs"
proof (induction cs)
  case (Cons c cs)
  have "records_of (c # cs) = map (Pair c) [0..<nsections c] @ records_of cs" by (simp add: records_of_def)
  then show ?case using Cons follows_file [of 0 c "records_of cs"] by (cases "0 < nsections c") auto
qed (simp add: records_of_def)

definition pending :: "dir_image \<Rightarrow> (dtree \<times> nat) option \<Rightarrow> file_source option" where
  "pending t p = (case p of None \<Rightarrow> None | Some (c, k) \<Rightarrow> partial_source t c k)"


text \<open>The loop at the record that was made next, wherever it stands.\<close>

lemma reader_seek:
  assumes m: "on_medium E b X" and st: "length out = 2048 * q" "length cur \<le> 2048"
    and f: "fill_block (cur, out) r = (cur1, out1)" "X = out1 @ cur1 @ z" "0 < length r" "length r \<le> 2048"
  obtains q1 pos1 P where "reader L E b X q (length cur) child content cnt = reader L E b X q1 pos1 child content cnt"
    "X = P @ r @ z" "length P = 2048 * q1 + pos1" "pos1 + length r \<le> 2048" "length out1 = 2048 * q1" "length cur1 = pos1 + length r"
    "2048 * q1 < length X"
proof (cases "length cur + length r > 2048")
  case True
  then have c: "cur1 = r" "out1 = out @ whole_block cur" using f(1) by (simp_all add: fill_block_def)
  have l: "length out1 = 2048 * Suc q" using c st length_whole_block [OF st(2)] by simp
  have n: "length cur = 2048 \<or> X ! (2048 * q + length cur) = 0"
  proof (cases "length cur = 2048")
    case False
    then have "X = (out @ cur) @ 0 # replicate (2048 - length cur - 1) 0 @ r @ z" "length cur < 2048"
      using f(2) c st(2) by (simp_all add: whole_block_def replicate_Suc [symmetric] del: replicate_Suc)
    then have "X ! length (out @ cur) = 0" by (metis nth_append_length)
    then show ?thesis using st(1) by simp
  qed simp
  have "length X = length out1 + length cur1 + length z" using f(2) by simp
  then have "2048 * Suc q < length X" using f(3) l arg_cong [OF c(1), of length] by linarith
  from reader_next [OF m this st(2) n] show thesis
    using f(2,4) l c \<open>2048 * Suc q < length X\<close> by (intro that [of "Suc q" 0 out1]) simp_all
next
  case False
  then have c: "cur1 = cur @ r" "out1 = out" using f(1) by (simp_all add: fill_block_def)
  have "length X = length out1 + length cur1 + length z" using f(2) by simp
  then have "2048 * q < length X" using f(3) c st(1) by simp
  then show thesis using f(2) c st False by (intro that [of q "length cur" "out @ cur"]) simp_all
qed

lemma more_iff: "k < nsections c \<Longrightarrow> more_follow c k = (Suc k < nsections c)"
  by (auto simp: more_follow_def nsections_def)

lemma pending_partial: "(case p of None \<Rightarrow> k = 0 | Some x \<Rightarrow> x = (c, k)) \<Longrightarrow> pending t p = partial_source t c k"
  by (auto simp: pending_def partial_source_def split: option.splits)

lemma reads_records:
  assumes L: "rockridge t" "ld_rr L" "ld_len_skp L = 0" "ld_convert L = None"
    and m: "on_medium E b X" and area: "area_at (read_block E) (ceb - eff_partition_offset (rr_opts t)) area"
  shows "records_made t blk dir xs s recs s'' \<Longrightarrow> \<not> corrupt s'' \<Longrightarrow> clean s \<Longrightarrow> list_all sized (ce_susp_fields s) \<Longrightarrow>
     ce_len s = word_of_nat (total (ce_susp_fields s)) \<Longrightarrow> ce_block s = ceb \<Longrightarrow> concat (ce_susp_fields s'') @ post = area \<Longrightarrow>
     list_all (\<lambda>x. child_ok t (fst x) \<and> readable t (fst x)) xs \<Longrightarrow> follows p xs \<Longrightarrow>
     foldl fill_block (cur, out) recs = (cur', out') \<Longrightarrow> X = out' @ whole_block cur' \<Longrightarrow>
     length out = 2048 * q \<Longrightarrow> 0 < length cur \<Longrightarrow> length cur \<le> 2048 \<Longrightarrow>
     \<exists>fs cnt'. reader L E b X q (length cur) (pending t p) content cnt = Some (Inr (fs, cnt')) \<and>
       map without_aa fs = rev (map (node_source (env_timegm E) t) (finished xs)) @ map without_aa content"
proof (induction xs s recs s'' arbitrary: p cur out q content cnt rule: records_made.induct)
  case (rm_Nil s)
  have X: "X = out @ whole_block cur" using rm_Nil.prems by simp
  then have l: "2048 * Suc q = length X" using rm_Nil.prems(11,13) length_whole_block [of cur] by simp
  have "length cur = 2048 \<or> X ! (2048 * q + length cur) = 0"
  proof (cases "length cur = 2048")
    case False
    then have "whole_block cur ! length cur = 0" using rm_Nil.prems(13) by (simp add: whole_block_def nth_append)
    then show ?thesis by (simp add: X nth_append rm_Nil.prems(11))
  qed simp
  from reader_end [OF m l rm_Nil.prems(13) this] show ?case by simp
next
  case (rm_Cons c s s1 xs recs s'' k)
  let ?r = "record_bytes t c (Some dir) None (length (name_bytes c)) k s1"
  have nc: "\<not> corrupt s1" using records_made_corrupt [OF rm_Cons.hyps(2)] rm_Cons.prems(1) by auto
  have ok: "child_ok t c" "readable t c" "d_name c \<noteq> None" using rm_Cons.prems(7) by (auto simp: child_ok_def)
  obtain cs where f: "length ?r = record_size t (c, k)" "suf_len s1 = fst (child_sizes t c)" "list_all sized (susp_fields s1)"
    "suf_len s1 = total (susp_fields s1) + total (susp_fields s1) mod 2" "record_size t (c, k) \<le> 254" "area_grows cs s s1"
    by (rule record_facts [OF rm_Cons.hyps(1) nc rm_Cons.prems(2) ok(1), where k = k and x = 0]) blast
  have sz: "calc_dirent_len t c + suf_len s1 \<le> 254" "length ?r = calc_dirent_len t c + suf_len s1"
    using f(1,2,5) by (simp_all add: record_size_def)
  obtain cur1 out1 where fb: "fill_block (cur, out) ?r = (cur1, out1)" by fastforce
  then have rest: "foldl fill_block (cur1, out1) recs = (cur', out')" using rm_Cons.prems(9) by simp
  obtain z where z: "X = out1 @ cur1 @ z" using fill_prefix [OF rest] rm_Cons.prems(10) by blast
  have pos: "0 < length ?r" "length ?r \<le> 2048" "length ?r < 256" using sz length_file_id [OF ok(3), of t] by linarith+
  obtain q1 pos1 P where g: "reader L E b X q (length cur) (pending t p) content cnt = reader L E b X q1 pos1 (pending t p) content cnt"
    "X = P @ ?r @ z" "length P = 2048 * q1 + pos1" "pos1 + length ?r \<le> 2048" "length out1 = 2048 * q1" "length cur1 = pos1 + length ?r"
    "2048 * q1 < length X"
    by (rule reader_seek [OF m rm_Cons.prems(11,13) fb z pos(1,2)]) blast
  let ?zs = "take (2048 - (pos1 + length ?r)) z"
  have r0: "?r ! 0 = word_of_nat (length ?r)"
    using record_start(1) [OF _ ok(3) sz(1), of ?r "Some dir" k "[]"] sz(2) by simp
  note step = reader_record [OF m g(7,4,2,3) pos(1) r0 pos(3)]
  have k: "k < nsections c" "pending t p = partial_source t c k"
    "follows (if Suc k < nsections c then Some (c, Suc k) else None) xs"
    using rm_Cons.prems(8) pending_partial by (auto simp only: follows.simps)
  obtain ds where ds: "area_grows ds (cleared s1) s''"
    using records_sizes [OF rm_Cons.hyps(2) rm_Cons.prems(1) clean_cleared] rm_Cons.prems(7) by (fastforce simp: list_all_iff)
  have ar: "concat (ce_susp_fields s1) @ concat ds @ post = area"
    using ds rm_Cons.prems(6) by (auto simp: area_grows_def)
  have s1: "list_all sized (ce_susp_fields (cleared s1))" "ce_len (cleared s1) = word_of_nat (total (ce_susp_fields (cleared s1)))"
    "ce_block (cleared s1) = ceb"
    using f(6) rm_Cons.prems(3-5) by (simp_all add: area_grows_def)
  have okx: "list_all (\<lambda>x. child_ok t (fst x) \<and> readable t (fst x)) xs" using rm_Cons.prems(7) by simp
  have c1: "0 < length cur1" "length cur1 \<le> 2048" using g(4,6) pos(1) by linarith+
  note IH = rm_Cons.IH [OF rm_Cons.prems(1) clean_cleared s1 rm_Cons.prems(6) okx _ rest rm_Cons.prems(10) g(5) c1, unfolded g(6)]
  show ?case
  proof (cases "Suc k < nsections c")
    case True
    then have mf: "more_follow c k" using more_iff [OF k(1)] by simp
    have "reader L E b X q1 pos1 (pending t p) content cnt =
        reader L E b X q1 (pos1 + length ?r) (pending t (Some (c, Suc k))) content cnt"
      unfolding k(2) using step [OF reads_more [OF refl ok(3) sz(1) L(4) mf]]
      by (simp add: pending_def partial_source_def)
    moreover have "finished ((c, k) # xs) = finished xs" "follows (Some (c, Suc k)) xs" using True k(3) by simp_all
    ultimately show ?thesis using IH [of "Some (c, Suc k)" content cnt] g(1) by simp
  next
    case False
    then have mf: "\<not> more_follow c k" "nsections c = Suc k" using more_iff [OF k(1)] k(1) by simp_all
    obtain x cnt1 where x: "iso_file_source_new_ifs L E (?r @ ?zs) (partial_source t c k) cnt = Some (Ifs_done, Some x, cnt1)"
      "without_aa x = node_source (env_timegm E) t c"
      using reads_last [OF rm_Cons.hyps(1) nc rm_Cons.prems(2-4) ok(1,2) sz(1) f(4,3) L mf refl area [folded rm_Cons.prems(5) ar]] by blast
    have "reader L E b X q1 pos1 (pending t p) content cnt = reader L E b X q1 (pos1 + length ?r) (pending t None) (x # content) cnt1"
      unfolding k(2) using step [OF x(1)] by (simp add: pending_def)
    moreover have "finished ((c, k) # xs) = c # finished xs" "follows None xs" using False k(3) by simp_all
    ultimately show ?thesis using IH [of None "x # content" cnt1] g(1) x(2) by simp
  qed
qed

lemma dot_fields:
  assumes "h = record_bytes t n par (Some i) 1 0 s @ zs" "d_type n = ECMA119_DIR"
  shows "h ! 0 = word_of_nat (34 + suf_len s)" "bb_at h 10 = word_of_nat (d_len n)"
  using assms by (simp_all add: record_bytes_def record_header_def Let_def bb_at_def need_version_number_def del: of_nat_add)

end
