(* ===== verification/Dir_Form.thy ===== *)
theory Dir_Form
  imports Dir_Loop
begin

text \<open>
  The form of the extents that the writer of directories makes.
\<close>

section \<open>Parsing an extent\<close>

text \<open>
  An extent of directory records as ECMA-119 defines it: blocks of 2048 bytes, in each a sequence of records
  that begin with their length, then zeros.
\<close>

function block_records :: "byte list \<Rightarrow> byte list list option" where
  "block_records bs =
     (case bs of
        [] \<Rightarrow> Some []
      | b # rest \<Rightarrow>
          if b = 0 then (if list_all (\<lambda>x. x = 0) rest then Some [] else None)
          else if unat b > length bs then None
          else map_option (\<lambda>rs. take (unat b) bs # rs) (block_records (drop (unat b) bs)))"
  by pat_completeness auto
termination by (relation "measure length") (auto simp: unat_gt_0)

function extent_records :: "byte list \<Rightarrow> byte list list option" where
  "extent_records bs =
     (if bs = [] then Some []
      else case block_records (take 2048 bs) of
        None \<Rightarrow> None
      | Some rs \<Rightarrow> map_option (\<lambda>qs. rs @ qs) (extent_records (drop 2048 bs)))"
  by pat_completeness auto
termination by (relation "measure length") auto

declare block_records.simps [simp del] extent_records.simps [simp del]

definition framed :: "byte list \<Rightarrow> bool" where
  "framed r \<longleftrightarrow> r \<noteq> [] \<and> unat (r ! 0) = length r \<and> length r \<le> 2048"

lemma block_records_zeros: "block_records (replicate n 0) = Some []"
  by (subst block_records.simps) (auto split: list.split simp: list_all_iff Cons_replicate_eq dest: sym)

lemma block_records_framed: "list_all framed rs \<Longrightarrow> block_records (concat rs @ replicate n 0) = Some rs"
proof (induction rs)
  case (Cons r rs)
  then obtain b r' where r: "r = b # r'" "unat b = length r" by (cases r) (auto simp: framed_def)
  then have "b \<noteq> 0" "unat b \<le> length (r @ concat rs @ replicate n 0)" by auto
  moreover have "take (unat b) (r @ concat rs @ replicate n 0) = r" "drop (unat b) (r @ concat rs @ replicate n 0) = concat rs @ replicate n 0"
    using r(2) by simp_all
  ultimately show ?case using Cons r(1) by (subst block_records.simps) auto
qed (simp add: block_records_zeros)

lemma extent_records_block:
  "length blk = 2048 \<Longrightarrow> block_records blk = Some rs \<Longrightarrow> extent_records (blk @ bs) = map_option (\<lambda>qs. rs @ qs) (extent_records bs)"
  by (subst extent_records.simps) auto

lemma extent_records_append:
  "2048 dvd length out \<Longrightarrow> extent_records out = Some rs \<Longrightarrow> extent_records (out @ bs) = map_option (\<lambda>qs. rs @ qs) (extent_records bs)"
proof (induction out arbitrary: rs rule: extent_records.induct)
  case (1 out)
  show ?case
  proof (cases "out = []")
    case True
    then show ?thesis using 1 by (simp add: extent_records.simps [of "[]"] option.map_ident)
  next
    case False
    then have l: "2048 \<le> length out" using 1(2) by (simp add: dvd_imp_le)
    obtain r1 r2 where r: "block_records (take 2048 out) = Some r1" "extent_records (drop 2048 out) = Some r2" "rs = r1 @ r2"
      using 1(3) False by (subst (asm) extent_records.simps) (auto split: option.splits)
    have d: "2048 dvd length (drop 2048 out)" using 1(2) by (simp add: dvd_diff_nat)
    have "extent_records (out @ bs) = map_option (\<lambda>qs. r1 @ qs) (extent_records (drop 2048 out @ bs))"
      using l False r(1) by (subst extent_records.simps) simp
    also have "\<dots> = map_option (\<lambda>qs. rs @ qs) (extent_records bs)"
      unfolding 1(1) [OF False r(1) d r(2)] by (simp add: option.map_comp comp_def r(3))
    finally show ?thesis .
  qed
qed

lemma fill_parses:
  "foldl fill_block (cur, out) recs = (cur', out') \<Longrightarrow> list_all framed recs \<Longrightarrow> length cur \<le> 2048 \<Longrightarrow> cur = concat cs \<Longrightarrow> list_all framed cs \<Longrightarrow>
   2048 dvd length out \<Longrightarrow> extent_records out = Some os \<Longrightarrow>
   extent_records (out' @ whole_block cur') = Some (os @ cs @ recs)"
proof (induction recs arbitrary: cur out cs os)
  case Nil
  then have b: "block_records (whole_block cur) = Some cs" unfolding whole_block_def Nil.prems(4) by (simp only: block_records_framed)
  have "extent_records (whole_block cur) = Some cs"
    using extent_records_block [OF length_whole_block [OF Nil.prems(3)] b, of "[]"] by (simp add: extent_records.simps [of "[]"])
  then show ?case using extent_records_append [OF Nil.prems(6,7)] Nil.prems(1) by simp
next
  case (Cons r recs)
  have r: "framed r" "list_all framed recs" "length r \<le> 2048" using Cons.prems(2) by (auto simp: framed_def [of r])
  show ?case
  proof (cases "length cur + length r > 2048")
    case True
    then have f: "foldl fill_block (r, out @ whole_block cur) recs = (cur', out')"
      using Cons.prems(1) by (simp add: fill_block_def [of "(cur, out)" r])
    have b: "block_records (whole_block cur) = Some cs" unfolding whole_block_def Cons.prems(4) by (simp add: block_records_framed Cons.prems(5))
    have l: "length (whole_block cur) = 2048" by (rule length_whole_block [OF Cons.prems(3)])
    have "extent_records (whole_block cur) = Some cs"
      using extent_records_block [OF l b, of "[]"] by (simp add: extent_records.simps [of "[]"])
    then have "extent_records (out @ whole_block cur) = Some (os @ cs)" using extent_records_append [OF Cons.prems(6,7)] by simp
    from Cons.IH [OF f r(2,3) _ _ _ this, of "[r]"] r(1) l Cons.prems(6) show ?thesis by simp
  next
    case False
    then have f: "foldl fill_block (cur @ r, out) recs = (cur', out')"
      using Cons.prems(1) by (simp add: fill_block_def [of "(cur, out)" r])
    from Cons.IH [OF f r(2) _ _ _ Cons.prems(6,7), of "cs @ [r]"] False r(1) Cons.prems(4,5) show ?thesis by simp
  qed
qed

lemma extent_parses: "list_all framed recs \<Longrightarrow> extent_records (dir_extent recs) = Some recs"
  using fill_parses [of "[]" "[]" recs _ _ "[]" "[]"]
  by (simp add: dir_extent_def extent_records.simps [of "[]"] split: prod.split)


section \<open>Well-formed records\<close>

definition well_formed :: "byte list \<Rightarrow> bool" where
  "well_formed r \<longleftrightarrow>
     even (length r) \<and> 34 \<le> length r \<and> length r \<le> 254 \<and> unat (r ! 0) = length r \<and> r ! 1 = 0 \<and>
     take 4 (drop 6 r) = rev (take 4 (drop 2 r)) \<and> take 4 (drop 14 r) = rev (take 4 (drop 10 r)) \<and>
     33 + unat (r ! 32) \<le> length r"

definition record_id :: "byte list \<Rightarrow> byte list" where
  "record_id r = take (unat (r ! 32)) (drop 33 r)"

text \<open>The record of a section of a child.\<close>

definition child_record :: "dir_image \<Rightarrow> dtree \<times> nat \<Rightarrow> byte list \<Rightarrow> bool" where
  "child_record t x r \<longleftrightarrow>
     well_formed r \<and> record_id r = file_id t (fst x) \<and> (bb_at r 2, bb_at r 10) = header_block t (fst x) (snd x) \<and>
     bit (r ! 25) 1 = (d_type (fst x) = ECMA119_DIR) \<and> bit (r ! 25) 7 = more_follow (fst x) (snd x)"

lemma both_endian:
  "take 4 (drop 6 ([a, b] @ iso_bb x 4 @ iso_bb y 4 @ zs)) = rev (take 4 (drop 2 ([a, b] @ iso_bb x 4 @ iso_bb y 4 @ zs)))"
  "take 4 (drop 14 ([a, b] @ iso_bb x 4 @ iso_bb y 4 @ zs)) = rev (take 4 (drop 10 ([a, b] @ iso_bb x 4 @ iso_bb y 4 @ zs)))"
  by (simp_all add: iso_bb_def iso_msb_rev)

lemma child_record_made:
  assumes made: "made t (rr_view blk c) (Some (rr_view blk dir)) 0 (calc_dirent_len t c) s s'"
    and "\<not> corrupt s'" "clean s" "child_ok t c"
  shows "child_record t (c, k) (record_bytes t c (Some dir) None (length (name_bytes c)) k s')"
proof -
  let ?r = "record_bytes t c (Some dir) None (length (name_bytes c)) k s'"
  obtain cs where f: "length ?r = record_size t (c, k)" "suf_len s' = fst (child_sizes t c)"
    "suf_len s' = total (susp_fields s') + total (susp_fields s') mod 2" "record_size t (c, k) \<le> 254"
    by (rule record_facts [OF assms, where k = k and x = 0]) blast
  have nm: "d_name c \<noteq> None" using assms(4) by (simp add: child_ok_def)
  have sz: "calc_dirent_len t c + suf_len s' \<le> 254" "length ?r = calc_dirent_len t c + suf_len s'"
    using f(1,2,4) by (simp_all add: record_size_def)
  note r = record_start [OF _ nm sz(1), of ?r "Some dir" k "[]", simplified]
  note len = length_file_id [OF nm, of t]
  have "even (suf_len s')" unfolding f(3) by (simp add: even_iff_mod_2_eq_zero) presburger
  moreover have "even (calc_dirent_len t c)" unfolding len by (simp add: even_iff_mod_2_eq_zero) presburger
  ultimately have ev: "even (length ?r)" by (simp add: sz(2))
  have ge: "1 \<le> length (file_id t c) + (length (file_id t c) + 1) mod 2" by presburger
  have "\<exists>a b zs. ?r = [a, b] @ iso_bb (fst (header_block t c k)) 4 @ iso_bb (snd (header_block t c k)) 4 @ zs"
    unfolding record_bytes_def record_header_child by simp
  then have be: "take 4 (drop 6 ?r) = rev (take 4 (drop 2 ?r))" "take 4 (drop 14 ?r) = rev (take 4 (drop 10 ?r))"
    by (elim exE; simp only: both_endian)+
  show ?thesis unfolding child_record_def well_formed_def record_id_def
    using r len sz ev be ge by (simp add: len_fi_def)
qed

lemma child_records_made:
  "records_made t blk dir xs s recs s' \<Longrightarrow> \<not> corrupt s' \<Longrightarrow> clean s \<Longrightarrow> list_all (\<lambda>x. child_ok t (fst x)) xs \<Longrightarrow>
   list_all2 (child_record t) xs recs"
proof (induction xs s recs s' rule: records_made.induct)
  case (rm_Cons c s s1 xs recs s'' k)
  have "\<not> corrupt s1" using records_made_corrupt [OF rm_Cons.hyps(2)] rm_Cons.prems(1) by auto
  then show ?case using child_record_made [OF rm_Cons.hyps(1)] rm_Cons by simp
qed simp


text \<open>The records of the directory and of its parent, whose identifiers are a single byte 0 or 1.\<close>

definition dot_record :: "dir_image \<Rightarrow> dtree \<Rightarrow> byte \<Rightarrow> byte list \<Rightarrow> bool" where
  "dot_record t n i r \<longleftrightarrow>
     well_formed r \<and> record_id r = [i] \<and> bb_at r 2 = d_block n - eff_partition_offset (rr_opts t) \<and> bb_at r 10 = word_of_nat (d_len n)"

lemma dot_record_made:
  assumes n: "d_type n = ECMA119_DIR" and s: "suf_len s = total (susp_fields s) + total (susp_fields s) mod 2" "suf_len s \<le> 136"
  shows "dot_record t n (word_of_nat i) (record_bytes t n p (Some i) 1 0 s)"
proof -
  let ?r = "record_bytes t n p (Some i) 1 0 s"
  have len: "length ?r = 34 + suf_len s"
    using header_dot [OF no_version_dir [OF n], of t p i "suf_len s" 0] s(1) by (simp add: record_bytes_def length_concat_total)
  have "even (suf_len s)" unfolding s(1) by (simp add: even_iff_mod_2_eq_zero) presburger
  then have ev: "even (length ?r)" unfolding len by simp
  note f = dot_fields [of ?r t n p i s "[]", OF _ n, simplified]
  have f0: "?r ! 0 = word_of_nat (34 + suf_len s)" by (rule dot_fields(1) [OF _ n, where zs = "[]"]) simp
  have u: "unat (?r ! 0) = length ?r" unfolding f0 len using s(2) by (simp add: unat_of_nat take_bit_nat_eq_self del: of_nat_add)
  have "\<exists>a zs. ?r = [a, 0] @ iso_bb (d_block n - eff_partition_offset (rr_opts t)) 4 @ iso_bb (word_of_nat (d_len n)) 4 @ zs"
    unfolding record_bytes_def record_header_def Let_def by (simp add: n)
  then obtain a zs where r: "?r = [a, 0] @ iso_bb (d_block n - eff_partition_offset (rr_opts t)) 4 @ iso_bb (word_of_nat (d_len n)) 4 @ zs" by blast
  then have be: "take 4 (drop 6 ?r) = rev (take 4 (drop 2 ?r))" "take 4 (drop 14 ?r) = rev (take 4 (drop 10 ?r))"
    "?r ! 1 = 0" "bb_at ?r 2 = d_block n - eff_partition_offset (rr_opts t)"
    by (simp_all only: both_endian) (simp_all add: bb_at_def)
  have "?r ! 32 = 1" "drop 33 ?r = word_of_nat i # concat (susp_fields s) @ replicate (suf_len s - total (susp_fields s)) 0"
    using n by (simp_all add: record_bytes_def record_header_def Let_def nth_append need_version_number_def)
  then show ?thesis unfolding dot_record_def well_formed_def record_id_def
    using ev u be f(2) len s(2) by simp
qed


lemma dots_well_formed:
  assumes m: "dots_made t blk dir up upup s d1 d2 s'" "\<not> corrupt s'" "clean s"
    and ok: "dir_ok t dir" "\<And>p. up = Some p \<Longrightarrow> d_type p = ECMA119_DIR"
  shows "dot_record t dir 0 d1" "dot_record t (dot_nodes dir up) 1 d2"
proof -
  obtain s1 s2 where d: "made t (rr_view blk dir) (map_option (rr_view blk) up) 1 34 s s1"
    "made t (rr_view blk dir) (map_option (rr_view blk) up) 2 34 (cleared s1) s2"
    "d1 = record_bytes t dir up (Some 0) 1 0 s1" "d2 = record_bytes t (dot_nodes dir up) upup (Some 1) 1 0 s2" "s' = cleared s2"
    using m(1) unfolding dots_made_def by blast
  have n2: "\<not> corrupt s2" using m(2) d(5) by simp
  have n1: "\<not> corrupt s1" using made_corrupt [OF d(2)] n2 by auto
  have up: "d_type (dot_nodes dir up) = ECMA119_DIR" "d_type dir = ECMA119_DIR" using ok by (auto simp: dot_nodes_def dir_ok_def split: option.split)
  have 1: "suf_len s1 = total (susp_fields s1) + total (susp_fields s1) mod 2" "suf_len s1 \<le> 136"
    using dot_facts [OF d(1) n1 m(3) _ ok(1) up(2), of up 0] by force+
  have 2: "suf_len s2 = total (susp_fields s2) + total (susp_fields s2) mod 2" "suf_len s2 \<le> 136"
    using dot_facts [OF d(2) n2 clean_cleared _ ok(1) up(1), of upup 1] by force+
  show "dot_record t dir 0 d1" "dot_record t (dot_nodes dir up) 1 d2"
    unfolding d(3,4) using dot_record_made [OF up(2) 1, where i = 0] dot_record_made [OF up(1) 2, where i = 1] by simp_all
qed

lemma well_formed_framed: "well_formed r \<Longrightarrow> framed r"
  by (auto simp: well_formed_def framed_def)

text \<open>
  C4: what is written for a directory has the form that ECMA-119 asks for.  Its extent has the predicted size and consists of
  blocks of 2048 bytes, in each of which records follow each other without a gap and are followed by zeros, so that no record crosses the
  end of a block.  Every record begins with its length, which is even and between 34 and 254, gives its numbers in both byte
  orders, and has room for its identifier.  The first two belong to the directory and to its parent, and the
  others to the sections of the children, with their file identifiers, block addresses and flags.\<close>
theorem extent_well_formed:
  assumes w: "write_one_dir t blk collect dir up upup mem out = (Inr (), info', out')" "\<not> corrupt info'"
    and ok: "dir_ok t dir" "\<And>p. up = Some p \<Longrightarrow> d_type p = ECMA119_DIR" "snd (calc_dir_size t (up = None) dir) < 2 ^ 32"
  shows "\<exists>X area d1 d2 rest. out' = out @ X @ area \<and> length X = fst (calc_dir_size t (up = None) dir) \<and>
     extent_records X = Some (d1 # d2 # rest) \<and> dot_record t dir 0 d1 \<and> dot_record t (dot_nodes dir up) 1 d2 \<and>
     list_all2 (child_record t) (records_of (d_children dir)) rest"
proof -
  obtain recs s where rs: "dir_made t blk dir up upup mem recs s" "out' = out @ dir_extent recs @ area_bytes s"
    using write_one_dir_collect [OF w ok] by blast
  then obtain d1 d2 rest s0 where m: "recs = d1 # d2 # rest" "dots_made t blk dir up upup (first_info t dir mem) d1 d2 s0"
    "records_made t blk dir (records_of (d_children dir)) s0 rest s" "\<not> corrupt s" by (auto simp: dir_made_def)
  have n0: "\<not> corrupt s0" using records_made_corrupt [OF m(3)] m(4) by blast
  have c0: "clean s0" using m(2) by (auto simp: dots_made_def)
  note dots = dots_well_formed [OF m(2) n0 first_info_simps(1) ok(1,2)]
  note ch = child_records_made [OF m(3,4) c0 records_of_ok [OF ok(1)]]
  have "list_all framed rest"
    using ch well_formed_framed by (auto simp: list_all2_conv_all_nth list_all_length child_record_def)
  then have "list_all framed recs" using dots well_formed_framed by (simp add: m(1) dot_record_def)
  then have "extent_records (dir_extent recs) = Some (d1 # d2 # rest)" using extent_parses m(1) by blast
  then show ?thesis using rs(2) dots ch dir_made_facts(1) [OF rs(1) ok(1,2)] by blast
qed


definition plain_image :: dir_image where
  "plain_image = example_dir_image\<lparr>rockridge := False\<rparr>"

definition two_part_dir :: dtree where
  "two_part_dir =
     placed_dir 20 0 0 None
       [example_file 3 (str ''A.TXT'') (str ''a.text'') [(50, 1000), (70, 10)], placed_dir 22 0 1 (Some (str ''SUB'')) []]"

lemma write_two_part: "\<exists>info out'. write_one_dir plain_image no_blk collect two_part_dir None None 9 [] = (Inr (), info, out') \<and> \<not> corrupt info"
proof -
  have "case write_one_dir plain_image no_blk collect two_part_dir None None 9 [] of (r, info, _) \<Rightarrow> r = Inr () \<and> \<not> corrupt info"
    by code_simp
  then show ?thesis by (auto split: prod.splits)
qed

lemma extent_well_formed_witness:
  "\<exists>X d1 d2 rest. extent_records X = Some (d1 # d2 # rest) \<and> length X = 2048 \<and>
     map record_id rest = [str ''A.TXT;1'', str ''A.TXT;1'', str ''SUB''] \<and> map (\<lambda>r. (bb_at r 2, bb_at r 10)) rest = [(50, 1000), (70, 10), (22, 0)]"
proof -
  obtain info out' where w: "write_one_dir plain_image no_blk collect two_part_dir None None 9 [] = (Inr (), info, out')" "\<not> corrupt info"
    using write_two_part by blast
  have ok: "dir_ok plain_image two_part_dir" by code_simp
  have sz: "calc_dir_size plain_image True two_part_dir = (2048, 0)" by code_simp
  obtain X d1 d2 rest where x: "extent_records X = Some (d1 # d2 # rest)" "length X = 2048"
    "list_all2 (child_record plain_image) (records_of (d_children two_part_dir)) rest"
    using extent_well_formed [OF w ok] sz by auto
  have ids: "map record_id rest = map (\<lambda>x. file_id plain_image (fst x)) (records_of (d_children two_part_dir))"
    "map (\<lambda>r. (bb_at r 2, bb_at r 10)) rest = map (\<lambda>x. header_block plain_image (fst x) (snd x)) (records_of (d_children two_part_dir))"
    using x(3) by (simp_all add: list_eq_iff_nth_eq list_all2_conv_all_nth child_record_def)
  moreover have "need_version_number plain_image (example_file 3 (str ''A.TXT'') (str ''a.text'') [(50, 1000), (70, 10)])"
    "\<not> need_version_number plain_image (placed_dir 22 0 1 (Some (str ''SUB'')) [])" by code_simp+
  then have "map (\<lambda>x. file_id plain_image (fst x)) (records_of (d_children two_part_dir)) = [str ''A.TXT;1'', str ''A.TXT;1'', str ''SUB'']"
    "map (\<lambda>x. header_block plain_image (fst x) (snd x)) (records_of (d_children two_part_dir)) = [(50, 1000), (70, 10), (22, 0)]"
    by (simp_all add: records_of_def two_part_dir_def placed_dir_def example_file_def nsections_def example_node_def file_id_def name_bytes_def
      header_block_def plain_image_def example_dir_image_def example_rr_image_def)
  ultimately have "map record_id rest = [str ''A.TXT;1'', str ''A.TXT;1'', str ''SUB'']"
    "map (\<lambda>r. (bb_at r 2, bb_at r 10)) rest = [(50, 1000), (70, 10), (22, 0)]" by (simp_all only:)
  with x(1,2) show ?thesis by (intro exI [of _ X] exI [of _ d1] exI [of _ d2] exI [of _ rest] conjI)
qed

end
