(* ===== verification/Dir_Trip.thy ===== *)
theory Dir_Trip
  imports Dir_Loop
begin

text \<open>
  The round trip of the directories of a tree: from \<open>calc_dir_pos\<close> and \<open>write_dirs\<close> to \<open>read_dir\<close>.
\<close>

section \<open>A whole directory\<close>

lemma dots_lengths:
  assumes m: "dots_made t blk dir up upup s d1 d2 s'" "\<not> corrupt s'" "clean s"
    and ok: "dir_ok t dir" "\<And>p. up = Some p \<Longrightarrow> d_type p = ECMA119_DIR"
  obtains s1 s2 where "d1 = record_bytes t dir up (Some 0) 1 0 s1" "d2 = record_bytes t (dot_nodes dir up) upup (Some 1) 1 0 s2"
    "length d1 = 34 + suf_len s1" "length d2 = 34 + suf_len s2"
proof -
  obtain s1 s2 where d: "made t (rr_view blk dir) (map_option (rr_view blk) up) 1 34 s s1"
    "made t (rr_view blk dir) (map_option (rr_view blk) up) 2 34 (cleared s1) s2"
    "d1 = record_bytes t dir up (Some 0) 1 0 s1" "d2 = record_bytes t (dot_nodes dir up) upup (Some 1) 1 0 s2" "s' = cleared s2"
    using m(1) unfolding dots_made_def by blast
  have n2: "\<not> corrupt s2" using m(2) d(5) by simp
  have n1: "\<not> corrupt s1" using made_corrupt [OF d(2)] n2 by auto
  have up: "d_type (dot_nodes dir up) = ECMA119_DIR" "d_type dir = ECMA119_DIR" using ok by (auto simp: dot_nodes_def dir_ok_def split: option.split)
  have 1: "length d1 = 34 + suf_len s1"
    using dot_facts [OF d(1) n1 m(3) _ ok(1) up(2), of up 0] unfolding d(3) by force
  have 2: "length d2 = 34 + suf_len s2"
    using dot_facts [OF d(2) n2 clean_cleared _ ok(1) up(1), of upup 1] unfolding d(4) by force
  show thesis by (rule that [OF d(3,4) 1 2])
qed

lemma dirs_of_extent:
  assumes "length d1 + length d2 \<le> 2048" "foldl fill_block (d1 @ d2, []) recs = (cur, out)"
  shows "dir_extent (d1 # d2 # recs) = out @ whole_block cur"
  using assms by (simp add: dir_extent_def fill_block_def [of "([], [])"] fill_block_def [of "(d1, [])"])

lemma area_on_medium:
  assumes "\<forall>k. 2048 * k < length (X @ area) \<longrightarrow> read_block E (b + word_of_nat k) = Inr (take 2048 (drop (2048 * k) (X @ area)))"
    and "2048 dvd length X" "2048 dvd length area" "length area < 2 ^ 32 - 2048"
  shows "area_at (read_block E) (b + word_of_nat (length X div 2048)) area"
  unfolding area_at_def
proof (intro conjI allI impI)
  fix k assume "k < (length area + 2047) div 2048"
  then have k: "2048 * Suc k \<le> length area" using assms(3) by (auto elim!: dvdE)
  let ?j = "length X div 2048 + k"
  have j: "2048 * ?j = length X + 2048 * k" using assms(2) by (auto elim!: dvdE)
  then have "2048 * ?j < length (X @ area)" using k by simp
  then have "read_block E (b + word_of_nat ?j) = Inr (take 2048 (drop (2048 * ?j) (X @ area)))" using assms(1) by blast
  moreover have "take 2048 (drop (2048 * ?j) (X @ area)) = take 2048 (drop (2048 * k) area @ replicate 2048 0)"
    unfolding j using k by simp
  ultimately show "read_block E (b + word_of_nat (length X div 2048) + word_of_nat k) =
      Inr (take 2048 (drop (2048 * k) area @ replicate 2048 0))"
    by (simp add: add.assoc)
qed (fact assms(4))

lemma extent_on_medium:
  assumes "\<forall>k. 2048 * k < length (X @ area) \<longrightarrow> read_block E (b + word_of_nat k) = Inr (take 2048 (drop (2048 * k) (X @ area)))"
    and "2048 dvd length X" "2048 dvd length area" "length X < 2 ^ 32"
    and "\<exists>z. read_block E (b + word_of_nat (length (X @ area) div 2048)) = Inr z"
  shows "on_medium E b X"
  unfolding on_medium_def
proof (intro conjI allI impI)
  fix k assume "2048 * k < length X"
  then have "2048 * Suc k \<le> length X" using assms(2) blocks_left by blast
  then have "take 2048 (drop (2048 * k) (X @ area)) = take 2048 (drop (2048 * k) X)" by simp
  then show "read_block E (b + word_of_nat k) = Inr (take 2048 (drop (2048 * k) X))"
    using assms(1) \<open>2048 * k < length X\<close> by simp
next
  show "\<exists>z. read_block E (b + word_of_nat (length X div 2048)) = Inr z"
  proof (cases "area = []")
    case False
    have "2048 * (length X div 2048) = length X" using assms(2) by simp
    then have "2048 * (length X div 2048) < length (X @ area)" using False by simp
    then show ?thesis using assms(1) by blast
  qed (use assms(5) in simp)
qed (use assms in simp_all)

text \<open>The bytes \<open>bs\<close> and one block more can be read from block \<open>b\<close> on.\<close>

definition readable_from :: "block_source \<Rightarrow> u32 \<Rightarrow> byte list \<Rightarrow> bool" where
  "readable_from src b bs \<longleftrightarrow>
     (\<forall>k. 2048 * k < length bs \<longrightarrow> src (b + word_of_nat k) = Inr (take 2048 (drop (2048 * k) bs))) \<and>
     (\<exists>z. src (b + word_of_nat (length bs div 2048)) = Inr z)"

text \<open>The first block with the records of the directory itself and of its parent.\<close>

lemma first_records:
  assumes om: "on_medium E b X" and X: "X = d1 @ d2 @ z" "length X = d_len dir"
    and d: "d1 = record_bytes t dir up (Some 0) 1 0 s1" "d2 = record_bytes t n upup (Some 1) 1 0 s2"
      "length d1 = 34 + suf_len s1" "length d2 = 34 + suf_len s2" "length d1 \<le> 170" "length d2 \<le> 170"
    and types: "d_type dir = ECMA119_DIR" "d_type n = ECMA119_DIR"
  shows "read_dir L E b cnt = reader L E b X 0 (length (d1 @ d2)) None [] cnt"
proof -
  let ?buf = "take 2048 X"
  have p: "2048 * 0 < length X" using d(3) by (simp add: X(1))
  then have "read_block E (b + word_of_nat 0) = Inr (take 2048 (drop (2048 * 0) X))" using om unfolding on_medium_def by blast
  then have buf: "read_block E b = Inr ?buf" "length ?buf = 2048" using buffer_facts(1) [OF om p] by simp_all
  define zs where "zs = take (2048 - length (d1 @ d2)) z"
  have b12: "?buf = d1 @ d2 @ zs" using d(5,6) by (simp add: X(1) zs_def)
  note h1 = dot_fields [of ?buf t dir up 0 s1 "d2 @ zs", OF _ types(1)]
  have h: "bb_at ?buf 10 = word_of_nat (d_len dir)" using h1(2) b12 d(1) by simp
  have "?buf ! 0 = word_of_nat (length d1)" using h1(1) b12 d(1,3) by simp
  then have h2: "unat (?buf ! 0) = length d1" using d(5) by (simp add: unat_of_nat take_bit_nat_eq_self)
  have "?buf ! length d1 = (d2 @ zs) ! 0" unfolding b12 by (simp add: nth_append)
  also have "\<dots> = word_of_nat (length d2)"
    using dot_fields(1) [of "d2 @ zs" t n upup 1 s2 zs, OF _ types(2)] d(2,4) by simp
  finally have h3: "unat (?buf ! length d1) = length d2" using d(6) by (simp add: unat_of_nat take_bit_nat_eq_self)
  show ?thesis
    unfolding read_dir_def reader_def buf(1) sum.case Let_def h h2 h3 X(2) [symmetric] using buf(2) by simp
qed

text \<open>Where the reader finds the records and the continuation area of a directory.\<close>

lemma made_on_medium:
  assumes made: "dir_made t blk dir up upup mem recs s"
    and ok: "dir_ok t dir" "\<And>p. up = Some p \<Longrightarrow> d_type p = ECMA119_DIR" "snd (calc_dir_size t (up = None) dir) < 2 ^ 32 - 4096"
      "length (dir_extent recs) < 2 ^ 32"
    and medium: "readable_from (read_block E) b (dir_extent recs @ area_bytes s)"
  shows "on_medium E b (dir_extent recs)"
    "area_at (read_block E) (b + word_of_nat (length (dir_extent recs) div 2048)) (area_bytes s)"
proof -
  note f = dir_made_facts [OF made ok(1,2)]
  have dv: "2048 dvd length (dir_extent recs)" "2048 dvd length (area_bytes s)"
    using f(1) by (simp_all add: calc_dir_size_def Let_def length_area_bytes split: prod.split)
  have "DIV_UP (total (ce_susp_fields s)) 2048 * 2048 \<le> total (ce_susp_fields s) + 2048" by (simp add: DIV_UP_blocks)
  then have la: "length (area_bytes s) < 2 ^ 32 - 2048" using ok(3) f(2) unfolding length_area_bytes by linarith
  show "on_medium E b (dir_extent recs)"
    using medium unfolding readable_from_def by (intro extent_on_medium [OF _ dv ok(4)]) simp_all
  show "area_at (read_block E) (b + word_of_nat (length (dir_extent recs) div 2048)) (area_bytes s)"
    using medium unfolding readable_from_def by (intro area_on_medium [OF _ dv la]) simp
qed

lemma dir_made_nonempty:
  assumes made: "dir_made t blk dir up upup mem recs s" and ok: "dir_ok t dir" "\<And>p. up = Some p \<Longrightarrow> d_type p = ECMA119_DIR"
  shows "dir_extent recs \<noteq> []"
proof -
  obtain d1 d2 rest s0 where m: "recs = d1 # d2 # rest" "dots_made t blk dir up upup (first_info t dir mem) d1 d2 s0"
    "records_made t blk dir (records_of (d_children dir)) s0 rest s" "\<not> corrupt s" using made by (auto simp: dir_made_def)
  have n0: "\<not> corrupt s0" using records_made_corrupt [OF m(3)] m(4) by blast
  have d: "length d1 = 34 + fst (dot_sizes t (up = None) dir 1) \<and> length d1 \<le> 170 \<and> length d2 \<le> 170"
    by (rule dots_facts [OF m(2) n0 first_info_simps(1) ok]) (assumption | blast)+
  obtain cur out1 where fl: "foldl fill_block (d1 @ d2, []) rest = (cur, out1)" by fastforce
  then have "dir_extent recs = out1 @ whole_block cur" unfolding m(1) using dirs_of_extent [OF _ fl] d by simp
  then show ?thesis using fill_prefix [OF fl] d by auto
qed

definition found_children :: "ifs_env \<Rightarrow> dir_image \<Rightarrow> dtree \<Rightarrow> file_source list" where
  "found_children E t dir = rev (map (node_source (env_timegm E) t) (filter (\<lambda>c. 0 < nsections c) (d_children dir)))"

lemma dir_read_back:
  assumes made: "dir_made t blk dir up upup mem recs s"
    and ok: "dir_ok t dir" "\<And>p. up = Some p \<Longrightarrow> d_type p = ECMA119_DIR" "snd (calc_dir_size t (up = None) dir) < 2 ^ 32 - 4096"
      "d_len dir = length (dir_extent recs)" "d_len dir < 2 ^ 32"
    and children: "list_all (readable t) (d_children dir)"
    and L: "rockridge t" "ld_rr L" "ld_len_skp L = 0" "ld_convert L = None"
    and medium: "readable_from (read_block E) (d_block dir - eff_partition_offset (rr_opts t)) (dir_extent recs @ area_bytes s)"
  shows "\<exists>fs cnt'. read_dir L E (d_block dir - eff_partition_offset (rr_opts t)) cnt = Some (Inr (fs, cnt')) \<and>
     map without_aa fs = found_children E t dir"
proof -
  let ?b = "d_block dir - eff_partition_offset (rr_opts t)"
  define X where "X = dir_extent recs"
  obtain d1 d2 rest s0 where m: "recs = d1 # d2 # rest" "dots_made t blk dir up upup (first_info t dir mem) d1 d2 s0"
    "records_made t blk dir (records_of (d_children dir)) s0 rest s" "\<not> corrupt s" using made by (auto simp: dir_made_def)
  have n0: "\<not> corrupt s0" using records_made_corrupt [OF m(3)] m(4) by blast
  obtain cs where d: "length d1 \<le> 170" "length d2 \<le> 170" "area_grows cs (first_info t dir mem) s0" "clean s0"
    by (rule dots_facts [OF m(2) n0 first_info_simps(1) ok(1,2)]) (assumption | blast)+
  obtain cur out1 where fl: "foldl fill_block (d1 @ d2, []) rest = (cur, out1)" by fastforce
  have l12: "length (d1 @ d2) \<le> 2048" using d(1,2) by simp
  have X: "X = out1 @ whole_block cur" unfolding X_def m(1) using dirs_of_extent [OF _ fl] d(1,2) by simp
  obtain z where z: "X = d1 @ d2 @ z" using fill_prefix [OF fl] X by auto
  have lX: "length X = d_len dir" "length (dir_extent recs) < 2 ^ 32" using ok(4,5) by (simp_all add: X_def)
  note om = made_on_medium [OF made ok(1,2,3) lX(2) medium, folded X_def]
  have "2048 dvd length X" using om(1) by (simp add: on_medium_def)
  then have "DIV_UP (d_len dir) 2048 = length X div 2048" using lX(1) by (auto simp: DIV_UP_def elim!: dvdE)
  then have cb: "ce_block s0 - eff_partition_offset (rr_opts t) = ?b + word_of_nat (length X div 2048)"
    using d(3) L(1) by (simp add: area_grows_def)
  note area = om(2) [folded cb]
  have s0: "list_all sized (ce_susp_fields s0)" "ce_len s0 = word_of_nat (total (ce_susp_fields s0))"
    using d(3) by (simp_all add: area_grows_def)
  have ch: "list_all (\<lambda>x. child_ok t (fst x) \<and> readable t (fst x)) (records_of (d_children dir))"
    using ok(1) children by (auto simp: dir_ok_def records_of_def list_all_iff)
  obtain s1 s2 where s12: "d1 = record_bytes t dir up (Some 0) 1 0 s1" "d2 = record_bytes t (dot_nodes dir up) upup (Some 1) 1 0 s2"
    "length d1 = 34 + suf_len s1" "length d2 = 34 + suf_len s2"
    by (rule dots_lengths [OF m(2) n0 first_info_simps(1) ok(1,2)])
  have types: "d_type dir = ECMA119_DIR" "d_type (dot_nodes dir up) = ECMA119_DIR"
    using ok(1,2) by (auto simp: dir_ok_def dot_nodes_def split: option.split)
  have rd: "read_dir L E ?b cnt = reader L E ?b X 0 (length (d1 @ d2)) (pending t None) [] cnt"
    using first_records [OF om(1) z lX(1) s12 d(1,2) types] by (simp add: pending_def)
  obtain zs where as: "area_bytes s = concat (ce_susp_fields s) @ zs" by (auto simp: area_bytes_def)
  have pos: "0 < length (d1 @ d2)" using s12(3) by simp
  from reads_records [OF L om(1) area m(3,4) d(4) s0 refl as [symmetric] ch conjunct1 [OF follows_records] fl X _ pos l12, of 0 "[]" cnt]
  show ?thesis unfolding rd by (simp add: follows_records found_children_def)
qed

section \<open>All directories of a tree\<close>

lemma readable_piece:
  assumes src: "readable_from src b tree" and bs: "stands_at bs pos tree" "bs \<noteq> []" "2048 dvd length bs" "2048 dvd length tree"
  shows "readable_from src (b + word_of_nat pos) bs" "length bs \<le> length tree"
proof -
  have l: "2048 * pos + length bs \<le> length tree"
  proof -
    have "length bs = min (length bs) (length tree - 2048 * pos)" using arg_cong [OF bs(1) [unfolded stands_at_def], of length] by simp
    then show ?thesis using bs(2) by (cases "length tree \<le> 2048 * pos") auto
  qed
  then show "length bs \<le> length tree" by simp
  have blk: "src (b + word_of_nat pos + word_of_nat k) = src (b + word_of_nat (pos + k))" for k by (simp add: add.assoc)
  show "readable_from src (b + word_of_nat pos) bs"
    unfolding readable_from_def blk
  proof (intro conjI allI impI)
    fix k assume "2048 * k < length bs"
    then have k: "2048 * Suc k \<le> length bs" using bs(3) blocks_left by blast
    then have "2048 * (pos + k) < length tree" using l by simp
    then have "src (b + word_of_nat (pos + k)) = Inr (take 2048 (drop (2048 * (pos + k)) tree))"
      using src unfolding readable_from_def by blast
    also have "take 2048 (drop (2048 * (pos + k)) tree) = take 2048 (drop (2048 * k) (take (length bs) (drop (2048 * pos) tree)))"
      using k by (simp add: drop_take min_def distrib_left add.commute)
    finally show "src (b + word_of_nat (pos + k)) = Inr (take 2048 (drop (2048 * k) bs))"
      using bs(1) by (simp add: stands_at_def)
  next
    let ?j = "pos + length bs div 2048"
    have j: "2048 * ?j = 2048 * pos + length bs" using bs(3) by (simp add: distrib_left)
    show "\<exists>z. src (b + word_of_nat ?j) = Inr z"
    proof (cases "2048 * ?j < length tree")
      case True
      then show ?thesis using src unfolding readable_from_def by blast
    next
      case False
      then have "2048 * ?j = length tree" using l j by simp
      then have "?j = length tree div 2048" by (metis nonzero_mult_div_cancel_left zero_neq_numeral)
      then show ?thesis using src unfolding readable_from_def by metis
    qed
  qed
qed

text \<open>
  C1: what \<open>write_dirs\<close> wrote, \<open>read_dir\<close> reads.  In each directory of the tree the loader finds, in reverse order, every child that
  has a section: with its Rock Ridge name, attributes, time stamps, link target, zisofs parameters and device number, and with the blocks and sizes
  of all its sections, those of a multi-extent file gathered from as many records; the block of a directory leads on to its own records.\<close>
theorem tree_roundtrip:
  assumes calc: "calc_dir_pos t True root (cur, 0) = (root', cur', ndirs)"
    and wr: "write_dirs t (block_of_id root') collect None None root' (mem, out) = Some (Inr (), mem', out @ tree)"
    and ok: "tree_ok t root'" "\<forall>d \<in> set (dir_nodes root'). list_all (readable t) (d_children d)"
    and L: "rockridge t" "ld_rr L" "ld_len_skp L = 0" "ld_convert L = None"
    and medium: "readable_from (read_block E) (cur - eff_partition_offset (rr_opts t)) tree" "length tree < 2 ^ 32 - 4096"
  shows "\<forall>d \<in> set (dir_nodes root'). \<forall>cnt. \<exists>fs cnt'.
     read_dir L E (d_block d - eff_partition_offset (rr_opts t)) cnt = Some (Inr (fs, cnt')) \<and>
     map without_aa fs = found_children E t d"
proof (intro ballI allI)
  fix d cnt assume "d \<in> set (dir_nodes root')"
  then have d: "list_all (readable t) (d_children d)" "d \<in> fst ` set (visits None None root')"
    using ok(2) by (metis, metis visits_nodes set_map)
  then obtain up upup where v: "(d, up, upup) \<in> set (visits None None root')" by auto
  obtain tree' where tr: "out @ tree = out @ tree'" "length tree' = 2048 * space_of t (visits None None root')"
    "\<exists>pos mem recs s. dir_made t (block_of_id root') d up upup mem recs s \<and> d_block d = cur + word_of_nat pos \<and>
        d_len d = length (dir_extent recs) \<and> stands_at (dir_extent recs @ area_bytes s) pos tree'"
    using tree_written [OF calc wr ok(1)] v by blast
  then obtain pos mem recs s where m: "dir_made t (block_of_id root') d up upup mem recs s" "d_block d = cur + word_of_nat pos"
    "d_len d = length (dir_extent recs)" "stands_at (dir_extent recs @ area_bytes s) pos tree" by auto
  have vo: "dir_ok t d" "\<And>p. up = Some p \<Longrightarrow> d_type p = ECMA119_DIR"
    using ok(1) v by (auto simp: tree_ok_def visit_ok_def list_all_iff)
  note f = dir_made_facts [OF m(1) vo]
  let ?bs = "dir_extent recs @ area_bytes s"
  have dv: "2048 dvd length ?bs"
    using f(1) by (simp add: calc_dir_size_def Let_def length_area_bytes split: prod.split)
  have ne: "?bs \<noteq> []"
    using dir_made_nonempty [OF m(1) vo] by simp
  have "2048 dvd length tree" using tr(1,2) by simp
  note p = readable_piece [OF medium(1) m(4) ne dv this]
  have b: "cur - eff_partition_offset (rr_opts t) + word_of_nat pos = d_block d - eff_partition_offset (rr_opts t)"
    by (simp add: m(2))
  have "total (ce_susp_fields s) \<le> length (area_bytes s)" unfolding length_area_bytes by (rule DIV_UP_ge)
  then have sz: "snd (calc_dir_size t (up = None) d) < 2 ^ 32 - 4096" "d_len d < 2 ^ 32"
    using p(2) medium(2) f(2) m(3) by simp_all
  show "\<exists>fs cnt'. read_dir L E (d_block d - eff_partition_offset (rr_opts t)) cnt = Some (Inr (fs, cnt')) \<and>
     map without_aa fs = found_children E t d"
    by (rule dir_read_back [OF m(1) vo sz(1) m(3) sz(2) d(1) L p(1) [unfolded b]])
qed

text \<open>The tree of theory \<open>Dir_Tree\<close> read back from a medium that holds nothing else.\<close>

definition example_loader :: loader where
  "example_loader = \<lparr>ld_rr = True, ld_len_skp = 0, ld_uid = 0, ld_gid = 0, ld_dir_mode = 0, ld_file_mode = 0, ld_convert = None,
     charset_msg = None, ecma_msg = None\<rparr>"

lemma area_source_readable: "2048 dvd length bs \<Longrightarrow> length bs < 2 ^ 32 \<Longrightarrow> readable_from (area_source b bs) b bs"
proof -
  assume a: "2048 dvd length bs" "length bs < 2 ^ 32"
  have "area_source b bs (b + word_of_nat k) = Inr (take 2048 (drop (2048 * k) bs))" if k: "2048 * k < length bs" for k
  proof -
    have "unat (word_of_nat k :: u32) = k" using k a(2) by (simp add: unat_of_nat take_bit_nat_eq_self)
    then show ?thesis using blocks_left [OF a(1) k] by (simp add: area_source_def)
  qed
  then show ?thesis by (auto simp: readable_from_def area_source_def)
qed

lemma found_fields:
  "map src_name (found_children E t d) = rev (map (\<lambda>c. Some (get_rr_fname (rr_opts t) (rr_name (d_rr c)))) (filter (\<lambda>c. 0 < nsections c) (d_children d)))"
  "map src_sections (found_children E t d) = rev (map (\<lambda>c. node_sections t c (nsections c)) (filter (\<lambda>c. 0 < nsections c) (d_children d)))"
  "map (st_uid \<circ> src_info) (found_children E t d) = rev (map (\<lambda>c. px_get_uid (rr_opts t) (d_rr c)) (filter (\<lambda>c. 0 < nsections c) (d_children d)))"
  by (simp_all add: found_children_def rev_map [symmetric] comp_def node_source_def Let_def filled_times_def atts_read_def)

lemma tree_roundtrip_witness:
  "\<exists>tree fs cnt'. read_dir example_loader (example_env tree) 20 (0, 0) = Some (Inr (fs, cnt')) \<and>
     map src_name fs = [Some (str ''SUB''), Some (str ''a.text'')] \<and>
     map src_sections fs = [[(22, 2048)], [(50, 1000)]] \<and> map (st_uid \<circ> src_info) fs = [1000, 1000]"
proof -
  let ?t = example_dir_image
  obtain mem' tree where w: "write_dirs ?t (block_of_id placed_tree) collect None None placed_tree (500, []) = Some (Inr (), mem', [] @ tree)"
    using write_placed_tree by auto
  have "calc_dir_size ?t True placed_tree = (2048, 182)" "calc_dir_size ?t False (placed_dir 22 2048 1 (Some (str ''SUB'')) []) = (2048, 0)"
    by code_simp+
  moreover have "d_type (example_file 3 (str ''A.TXT'') (str ''a.text'') [(50, 1000)]) = ECMA119_FILE" "rockridge ?t"
    "d_type (placed_dir 22 2048 1 (Some (str ''SUB'')) []) = ECMA119_DIR" by code_simp+
  ultimately have sp: "space_of ?t (visits None None placed_tree) = 3"
    by (simp add: placed_tree_def placed_dir_def dir_space_def DIV_UP_def)
  then have lt: "length tree = 6144" using tree_written [OF calc_small_tree w placed_tree_ok] by auto
  have rd: "\<forall>d \<in> set (dir_nodes placed_tree). list_all (readable ?t) (d_children d)"
    unfolding list_all_iff [symmetric] by code_simp
  have eff: "eff_partition_offset (rr_opts ?t) = 0" by (simp add: example_dir_image_def example_rr_image_def)
  have L: "rockridge ?t" "ld_rr example_loader" "ld_len_skp example_loader = 0" "ld_convert example_loader = None"
    by (simp_all add: example_dir_image_def example_loader_def)
  have med: "readable_from (read_block (example_env tree)) (20 - eff_partition_offset (rr_opts ?t)) tree" "length tree < 2 ^ 32 - 4096"
    using area_source_readable [of tree 20] lt by (simp_all add: eff example_env_def)
  have "placed_tree \<in> set (dir_nodes placed_tree)" "d_block placed_tree = 20" by (simp_all add: placed_tree_def placed_dir_def)
  with tree_roundtrip [OF calc_small_tree w placed_tree_ok rd L med]
  obtain fs cnt' where r: "read_dir example_loader (example_env tree) 20 (0, 0) = Some (Inr (fs, cnt'))"
    "map without_aa fs = found_children (example_env tree) ?t placed_tree" unfolding eff by fastforce
  have "map src_name (map without_aa fs) = map src_name fs" "map src_sections (map without_aa fs) = map src_sections fs"
    "map (st_uid \<circ> src_info) (map without_aa fs) = map (st_uid \<circ> src_info) fs" by (simp_all add: without_aa_def)
  moreover have "map src_name (found_children (example_env tree) ?t placed_tree) = [Some (str ''SUB''), Some (str ''a.text'')]"
    "map src_sections (found_children (example_env tree) ?t placed_tree) = [[(22, 2048)], [(50, 1000)]]"
    "map (st_uid \<circ> src_info) (found_children (example_env tree) ?t placed_tree) = [1000, 1000]"
    unfolding found_fields by code_simp+
  ultimately show ?thesis using r by metis
qed

end
