(* ===== verification/File_Read.thy ===== *)
theory File_Read
  imports Dir_Trip
begin

text \<open>
  The file sources of a loaded image, \<open>libisofs/fs_image.c\<close>: \<open>ifs_open\<close> to \<open>ifs_clone_src\<close>.  The content of a file is
  read block by block from its sections.
\<close>

section \<open>The operations\<close>

text \<open>
  \<open>data.content\<close> is \<open>NULL\<close>, the block buffer of an open file, or the list of children that an open directory has
  not handed out yet.  The target of a link, which is stored there too, is \<open>src_link\<close>.
\<close>

datatype file_content = Null | Block_buffer "byte list" | Child_list "file_source list"

record ifs_file =
  f_src :: file_source
  f_opened :: nat
  f_content :: file_content
  f_offset :: int

definition f_mode :: "ifs_file \<Rightarrow> u32" where "f_mode f = st_mode (src_info (f_src f)) AND S_IFMT"

text \<open>
  \<open>fs_ret\<close> is the error of opening the file system, if any, and \<open>junk\<close> is what \<open>malloc\<close> returns.  After an error the object is not
  described: its list of children stays behind, freed.
\<close>

definition ifs_open :: "loader \<Rightarrow> ifs_env \<Rightarrow> iso_error option \<Rightarrow> byte list \<Rightarrow> ifs_file \<Rightarrow> ino_state \<Rightarrow> (ifs_file \<times> ino_state) res option" where
  "ifs_open L E fs_ret junk f cnt =
     (if f_opened f \<noteq> 0 then Some (Inl ISO_FILE_ALREADY_OPENED)
      else if f_mode f = S_IFDIR then
        (case fs_ret of
           Some e \<Rightarrow> Some (Inl e)
         | None \<Rightarrow>
             if src_sections (f_src f) = [] \<or> f_content f \<noteq> Null then None
             else case read_dir L E (fst (src_sections (f_src f) ! 0)) cnt of
               None \<Rightarrow> None
             | Some (Inl e) \<Rightarrow> Some (Inl e)
             | Some (Inr (cs, cnt)) \<Rightarrow> Some (Inr (f\<lparr>f_opened := 2, f_content := Child_list cs\<rparr>, cnt)))
      else if f_mode f = S_IFREG then
        (case fs_ret of
           Some e \<Rightarrow> Some (Inl e)
         | None \<Rightarrow> Some (Inr (f\<lparr>f_opened := 1, f_content := Block_buffer junk, f_offset := 0\<rparr>, cnt)))
      else Some (Inl ISO_FILE_ERROR))"

definition ifs_close :: "ifs_file \<Rightarrow> unit res \<times> ifs_file" where
  "ifs_close f =
     (if f_opened f = 0 then (Inl ISO_FILE_NOT_OPENED, f)
      else if f_opened f = 2 then (Inr (), f\<lparr>f_content := Null, f_opened := 0\<rparr>)
      else if f_opened f = 1 then (Inr (), f\<lparr>f_content := Null, f_opened := 0\<rparr>)
      else (Inl ISO_ERROR, f))"

text \<open>
  The loop that \<open>block_from_offset\<close>, \<open>size_available\<close> and \<open>block_offset\<close> share: the section of an offset
  and the offset in it.  The code looks at the first section even if there is none; the callers check for that.
\<close>

fun locate :: "(u32 \<times> u32) list \<Rightarrow> int \<Rightarrow> ((u32 \<times> u32) \<times> int) option" where
  "locate [] off = None"
| "locate (s # rest) off = (if off < uint (snd s) then Some (s, off) else locate rest (off - uint (snd s)))"

definition block_from_offset :: "(u32 \<times> u32) list \<Rightarrow> int \<Rightarrow> u32" where
  "block_from_offset secs off =
     (case locate secs off of Some (s, o') \<Rightarrow> fst s + word_of_int (o' div 2048) | None \<Rightarrow> 0)"

definition size_available :: "(u32 \<times> u32) list \<Rightarrow> int \<Rightarrow> u32" where
  "size_available secs off =
     (case locate secs off of
        Some (s, o') \<Rightarrow>
          (let curr = (word_of_int o' :: u32); left = snd s - curr; available = 2048 - curr mod 2048
           in min left available)
      | None \<Rightarrow> 0)"

definition block_offset :: "(u32 \<times> u32) list \<Rightarrow> int \<Rightarrow> u32" where
  "block_offset secs off = (case locate secs off of Some (s, o') \<Rightarrow> word_of_int o' mod 2048 | None \<Rightarrow> 0)"

text \<open>
  The loop of \<open>ifs_read\<close>.  \<open>buf\<close> is the buffer of the caller, \<open>nread\<close> the variable \<open>read\<close>.
\<close>

partial_function (option) ifs_read_loop ::
  "ifs_env \<Rightarrow> nat \<Rightarrow> ifs_file \<Rightarrow> byte list \<Rightarrow> byte list \<Rightarrow> u32 \<Rightarrow> (u32 res \<times> ifs_file \<times> byte list) option" where
  "ifs_read_loop E count f content buf nread =
     (let secs = src_sections (f_src f); off = f_offset f; total = src_size (f_src f)
      in if \<not> (unat nread < count \<and> off < total) then Some (Inr nread, f\<lparr>f_content := Block_buffer content\<rparr>, buf)
         else if secs = [] then None
         else case (if block_offset secs off = 0 then read_block E (block_from_offset secs off) else Inr content) of
           Inl e \<Rightarrow> Some (Inl e, f\<lparr>f_content := Block_buffer content\<rparr>, buf)
         | Inr content \<Rightarrow>
             let avail = min (unat (size_available secs off)) (count - unat nread);
                 bytes = (if off + int avail > total then nat (total - off) else avail);
                 at_blk = unat (block_offset secs off)
             in if at_blk + bytes > length content \<or> unat nread + bytes > length buf then None
                else ifs_read_loop E count (f\<lparr>f_offset := off + int bytes\<rparr>) content
                       (take (unat nread) buf @ take bytes (drop at_blk content) @ drop (unat nread + bytes) buf) (nread + word_of_nat bytes))"

text \<open>The result is an \<open>int\<close>.\<close>

definition ifs_read_file :: "ifs_env \<Rightarrow> ifs_file \<Rightarrow> byte list \<Rightarrow> nat \<Rightarrow> (int res \<times> ifs_file \<times> byte list) option" where
  "ifs_read_file E f buf count =
     (if count = 0 then Some (Inl ISO_WRONG_ARG_VALUE, f, buf)
      else if f_opened f = 0 then Some (Inl ISO_FILE_NOT_OPENED, f, buf)
      else if f_opened f \<noteq> 1 then Some (Inl ISO_FILE_IS_DIR, f, buf)
      else case f_content f of
        Block_buffer content \<Rightarrow>
          map_option (\<lambda>(r, f, buf). (map_sum id sint r, f, buf)) (ifs_read_loop E count f content buf 0)
      | _ \<Rightarrow> None)"

definition ifs_lseek :: "ifs_env \<Rightarrow> ifs_file \<Rightarrow> int \<Rightarrow> nat \<Rightarrow> (int res \<times> ifs_file) option" where
  "ifs_lseek E f offset flag =
     (if offset < 0 then Some (Inl ISO_WRONG_ARG_VALUE, f)
      else if f_opened f = 0 then Some (Inl ISO_FILE_NOT_OPENED, f)
      else if f_opened f \<noteq> 1 then Some (Inl ISO_FILE_IS_DIR, f)
      else if flag > 2 then Some (Inl ISO_WRONG_ARG_VALUE, f)
      else
        let off = (if flag = 0 then offset else if flag = 1 then f_offset f + offset else src_size (f_src f) + offset);
            f = f\<lparr>f_offset := off\<rparr>; secs = src_sections (f_src f)
        in if secs = [] then None
           else if block_offset secs off \<noteq> 0 \<and> off < src_size (f_src f) then
             (case f_content f of
                Block_buffer content \<Rightarrow>
                  (case read_block E (block_from_offset secs off) of
                     Inl e \<Rightarrow> Some (Inl e, f)
                   | Inr content \<Rightarrow> Some (Inr off, f\<lparr>f_content := Block_buffer content\<rparr>))
              | _ \<Rightarrow> None)
           else Some (Inr off, f))"

definition ifs_readdir :: "ifs_file \<Rightarrow> (file_source option res \<times> ifs_file) option" where
  "ifs_readdir f =
     (if f_opened f = 0 then Some (Inl ISO_FILE_NOT_OPENED, f)
      else if f_opened f \<noteq> 2 then Some (Inl ISO_FILE_IS_NOT_DIR, f)
      else case f_content f of
        Child_list [] \<Rightarrow> Some (Inr None, f)
      | Child_list (c # cs) \<Rightarrow> Some (Inr (Some c), f\<lparr>f_content := Child_list cs\<rparr>)
      | _ \<Rightarrow> None)"

text \<open>The text in the buffer, without its final NUL.\<close>

definition ifs_readlink :: "ifs_file \<Rightarrow> nat \<Rightarrow> (unit res \<times> cstring) option" where
  "ifs_readlink f bufsiz =
     (if bufsiz = 0 then Some (Inl ISO_WRONG_ARG_VALUE, [])
      else if f_mode f \<noteq> S_IFLNK then Some (Inl ISO_FILE_IS_NOT_SYMLINK, [])
      else case src_link (f_src f) of
        None \<Rightarrow> None
      | Some target \<Rightarrow>
          if length target \<ge> bufsiz then Some (Inl ISO_RR_PATH_TOO_LONG, take (bufsiz - 1) target) else Some (Inr (), target))"

text \<open>A copy.  \<open>strdup\<close> of the missing name of the root is not defined.\<close>

definition ifs_clone_src :: "ifs_file \<Rightarrow> ifs_file option" where
  "ifs_clone_src f =
     (case src_name (f_src f) of
        None \<Rightarrow> None
      | Some n \<Rightarrow> Some \<lparr>f_src = (f_src f)\<lparr>src_link := None\<rparr>, f_opened = f_opened f, f_content = Null, f_offset = 0\<rparr>)"

section \<open>An open file as an array of bytes\<close>

text \<open>The blocks of the section \<open>s\<close> hold the bytes \<open>bs\<close>.\<close>

definition section_holds :: "block_source \<Rightarrow> u32 \<times> u32 \<Rightarrow> byte list \<Rightarrow> bool" where
  "section_holds src s bs \<longleftrightarrow>
     length bs = unat (snd s) \<and>
     (\<forall>k. 2048 * k < length bs \<longrightarrow> (\<exists>blk. src (fst s + word_of_nat k) = Inr blk \<and> length blk = 2048 \<and>
        take (length bs - 2048 * k) blk = take 2048 (drop (2048 * k) bs)))"

lemma section_size: "section_holds src s bs \<Longrightarrow> uint (snd s) = int (length bs)"
  by (metis section_holds_def uint_nat)

lemma locate_holds:
  "list_all2 (section_holds src) secs pieces \<Longrightarrow> off < length (concat pieces) \<Longrightarrow>
   \<exists>s piece x rest. locate secs (int off) = Some (s, int x) \<and> section_holds src s piece \<and> x < length piece \<and>
     drop off (concat pieces) = drop x piece @ rest"
proof (induction secs pieces arbitrary: off rule: list_all2_induct)
  case (Cons s secs piece pieces)
  note sz = section_size [OF Cons.hyps(1)]
  show ?case
  proof (cases "off < length piece")
    case True
    then have "locate (s # secs) (int off) = Some (s, int off)" by (simp add: sz)
    moreover have "drop off (concat (piece # pieces)) = drop off piece @ concat pieces" using True by simp
    ultimately show ?thesis using Cons.hyps(1) True by blast
  next
    case False
    then have l: "locate (s # secs) (int off) = locate secs (int (off - length piece))" by (simp add: sz of_nat_diff)
    have "off - length piece < length (concat pieces)" using False Cons.prems by simp
    from Cons.IH [OF this] False show ?thesis unfolding l by simp
  qed
qed simp

lemma locate_range: "locate secs off = Some (s, x) \<Longrightarrow> 0 \<le> off \<Longrightarrow> 0 \<le> x \<and> x < uint (snd s)"
proof (induction secs arbitrary: off)
  case (Cons a secs)
  show ?case
  proof (cases "off < uint (snd a)")
    case False
    then show ?thesis using Cons.IH [of "off - uint (snd a)"] Cons.prems by simp
  qed (use Cons.prems in auto)
qed simp

lemma locate_zero: "locate secs 0 = Some (s, x) \<Longrightarrow> x = 0"
proof (induction secs)
  case (Cons a secs)
  show ?case
  proof (cases "0 < uint (snd a)")
    case False
    then have "uint (snd a) = 0" using uint_ge_0 [of "snd a"] by linarith
    then show ?thesis using Cons by simp
  qed (use Cons.prems in auto)
qed simp

lemma locate_add:
  "locate secs off = Some (s, x) \<Longrightarrow> 0 \<le> n \<Longrightarrow> x + n \<le> uint (snd s) \<Longrightarrow>
   (if x + n < uint (snd s) then locate secs (off + n) = Some (s, x + n)
    else case locate secs (off + n) of Some (s', y) \<Rightarrow> y = 0 | None \<Rightarrow> True)"
proof (induction secs off rule: locate.induct)
  case (2 s' rest off)
  show ?case
  proof (cases "off < uint (snd s')")
    case True
    then have e: "s = s'" "x = off" using 2(2) by simp_all
    show ?thesis
    proof (cases "x + n < uint (snd s)")
      case False
      then have "off + n = uint (snd s')" using 2(4) e by simp
      then show ?thesis using locate_zero [of rest] e by (auto split: option.split)
    qed (simp add: e)
  next
    case False
    have d: "off + n - uint (snd s') = off - uint (snd s') + n" "\<not> off + n < uint (snd s')" using False 2(3) by simp_all
    have e: "locate (s' # rest) (off + n) = locate rest (off - uint (snd s') + n)" "locate rest (off - uint (snd s')) = Some (s, x)"
      using 2(2) False d(2) by (simp_all only: locate.simps if_False d(1))
    show ?thesis unfolding e(1) by (rule 2(1) [OF False e(2) 2(3,4)])
  qed
qed simp

lemma word_mod: "x < 2 ^ 32 \<Longrightarrow> unat ((word_of_int (int x) :: u32) mod 2048) = x mod 2048"
  by (simp add: unat_mod_distrib unat_of_nat take_bit_nat_eq_self)

text \<open>The next bytes at an offset before the end.\<close>

lemma next_bytes:
  assumes h: "list_all2 (section_holds src) secs pieces" and off: "off < length (concat pieces)"
  obtains avail blk where "unat (size_available secs (int off)) = avail" "0 < avail"
    "src (block_from_offset secs (int off)) = Inr blk" "unat (block_offset secs (int off)) + avail \<le> length blk"
    "off + avail \<le> length (concat pieces)"
    "\<And>n. n \<le> avail \<Longrightarrow> take n (drop (unat (block_offset secs (int off))) blk) = take n (drop off (concat pieces))"
    "\<And>n. n \<le> avail \<Longrightarrow> block_offset secs (int (off + n)) \<noteq> 0 \<Longrightarrow> block_from_offset secs (int (off + n)) = block_from_offset secs (int off)"
proof -
  obtain s piece x rest where l: "locate secs (int off) = Some (s, int x)" "section_holds src s piece" "x < length piece"
    "drop off (concat pieces) = drop x piece @ rest" using locate_holds [OF h off] by blast
  have sz: "length piece = unat (snd s)" "x < 2 ^ 32" "length piece < 2 ^ 32"
    and us: "uint (snd s) = int (length piece)"
  proof -
    show 1: "length piece = unat (snd s)" using l(2) by (simp add: section_holds_def)
    have "unat (snd s) < 2 ^ LENGTH(32)" by (rule unsigned_less)
    then show "length piece < 2 ^ 32" "x < 2 ^ 32" using 1 l(3) by simp_all
    show "uint (snd s) = int (length piece)" by (rule section_size [OF l(2)])
  qed
  define q m where "q = x div 2048" and "m = x mod 2048"
  have qm: "x = 2048 * q + m" "m < 2048" by (simp_all add: q_def m_def)
  have d: "int x div 2048 = int q" by (simp add: q_def zdiv_int)
  have bf: "block_from_offset secs (int off) = fst s + word_of_nat q"
    by (simp only: block_from_offset_def l(1) option.case prod.case d of_int_of_nat_eq)
  have bo: "unat (block_offset secs (int off)) = m"
    using word_mod [OF sz(2)] by (simp add: block_offset_def l(1) m_def)
  define avail where "avail = min (length piece - x) (2048 - m)"
  have av: "unat (size_available secs (int off)) = avail"
  proof -
    have u: "unat (word_of_nat x :: u32) = x" using sz(2) by (simp add: unat_of_nat take_bit_nat_eq_self)
    have 1: "unat (snd s - word_of_nat x) = length piece - x"
      using l(3) u sz(1) by (simp add: unat_sub word_le_nat_alt)
    have 2: "unat ((word_of_nat x :: u32) mod 2048) = m" by (simp add: unat_mod_distrib u m_def)
    have 3: "unat (2048 - (word_of_nat x :: u32) mod 2048) = 2048 - m"
      using qm(2) 2 by (simp add: unat_sub word_le_nat_alt)
    show ?thesis using 1 3 by (simp add: size_available_def l(1) Let_def avail_def min_def word_le_nat_alt)
  qed
  have pos: "0 < avail" using l(3) qm(2) by (simp add: avail_def)
  have k: "2048 * q < length piece" using qm(1) l(3) by linarith
  obtain blk where blk: "src (fst s + word_of_nat q) = Inr blk" "length blk = 2048"
    "take (length piece - 2048 * q) blk = take 2048 (drop (2048 * q) piece)"
    using l(2) k unfolding section_holds_def by blast
  have tk: "take n (drop m blk) = take n (drop off (concat pieces))" if n: "n \<le> avail" for n
  proof -
    have n': "m + n \<le> length piece - 2048 * q" "m + n \<le> 2048" "n \<le> length piece - x"
      using n l(3) qm unfolding avail_def by linarith+
    have "take n (drop m blk) = take n (drop m (take (length piece - 2048 * q) blk))" using n'(1) by (simp add: drop_take)
    also have "\<dots> = take n (drop (2048 * q + m) piece)" unfolding blk(3) using n'(2) by (simp add: drop_take add.commute)
    also have "\<dots> = take n (drop off (concat pieces))" using n'(3) by (simp add: l(4) qm(1) [symmetric])
    finally show ?thesis .
  qed
  have nx: "block_from_offset secs (int (off + n)) = block_from_offset secs (int off)"
    if n: "n \<le> avail" "block_offset secs (int (off + n)) \<noteq> 0" for n
  proof -
    have r: "int x + int n \<le> uint (snd s)" using n(1) l(3) unfolding avail_def us by linarith
    note add = locate_add [OF l(1) _ r]
    have lt: "x + n < length piece"
    proof (rule ccontr)
      assume "\<not> x + n < length piece"
      then show False using add n(2) by (auto simp: block_offset_def us split: option.splits)
    qed
    then have l2: "locate secs (int (off + n)) = Some (s, int (x + n))" using add by (simp add: us)
    have w: "x + n < 2 ^ 32" using lt sz by simp
    have "unat (block_offset secs (int (off + n))) = (x + n) mod 2048"
      using word_mod [OF w] by (simp only: block_offset_def l2 option.case prod.case)
    then have "(x + n) mod 2048 \<noteq> 0" using n(2) by (metis unat_eq_zero)
    moreover have "m + n \<le> 2048" using n(1) qm(2) unfolding avail_def by linarith
    moreover have "(x + n) mod 2048 = (m + n) mod 2048" unfolding qm(1) by (simp only: add.assoc mod_mult_self4)
    ultimately have "m + n < 2048" by (cases "m + n = 2048") auto
    then have "(x + n) div 2048 = q" unfolding qm(1) by simp
    then have "int (x + n) div 2048 = int q" by (metis zdiv_int of_nat_numeral)
    then show ?thesis unfolding bf by (simp only: block_from_offset_def l2 option.case prod.case of_int_of_nat_eq)
  qed
  have "off + avail \<le> length (concat pieces)"
  proof -
    have "length (drop off (concat pieces)) = length (drop x piece @ rest)" by (simp only: l(4))
    then show ?thesis using off by (simp add: avail_def)
  qed
  moreover have "m + avail \<le> length blk" using qm(2) by (simp add: avail_def blk(2))
  ultimately show thesis
    using that [OF av pos blk(1) [folded bf]] tk nx unfolding bo by blast
qed


text \<open>The file source describes the bytes \<open>bs\<close>.\<close>

definition file_holds :: "block_source \<Rightarrow> file_source \<Rightarrow> byte list \<Rightarrow> bool" where
  "file_holds src s bs \<longleftrightarrow>
     src_sections s \<noteq> [] \<and> src_size s = int (length bs) \<and>
     (\<exists>pieces. list_all2 (section_holds src) (src_sections s) pieces \<and> bs = concat pieces)"

text \<open>An open file at position \<open>pos\<close>.  Inside of a block the buffer holds this block.\<close>

definition buffered :: "ifs_env \<Rightarrow> ifs_file \<Rightarrow> byte list \<Rightarrow> bool" where
  "buffered E f content \<longleftrightarrow>
     (block_offset (src_sections (f_src f)) (f_offset f) \<noteq> 0 \<and> f_offset f < src_size (f_src f) \<longrightarrow>
        read_block E (block_from_offset (src_sections (f_src f)) (f_offset f)) = Inr content)"

definition file_at :: "ifs_env \<Rightarrow> ifs_file \<Rightarrow> byte list \<Rightarrow> nat \<Rightarrow> bool" where
  "file_at E f bs pos \<longleftrightarrow>
     f_opened f = 1 \<and> file_holds (read_block E) (f_src f) bs \<and> f_offset f = int pos \<and>
     (\<exists>content. f_content f = Block_buffer content \<and> buffered E f content)"

lemma read_loop:
  "file_holds (read_block E) (f_src f) bs \<Longrightarrow> f_offset f = int off \<Longrightarrow> f_opened f = 1 \<Longrightarrow> buffered E f content \<Longrightarrow>
   unat nread \<le> count \<Longrightarrow> count < 2 ^ 31 \<Longrightarrow> count \<le> length buf \<Longrightarrow> n = min (count - unat nread) (length bs - off) \<Longrightarrow>
   \<exists>f'. ifs_read_loop E count f content buf nread =
      Some (Inr (nread + word_of_nat n), f', take (unat nread) buf @ take n (drop off bs) @ drop (unat nread + n) buf) \<and>
      f_src f' = f_src f \<and> file_at E f' bs (off + n)"
proof (induction "count - unat nread" arbitrary: f content buf nread off n rule: less_induct)
  case less
  let ?secs = "src_sections (f_src f)"
  obtain pieces where h: "?secs \<noteq> []" "src_size (f_src f) = int (length bs)" "list_all2 (section_holds (read_block E)) ?secs pieces"
    "bs = concat pieces" using less.prems(1) by (auto simp: file_holds_def)
  show ?case
  proof (cases "unat nread < count \<and> off < length bs")
    case False
    then have "n = 0" using less.prems(5,8) by auto
    moreover have "ifs_read_loop E count f content buf nread = Some (Inr nread, f\<lparr>f_content := Block_buffer content\<rparr>, buf)"
      using False by (subst ifs_read_loop.simps) (simp add: Let_def h(2) less.prems(2))
    ultimately show ?thesis using less.prems(1-4) by (simp add: file_at_def file_holds_def buffered_def)
  next
    case True
    then have off: "off < length (concat pieces)" using h(4) by simp
    obtain avail blk where a: "unat (size_available ?secs (int off)) = avail" "0 < avail"
      "read_block E (block_from_offset ?secs (int off)) = Inr blk" "unat (block_offset ?secs (int off)) + avail \<le> length blk"
      "off + avail \<le> length (concat pieces)"
      "\<And>n. n \<le> avail \<Longrightarrow> take n (drop (unat (block_offset ?secs (int off))) blk) = take n (drop off (concat pieces))"
      "\<And>n. n \<le> avail \<Longrightarrow> block_offset ?secs (int (off + n)) \<noteq> 0 \<Longrightarrow> block_from_offset ?secs (int (off + n)) = block_from_offset ?secs (int off)"
      using next_bytes [OF h(3) off] by blast
    have got: "(if block_offset ?secs (int off) = 0 then read_block E (block_from_offset ?secs (int off)) else Inr content) = Inr blk"
      using less.prems(4) a(3) True h(2) by (simp add: buffered_def less.prems(2))
    define m where "m = min avail (count - unat nread)"
    have m: "0 < m" "m \<le> avail" "unat nread + m \<le> count" "m \<le> length bs - off"
      using a(2,5) True arg_cong [OF h(4), of length] unfolding m_def by linarith+
    let ?f = "f\<lparr>f_offset := int (off + m)\<rparr>" and ?n = "nread + word_of_nat m"
    let ?buf = "take (unat nread) buf @ take m (drop off bs) @ drop (unat nread + m) buf"
    have nn: "unat ?n = unat nread + m"
    proof -
      have "unat (word_of_nat m :: u32) = m" using m(3) less.prems(6) by (simp add: unat_of_nat take_bit_nat_eq_self)
      moreover from this have "unat nread + unat (word_of_nat m :: u32) < 2 ^ LENGTH(32)" using m(3) less.prems(6) by simp
      ultimately show ?thesis using unat_add_lem by metis
    qed
    have fits: "\<not> int off + int avail > int (length bs)" "\<not> int off + int m > int (length bs)" using a(5) h(4) m(2) by simp_all
    have step: "ifs_read_loop E count f content buf nread = ifs_read_loop E count ?f blk ?buf ?n"
    proof -
      have c: "\<not> \<not> (unat nread < count \<and> int off < int (length bs))" using True by simp
      have b: "\<not> (unat (block_offset ?secs (int off)) + m > length blk \<or> unat nread + m > length buf)"
        using a(4) m(2,3) less.prems(7) by linarith
      have d: "take m (drop (unat (block_offset ?secs (int off))) blk) = take m (drop off bs)" using a(6) [OF m(2)] h(4) by simp
      show ?thesis
        by (subst ifs_read_loop.simps)
          (simp only: Let_def less.prems(2) h(1,2) c got a(1) m_def [symmetric] fits(2) b if_False sum.case d of_nat_add)
    qed
    define k where "k = min (count - unat ?n) (length bs - (off + m))"
    have n: "n = m + k" using less.prems(8) m(3,4) unfolding k_def nn by linarith
    have lb: "length ?buf = length buf" using m(3,4) less.prems(7) by simp
    have "\<exists>f'. ifs_read_loop E count ?f blk ?buf ?n =
        Some (Inr (?n + word_of_nat k), f', take (unat ?n) ?buf @ take k (drop (off + m) bs) @ drop (unat ?n + k) ?buf) \<and>
        f_src f' = f_src ?f \<and> file_at E f' bs (off + m + k)"
    proof (rule less.hyps)
      show "count - unat ?n < count - unat nread" using m(1,3) nn by linarith
      show "buffered E ?f blk" using a(3) a(7) [OF m(2)] by (auto simp: buffered_def)
    qed (use less.prems m nn lb in \<open>simp_all add: k_def\<close>)
    moreover have "take (unat ?n) ?buf @ take k (drop (off + m) bs) @ drop (unat ?n + k) ?buf =
        take (unat nread) buf @ take n (drop off bs) @ drop (unat nread + n) buf"
    proof -
      have t: "take n (drop off bs) = take m (drop off bs) @ take k (drop (off + m) bs)"
        unfolding n take_add by (simp add: add.commute)
      have l: "length (take (unat nread) buf @ take m (drop off bs)) = unat ?n" using m(3,4) less.prems(7) nn by simp
      have "take (unat ?n) ?buf = take (unat nread) buf @ take m (drop off bs)"
        using l by (metis append_eq_conv_conj append_assoc)
      moreover have "drop (unat ?n + k) ?buf = drop (unat nread + n) buf"
      proof -
        have "drop (length u + k) (u @ v) = drop k v" for u v :: "byte list" by simp
        from this [of "take (unat nread) buf @ take m (drop off bs)" "drop (unat nread + m) buf", unfolded l]
        have "drop (unat ?n + k) ?buf = drop k (drop (unat nread + m) buf)" by (simp only: append_assoc)
        then show ?thesis by (simp add: n add_ac)
      qed
      ultimately show ?thesis by (simp add: t)
    qed
    ultimately show ?thesis unfolding step n by (simp add: add.assoc)
  qed
qed


section \<open>Sequences of operations\<close>

datatype file_op = Read nat | Seek int nat
datatype file_out = Got "byte list" | Moved int | Failed iso_error

text \<open>What the caller of \<open>read\<close> and \<open>lseek\<close> sees.\<close>

fun run_ops :: "ifs_env \<Rightarrow> ifs_file \<Rightarrow> file_op list \<Rightarrow> file_out list option" where
  "run_ops E f [] = Some []"
| "run_ops E f (Read n # ops) =
     (case ifs_read_file E f (replicate n 0) n of
        None \<Rightarrow> None
      | Some (Inl e, f, buf) \<Rightarrow> map_option (\<lambda>xs. Failed e # xs) (run_ops E f ops)
      | Some (Inr k, f, buf) \<Rightarrow> map_option (\<lambda>xs. Got (take (nat k) buf) # xs) (run_ops E f ops))"
| "run_ops E f (Seek off flag # ops) =
     (case ifs_lseek E f off flag of
        None \<Rightarrow> None
      | Some (Inl e, f) \<Rightarrow> map_option (\<lambda>xs. Failed e # xs) (run_ops E f ops)
      | Some (Inr p, f) \<Rightarrow> map_option (\<lambda>xs. Moved p # xs) (run_ops E f ops))"

text \<open>The same on an array of bytes and a position.\<close>

fun array_ops :: "byte list \<Rightarrow> nat \<Rightarrow> file_op list \<Rightarrow> file_out list" where
  "array_ops bs pos [] = []"
| "array_ops bs pos (Read n # ops) =
     (if n = 0 then Failed ISO_WRONG_ARG_VALUE # array_ops bs pos ops
      else Got (take n (drop pos bs)) # array_ops bs (pos + length (take n (drop pos bs))) ops)"
| "array_ops bs pos (Seek off flag # ops) =
     (if off < 0 \<or> flag > 2 then Failed ISO_WRONG_ARG_VALUE # array_ops bs pos ops
      else let p = nat off + (if flag = 0 then 0 else if flag = 1 then pos else length bs)
           in Moved (int p) # array_ops bs p ops)"

definition small_op :: "file_op \<Rightarrow> bool" where
  "small_op x = (case x of Read n \<Rightarrow> n < 2 ^ 31 | Seek off flag \<Rightarrow> True)"

lemma read_file_at:
  assumes at: "file_at E f bs pos" and n: "0 < n" "n < 2 ^ 31"
  shows "\<exists>f' buf. ifs_read_file E f (replicate n 0) n = Some (Inr (int (length (take n (drop pos bs)))), f', buf) \<and>
     take (length (take n (drop pos bs))) buf = take n (drop pos bs) \<and> file_at E f' bs (pos + length (take n (drop pos bs)))"
proof -
  obtain content where c: "f_opened f = 1" "file_holds (read_block E) (f_src f) bs" "f_offset f = int pos"
    "f_content f = Block_buffer content" "buffered E f content" using at by (auto simp: file_at_def)
  define k where "k = length (take n (drop pos bs))"
  have k: "k = min (n - unat (0 :: u32)) (length bs - pos)" "k < 2 ^ 31" using n(2) by (simp_all add: k_def min_def)
  obtain f' where f': "ifs_read_loop E n f content (replicate n 0) 0 =
      Some (Inr (0 + word_of_nat k), f', take (unat (0 :: u32)) (replicate n 0) @ take k (drop pos bs) @ drop (unat (0 :: u32) + k) (replicate n 0))"
    "file_at E f' bs (pos + k)"
    using read_loop [OF c(2,3,1,5) _ n(2) _ k(1), of "replicate n 0"] by auto
  have s: "sint (word_of_nat k :: u32) = int k"
    using k(2) by (simp add: signed_of_nat signed_take_bit_int_eq_self)
  have t: "take k (drop pos bs) = take n (drop pos bs)" "length (take k (drop pos bs)) = k" by (simp_all add: k_def min_def)
  show ?thesis unfolding k_def [symmetric]
    using f' s t n(1) c by (simp add: ifs_read_file_def)
qed


lemma lseek_at:
  assumes at: "file_at E f bs pos" and ok: "0 \<le> off" "flag \<le> 2"
  defines "p \<equiv> nat off + (if flag = 0 then 0 else if flag = 1 then pos else length bs)"
  shows "\<exists>f'. ifs_lseek E f off flag = Some (Inr (int p), f') \<and> file_at E f' bs p"
proof -
  let ?secs = "src_sections (f_src f)" and ?f = "f\<lparr>f_offset := int p\<rparr>"
  obtain content pieces where c: "f_opened f = 1" "?secs \<noteq> []" "src_size (f_src f) = int (length bs)" "f_offset f = int pos"
    "f_content f = Block_buffer content" "buffered E f content" "list_all2 (section_holds (read_block E)) ?secs pieces" "bs = concat pieces"
    using at by (auto simp: file_at_def file_holds_def)
  have hold: "file_holds (read_block E) (f_src f) bs" using at by (simp add: file_at_def)
  have e: "(if flag = 0 then off else if flag = 1 then int pos + off else int (length bs) + off) = int p"
    using ok(1) by (simp add: p_def)
  have le: "\<not> flag > 2" "\<not> off < 0" "f_opened f \<noteq> 0" using ok c(1) by simp_all
  show ?thesis
  proof (cases "block_offset ?secs (int p) \<noteq> 0 \<and> p < length bs")
    case True
    then have "p < length (concat pieces)" using c(8) by simp
    from next_bytes [OF c(7) this] obtain blk where "read_block E (block_from_offset ?secs (int p)) = Inr blk" by metis
    then have "ifs_lseek E f off flag = Some (Inr (int p), ?f\<lparr>f_content := Block_buffer blk\<rparr>)" "buffered E (?f\<lparr>f_content := Block_buffer blk\<rparr>) blk"
      unfolding ifs_lseek_def Let_def c(3,4) e using True c le by (simp_all add: buffered_def)
    then show ?thesis using c(1) hold by (auto simp: file_at_def)
  next
    case False
    then have "ifs_lseek E f off flag = Some (Inr (int p), ?f)"
      unfolding ifs_lseek_def Let_def c(3,4) e using c le by auto
    moreover have "buffered E ?f content" using False c(3) by (auto simp: buffered_def)
    ultimately show ?thesis using c(1,5) hold by (auto simp: file_at_def)
  qed
qed

lemma file_at_opened: "file_at E f bs pos \<Longrightarrow> f_opened f = 1"
  by (simp add: file_at_def)

lemma run_array: "file_at E f bs pos \<Longrightarrow> list_all small_op ops \<Longrightarrow> run_ops E f ops = Some (array_ops bs pos ops)"
proof (induction ops arbitrary: f pos)
  case (Cons op ops)
  show ?case
  proof (cases op)
    case (Read n)
    show ?thesis
    proof (cases "n = 0")
      case True
      then show ?thesis using Cons Read by (simp add: ifs_read_file_def)
    next
      case False
      moreover have "n < 2 ^ 31" using Cons.prems(2) Read by (simp add: small_op_def)
      ultimately obtain f' buf where r: "ifs_read_file E f (replicate n 0) n = Some (Inr (int (length (take n (drop pos bs)))), f', buf)"
        "take (length (take n (drop pos bs))) buf = take n (drop pos bs)" "file_at E f' bs (pos + length (take n (drop pos bs)))"
        using read_file_at [OF Cons.prems(1)] by blast
      then show ?thesis using Cons.IH [OF r(3)] Cons.prems(2) False Read by simp
    qed
  next
    case (Seek off flag)
    show ?thesis
    proof (cases "off < 0 \<or> flag > 2")
      case True
      then have "ifs_lseek E f off flag = Some (Inl ISO_WRONG_ARG_VALUE, f)"
        using file_at_opened [OF Cons.prems(1)] by (auto simp: ifs_lseek_def)
      then show ?thesis using Cons Seek True by simp
    next
      case False
      then obtain f' where r: "ifs_lseek E f off flag = Some (Inr (int (nat off + (if flag = 0 then 0 else if flag = 1 then pos else length bs))), f')"
        "file_at E f' bs (nat off + (if flag = 0 then 0 else if flag = 1 then pos else length bs))"
        using lseek_at [OF Cons.prems(1), of off flag] by auto
      then show ?thesis using Cons.IH [OF r(2)] Cons.prems(2) False Seek by (simp add: Let_def)
    qed
  qed
qed simp


text \<open>The files that the reader of directories found.\<close>

lemma node_source_holds:
  "list_all2 (section_holds src) (node_sections t n (nsections n)) pieces \<Longrightarrow> 0 < nsections n \<Longrightarrow> file_holds src (node_source tg t n) (concat pieces)"
proof -
  assume a: "list_all2 (section_holds src) (node_sections t n (nsections n)) pieces" "0 < nsections n"
  have "sections_size secs = int (length (concat ps))" if "list_all2 (section_holds src) secs ps" for secs ps
    using that by (induction rule: list_all2_induct) (simp_all add: sections_size_def section_holds_def)
  from this [OF a(1)] show ?thesis using a by (auto simp: file_holds_def node_source_def Let_def node_sections_def)
qed


text \<open>A file of two extents: 3000 bytes from block 5 on and 10 bytes in block 40.\<close>

definition two_extents :: ifs_file where
  "two_extents =
     \<lparr>f_src = \<lparr>src_name = Some (str ''a''), src_info = no_stat\<lparr>st_mode := 0x81a4\<rparr>, src_size = 3010, src_sections = [(5, 3000), (40, 10)],
        src_aa = None, src_zisofs = (0, 0, 0), src_link = None\<rparr>,
      f_opened = 0, f_content = Null, f_offset = 0\<rparr>"

definition numbered_blocks :: block_source where
  "numbered_blocks b = Inr (replicate 2048 (ucast b))"

definition numbered_env :: ifs_env where
  "numbered_env = (example_env [])\<lparr>read_block := numbered_blocks\<rparr>"

definition two_extents_bytes :: "byte list" where
  "two_extents_bytes = replicate 2048 5 @ replicate 952 6 @ replicate 10 40"

lemma two_extents_hold: "file_holds (read_block numbered_env) (f_src two_extents) two_extents_bytes"
proof -
  have "section_holds numbered_blocks (5, 3000) (replicate 2048 5 @ replicate 952 6)"
    unfolding section_holds_def
  proof (intro conjI allI impI)
    fix k assume "2048 * k < length (replicate 2048 (5 :: byte) @ replicate 952 6)"
    then have "k = 0 \<or> k = 1" by auto
    then show "\<exists>blk. numbered_blocks (fst (5, 3000) + word_of_nat k) = Inr blk \<and> length blk = 2048 \<and>
        take (length (replicate 2048 (5 :: byte) @ replicate 952 6) - 2048 * k) blk =
        take 2048 (drop (2048 * k) (replicate 2048 5 @ replicate 952 6))"
      by (auto simp: numbered_blocks_def)
  qed simp
  moreover have "section_holds numbered_blocks (40, 10) (replicate 10 40)"
    unfolding section_holds_def
  proof (intro conjI allI impI)
    fix k assume "2048 * k < length (replicate 10 (40 :: byte))"
    then have "k = 0" by auto
    then show "\<exists>blk. numbered_blocks (fst (40, 10) + word_of_nat k) = Inr blk \<and> length blk = 2048 \<and>
        take (length (replicate 10 (40 :: byte)) - 2048 * k) blk = take 2048 (drop (2048 * k) (replicate 10 40))"
      by (simp add: numbered_blocks_def)
  qed simp
  ultimately have "list_all2 (section_holds numbered_blocks) [(5, 3000), (40, 10)] [replicate 2048 5 @ replicate 952 6, replicate 10 40]"
    by simp
  then show ?thesis unfolding file_holds_def
    by (intro conjI exI [of _ "[replicate 2048 5 @ replicate 952 6, replicate 10 40]"])
      (simp_all add: two_extents_def two_extents_bytes_def numbered_env_def)
qed


section \<open>Copies of file sources\<close>

text \<open>
  C32: the copy that \<open>ifs_clone_src\<close> makes of a symbolic link has no target: where \<open>ifs_readlink\<close> gives the target of the original, it
  follows a null pointer for the copy, because the copy leaves \<open>data.content\<close>, in which the target of a link is stored, at \<open>NULL\<close>.\<close>
theorem clone_loses_link:
  assumes "f_mode f = S_IFLNK" "src_name (f_src f) \<noteq> None" "src_link (f_src f) = Some target" "length target < n"
  shows "ifs_readlink f n = Some (Inr (), target) \<and> (\<exists>f'. ifs_clone_src f = Some f' \<and> f_mode f' = S_IFLNK \<and> ifs_readlink f' n = None)"
proof -
  let ?f = "\<lparr>f_src = (f_src f)\<lparr>src_link := None\<rparr>, f_opened = f_opened f, f_content = Null, f_offset = 0\<rparr>"
  have "ifs_clone_src f = Some ?f" using assms(2) by (auto simp: ifs_clone_src_def)
  moreover have m: "f_mode ?f = S_IFLNK" using assms(1) by (simp add: f_mode_def)
  moreover have "n \<noteq> 0" using assms(4) by simp
  then have "ifs_readlink ?f n = None" using m by (simp add: ifs_readlink_def)
  moreover have "ifs_readlink f n = Some (Inr (), target)" using assms by (simp add: ifs_readlink_def)
  ultimately show ?thesis by blast
qed

definition example_symlink :: ifs_file where
  "example_symlink = two_extents\<lparr>f_src := (f_src two_extents)\<lparr>src_info := no_stat\<lparr>st_mode := 0xa1ff\<rparr>, src_link := Some (str ''/usr'')\<rparr>\<rparr>"

lemma clone_loses_link_witness:
  "ifs_readlink example_symlink 10 = Some (Inr (), str ''/usr'') \<and> (\<exists>f'. ifs_clone_src example_symlink = Some f' \<and> ifs_readlink f' 10 = None)"
proof -
  have "f_mode example_symlink = S_IFLNK" "src_name (f_src example_symlink) \<noteq> None" "src_link (f_src example_symlink) = Some (str ''/usr'')"
    "length (str ''/usr'') < 10" by code_simp+
  from clone_loses_link [OF this] show ?thesis by blast
qed

end
